(* ===== verification/Prelude.thy ===== *)
theory Prelude
  imports Main "HOL-Library.Word" "HOL-Library.AList"
begin

text \<open>
  What every component of the model shares: results that may be an exception (a sum
  type), state passing in which the state survives an exception (as Python's mutable
  objects do), byte and list slices, insertion-ordered dictionaries, and the generic
  lemmas and theorem collections the component theories draw on.
\<close>

named_theorems monad_simps \<open>evaluation of the result and state combinators\<close>
named_theorems slice_simps \<open>slices of concatenated byte strings\<close>

section \<open>Results: a value or an exception\<close>

definition rbind :: "'e + 'a \<Rightarrow> ('a \<Rightarrow> 'e + 'b) \<Rightarrow> 'e + 'b" where
  "rbind r f = (case r of Inl e \<Rightarrow> Inl e | Inr x \<Rightarrow> f x)"

lemma rbind_Inl [simp, monad_simps]: "rbind (Inl e) f = Inl e"
  by (simp add: rbind_def)

lemma rbind_Inr [simp, monad_simps]: "rbind (Inr x) f = f x"
  by (simp add: rbind_def)

lemma rbind_eq_Inr [simp]: "rbind r f = Inr y \<longleftrightarrow> (\<exists>x. r = Inr x \<and> f x = Inr y)"
  by (cases r) auto

lemma rbind_eq_Inl [simp]:
  "rbind r f = Inl e \<longleftrightarrow> r = Inl e \<or> (\<exists>x. r = Inr x \<and> f x = Inl e)"
  by (cases r) auto

lemma rbind_cong [fundef_cong]:
  "r = r' \<Longrightarrow> (\<And>x. r' = Inr x \<Longrightarrow> f x = g x) \<Longrightarrow> rbind r f = rbind r' g"
  by (cases r') auto

text \<open>A comprehension whose element expression may raise: left to right, first error wins.\<close>

fun rmap :: "('a \<Rightarrow> 'e + 'b) \<Rightarrow> 'a list \<Rightarrow> 'e + 'b list" where
  "rmap f [] = Inr []"
| "rmap f (x # xs) = rbind (f x) (\<lambda>y. rbind (rmap f xs) (\<lambda>ys. Inr (y # ys)))"

fun rfilter :: "('a \<Rightarrow> 'e + bool) \<Rightarrow> 'a list \<Rightarrow> 'e + 'a list" where
  "rfilter p [] = Inr []"
| "rfilter p (x # xs) =
     rbind (p x) (\<lambda>b. rbind (rfilter p xs) (\<lambda>ys. Inr (if b then x # ys else ys)))"

lemma rmap_cong [fundef_cong]:
  "xs = ys \<Longrightarrow> (\<And>x. x \<in> set ys \<Longrightarrow> f x = g x) \<Longrightarrow> rmap f xs = rmap g ys"
proof -
  assume "xs = ys" and "\<And>x. x \<in> set ys \<Longrightarrow> f x = g x"
  then show ?thesis by (induction ys arbitrary: xs) auto
qed

lemma rmap_total: "(\<And>x. x \<in> set xs \<Longrightarrow> f x = Inr (g x)) \<Longrightarrow> rmap f xs = Inr (map g xs)"
  by (induction xs) auto

lemma rmap_length: "rmap f xs = Inr ys \<Longrightarrow> length ys = length xs"
  by (induction xs arbitrary: ys) auto

lemma rfilter_total:
  "(\<And>x. x \<in> set xs \<Longrightarrow> p x = Inr (q x)) \<Longrightarrow> rfilter p xs = Inr (filter q xs)"
  by (induction xs) auto

lemma rfilter_subset: "rfilter p xs = Inr ys \<Longrightarrow> set ys \<subseteq> set xs"
  by (induction xs arbitrary: ys) (fastforce split: if_splits)+

lemma rfilter_selected:
  "rfilter p xs = Inr ys \<Longrightarrow> ys = filter (\<lambda>x. p x = Inr True) xs"
  by (induction xs arbitrary: ys) auto

section \<open>State that survives an exception\<close>

text \<open>
  A method of an object is a function from the object's state to a result and the state
  it leaves behind; an exception keeps the changes made before it was raised.
\<close>

type_synonym ('s, 'e, 'a) sx = "'s \<Rightarrow> ('e + 'a) \<times> 's"

definition sret :: "'a \<Rightarrow> ('s, 'e, 'a) sx" where
  "sret x = (\<lambda>s. (Inr x, s))"

definition sraise :: "'e \<Rightarrow> ('s, 'e, 'a) sx" where
  "sraise e = (\<lambda>s. (Inl e, s))"

definition slift :: "'e + 'a \<Rightarrow> ('s, 'e, 'a) sx" where
  "slift r = (\<lambda>s. (r, s))"

definition sread :: "('s \<Rightarrow> 'e + 'a) \<Rightarrow> ('s, 'e, 'a) sx" where
  "sread f = (\<lambda>s. (f s, s))"

definition sget :: "('s, 'e, 's) sx" where
  "sget = (\<lambda>s. (Inr s, s))"

definition smodify :: "('s \<Rightarrow> 's) \<Rightarrow> ('s, 'e, unit) sx" where
  "smodify f = (\<lambda>s. (Inr (), f s))"

definition sbind :: "('s, 'e, 'a) sx \<Rightarrow> ('a \<Rightarrow> ('s, 'e, 'b) sx) \<Rightarrow> ('s, 'e, 'b) sx" where
  "sbind m f = (\<lambda>s. case m s of (Inl e, s') \<Rightarrow> (Inl e, s') | (Inr x, s') \<Rightarrow> f x s')"

lemma sret_app [simp, monad_simps]: "sret x s = (Inr x, s)"
  and sraise_app [simp, monad_simps]: "sraise e s = (Inl e, s)"
  and slift_app [simp, monad_simps]: "slift r s = (r, s)"
  and sread_app [simp, monad_simps]: "sread g s = (g s, s)"
  and sget_app [simp, monad_simps]: "sget s = (Inr s, s)"
  and smodify_app [simp, monad_simps]: "smodify f s = (Inr (), f s)"
  by (simp_all add: sret_def sraise_def slift_def sread_def sget_def smodify_def)

lemma sbind_Inr [simp, monad_simps]: "m s = (Inr x, s') \<Longrightarrow> sbind m f s = f x s'"
  by (simp add: sbind_def)

lemma sbind_Inl [simp, monad_simps]: "m s = (Inl e, s') \<Longrightarrow> sbind m f s = (Inl e, s')"
  by (simp add: sbind_def)

lemma sbind_eval [simp, monad_simps]:
  "sbind (sret x) f = f x"
  "sbind (sraise e) f = sraise e"
  "sbind (slift (Inr x)) f = f x"
  "sbind (slift (Inl e)) f = sraise e"
  by (simp_all add: fun_eq_iff)

lemma sbind_state [simp, monad_simps]: "sbind sget f s = f s s" "sbind (smodify h) g s = g () (h s)"
  by simp_all

lemma sbind_assoc [simp, monad_simps]: "sbind (sbind m f) g = sbind m (\<lambda>x. sbind (f x) g)"
  by (auto simp: sbind_def fun_eq_iff split: prod.splits sum.splits)

lemma sbind_InrE:
  assumes "sbind m f s = (Inr y, t)"
  obtains x s' where "m s = (Inr x, s')" and "f x s' = (Inr y, t)"
  using assms by (auto simp: sbind_def split: prod.splits sum.splits)

lemma sbind_cases:
  assumes "sbind m f s = (r, t)"
  obtains e where "m s = (Inl e, t)" and "r = Inl e"
  | x s' where "m s = (Inr x, s')" and "f x s' = (r, t)"
  using assms by (auto simp: sbind_def split: prod.splits sum.splits)

lemma sbind_cong [fundef_cong]:
  "m s = m' s' \<Longrightarrow> (\<And>x t. m' s' = (Inr x, t) \<Longrightarrow> f x t = g x t) \<Longrightarrow> sbind m f s = sbind m' g s'"
  by (auto simp: sbind_def split: prod.splits sum.splits)

text \<open>A loop over a list whose body may raise.\<close>

fun sfor :: "'a list \<Rightarrow> ('a \<Rightarrow> ('s, 'e, unit) sx) \<Rightarrow> ('s, 'e, unit) sx" where
  "sfor [] body = sret ()"
| "sfor (x # xs) body = sbind (body x) (\<lambda>_. sfor xs body)"

text \<open>
  An invariant of a state computation that every operation keeps, error or not, is kept
  by their composition.
\<close>

definition keeps :: "('s \<Rightarrow> bool) \<Rightarrow> ('s, 'e, 'a) sx \<Rightarrow> bool" where
  "keeps P m \<longleftrightarrow> (\<forall>s. P s \<longrightarrow> P (snd (m s)))"

lemma keepsI: "(\<And>s. P s \<Longrightarrow> P (snd (m s))) \<Longrightarrow> keeps P m"
  by (simp add: keeps_def)

lemma keepsD: "keeps P m \<Longrightarrow> P s \<Longrightarrow> m s = (r, s') \<Longrightarrow> P s'"
  by (metis keeps_def snd_conv)

lemma keeps_pure [intro, simp]:
  "keeps P (sret x)" "keeps P (sraise e)" "keeps P (slift r)" "keeps P (sread g)" "keeps P sget"
  by (simp_all add: keeps_def)

lemma keeps_sbind [intro]: "keeps P m \<Longrightarrow> (\<And>x. keeps P (f x)) \<Longrightarrow> keeps P (sbind m f)"
  unfolding keeps_def sbind_def
  by (metis (no_types, lifting) prod.case_eq_if snd_conv sum.case_eq_if)

lemma keeps_sfor [intro]: "(\<And>x. keeps P (body x)) \<Longrightarrow> keeps P (sfor xs body)"
  by (induction xs) auto

section \<open>Slices\<close>

text \<open>\<open>raw[a:b]\<close> for natural indices: clamped, never an error.\<close>

definition pyslice :: "'a list \<Rightarrow> nat \<Rightarrow> nat \<Rightarrow> 'a list" where
  "pyslice xs a b = take (b - a) (drop a xs)"

text \<open>\<open>xs[a:b] = ys\<close> on a bytearray, for \<open>a \<le> b\<close>.\<close>

definition slice_assign :: "'a list \<Rightarrow> nat \<Rightarrow> nat \<Rightarrow> 'a list \<Rightarrow> 'a list" where
  "slice_assign xs a b ys = take a xs @ ys @ drop b xs"

lemma pyslice_append_skip [slice_simps]:
  "length pre = a \<Longrightarrow> a \<le> b \<Longrightarrow> pyslice (pre @ xs) a b = take (b - a) xs"
  by (simp add: pyslice_def)

lemma pyslice_exact [slice_simps]:
  "length pre = a \<Longrightarrow> length mid = b - a \<Longrightarrow> pyslice (pre @ mid @ post) a b = mid"
  by (simp add: pyslice_def)

lemma pyslice_length: "length (pyslice xs a b) = min (b - a) (length xs - a)"
  by (auto simp: pyslice_def min_def)

lemma slice_assign_exact [slice_simps]:
  "length pre = a \<Longrightarrow> length pre + length mid = b \<Longrightarrow>
   slice_assign (pre @ mid @ post) a b ys = pre @ ys @ post"
  by (auto simp: slice_assign_def)

section \<open>Dictionaries\<close>

text \<open>
  A Python dict keeps the insertion order of its keys, and the program's output depends
  on it; a dict is an association list with distinct keys. \<open>d[k] = v\<close> replaces in
  place or appends, \<open>del d[k]\<close> removes.
\<close>

type_synonym ('k, 'v) dict = "('k \<times> 'v) list"

abbreviation dict_get :: "('k, 'v) dict \<Rightarrow> 'k \<Rightarrow> 'v option" where
  "dict_get d k \<equiv> map_of d k"

abbreviation dict_set :: "'k \<Rightarrow> 'v \<Rightarrow> ('k, 'v) dict \<Rightarrow> ('k, 'v) dict" where
  "dict_set k v d \<equiv> AList.update k v d"

abbreviation dict_del :: "'k \<Rightarrow> ('k, 'v) dict \<Rightarrow> ('k, 'v) dict" where
  "dict_del k d \<equiv> AList.delete k d"

definition dict_keys :: "('k, 'v) dict \<Rightarrow> 'k list" where
  "dict_keys d = map fst d"

definition dict_has :: "('k, 'v) dict \<Rightarrow> 'k \<Rightarrow> bool" where
  "dict_has d k = (k \<in> set (map fst d))"

definition dict_of :: "('k \<times> 'v) list \<Rightarrow> ('k, 'v) dict" where
  "dict_of kvs = fold (\<lambda>(k, v) d. dict_set k v d) kvs []"

lemma dict_has_iff: "dict_has d k \<longleftrightarrow> dict_get d k \<noteq> None"
  by (induction d) (auto simp: dict_has_def)

lemma dict_get_set: "dict_get (dict_set k v d) k' = (if k' = k then Some v else dict_get d k')"
  by (simp add: update_conv')

lemma dict_get_del: "dict_get (dict_del k d) k' = (if k' = k then None else dict_get d k')"
  by (simp add: delete_conv')

lemma dict_set_new: "k \<notin> fst ` set d \<Longrightarrow> dict_set k v d = d @ [(k, v)]"
  by (induction d) auto

lemma dict_of_distinct: "distinct (map fst kvs) \<Longrightarrow> dict_of kvs = kvs"
proof -
  have "distinct (map fst (d @ kvs)) \<Longrightarrow> fold (\<lambda>(k, v) d. dict_set k v d) kvs d = d @ kvs" for d
    by (induction kvs arbitrary: d) (auto simp: dict_set_new image_iff)
  from this [of "[]"] show "distinct (map fst kvs) \<Longrightarrow> dict_of kvs = kvs"
    by (simp add: dict_of_def)
qed

lemma dict_get_of: "dict_get (dict_of kvs) k = map_of (rev kvs) k"
proof -
  have "dict_get (fold (\<lambda>(k, v) d. dict_set k v d) kvs d) k
      = (case map_of (rev kvs) k of None \<Rightarrow> dict_get d k | Some v \<Rightarrow> Some v)" for d
    by (induction kvs arbitrary: d) (auto simp: dict_get_set map_add_def split: option.splits)
  from this [of "[]"] show ?thesis by (simp add: dict_of_def split: option.splits)
qed

lemma length_dict_del:
  "distinct (map fst d) \<Longrightarrow> k \<in> fst ` set d \<Longrightarrow> length (dict_del k d) = length d - 1"
proof (induction d)
  case (Cons x d)
  show ?case
  proof (cases "fst x = k")
    case True
    with Cons.prems(1) have "dict_del k d = d" by simp
    then show ?thesis using True by (cases x) simp
  next
    case False
    with Cons have "k \<in> fst ` set d" by auto
    then have "length (dict_del k d) = length d - 1" "d \<noteq> []" using Cons by auto
    then show ?thesis using False by (cases x) (cases d; simp)
  qed
qed simp

lemma dict_set_keys_distinct: "distinct (map fst d) \<Longrightarrow> distinct (map fst (dict_set k v d))"
  by (rule distinct_update)

lemma length_dict_set:
  "length (dict_set k v d) = (if k \<in> fst ` set d then length d else length d + 1)"
  by (induction d) auto

lemma distinct_snd_update:
  "distinct (map snd d) \<Longrightarrow> v \<notin> snd ` set d \<Longrightarrow> distinct (map snd (dict_set k v d))"
proof (induction d)
  case (Cons x d)
  have "snd ` set (dict_set k v d) \<subseteq> insert v (snd ` set d)"
    by (induction d) auto
  with Cons show ?case by (cases x) auto
qed simp

end
