(* ===== verification/PyErrors.thy ===== *)
theory PyErrors
  imports Prelude
begin

text \<open>
  The values the program passes around and the exceptions it raises: Python strings as
  lists of code points, the five kinds of SQL values, and one datatype for the engine's
  exception classes (tinydb/errors.py) together with the built-in exceptions that the
  standard library raises inside the engine.
\<close>

section \<open>Strings, bytes and values\<close>

type_synonym byte = "8 word"

text \<open>A \<open>str\<close> is a sequence of code points; \<open>str\<close> writes an ASCII literal.\<close>

type_synonym pystr = "nat list"

definition str :: "string \<Rightarrow> pystr" where
  "str s = map of_char s"

lemma str_inject [simp]: "str s = str t \<longleftrightarrow> s = t"
  by (simp add: str_def inj_map_eq_map inj_def)

lemma str_Nil [simp]: "str [] = []"
  by (simp add: str_def)

lemma str_eq_Nil [simp]: "str s = [] \<longleftrightarrow> s = []" "[] = str s \<longleftrightarrow> s = []"
  by (simp_all add: str_def)

lemma length_str [simp]: "length (str s) = length s"
  by (simp add: str_def)

text \<open>A \<open>float\<close> is its IEEE-754 binary64 bit pattern.\<close>

type_synonym float64 = "64 word"

datatype pyval = PNone | PInt int | PFloat float64 | PText pystr | PBool bool

section \<open>Exceptions\<close>

text \<open>
  The message of a \<open>ParseError\<close> is kept as the fields of its f-string; the two remaining
  arguments are the line and the column.
\<close>

datatype parse_msg =
    UnexpectedCharacter nat
  | UnexpectedStatement pystr
  | UnexpectedToken pystr
  | UnexpectedValue pystr
  | UnexpectedTxKeyword pystr
  | ExpectedType string pystr
  | ExpectedValue pystr pystr
  | ExpectedKeyword pystr pystr
  | UnknownType pystr

text \<open>
  \<open>OutOfFuel\<close> is not an exception of the program: it marks that the budget given to a loop
  of the model has run out, and the theorems on these loops show that it does not occur.
  The \<open>value\<close> of a \<open>UniqueViolation\<close> is a table's name or the tuple of key values.
\<close>

datatype uniq_value = UName pystr | UTuple "pyval list"

datatype py_error =
    ParseError parse_msg nat nat
  | TypeMismatch pystr pystr pystr
  | UniqueViolation pystr pystr uniq_value
  | NotNullViolation pystr pystr
  | TableNotFound pystr
  | UnsafeDeleteWithoutWhere
  | IntegerOverflow int int
  | TransactionAlreadyActive
  | PageCorrupt nat
  | TransactionLogCorrupt nat
  | DatabaseBusy pystr
  | AmbiguousColumn pystr
  | StructError
  | OverflowError
  | UnicodeEncodeError
  | UnicodeDecodeError
  | ValueError
  | IndexError
  | KeyError
  | PyTypeError
  | AttributeError
  | RuntimeError
  | AssertionError
  | OSError
  | OutOfFuel

end
