(* ===== verification/PyBytes.thy ===== *)
theory PyBytes
  imports Prelude PyErrors
begin

text \<open>
  What the code uses of Python's \<open>bytes\<close>, \<open>struct\<close>, \<open>int.to_bytes\<close> and UTF-8:
  little-endian unsigned fields with the range check of \<open>struct.pack\<close> and the length
  check of \<open>struct.unpack\<close>, signed integers in two's complement, and the strict UTF-8
  codec on code points. The interface \<open>field_codec\<close> is the contract of one fixed-width
  field; every binary format of the program is a sequence of such fields.
\<close>

section \<open>Little-endian integers\<close>

definition byte_of :: "nat \<Rightarrow> byte" where
  "byte_of n = of_nat n"

lemma unat_byte_less [simp]: "unat (b :: byte) < 256"
  using unsigned_less [of b, where ?'a = nat] by simp

lemma unat_byte_of: "unat (byte_of n) = n mod 256"
  by (simp add: byte_of_def unat_of_nat)

lemma byte_of_unat [simp]: "byte_of (unat b) = b"
  by (simp add: byte_of_def)

fun le_enc :: "nat \<Rightarrow> nat \<Rightarrow> byte list" where
  "le_enc 0 v = []"
| "le_enc (Suc n) v = byte_of (v mod 256) # le_enc n (v div 256)"

fun le_dec :: "byte list \<Rightarrow> nat" where
  "le_dec [] = 0"
| "le_dec (b # bs) = unat b + 256 * le_dec bs"

lemma length_le_enc [simp]: "length (le_enc n v) = n"
  by (induction n arbitrary: v) auto

lemma le_enc_Nil_iff [simp]: "le_enc n v = [] \<longleftrightarrow> n = 0"
  by (cases n) auto

lemma le_dec_enc_mod: "le_dec (le_enc n v) = v mod 256 ^ n"
proof (induction n arbitrary: v)
  case 0
  then show ?case by simp
next
  case (Suc n)
  have "v mod 256 + 256 * (v div 256 mod 256 ^ n) = v mod (256 * 256 ^ n)"
    by (simp add: mod_mult2_eq add.commute)
  with Suc show ?case by (simp add: unat_byte_of)
qed

lemma le_dec_enc [simp]: "v < 256 ^ n \<Longrightarrow> le_dec (le_enc n v) = v"
  by (simp add: le_dec_enc_mod)

lemma le_dec_bound: "le_dec bs < 256 ^ length bs"
proof (induction bs)
  case Nil
  then show ?case by simp
next
  case (Cons b bs)
  have "unat b + 256 * le_dec bs < 256 * Suc (le_dec bs)" by simp
  also have "\<dots> \<le> 256 * 256 ^ length bs"
    using Cons by (intro mult_le_mono2) simp
  finally show ?case by simp
qed

lemma le_enc_dec [simp]: "le_enc (length bs) (le_dec bs) = bs"
proof (induction bs)
  case Nil
  then show ?case by simp
next
  case (Cons b bs)
  have "(unat b + 256 * le_dec bs) mod 256 = unat b"
    and "(unat b + 256 * le_dec bs) div 256 = le_dec bs"
    by simp_all
  with Cons show ?case by simp
qed

lemma le_dec_replicate_0 [simp]: "le_dec (replicate n 0) = 0"
  by (induction n) auto

lemma le_enc_0 [simp]: "le_enc n 0 = replicate n 0"
  by (induction n) (simp_all add: byte_of_def)

section \<open>struct fields\<close>

text \<open>
  \<open>pack_uint n\<close> is \<open>struct.pack("<X", v)\<close> for an unsigned field of \<open>n\<close> bytes (B 1, H 2,
  I 4, Q 8): out of range is \<open>struct.error\<close>. \<open>unpack_uint n\<close> wants exactly \<open>n\<close> bytes.
\<close>

definition pack_uint :: "nat \<Rightarrow> nat \<Rightarrow> py_error + byte list" where
  "pack_uint n v = (if v < 256 ^ n then Inr (le_enc n v) else Inl StructError)"

definition unpack_uint :: "nat \<Rightarrow> byte list \<Rightarrow> py_error + nat" where
  "unpack_uint n raw = (if length raw = n then Inr (le_dec raw) else Inl StructError)"

abbreviation pack_B :: "nat \<Rightarrow> py_error + byte list" where "pack_B \<equiv> pack_uint 1"
abbreviation pack_H :: "nat \<Rightarrow> py_error + byte list" where "pack_H \<equiv> pack_uint 2"
abbreviation pack_I :: "nat \<Rightarrow> py_error + byte list" where "pack_I \<equiv> pack_uint 4"
abbreviation pack_Q :: "nat \<Rightarrow> py_error + byte list" where "pack_Q \<equiv> pack_uint 8"
abbreviation unpack_B :: "byte list \<Rightarrow> py_error + nat" where "unpack_B \<equiv> unpack_uint 1"
abbreviation unpack_H :: "byte list \<Rightarrow> py_error + nat" where "unpack_H \<equiv> unpack_uint 2"
abbreviation unpack_I :: "byte list \<Rightarrow> py_error + nat" where "unpack_I \<equiv> unpack_uint 4"
abbreviation unpack_Q :: "byte list \<Rightarrow> py_error + nat" where "unpack_Q \<equiv> unpack_uint 8"

locale field_codec =
  fixes pack :: "'v \<Rightarrow> py_error + byte list"
    and unpack :: "byte list \<Rightarrow> py_error + 'v"
    and width :: nat
  assumes pack_width: "pack v = Inr bs \<Longrightarrow> length bs = width"
    and unpack_pack: "pack v = Inr bs \<Longrightarrow> unpack bs = Inr v"
    and unpack_short: "length raw \<noteq> width \<Longrightarrow> \<exists>e. unpack raw = Inl e"
begin

lemma read_field:
  assumes "pack v = Inr bs"
  shows "unpack (pyslice (pre @ bs @ rest) (length pre) (length pre + width)) = Inr v"
  using assms by (simp add: pyslice_def pack_width [OF assms] unpack_pack)

lemma read_field_at:
  assumes "pack v = Inr bs" and "length pre = off"
  shows "unpack (pyslice (pre @ bs @ rest) off (off + width)) = Inr v"
  using read_field [OF assms(1), of pre rest] assms(2) by simp

lemma read_field_truncated:
  assumes "length raw < off + width" and "0 < width"
  shows "\<exists>e. unpack (pyslice raw off (off + width)) = Inl e"
  by (rule unpack_short) (use assms in \<open>auto simp: pyslice_length\<close>)

lemma pack_inject: "pack v = Inr bs \<Longrightarrow> pack w = Inr bs \<Longrightarrow> v = w"
  by (metis unpack_pack sum.inject(2))

end

interpretation uint: field_codec "pack_uint n" "unpack_uint n" n for n
  by unfold_locales (auto simp: pack_uint_def unpack_uint_def split: if_splits)

lemma pack_uint_eq_Inr [simp]:
  "pack_uint n v = Inr bs \<longleftrightarrow> v < 256 ^ n \<and> bs = le_enc n v"
  by (auto simp: pack_uint_def)

lemma pack_uint_eq_Inl [simp]: "pack_uint n v = Inl e \<longleftrightarrow> \<not> v < 256 ^ n \<and> e = StructError"
  by (auto simp: pack_uint_def)

lemma unpack_le_enc [simp]: "v < 256 ^ n \<Longrightarrow> unpack_uint n (le_enc n v) = Inr v"
  by (simp add: unpack_uint_def)

lemma unpack_zeros [simp]: "unpack_uint n (replicate n 0) = Inr 0"
  by (simp add: unpack_uint_def)

section \<open>Signed integers\<close>

text \<open>\<open>value.to_bytes(n, "little", signed=True)\<close> and \<open>int.from_bytes(raw, "little", signed=True)\<close>.\<close>

definition to_bytes_signed :: "nat \<Rightarrow> int \<Rightarrow> py_error + byte list" where
  "to_bytes_signed n v =
     (if - (2 ^ (8 * n - 1)) \<le> v \<and> v < 2 ^ (8 * n - 1)
      then Inr (le_enc n (nat (v mod 256 ^ n))) else Inl OverflowError)"

definition from_bytes_signed :: "byte list \<Rightarrow> int" where
  "from_bytes_signed raw =
     (let u = int (le_dec raw) in
      if raw \<noteq> [] \<and> 2 ^ (8 * length raw - 1) \<le> u then u - 256 ^ length raw else u)"

lemma pow_256: "(256::int) ^ n = 2 ^ (8 * n)"
  by (simp add: power_mult)

lemma from_to_bytes_signed:
  assumes "to_bytes_signed n v = Inr bs" and "0 < n"
  shows "from_bytes_signed bs = v" and "length bs = n"
proof -
  let ?h = "2 ^ (8 * n - 1) :: int" and ?m = "256 ^ n :: int"
  from assms(1) have r: "- ?h \<le> v" "v < ?h" and bs: "bs = le_enc n (nat (v mod ?m))"
    by (auto simp: to_bytes_signed_def split: if_splits)
  have m: "?m = 2 * ?h"
    using assms(2) by (simp add: pow_256 power_Suc [symmetric] del: power_Suc)
  have nm: "nat (v mod ?m) < 256 ^ n"
    by (simp add: nat_less_iff)
  then have u: "int (le_dec bs) = v mod ?m"
    by (simp add: bs)
  show "length bs = n" by (simp add: bs)
  then have ne: "bs \<noteq> []" using assms(2) by auto
  show "from_bytes_signed bs = v"
  proof (cases "0 \<le> v")
    case True
    then have "v mod ?m = v" using r m by simp
    then show ?thesis using r u \<open>length bs = n\<close> by (simp add: from_bytes_signed_def Let_def)
  next
    case False
    then have "(v + ?m) mod ?m = v + ?m"
      using r m by (intro mod_pos_pos_trivial) linarith+
    then have "v mod ?m = v + ?m" by simp
    then show ?thesis
      using r u m ne False \<open>length bs = n\<close> by (simp add: from_bytes_signed_def Let_def)
  qed
qed

section \<open>UTF-8\<close>

definition is_surrogate :: "nat \<Rightarrow> bool" where
  "is_surrogate c \<longleftrightarrow> 55296 \<le> c \<and> c < 57344"

definition is_scalar :: "nat \<Rightarrow> bool" where
  "is_scalar c \<longleftrightarrow> c < 1114112 \<and> \<not> is_surrogate c"

definition utf8_char :: "nat \<Rightarrow> byte list" where
  "utf8_char c =
     (if c < 128 then [byte_of c]
      else if c < 2048 then [byte_of (192 + c div 64), byte_of (128 + c mod 64)]
      else if c < 65536 then
        [byte_of (224 + c div 4096), byte_of (128 + c div 64 mod 64), byte_of (128 + c mod 64)]
      else
        [byte_of (240 + c div 262144), byte_of (128 + c div 4096 mod 64),
         byte_of (128 + c div 64 mod 64), byte_of (128 + c mod 64)])"

text \<open>\<open>s.encode("utf-8")\<close>: a lone surrogate cannot be encoded.\<close>

fun utf8_encode :: "pystr \<Rightarrow> py_error + byte list" where
  "utf8_encode [] = Inr []"
| "utf8_encode (c # cs) =
     (if is_scalar c then rbind (utf8_encode cs) (\<lambda>bs. Inr (utf8_char c @ bs))
      else Inl UnicodeEncodeError)"

definition is_cont :: "byte \<Rightarrow> bool" where
  "is_cont b \<longleftrightarrow> 128 \<le> unat b \<and> unat b < 192"

text \<open>\<open>raw.decode("utf-8")\<close>, strict: overlong forms, surrogates and truncated forms are errors.\<close>

fun utf8_decode :: "byte list \<Rightarrow> py_error + pystr" where
  "utf8_decode [] = Inr []"
| "utf8_decode (b0 # bs) =
     (let c = unat b0 in
      if c < 128 then rbind (utf8_decode bs) (\<lambda>s. Inr (c # s))
      else if 194 \<le> c \<and> c < 224 then
        (case bs of
           b1 # r \<Rightarrow>
             if is_cont b1 then
               rbind (utf8_decode r) (\<lambda>s. Inr (((c - 192) * 64 + (unat b1 - 128)) # s))
             else Inl UnicodeDecodeError
         | _ \<Rightarrow> Inl UnicodeDecodeError)
      else if 224 \<le> c \<and> c < 240 then
        (case bs of
           b1 # b2 # r \<Rightarrow>
             let v = (c - 224) * 4096 + (unat b1 - 128) * 64 + (unat b2 - 128) in
             if is_cont b1 \<and> is_cont b2 \<and> 2048 \<le> v \<and> \<not> is_surrogate v then
               rbind (utf8_decode r) (\<lambda>s. Inr (v # s))
             else Inl UnicodeDecodeError
         | _ \<Rightarrow> Inl UnicodeDecodeError)
      else if 240 \<le> c \<and> c < 245 then
        (case bs of
           b1 # b2 # b3 # r \<Rightarrow>
             let v = (c - 240) * 262144 + (unat b1 - 128) * 4096 + (unat b2 - 128) * 64
                     + (unat b3 - 128) in
             if is_cont b1 \<and> is_cont b2 \<and> is_cont b3 \<and> 65536 \<le> v \<and> v < 1114112 then
               rbind (utf8_decode r) (\<lambda>s. Inr (v # s))
             else Inl UnicodeDecodeError
         | _ \<Rightarrow> Inl UnicodeDecodeError)
      else Inl UnicodeDecodeError)"

lemma unat_cont [simp]: "unat (byte_of (128 + c mod 64)) = 128 + c mod 64"
proof -
  have "c mod 64 < 64" by simp
  then show ?thesis by (simp add: unat_byte_of)
qed

lemma is_cont_byte_of [simp]: "is_cont (byte_of (128 + c mod 64))"
proof -
  have "c mod 64 < 64" by simp
  then show ?thesis by (simp add: is_cont_def)
qed

lemma split_64: "c div 64 * 64 + c mod 64 = (c :: nat)"
  by simp

lemma split_4096: "c div 4096 * 4096 + c div 64 mod 64 * 64 + c mod 64 = (c :: nat)"
proof -
  have "c div 4096 = c div 64 div 64" by (simp add: div_mult2_eq [symmetric])
  moreover have "c div 64 div 64 * 64 + c div 64 mod 64 = c div 64" by simp
  moreover have "c div 64 * 64 + c mod 64 = c" by simp
  ultimately show ?thesis by linarith
qed

lemma split_262144:
  "c div 262144 * 262144 + c div 4096 mod 64 * 4096 + c div 64 mod 64 * 64 + c mod 64 = (c :: nat)"
proof -
  have "c div 262144 = c div 4096 div 64" by (simp add: div_mult2_eq [symmetric])
  moreover have "c div 4096 div 64 * 64 + c div 4096 mod 64 = c div 4096" by simp
  ultimately show ?thesis using split_4096 [of c] by linarith
qed

lemma utf8_decode_char:
  assumes "is_scalar c"
  shows "utf8_decode (utf8_char c @ bs) = rbind (utf8_decode bs) (\<lambda>s. Inr (c # s))"
proof -
  consider (one) "c < 128" | (two) "128 \<le> c" "c < 2048" | (three) "2048 \<le> c" "c < 65536"
    | (four) "65536 \<le> c" "c < 1114112"
    using assms by (fastforce simp: is_scalar_def)
  then show ?thesis
  proof cases
    case one
    then show ?thesis by (simp add: utf8_char_def unat_byte_of)
  next
    case two
    then have "2 \<le> c div 64" "c div 64 < 32" by linarith+
    then have "unat (byte_of (192 + c div 64) ) = 192 + c div 64" by (simp add: unat_byte_of)
    with two \<open>2 \<le> c div 64\<close> \<open>c div 64 < 32\<close> show ?thesis
      by (simp add: utf8_char_def split_64 Let_def)
  next
    case three
    then have r: "c div 4096 < 16" by linarith
    then have "unat (byte_of (224 + c div 4096) ) = 224 + c div 4096" by (simp add: unat_byte_of)
    with three r assms show ?thesis
      by (simp add: utf8_char_def split_4096 is_scalar_def Let_def)
  next
    case four
    then have r: "c div 262144 < 5" by linarith
    then have "unat (byte_of (240 + c div 262144) ) = 240 + c div 262144" by (simp add: unat_byte_of)
    with four r show ?thesis
      by (simp add: utf8_char_def split_262144 Let_def)
  qed
qed

lemma utf8_roundtrip: "utf8_encode s = Inr bs \<Longrightarrow> utf8_decode bs = Inr s"
  by (induction s arbitrary: bs) (auto simp: utf8_decode_char split: if_splits)

lemma utf8_encode_total_iff: "(\<exists>bs. utf8_encode s = Inr bs) \<longleftrightarrow> (\<forall>c \<in> set s. is_scalar c)"
  by (induction s) auto

lemma utf8_encode_error: "utf8_encode s = Inl e \<Longrightarrow> e = UnicodeEncodeError"
  by (induction s) (auto split: if_splits)

end
