(* ===== verification/Types.thy ===== *)
theory Types
  imports PyBytes
begin

text \<open>
  tinydb/types.py: the column types, the encoding of a value under a column type, the
  coercion of an inserted value, and the comparison used by predicates; with the part of
  Python's \<open>==\<close> and \<open><\<close> on values that the engine relies on. The all-zero eight bytes
  are the code's placeholder for NULL, which the INT 0 and the FLOAT 0.0 share.
\<close>

section \<open>Floats as bit patterns\<close>

definition f_exp :: "float64 \<Rightarrow> nat" where
  "f_exp b = unat b div 2 ^ 52 mod 2 ^ 11"

definition f_man :: "float64 \<Rightarrow> nat" where
  "f_man b = unat b mod 2 ^ 52"

definition f_neg :: "float64 \<Rightarrow> bool" where
  "f_neg b \<longleftrightarrow> 2 ^ 63 \<le> unat b"

definition f_is_nan :: "float64 \<Rightarrow> bool" where
  "f_is_nan b \<longleftrightarrow> f_exp b = 2047 \<and> f_man b \<noteq> 0"

definition f_is_inf :: "float64 \<Rightarrow> bool" where
  "f_is_inf b \<longleftrightarrow> f_exp b = 2047 \<and> f_man b = 0"

text \<open>
  The value of a finite float times \<open>2 ^ 1074\<close>, an integer; the infinities come out
  beyond every finite float.
\<close>

definition f_scaled :: "float64 \<Rightarrow> int" where
  "f_scaled b =
     (let m = (if f_exp b = 0 then int (f_man b)
               else (2 ^ 52 + int (f_man b)) * 2 ^ (f_exp b - 1))
      in if f_neg b then - m else m)"

definition f_lt :: "float64 \<Rightarrow> float64 \<Rightarrow> bool" where
  "f_lt a b \<longleftrightarrow> \<not> f_is_nan a \<and> \<not> f_is_nan b \<and> f_scaled a < f_scaled b"

definition f_eq :: "float64 \<Rightarrow> float64 \<Rightarrow> bool" where
  "f_eq a b \<longleftrightarrow> \<not> f_is_nan a \<and> \<not> f_is_nan b \<and> f_scaled a = f_scaled b"

text \<open>Python compares an int with a float by value, without rounding the int.\<close>

definition int_f_lt :: "int \<Rightarrow> float64 \<Rightarrow> bool" where
  "int_f_lt i b \<longleftrightarrow> \<not> f_is_nan b \<and>
     (if f_is_inf b then \<not> f_neg b else i * 2 ^ 1074 < f_scaled b)"

definition f_int_lt :: "float64 \<Rightarrow> int \<Rightarrow> bool" where
  "f_int_lt b i \<longleftrightarrow> \<not> f_is_nan b \<and>
     (if f_is_inf b then f_neg b else f_scaled b < i * 2 ^ 1074)"

definition int_f_eq :: "int \<Rightarrow> float64 \<Rightarrow> bool" where
  "int_f_eq i b \<longleftrightarrow> \<not> f_is_nan b \<and> \<not> f_is_inf b \<and> i * 2 ^ 1074 = f_scaled b"

text \<open>\<open>struct.pack("<d", x)\<close> and \<open>struct.unpack("<d", raw)\<close>.\<close>

definition pack_d :: "float64 \<Rightarrow> byte list" where
  "pack_d b = le_enc 8 (unat b)"

definition unpack_d :: "byte list \<Rightarrow> py_error + float64" where
  "unpack_d raw = (if length raw = 8 then Inr (of_nat (le_dec raw)) else Inl StructError)"

lemma length_pack_d [simp]: "length (pack_d b) = 8"
  by (simp add: pack_d_def)

lemma unat_float_less: "unat (b :: float64) < 256 ^ 8"
  using unsigned_less [of b, where ?'a = nat] by simp

lemma unpack_pack_d [simp]: "unpack_d (pack_d b) = Inr b"
  using unat_float_less [of b] by (simp add: unpack_d_def pack_d_def)

section \<open>Python's == and < on values\<close>

definition int_of_bool :: "bool \<Rightarrow> int" where
  "int_of_bool b = (if b then 1 else 0)"

fun lex_lt :: "pystr \<Rightarrow> pystr \<Rightarrow> bool" where
  "lex_lt _ [] = False"
| "lex_lt [] (_ # _) = True"
| "lex_lt (x # xs) (y # ys) = (x < y \<or> x = y \<and> lex_lt xs ys)"

text \<open>A bool is an int; \<open>==\<close> between other kinds is False and never raises.\<close>

fun py_eq :: "pyval \<Rightarrow> pyval \<Rightarrow> bool" where
  "py_eq PNone PNone = True"
| "py_eq (PInt a) (PInt b) = (a = b)"
| "py_eq (PInt a) (PBool b) = (a = int_of_bool b)"
| "py_eq (PBool a) (PInt b) = (int_of_bool a = b)"
| "py_eq (PBool a) (PBool b) = (a = b)"
| "py_eq (PFloat a) (PFloat b) = f_eq a b"
| "py_eq (PInt a) (PFloat b) = int_f_eq a b"
| "py_eq (PFloat a) (PInt b) = int_f_eq b a"
| "py_eq (PBool a) (PFloat b) = int_f_eq (int_of_bool a) b"
| "py_eq (PFloat a) (PBool b) = int_f_eq (int_of_bool b) a"
| "py_eq (PText a) (PText b) = (a = b)"
| "py_eq _ _ = False"

fun py_lt :: "pyval \<Rightarrow> pyval \<Rightarrow> py_error + bool" where
  "py_lt (PInt a) (PInt b) = Inr (a < b)"
| "py_lt (PInt a) (PBool b) = Inr (a < int_of_bool b)"
| "py_lt (PBool a) (PInt b) = Inr (int_of_bool a < b)"
| "py_lt (PBool a) (PBool b) = Inr (int_of_bool a < int_of_bool b)"
| "py_lt (PFloat a) (PFloat b) = Inr (f_lt a b)"
| "py_lt (PInt a) (PFloat b) = Inr (int_f_lt a b)"
| "py_lt (PFloat a) (PInt b) = Inr (f_int_lt a b)"
| "py_lt (PBool a) (PFloat b) = Inr (int_f_lt (int_of_bool a) b)"
| "py_lt (PFloat a) (PBool b) = Inr (f_int_lt a (int_of_bool b))"
| "py_lt (PText a) (PText b) = Inr (lex_lt a b)"
| "py_lt _ _ = Inl PyTypeError"

text \<open>\<open>a <= b\<close> on these types is \<open>a < b or a == b\<close>, with the same \<open>TypeError\<close>.\<close>

definition py_le :: "pyval \<Rightarrow> pyval \<Rightarrow> py_error + bool" where
  "py_le a b = rbind (py_lt a b) (\<lambda>l. Inr (l \<or> py_eq a b))"

text \<open>\<open>bool(x)\<close>.\<close>

fun truthy :: "pyval \<Rightarrow> bool" where
  "truthy PNone = False"
| "truthy (PInt i) = (i \<noteq> 0)"
| "truthy (PFloat b) = (f_is_nan b \<or> f_scaled b \<noteq> 0)"
| "truthy (PText s) = (s \<noteq> [])"
| "truthy (PBool b) = b"

section \<open>Column types and the type names of values\<close>

datatype column_type = T_INT | T_FLOAT | T_TEXT | T_BOOL

text \<open>\<open>ColumnType.X.value\<close>.\<close>

fun type_value :: "column_type \<Rightarrow> pystr" where
  "type_value T_INT = str ''INT''"
| "type_value T_FLOAT = str ''FLOAT''"
| "type_value T_TEXT = str ''TEXT''"
| "type_value T_BOOL = str ''BOOL''"

text \<open>\<open>ColumnType(s)\<close>: lookup by value, \<open>ValueError\<close> if there is none.\<close>

definition column_type_of :: "pystr \<Rightarrow> py_error + column_type" where
  "column_type_of s =
     (if s = str ''INT'' then Inr T_INT
      else if s = str ''FLOAT'' then Inr T_FLOAT
      else if s = str ''TEXT'' then Inr T_TEXT
      else if s = str ''BOOL'' then Inr T_BOOL
      else Inl ValueError)"

lemma column_type_of_value [simp]: "column_type_of (type_value t) = Inr t"
  by (cases t) (simp_all add: column_type_of_def)

lemma column_type_of_Inr: "column_type_of s = Inr t \<longleftrightarrow> s = type_value t"
  by (cases t) (auto simp: column_type_of_def)

fun python_type_name :: "pyval \<Rightarrow> pystr" where
  "python_type_name (PBool _) = str ''BOOL''"
| "python_type_name (PInt _) = str ''INT''"
| "python_type_name (PFloat _) = str ''FLOAT''"
| "python_type_name (PText _) = str ''TEXT''"
| "python_type_name PNone = str ''NONETYPE''"

section \<open>Encoding and decoding\<close>

definition int64_min :: int where "int64_min = - (2 ^ 63)"
definition int64_max :: int where "int64_max = 2 ^ 63 - 1"

fun encode_int :: "pyval \<Rightarrow> py_error + byte list" where
  "encode_int (PInt v) =
     (if v < int64_min \<or> v > int64_max then Inl (IntegerOverflow v int64_max)
      else to_bytes_signed 8 v)"
| "encode_int v = Inl (TypeMismatch (str ''?'') (str ''INT'') (python_type_name v))"

definition decode_int :: "byte list \<Rightarrow> int" where
  "decode_int raw = from_bytes_signed (take 8 raw)"

fun encode_float :: "pyval \<Rightarrow> py_error + byte list" where
  "encode_float (PFloat b) = Inr (pack_d b)"
| "encode_float v = Inl (TypeMismatch (str ''?'') (str ''FLOAT'') (python_type_name v))"

definition decode_float :: "byte list \<Rightarrow> py_error + float64" where
  "decode_float raw = unpack_d (take 8 raw)"

text \<open>
  \<open>len(encoded).to_bytes(4, "little")\<close> raises \<open>OverflowError\<close> when the length needs more
  than 32 bits.
\<close>

fun encode_text :: "pyval \<Rightarrow> py_error + byte list" where
  "encode_text (PText s) =
     rbind (utf8_encode s) (\<lambda>encoded.
       if length encoded < 256 ^ 4 then Inr (le_enc 4 (length encoded) @ encoded)
       else Inl OverflowError)"
| "encode_text v = Inl (TypeMismatch (str ''?'') (str ''TEXT'') (python_type_name v))"

definition decode_text :: "byte list \<Rightarrow> py_error + pystr" where
  "decode_text raw =
     (let n = le_dec (take 4 raw) in utf8_decode (pyslice raw 4 (4 + n)))"

fun encode_bool :: "pyval \<Rightarrow> py_error + byte list" where
  "encode_bool (PBool b) = Inr [if b then 1 else 0]"
| "encode_bool v = Inl (TypeMismatch (str ''?'') (str ''BOOL'') (python_type_name v))"

definition decode_bool :: "byte list \<Rightarrow> py_error + bool" where
  "decode_bool raw = (case raw of [] \<Rightarrow> Inl IndexError | b # _ \<Rightarrow> Inr (b \<noteq> 0))"

definition null_bytes :: "byte list" where
  "null_bytes = replicate 8 0"

definition encode :: "pyval \<Rightarrow> column_type \<Rightarrow> py_error + byte list" where
  "encode v t =
     (if v = PNone then Inr null_bytes
      else case t of
        T_INT \<Rightarrow> encode_int v
      | T_FLOAT \<Rightarrow> encode_float v
      | T_TEXT \<Rightarrow> encode_text v
      | T_BOOL \<Rightarrow> encode_bool v)"

definition decode :: "byte list \<Rightarrow> column_type \<Rightarrow> py_error + pyval" where
  "decode raw t =
     (if raw = null_bytes then Inr PNone
      else case t of
        T_INT \<Rightarrow> Inr (PInt (decode_int raw))
      | T_FLOAT \<Rightarrow> rbind (decode_float raw) (\<lambda>b. Inr (PFloat b))
      | T_TEXT \<Rightarrow> rbind (decode_text raw) (\<lambda>s. Inr (PText s))
      | T_BOOL \<Rightarrow> rbind (decode_bool raw) (\<lambda>b. Inr (PBool b)))"

section \<open>Coercion and comparison\<close>

definition coerce_in :: "pyval \<Rightarrow> column_type \<Rightarrow> pystr \<Rightarrow> py_error + pyval" where
  "coerce_in v t column =
     (case (t, v) of
        (T_INT, PBool b) \<Rightarrow> Inr (PInt (int_of_bool b))
      | (T_INT, PInt i) \<Rightarrow> Inr (PInt i)
      | (T_FLOAT, PFloat b) \<Rightarrow> Inr (PFloat b)
      | (T_TEXT, PText s) \<Rightarrow> Inr (PText s)
      | (T_BOOL, PBool b) \<Rightarrow> Inr (PBool b)
      | (_, PNone) \<Rightarrow> Inr PNone
      | _ \<Rightarrow> Inl (TypeMismatch column (type_value t) (python_type_name v)))"

text \<open>
  \<open>compare\<close>: None when an operand is NULL; a BOOL column compares truth values.
\<close>

definition compare :: "pyval \<Rightarrow> pyval \<Rightarrow> column_type \<Rightarrow> py_error + bool option" where
  "compare left right t =
     (if left = PNone \<or> right = PNone then Inr None
      else if t = T_BOOL then Inr (Some (\<not> truthy left \<and> truthy right))
      else rbind (py_lt left right) (\<lambda>b. Inr (Some b)))"

section \<open>What is stored, and what comes back\<close>

text \<open>
  A value fits a column type when it is NULL or a value of that type within its range.
  What reading returns is the value itself, except for the two values that share the
  placeholder of NULL.
\<close>

fun fits :: "column_type \<Rightarrow> pyval \<Rightarrow> bool" where
  "fits _ PNone = True"
| "fits T_INT (PInt i) = (int64_min \<le> i \<and> i \<le> int64_max)"
| "fits T_FLOAT (PFloat b) = True"
| "fits T_TEXT (PText s) =
     (case utf8_encode s of Inl _ \<Rightarrow> False | Inr bs \<Rightarrow> length bs < 256 ^ 4 - 4)"
| "fits T_BOOL (PBool b) = True"
| "fits _ _ = False"

definition stored :: "pyval \<Rightarrow> pyval" where
  "stored v = (if v = PInt 0 \<or> v = PFloat 0 then PNone else v)"

lemma length_null_bytes [simp]: "length null_bytes = 8"
  by (simp add: null_bytes_def)

lemma singleton_not_null [simp]: "[x] \<noteq> null_bytes"
proof
  assume "[x] = null_bytes"
  then have "length [x] = 8" by simp
  then show False by simp
qed

lemma encode_int_zero: "to_bytes_signed 8 v = Inr null_bytes \<longleftrightarrow> v = 0"
proof
  assume a: "to_bytes_signed 8 v = Inr null_bytes"
  have "from_bytes_signed null_bytes = 0"
    by (simp add: from_bytes_signed_def null_bytes_def)
  with from_to_bytes_signed(1) [OF a] show "v = 0" by simp
next
  show "to_bytes_signed 8 v = Inr null_bytes" if "v = 0"
    using that by (simp add: to_bytes_signed_def null_bytes_def)
qed

lemma pack_d_zero: "pack_d b = null_bytes \<longleftrightarrow> b = 0"
proof
  assume "pack_d b = null_bytes"
  then have "Inr b = unpack_d null_bytes" by (metis unpack_pack_d)
  then show "b = 0" by (simp add: unpack_d_def null_bytes_def)
next
  show "pack_d b = null_bytes" if "b = 0"
    using that by (simp add: pack_d_def null_bytes_def)
qed

lemma encode_text_not_null:
  assumes "length u < 256 ^ 4"
  shows "le_enc 4 (length u) @ u \<noteq> null_bytes"
proof
  assume n: "le_enc 4 (length u) @ u = null_bytes"
  then have "length (le_enc 4 (length u) @ u) = 8" by (simp add: null_bytes_def)
  then have l: "length u = 4" by simp
  from n have "take 4 (le_enc 4 (length u) @ u) = take 4 null_bytes" by simp
  then have "le_enc 4 4 = replicate 4 0" using l by (simp add: null_bytes_def)
  then have "le_dec (le_enc 4 4) = 0" by (simp only: le_dec_replicate_0)
  then show False by simp
qed

lemma decode_text_encoded:
  assumes "utf8_encode s = Inr u" and "length u < 256 ^ 4"
  shows "decode_text (le_enc 4 (length u) @ u) = Inr s"
  using assms utf8_roundtrip [OF assms(1)]
  by (simp add: decode_text_def pyslice_def)

text \<open>Every value that fits is encoded, and decoding gives what \<open>stored\<close> says.\<close>

lemma decode_encode:
  assumes "fits t v"
  obtains bs where "encode v t = Inr bs" and "decode bs t = Inr (stored v)"
proof (cases "v = PNone")
  case True
  then show ?thesis by (intro that [of null_bytes]) (simp_all add: encode_def decode_def stored_def)
next
  case False
  show ?thesis
  proof (cases t)
    case T_INT
    with assms False obtain i where v: "v = PInt i" and r: "int64_min \<le> i" "i \<le> int64_max"
      by (cases v) auto
    then have tb: "\<exists>bs. to_bytes_signed 8 i = Inr bs"
      by (simp add: to_bytes_signed_def int64_min_def int64_max_def)
    then obtain bs where bs: "to_bytes_signed 8 i = Inr bs" by blast
    have "decode_int bs = i"
      using from_to_bytes_signed [OF bs] by (simp add: decode_int_def)
    moreover have "bs = null_bytes \<longleftrightarrow> i = 0"
      using encode_int_zero [of i] bs by auto
    ultimately show ?thesis
      using T_INT v r bs by (intro that [of bs]) (auto simp: encode_def decode_def stored_def)
  next
    case T_FLOAT
    with assms False obtain b where v: "v = PFloat b" by (cases v) auto
    with T_FLOAT show ?thesis
      by (intro that [of "pack_d b"])
        (auto simp: encode_def decode_def stored_def decode_float_def pack_d_zero)
  next
    case T_TEXT
    with assms False obtain s u where v: "v = PText s" and u: "utf8_encode s = Inr u"
      and l: "length u < 256 ^ 4 - 4" by (cases v) (auto split: sum.splits)
    then show ?thesis
      using T_TEXT encode_text_not_null [of u] decode_text_encoded [OF u]
      by (intro that [of "le_enc 4 (length u) @ u"]) (auto simp: encode_def decode_def stored_def)
  next
    case T_BOOL
    with assms False obtain b where v: "v = PBool b" by (cases v) auto
    with T_BOOL show ?thesis
      by (intro that [of "[if b then 1 else 0]"])
        (auto simp: encode_def decode_def stored_def decode_bool_def)
  qed
qed

lemma encode_nonempty: "encode v t = Inr bs \<Longrightarrow> bs \<noteq> []"
proof (cases "v = PNone")
  case False
  assume e: "encode v t = Inr bs"
  show ?thesis
  proof (cases t)
    case T_INT
    with e False obtain i where "to_bytes_signed 8 i = Inr bs"
      by (cases v) (auto simp: encode_def split: if_splits)
    then show ?thesis using from_to_bytes_signed(2) [of 8 i bs] by auto
  next
    case T_FLOAT
    with e False obtain b where "bs = pack_d b" by (cases v) (auto simp: encode_def)
    then have "length bs = 8" by simp
    then show ?thesis by auto
  next
    case T_TEXT
    with e False have "4 \<le> length bs" by (cases v) (auto simp: encode_def split: if_splits)
    then show ?thesis by auto
  next
    case T_BOOL
    with e False show ?thesis by (cases v) (auto simp: encode_def)
  qed
qed (auto simp: encode_def null_bytes_def)

text \<open>The length of an encoding, bounded so that a row's length field holds it.\<close>

lemma encode_length:
  assumes "fits t v" and "encode v t = Inr bs"
  shows "length bs < 256 ^ 4"
proof (cases v)
  case PNone
  with assms show ?thesis by (auto simp: encode_def null_bytes_def)
next
  case (PInt i)
  with assms(1) have "t = T_INT" by (cases t) auto
  with assms PInt have "to_bytes_signed 8 i = Inr bs" by (auto simp: encode_def split: if_splits)
  then show ?thesis using from_to_bytes_signed(2) [of 8 i bs] by simp
next
  case (PFloat b)
  with assms(1) have "t = T_FLOAT" by (cases t) auto
  with assms PFloat show ?thesis by (auto simp: encode_def)
next
  case (PText s)
  with assms(1) have "t = T_TEXT" by (cases t) auto
  with assms PText show ?thesis by (auto simp: encode_def split: sum.splits if_splits)
next
  case (PBool b)
  with assms(1) have "t = T_BOOL" by (cases t) auto
  with assms PBool show ?thesis by (auto simp: encode_def)
qed

text \<open>Coercion accepts exactly the fitting values, and a bool for an INT column.\<close>

lemma coerce_in_Inr:
  "coerce_in v t c = Inr w \<longleftrightarrow>
     v = PNone \<and> w = PNone
     \<or> (\<exists>b. t = T_INT \<and> v = PBool b \<and> w = PInt (int_of_bool b))
     \<or> v = w \<and> v \<noteq> PNone \<and> python_type_name v = type_value t"
  by (cases t; cases v) (auto simp: coerce_in_def)

lemma coerce_in_idem: "coerce_in v t c = Inr w \<Longrightarrow> coerce_in w t c' = Inr w"
  by (cases t; cases v) (auto simp: coerce_in_def)

end
