(* ===== verification/RowLayout.thy ===== *)
theory RowLayout
  imports Types
begin

text \<open>
  tinydb/row_layout.py: the bytes of one row, \<open>[rowid u64][col_count u16]\<close> and for each
  column \<open>[encoded_len u32][encoded bytes]\<close>, a NULL being the length 0. Decoding reads the
  columns of the schema one after the other at a running offset.
\<close>

type_synonym schema = "(pystr \<times> column_type) list"

fun encode_cells :: "(pyval \<times> pystr \<times> column_type) list \<Rightarrow> py_error + byte list" where
  "encode_cells [] = Inr []"
| "encode_cells ((v, _, t) # rest) =
     (if v = PNone then
        rbind (pack_I 0) (\<lambda>l. rbind (encode_cells rest) (\<lambda>ps. Inr (l @ ps)))
      else
        rbind (encode v t) (\<lambda>encoded.
        rbind (pack_I (length encoded)) (\<lambda>l.
        rbind (encode_cells rest) (\<lambda>ps. Inr (l @ encoded @ ps)))))"

definition encode_row :: "pyval list \<Rightarrow> schema \<Rightarrow> nat \<Rightarrow> py_error + byte list" where
  "encode_row values schema rowid =
     rbind (pack_Q rowid) (\<lambda>r.
     rbind (pack_H (length schema)) (\<lambda>c.
     rbind (encode_cells (zip values schema)) (\<lambda>ps. Inr (r @ c @ ps))))"

fun decode_cells :: "byte list \<Rightarrow> nat \<Rightarrow> schema \<Rightarrow> py_error + pyval list" where
  "decode_cells raw offset [] = Inr []"
| "decode_cells raw offset ((_, t) # sch) =
     rbind (unpack_I (pyslice raw offset (offset + 4))) (\<lambda>len.
       if len = 0 then
         rbind (decode_cells raw (offset + 4) sch) (\<lambda>vs. Inr (PNone # vs))
       else
         rbind (decode (pyslice raw (offset + 4) (offset + 4 + len)) t) (\<lambda>v.
         rbind (decode_cells raw (offset + 4 + len) sch) (\<lambda>vs. Inr (v # vs))))"

definition decode_row :: "byte list \<Rightarrow> schema \<Rightarrow> py_error + pyval list" where
  "decode_row raw schema = decode_cells raw (8 + 2) schema"

definition encode_rowid :: "nat \<Rightarrow> py_error + byte list" where
  "encode_rowid rowid = pack_Q rowid"

definition decode_rowid :: "byte list \<Rightarrow> py_error + nat" where
  "decode_rowid raw = unpack_Q (take 8 raw)"

section \<open>Rows that fit their schema\<close>

definition row_fits :: "schema \<Rightarrow> pyval list \<Rightarrow> bool" where
  "row_fits schema values \<longleftrightarrow> list_all2 (\<lambda>(_, t) v. fits t v) schema values"

lemma row_fits_simps [simp]:
  "row_fits [] [] " "\<not> row_fits (c # sch) []" "\<not> row_fits [] (v # vs)"
  "row_fits ((n, t) # sch) (v # vs) \<longleftrightarrow> fits t v \<and> row_fits sch vs"
  by (simp_all add: row_fits_def)

lemma encode_cells_total: "row_fits sch vs \<Longrightarrow> \<exists>bs. encode_cells (zip vs sch) = Inr bs"
proof (induction sch arbitrary: vs)
  case Nil
  then show ?case by simp
next
  case (Cons c sch)
  obtain n t where c: "c = (n, t)" by (cases c)
  with Cons.prems obtain v ws where vs: "vs = v # ws" and f: "fits t v" and ws: "row_fits sch ws"
    by (cases vs) auto
  obtain bs where e: "encode v t = Inr bs" using f by (rule decode_encode)
  obtain ps where "encode_cells (zip ws sch) = Inr ps" using Cons.IH [OF ws] by blast
  then show ?case using e encode_length [OF f e] by (simp add: c vs)
qed

text \<open>One cell read back from anywhere inside a byte string.\<close>

lemma decode_cells_step:
  assumes "fits t v" and "encode_cells ((v, n, t) # rest) = Inr bs" and "length pre = off"
  obtains cell ps where "bs = cell @ ps" and "encode_cells rest = Inr ps"
    and "\<And>tail sch. decode_cells (pre @ cell @ tail) off ((n, t) # sch)
       = rbind (decode_cells (pre @ cell @ tail) (length (pre @ cell)) sch) (\<lambda>vs. Inr (stored v # vs))"
proof (cases "v = PNone")
  case True
  with assms obtain ps where ps: "encode_cells rest = Inr ps" "bs = le_enc 4 0 @ ps" by auto
  show ?thesis
    by (rule that [OF ps(2,1)])
      (use assms(3) in \<open>simp add: True stored_def pyslice_def\<close>)
next
  case False
  with assms obtain e ps where e: "encode v t = Inr e" and ps: "encode_cells rest = Inr ps"
    and bs: "bs = (le_enc 4 (length e) @ e) @ ps" by auto
  have l: "length e < 256 ^ 4" by (rule encode_length [OF assms(1) e])
  obtain e' where "encode v t = Inr e'" and d: "decode e' t = Inr (stored v)"
    using assms(1) by (rule decode_encode)
  with e have d: "decode e t = Inr (stored v)" by simp
  have ne: "e \<noteq> []" using e by (rule encode_nonempty)
  have len: "unpack_I (pyslice (pre @ (le_enc 4 (length e) @ e) @ tail) off (off + 4))
      = Inr (length e)" for tail
    using uint.read_field_at [OF _ assms(3), of 4 "length e" "le_enc 4 (length e)" "e @ tail"] l
    by simp
  have val: "pyslice (pre @ (le_enc 4 (length e) @ e) @ tail) (off + 4) (off + 4 + length e) = e"
    for tail using assms(3) by (simp add: pyslice_def)
  show ?thesis
    by (rule that [OF bs ps]) (use len val d ne assms(3) in \<open>simp add: add.assoc\<close>)
qed

lemma decode_cells_encoded:
  "row_fits sch vs \<Longrightarrow> encode_cells (zip vs sch) = Inr bs \<Longrightarrow> length pre = off \<Longrightarrow>
   decode_cells (pre @ bs @ pad) off sch = Inr (map stored vs)"
proof (induction sch arbitrary: vs bs pre off)
  case Nil
  then show ?case by (cases vs) auto
next
  case (Cons c sch)
  obtain n t where c: "c = (n, t)" by (cases c)
  with Cons.prems obtain v ws where vs: "vs = v # ws" and f: "fits t v" and ws: "row_fits sch ws"
    by (cases vs) auto
  have ec: "encode_cells ((v, n, t) # zip ws sch) = Inr bs"
    using Cons.prems(2) by (simp add: c vs)
  obtain cell ps where bs: "bs = cell @ ps" and ps: "encode_cells (zip ws sch) = Inr ps"
    and step: "\<And>tail sch. decode_cells (pre @ cell @ tail) off ((n, t) # sch)
      = rbind (decode_cells (pre @ cell @ tail) (length (pre @ cell)) sch)
          (\<lambda>vs. Inr (stored v # vs))"
    by (rule decode_cells_step [OF f ec Cons.prems(3)]) blast
  have "decode_cells ((pre @ cell) @ ps @ pad) (length (pre @ cell)) sch = Inr (map stored ws)"
    by (rule Cons.IH [OF ws ps]) simp
  with step [of "ps @ pad" sch] show ?case by (simp add: c vs bs)
qed

text \<open>The layout of an encoded row: its rowid can be read, and its columns come back.\<close>

lemma encode_row_total:
  assumes "row_fits sch vs" and "rowid < 256 ^ 8" and "length sch < 256 ^ 2"
  shows "\<exists>bs. encode_row vs sch rowid = Inr bs"
  using encode_cells_total [OF assms(1)] assms(2,3) by (auto simp: encode_row_def)

lemma decode_row_encoded:
  assumes "row_fits sch vs" and "encode_row vs sch rowid = Inr bs"
  shows "decode_row (bs @ pad) sch = Inr (map stored vs)"
    and "decode_rowid (bs @ pad) = Inr rowid"
proof -
  from assms(2) obtain ps where ps: "encode_cells (zip vs sch) = Inr ps" and r: "rowid < 256 ^ 8"
    and bs: "bs = (le_enc 8 rowid @ le_enc 2 (length sch)) @ ps"
    by (auto simp: encode_row_def)
  show "decode_row (bs @ pad) sch = Inr (map stored vs)"
    unfolding decode_row_def bs append_assoc [of _ ps pad]
    by (rule decode_cells_encoded [OF assms(1) ps]) simp
  show "decode_rowid (bs @ pad) = Inr rowid"
    using r by (simp add: decode_rowid_def bs)
qed

lemma decode_row_length: "decode_row raw sch = Inr vs \<Longrightarrow> length vs = length sch"
proof -
  have "decode_cells raw off sch = Inr vs \<Longrightarrow> length vs = length sch" for off
    by (induction sch arbitrary: off vs) (fastforce split: if_splits)+
  then show "decode_row raw sch = Inr vs \<Longrightarrow> length vs = length sch"
    by (simp add: decode_row_def)
qed

section \<open>Properties\<close>

text \<open>
  C16: writing a row and reading it back, with any bytes after it (the padding a shorter
  update leaves), returns its rowid and every value of the row, except that the INT 0 and
  the FLOAT 0.0 come back as NULL.
\<close>

theorem row_roundtrip:
  assumes "row_fits sch vs" and "rowid < 2 ^ 64" and "length sch < 2 ^ 16"
  shows "\<exists>bs. encode_row vs sch rowid = Inr bs
           \<and> (\<forall>pad. decode_row (bs @ pad) sch = Inr (map stored vs)
                \<and> decode_rowid (bs @ pad) = Inr rowid)"
proof -
  obtain bs where "encode_row vs sch rowid = Inr bs"
    using encode_row_total [OF assms(1), of rowid] assms(2,3) by auto
  then show ?thesis using decode_row_encoded [OF assms(1)] by blast
qed

lemma row_roundtrip_witness:
  "\<exists>bs. encode_row [PInt 7, PNone, PText (str ''a'')] [(str ''id'', T_INT), (str ''n'', T_FLOAT), (str ''t'', T_TEXT)] 3 = Inr bs
      \<and> (\<forall>pad. decode_row (bs @ pad) [(str ''id'', T_INT), (str ''n'', T_FLOAT), (str ''t'', T_TEXT)]
                = Inr [PInt 7, PNone, PText (str ''a'')]
           \<and> decode_rowid (bs @ pad) = Inr 3)"
  using row_roundtrip [of "[(str ''id'', T_INT), (str ''n'', T_FLOAT), (str ''t'', T_TEXT)]" "[PInt 7, PNone, PText (str ''a'')]" 3]
  by (simp add: int64_min_def int64_max_def is_scalar_def is_surrogate_def utf8_char_def str_def stored_def)

end
