(* ===== verification/CatalogCodec.thy ===== *)
theory CatalogCodec
  imports RowLayout
begin

text \<open>
  tinydb/catalog_codec.py: the bytes of the catalog, \<open>[table_count u16]\<close> and for each table
  \<open>[name_len u16][name][root_page_id u32][col_count u16]\<close> and its columns, each
  \<open>[name_len u16][name][type_len u16][type]\<close>; names in UTF-8. Decoding walks the bytes at
  a running offset.
\<close>

record table_meta =
  tm_name :: pystr
  root_page_id :: nat
  tm_schema :: schema
  row_count :: nat
  indexes :: "(pystr \<times> nat) list"

definition mk_meta :: "pystr \<Rightarrow> nat \<Rightarrow> schema \<Rightarrow> table_meta" where
  "mk_meta n r s = \<lparr>tm_name = n, root_page_id = r, tm_schema = s, row_count = 0, indexes = []\<rparr>"

section \<open>Encoding\<close>

text \<open>A UTF-8 string with its length in a u16.\<close>

definition encode_name :: "pystr \<Rightarrow> py_error + byte list" where
  "encode_name s =
     rbind (utf8_encode s) (\<lambda>b. rbind (pack_H (length b)) (\<lambda>l. Inr (l @ b)))"

fun encode_columns :: "schema \<Rightarrow> py_error + byte list" where
  "encode_columns [] = Inr []"
| "encode_columns ((n, t) # sch) =
     rbind (encode_name n) (\<lambda>nb.
     rbind (encode_name (type_value t)) (\<lambda>tb.
     rbind (encode_columns sch) (\<lambda>rest. Inr (nb @ tb @ rest))))"

fun encode_entries :: "table_meta list \<Rightarrow> py_error + byte list" where
  "encode_entries [] = Inr []"
| "encode_entries (e # es) =
     rbind (encode_name (tm_name e)) (\<lambda>nb.
     rbind (pack_I (root_page_id e)) (\<lambda>rb.
     rbind (pack_H (length (tm_schema e))) (\<lambda>cb.
     rbind (encode_columns (tm_schema e)) (\<lambda>cols.
     rbind (encode_entries es) (\<lambda>rest. Inr (nb @ rb @ cb @ cols @ rest))))))"

definition encode_catalog :: "table_meta list \<Rightarrow> py_error + byte list" where
  "encode_catalog entries =
     rbind (pack_H (length entries)) (\<lambda>c.
     rbind (encode_entries entries) (\<lambda>es. Inr (c @ es)))"

section \<open>Decoding\<close>

text \<open>The two statements \<open>n = unpack(raw[o:o+2]); s = raw[o+2:o+2+n].decode()\<close> and the new offset.\<close>

definition decode_name :: "byte list \<Rightarrow> nat \<Rightarrow> py_error + pystr \<times> nat" where
  "decode_name raw offset =
     rbind (unpack_H (pyslice raw offset (offset + 2))) (\<lambda>n.
     rbind (utf8_decode (pyslice raw (offset + 2) (offset + 2 + n))) (\<lambda>s.
     Inr (s, offset + 2 + n)))"

fun decode_columns :: "nat \<Rightarrow> byte list \<Rightarrow> nat \<Rightarrow> py_error + schema \<times> nat" where
  "decode_columns 0 raw offset = Inr ([], offset)"
| "decode_columns (Suc k) raw offset =
     rbind (decode_name raw offset) (\<lambda>(n, o1).
     rbind (decode_name raw o1) (\<lambda>(tn, o2).
     rbind (column_type_of tn) (\<lambda>t.
     rbind (decode_columns k raw o2) (\<lambda>(sch, o3). Inr ((n, t) # sch, o3)))))"

fun decode_entries :: "nat \<Rightarrow> byte list \<Rightarrow> nat \<Rightarrow> py_error + table_meta list" where
  "decode_entries 0 raw offset = Inr []"
| "decode_entries (Suc k) raw offset =
     rbind (decode_name raw offset) (\<lambda>(n, o1).
     rbind (unpack_I (pyslice raw o1 (o1 + 4))) (\<lambda>root.
     rbind (unpack_H (pyslice raw (o1 + 4) (o1 + 4 + 2))) (\<lambda>cols.
     rbind (decode_columns cols raw (o1 + 4 + 2)) (\<lambda>(sch, o2).
     rbind (decode_entries k raw o2) (\<lambda>es. Inr (mk_meta n root sch # es))))))"

definition decode_catalog :: "byte list \<Rightarrow> py_error + table_meta list" where
  "decode_catalog raw =
     rbind (unpack_H (pyslice raw 0 2)) (\<lambda>count. decode_entries count raw 2)"

section \<open>The round trip\<close>

text \<open>What the bytes keep of an entry: the two runtime fields are not persisted.\<close>

definition persisted :: "table_meta \<Rightarrow> table_meta" where
  "persisted e = mk_meta (tm_name e) (root_page_id e) (tm_schema e)"

lemma decode_name_encoded:
  assumes "encode_name s = Inr bs" and "length pre = off"
  shows "decode_name (pre @ bs @ rest) off = Inr (s, off + length bs)"
proof -
  from assms(1) obtain b where b: "utf8_encode s = Inr b" "length b < 256 ^ 2"
    and bs: "bs = le_enc 2 (length b) @ b"
    by (auto simp: encode_name_def)
  have "unpack_H (pyslice (pre @ bs @ rest) off (off + 2)) = Inr (length b)"
    using uint.read_field_at [OF _ assms(2), of 2 "length b" "le_enc 2 (length b)" "b @ rest"] b(2)
    by (simp add: bs)
  moreover have "pyslice (pre @ bs @ rest) (off + 2) (off + 2 + length b) = b"
    using assms(2) by (simp add: bs pyslice_def)
  ultimately show ?thesis
    using utf8_roundtrip [OF b(1)] by (simp add: decode_name_def bs)
qed

lemma decode_columns_encoded:
  "encode_columns sch = Inr bs \<Longrightarrow> length pre = off \<Longrightarrow>
   decode_columns (length sch) (pre @ bs @ rest) off = Inr (sch, off + length bs)"
proof (induction sch arbitrary: bs pre off)
  case Nil
  then show ?case by simp
next
  case (Cons c sch)
  obtain n t where c: "c = (n, t)" by (cases c)
  with Cons.prems obtain nb tb cb where nb: "encode_name n = Inr nb"
    and tb: "encode_name (type_value t) = Inr tb" and cb: "encode_columns sch = Inr cb"
    and bs: "bs = nb @ tb @ cb" by auto
  have 1: "decode_name (pre @ nb @ tb @ cb @ rest) off = Inr (n, off + length nb)"
    by (rule decode_name_encoded [OF nb Cons.prems(2)])
  have 2: "decode_name ((pre @ nb) @ tb @ cb @ rest) (off + length nb)
      = Inr (type_value t, off + length nb + length tb)"
    by (rule decode_name_encoded [OF tb]) (simp add: Cons.prems(2))
  have 3: "decode_columns (length sch) ((pre @ nb @ tb) @ cb @ rest) (off + length nb + length tb)
      = Inr (sch, off + length nb + length tb + length cb)"
    by (rule Cons.IH [OF cb]) (simp add: Cons.prems(2))
  from 1 2 3 show ?case by (simp add: c bs add.assoc)
qed

lemma decode_entries_encoded:
  "encode_entries es = Inr bs \<Longrightarrow> length pre = off \<Longrightarrow>
   decode_entries (length es) (pre @ bs @ rest) off = Inr (map persisted es)"
proof (induction es arbitrary: bs pre off)
  case Nil
  then show ?case by simp
next
  case (Cons e es)
  let ?sch = "tm_schema e"
  from Cons.prems obtain nb cols eb where nb: "encode_name (tm_name e) = Inr nb"
    and r: "root_page_id e < 256 ^ 4" and l: "length ?sch < 256 ^ 2"
    and cols: "encode_columns ?sch = Inr cols" and eb: "encode_entries es = Inr eb"
    and bs: "bs = nb @ le_enc 4 (root_page_id e) @ le_enc 2 (length ?sch) @ cols @ eb" by auto
  let ?raw = "pre @ nb @ le_enc 4 (root_page_id e) @ le_enc 2 (length ?sch) @ cols @ eb @ rest"
  let ?o = "off + length nb"
  have 1: "decode_name ?raw off = Inr (tm_name e, ?o)"
    by (rule decode_name_encoded [OF nb Cons.prems(2)])
  have "unpack_I (pyslice ((pre @ nb) @ le_enc 4 (root_page_id e)
      @ le_enc 2 (length ?sch) @ cols @ eb @ rest) ?o (?o + 4)) = Inr (root_page_id e)"
    by (rule uint.read_field_at) (use r Cons.prems(2) in auto)
  then have 2: "unpack_I (pyslice ?raw ?o (?o + 4)) = Inr (root_page_id e)" by simp
  have "unpack_H (pyslice ((pre @ nb @ le_enc 4 (root_page_id e))
      @ le_enc 2 (length ?sch) @ cols @ eb @ rest) (?o + 4) (?o + 4 + 2)) = Inr (length ?sch)"
    by (rule uint.read_field_at) (use l Cons.prems(2) in auto)
  then have 3: "unpack_H (pyslice ?raw (?o + 4) (?o + 4 + 2)) = Inr (length ?sch)" by simp
  have "decode_columns (length ?sch) ((pre @ nb @ le_enc 4 (root_page_id e) @ le_enc 2 (length ?sch))
      @ cols @ eb @ rest) (?o + 4 + 2) = Inr (?sch, ?o + 4 + 2 + length cols)"
    by (rule decode_columns_encoded [OF cols]) (use Cons.prems(2) in auto)
  then have 4: "decode_columns (length ?sch) ?raw (?o + 4 + 2) = Inr (?sch, ?o + 4 + 2 + length cols)"
    by simp
  have "decode_entries (length es) ((pre @ nb @ le_enc 4 (root_page_id e) @ le_enc 2 (length ?sch)
      @ cols) @ eb @ rest) (?o + 4 + 2 + length cols) = Inr (map persisted es)"
    by (rule Cons.IH [OF eb]) (use Cons.prems(2) in auto)
  then have 5: "decode_entries (length es) ?raw (?o + 4 + 2 + length cols) = Inr (map persisted es)"
    by simp
  from 1 2 3 4 5 show ?case by (simp add: bs persisted_def)
qed

lemma decode_encoded_catalog:
  assumes "encode_catalog es = Inr bs"
  shows "decode_catalog (bs @ rest) = Inr (map persisted es)"
proof -
  from assms obtain eb where l: "length es < 256 ^ 2" and eb: "encode_entries es = Inr eb"
    and bs: "bs = le_enc 2 (length es) @ eb" by (auto simp: encode_catalog_def)
  have "decode_entries (length es) (le_enc 2 (length es) @ eb @ rest) 2 = Inr (map persisted es)"
    by (rule decode_entries_encoded [OF eb]) simp
  with l show ?thesis by (simp add: decode_catalog_def bs pyslice_def)
qed

text \<open>
  C17: whatever catalog is written (every name encodable and within its length field) is
  read back from the page it was written to, with any bytes after it: the same tables in
  the same order, with their names, root pages and columns.
\<close>

theorem catalog_roundtrip:
  assumes "encode_catalog es = Inr bs"
  shows "decode_catalog (bs @ rest) = Inr (map persisted es)"
  by (rule decode_encoded_catalog [OF assms])

lemma catalog_roundtrip_witness:
  "\<exists>bs. encode_catalog [mk_meta (str ''t'') 1 [(str ''id'', T_INT)]] = Inr bs
      \<and> decode_catalog (bs @ [0, 0]) = Inr (map persisted [mk_meta (str ''t'') 1 [(str ''id'', T_INT)]])"
proof -
  have "\<exists>bs. encode_catalog [mk_meta (str ''t'') 1 [(str ''id'', T_INT)]] = Inr bs"
    by (simp add: encode_catalog_def mk_meta_def encode_name_def is_scalar_def is_surrogate_def utf8_char_def str_def)
  then show ?thesis using catalog_roundtrip by blast
qed

end
