(* ===== verification/Storage.thy ===== *)
theory Storage
  imports CatalogCodec
begin

text \<open>
  tinydb/storage.py, FileStore: the database file as a byte string of fixed-size pages,
  each with an 11-byte header, the header page, and the chain of free pages. \<open>os.pread\<close>
  and \<open>os.pwrite\<close> on the file are slices of the byte string; on a closed descriptor they
  are an \<open>OSError\<close>. The interface \<open>page_store\<close> is what the layers above use of it: the
  page last written is the page read, and no other page changes.
\<close>

section \<open>Pages\<close>

datatype page_type = FREE | HEADER | TABLE | INDEX | OVERFLOW

fun page_type_value :: "page_type \<Rightarrow> nat" where
  "page_type_value FREE = 0"
| "page_type_value HEADER = 1"
| "page_type_value TABLE = 2"
| "page_type_value INDEX = 3"
| "page_type_value OVERFLOW = 4"

text \<open>\<open>PageType(n)\<close> raises \<open>ValueError\<close> outside the enum.\<close>

definition page_type_of :: "nat \<Rightarrow> py_error + page_type" where
  "page_type_of n =
     (if n = 0 then Inr FREE else if n = 1 then Inr HEADER else if n = 2 then Inr TABLE
      else if n = 3 then Inr INDEX else if n = 4 then Inr OVERFLOW else Inl ValueError)"

lemma page_type_of_value [simp]: "page_type_of (page_type_value t) = Inr t"
  by (cases t) (simp_all add: page_type_of_def)

lemma page_type_value_less [simp]: "page_type_value t < 256"
  by (cases t) simp_all

record page =
  page_id :: nat
  page_kind :: page_type
  page_lsn :: nat
  page_body :: "byte list"

definition FILE_HEADER_SIZE :: nat where
  "FILE_HEADER_SIZE = 11"

text \<open>\<open>b"TINYDB\\x00\\x00"\<close>.\<close>

definition FILE_HEADER_MAGIC :: "byte list" where
  "FILE_HEADER_MAGIC = [84, 73, 78, 89, 68, 66, 0, 0]"

definition pack_header :: "nat \<Rightarrow> page_type \<Rightarrow> nat \<Rightarrow> nat \<Rightarrow> py_error + byte list" where
  "pack_header pid t lsn body_len =
     rbind (pack_I pid) (\<lambda>a.
     rbind (pack_B (page_type_value t)) (\<lambda>b.
     rbind (pack_I lsn) (\<lambda>c.
     rbind (pack_H body_len) (\<lambda>d. Inr (a @ b @ c @ d)))))"

definition unpack_header :: "byte list \<Rightarrow> py_error + nat \<times> page_type \<times> nat \<times> nat" where
  "unpack_header raw =
     (let h = take FILE_HEADER_SIZE raw in
      if length h \<noteq> FILE_HEADER_SIZE then Inl StructError
      else rbind (page_type_of (le_dec (pyslice h 4 5))) (\<lambda>t.
        Inr (le_dec (pyslice h 0 4), t, le_dec (pyslice h 5 9), le_dec (pyslice h 9 11))))"

definition pad_body :: "byte list \<Rightarrow> nat \<Rightarrow> byte list" where
  "pad_body body page_size =
     (let body_size = page_size - FILE_HEADER_SIZE in
      if length body \<ge> body_size then take body_size body
      else body @ replicate (body_size - length body) 0)"

lemma length_pad_body [simp]: "length (pad_body body n) = n - FILE_HEADER_SIZE"
  by (simp add: pad_body_def Let_def min_def)

lemma pack_header_Inr:
  "pack_header pid t lsn n = Inr h \<longleftrightarrow>
     pid < 256 ^ 4 \<and> lsn < 256 ^ 4 \<and> n < 256 ^ 2 \<and>
     h = le_enc 4 pid @ le_enc 1 (page_type_value t) @ le_enc 4 lsn @ le_enc 2 n"
  using page_type_value_less [of t] by (auto simp: pack_header_def)

lemma pack_header_length: "pack_header pid t lsn n = Inr h \<Longrightarrow> length h = FILE_HEADER_SIZE"
  by (auto simp: pack_header_Inr FILE_HEADER_SIZE_def)

lemma unpack_pack_header:
  assumes "pack_header pid t lsn n = Inr h"
  shows "unpack_header (h @ rest) = Inr (pid, t, lsn, n)"
proof -
  have "take 11 (h @ rest) = h"
    using pack_header_length [OF assms] by (simp add: FILE_HEADER_SIZE_def)
  moreover have "le_dec (le_enc (Suc 0) (page_type_value t)) = page_type_value t"
    using le_dec_enc [of "page_type_value t" 1] by simp
  ultimately show ?thesis
    using assms pack_header_length [OF assms]
    by (simp add: unpack_header_def FILE_HEADER_SIZE_def pack_header_Inr pyslice_def)
qed

section \<open>The file\<close>

record file_store =
  fs_file :: "byte list"
  fs_open :: bool
  page_size :: nat
  page_count :: nat
  free_head :: nat

type_synonym 'a fsx = "(file_store, py_error, 'a) sx"

definition os_pread :: "nat \<Rightarrow> nat \<Rightarrow> file_store \<Rightarrow> py_error + byte list" where
  "os_pread n offset st =
     (if fs_open st then Inr (take n (drop offset (fs_file st))) else Inl OSError)"

text \<open>Writing beyond the end of the file leaves zeros between.\<close>

definition pwrite_bytes :: "byte list \<Rightarrow> byte list \<Rightarrow> nat \<Rightarrow> byte list" where
  "pwrite_bytes f raw offset =
     take offset (f @ replicate (offset - length f) 0) @ raw @ drop (offset + length raw) f"

definition os_pwrite :: "byte list \<Rightarrow> nat \<Rightarrow> unit fsx" where
  "os_pwrite raw offset st =
     (if fs_open st then (Inr (), st\<lparr>fs_file := pwrite_bytes (fs_file st) raw offset\<rparr>)
      else (Inl OSError, st))"

lemma pwrite_append: "pwrite_bytes f raw (length f) = f @ raw"
  by (simp add: pwrite_bytes_def)

lemma length_pwrite [simp]:
  "offset + length raw \<le> length f \<Longrightarrow> length (pwrite_bytes f raw offset) = length f"
  by (simp add: pwrite_bytes_def)

lemma pread_pwrite_same:
  "offset + length raw \<le> length f \<Longrightarrow>
   take (length raw) (drop offset (pwrite_bytes f raw offset)) = raw"
  by (simp add: pwrite_bytes_def)

lemma pread_pwrite_other:
  assumes "offset + length raw \<le> length f" and "o2 + n \<le> offset \<or> offset + length raw \<le> o2"
  shows "take n (drop o2 (pwrite_bytes f raw offset)) = take n (drop o2 f)"
  using assms(2)
proof
  assume "o2 + n \<le> offset"
  with assms(1) show ?thesis
    by (simp add: pwrite_bytes_def take_drop min_def add.commute)
next
  assume "offset + length raw \<le> o2"
  with assms(1) show ?thesis
    by (simp add: pwrite_bytes_def)
qed

section \<open>FileStore operations\<close>

definition raw_read :: "nat \<Rightarrow> file_store \<Rightarrow> py_error + byte list" where
  "raw_read pid st = os_pread (page_size st) (pid * page_size st) st"

definition read_page :: "nat \<Rightarrow> file_store \<Rightarrow> py_error + page" where
  "read_page pid st =
     rbind (raw_read pid st) (\<lambda>raw.
     rbind (unpack_header raw) (\<lambda>(i, t, lsn, body_len).
     Inr \<lparr>page_id = i, page_kind = t, page_lsn = lsn,
          page_body = pyslice raw FILE_HEADER_SIZE (FILE_HEADER_SIZE + body_len)\<rparr>))"

definition write_page :: "page \<Rightarrow> unit fsx" where
  "write_page pg =
     sbind sget (\<lambda>st.
     sbind (slift (pack_header (page_id pg) (page_kind pg) (page_lsn pg) (length (page_body pg))))
       (\<lambda>h. os_pwrite (h @ pad_body (page_body pg) (page_size st)) (page_id pg * page_size st)))"

text \<open>\<open>os.fsync\<close> is the durability boundary; in the model it only needs an open file.\<close>

definition fsync :: "unit fsx" where
  "fsync st = (if fs_open st then (Inr (), st) else (Inl OSError, st))"

definition new_page :: "nat \<Rightarrow> page_type \<Rightarrow> page" where
  "new_page pid t = \<lparr>page_id = pid, page_kind = t, page_lsn = 0, page_body = []\<rparr>"

definition alloc_page :: "page_type \<Rightarrow> nat fsx" where
  "alloc_page t =
     sbind sget (\<lambda>st.
     if free_head st \<noteq> 0 then
       (let pid = free_head st in
        sbind (sread (raw_read pid)) (\<lambda>raw.
        sbind (slift (unpack_I (pyslice raw FILE_HEADER_SIZE (FILE_HEADER_SIZE + 4)))) (\<lambda>next.
        sbind (smodify (\<lambda>s. s\<lparr>free_head := next\<rparr>)) (\<lambda>_.
        sbind (write_page (new_page pid t)) (\<lambda>_. sret pid)))))
     else
       (let pid = page_count st in
        sbind (smodify (\<lambda>s. s\<lparr>page_count := page_count s + 1\<rparr>)) (\<lambda>_.
        sbind (write_page (new_page pid t)) (\<lambda>_. sret pid))))"

definition free_page :: "nat \<Rightarrow> unit fsx" where
  "free_page pid =
     (if pid = 0 then sraise ValueError
      else
        sbind sget (\<lambda>st.
        sbind (slift (pack_I (free_head st))) (\<lambda>next_head.
        sbind (slift (pack_header pid FREE 0 (length next_head))) (\<lambda>h.
        sbind (os_pwrite (h @ pad_body next_head (page_size st)) (pid * page_size st)) (\<lambda>_.
        smodify (\<lambda>s. s\<lparr>free_head := pid\<rparr>))))))"

section \<open>Opening and closing\<close>

text \<open>\<open>struct.Struct("<8s I I")\<close>: magic, page_size, free_head.\<close>

definition pack_file_meta :: "nat \<Rightarrow> nat \<Rightarrow> py_error + byte list" where
  "pack_file_meta psize fhead =
     rbind (pack_I psize) (\<lambda>a. rbind (pack_I fhead) (\<lambda>b. Inr (FILE_HEADER_MAGIC @ a @ b)))"

definition unpack_file_meta :: "byte list \<Rightarrow> py_error + byte list \<times> nat \<times> nat" where
  "unpack_file_meta raw =
     (if length raw \<noteq> 16 then Inl StructError
      else Inr (take 8 raw, le_dec (pyslice raw 8 12), le_dec (pyslice raw 12 16)))"

text \<open>
  \<open>FileStore.open\<close> on a file whose bytes are \<open>content\<close> (empty: just created), up to the
  construction of the store; the replay of a sibling log is added in the theory Wal.
\<close>

definition open_file :: "byte list \<Rightarrow> nat \<Rightarrow> py_error + file_store" where
  "open_file content psize =
     (if \<not> (512 \<le> psize \<and> psize \<le> 65536) then Inl ValueError
      else if content = [] then
        rbind (pack_file_meta psize 0) (\<lambda>header_body.
        rbind (pack_header 0 HEADER 0 (length header_body)) (\<lambda>h.
        Inr \<lparr>fs_file = h @ pad_body header_body psize, fs_open = True, page_size = psize,
             page_count = 1, free_head = 0\<rparr>))
      else
        (let raw = take psize content in
         rbind (unpack_header raw) (\<lambda>(_, t, _, _).
         if t \<noteq> HEADER then Inl RuntimeError
         else
           rbind (unpack_file_meta (take 16 (drop FILE_HEADER_SIZE raw))) (\<lambda>(magic, rsize, fhead).
           if magic \<noteq> FILE_HEADER_MAGIC then Inl RuntimeError
           else if rsize \<noteq> psize then Inl RuntimeError
           else Inr \<lparr>fs_file = content, fs_open = True, page_size = psize,
                     page_count = length content div psize, free_head = fhead\<rparr>))))"

definition flush_free_head :: "unit fsx" where
  "flush_free_head =
     sbind (sread (read_page 0)) (\<lambda>pg.
     sbind sget (\<lambda>st.
     let body = page_body pg @ replicate (16 - length (page_body pg)) 0 in
     sbind (slift (pack_file_meta (page_size st) (free_head st))) (\<lambda>m.
     let body' = slice_assign body 0 16 m in
     sbind (slift (pack_header 0 HEADER 0 (length body'))) (\<lambda>h.
     os_pwrite (h @ pad_body body' (page_size st)) 0))))"

definition close_store :: "unit fsx" where
  "close_store =
     sbind sget (\<lambda>st.
     if fs_open st then
       sbind flush_free_head (\<lambda>_.
       sbind fsync (\<lambda>_. smodify (\<lambda>s. s\<lparr>fs_open := False\<rparr>)))
     else sret ())"

section \<open>The interface of a page store\<close>

text \<open>
  What fits on a page: the body within the capacity, the LSN within its field.
\<close>

definition storable :: "nat \<Rightarrow> page \<Rightarrow> bool" where
  "storable cap pg \<longleftrightarrow> length (page_body pg) \<le> cap \<and> page_lsn pg < 256 ^ 4"

text \<open>
  The idiom of every layer above: read a page, replace its body, write it back.
\<close>

definition put_body ::
  "(nat \<Rightarrow> 's \<Rightarrow> py_error + page) \<Rightarrow> (page \<Rightarrow> ('s, py_error, unit) sx) \<Rightarrow>
   nat \<Rightarrow> byte list \<Rightarrow> ('s, py_error, unit) sx" where
  "put_body rd wr pid body = sbind (sread (rd pid)) (\<lambda>pg. wr (pg\<lparr>page_body := body\<rparr>))"

text \<open>The body a page ends with after a sequence of body updates.\<close>

fun last_body :: "(nat \<times> byte list) list \<Rightarrow> nat \<Rightarrow> byte list \<Rightarrow> byte list" where
  "last_body [] pid b = b"
| "last_body ((p, b') # us) pid b = last_body us pid (if p = pid then b' else b)"

lemma last_body_append: "last_body (us @ vs) pid b = last_body vs pid (last_body us pid b)"
  by (induction us arbitrary: b) auto

lemma last_body_absent: "pid \<notin> fst ` set us \<Longrightarrow> last_body us pid b = b"
  by (induction us) auto

lemma last_body_distinct:
  "distinct (map fst us) \<Longrightarrow> (pid, b') \<in> set us \<Longrightarrow> last_body us pid b = b'"
proof (induction us arbitrary: b)
  case (Cons u us)
  obtain p c where u: "u = (p, c)" by (cases u)
  show ?case
  proof (cases "u = (pid, b')")
    case True
    with Cons.prems(1) have "pid \<notin> fst ` set us" by simp
    then show ?thesis using True by (simp add: last_body_absent)
  next
    case False
    with Cons.prems(2) have "(pid, b') \<in> set us" by auto
    moreover from this have "p \<noteq> pid" using Cons.prems(1) by (force simp: u)
    ultimately show ?thesis using Cons by (simp add: u)
  qed
qed simp

locale page_store =
  fixes rd :: "nat \<Rightarrow> 's \<Rightarrow> py_error + page"
    and wr :: "page \<Rightarrow> ('s, py_error, unit) sx"
    and ok :: "'s \<Rightarrow> bool"
    and has :: "'s \<Rightarrow> nat \<Rightarrow> bool"
    and cap :: "'s \<Rightarrow> nat"
  assumes rd_ok: "ok s \<Longrightarrow> has s p \<Longrightarrow> \<exists>pg. rd p s = Inr pg \<and> page_id pg = p \<and> storable (cap s) pg"
    and wr_ok: "ok s \<Longrightarrow> has s (page_id pg) \<Longrightarrow> storable (cap s) pg \<Longrightarrow>
      \<exists>s'. wr pg s = (Inr (), s') \<and> ok s' \<and> has s' = has s \<and> cap s' = cap s
         \<and> rd (page_id pg) s' = Inr pg
         \<and> (\<forall>q. has s q \<longrightarrow> q \<noteq> page_id pg \<longrightarrow> rd q s' = rd q s)"
begin

lemma put_body_ok:
  assumes "ok s" and "has s p" and "rd p s = Inr pg" and "length b \<le> cap s"
  obtains s' where "put_body rd wr p b s = (Inr (), s')" and "ok s'" and "has s' = has s"
    and "cap s' = cap s" and "rd p s' = Inr (pg\<lparr>page_body := b\<rparr>)"
    and "\<And>q. has s q \<Longrightarrow> q \<noteq> p \<Longrightarrow> rd q s' = rd q s"
proof -
  have pg: "page_id pg = p" "storable (cap s) pg" using rd_ok [OF assms(1,2)] assms(3) by auto
  let ?pg = "pg\<lparr>page_body := b\<rparr>"
  have st: "storable (cap s) ?pg" using pg(2) assms(4) by (simp add: storable_def)
  have "has s (page_id ?pg)" using assms(2) pg(1) by simp
  from wr_ok [OF assms(1) this st] obtain s' where s':
    "wr ?pg s = (Inr (), s')" "ok s'" "has s' = has s" "cap s' = cap s"
    "rd p s' = Inr ?pg" "\<forall>q. has s q \<longrightarrow> q \<noteq> p \<longrightarrow> rd q s' = rd q s"
    using pg(1) by auto
  show ?thesis
    by (rule that [of s']) (use s' assms(3) in \<open>auto simp: put_body_def\<close>)
qed

text \<open>
  A sequence of body updates: every page ends with the last body written to it, keeping
  its kind and LSN.
\<close>

lemma put_bodies_ok:
  assumes "ok s" and "\<And>p b. (p, b) \<in> set us \<Longrightarrow> has s p \<and> length b \<le> cap s"
  obtains s' where "sfor us (\<lambda>(p, b). put_body rd wr p b) s = (Inr (), s')" and "ok s'"
    and "has s' = has s" and "cap s' = cap s"
    and "\<And>q pg. has s q \<Longrightarrow> rd q s = Inr pg \<Longrightarrow>
           rd q s' = Inr (pg\<lparr>page_body := last_body us q (page_body pg)\<rparr>)"
  using assms
proof (induction us arbitrary: s thesis)
  case Nil
  show ?case by (rule Nil.prems(1) [of s]) (use Nil.prems(2) in simp_all)
next
  case (Cons u us)
  obtain p b where u: "u = (p, b)" by (cases u)
  have pb: "has s p" "length b \<le> cap s" using Cons.prems(3) [of p b] u by auto
  obtain pg where pg: "rd p s = Inr pg" using rd_ok [OF Cons.prems(2) pb(1)] by blast
  obtain s1 where s1: "put_body rd wr p b s = (Inr (), s1)" "ok s1" "has s1 = has s"
      "cap s1 = cap s" "rd p s1 = Inr (pg\<lparr>page_body := b\<rparr>)"
    and fr: "\<And>q. has s q \<Longrightarrow> q \<noteq> p \<Longrightarrow> rd q s1 = rd q s"
    by (rule put_body_ok [OF Cons.prems(2) pb(1) pg pb(2)]) blast
  have us: "has s1 q \<and> length c \<le> cap s1" if "(q, c) \<in> set us" for q c
    using Cons.prems(3) [of q c] that by (simp add: s1)
  obtain s2 where s2: "sfor us (\<lambda>(p, b). put_body rd wr p b) s1 = (Inr (), s2)" "ok s2"
      "has s2 = has s1" "cap s2 = cap s1"
    and r2: "\<And>q pg. has s1 q \<Longrightarrow> rd q s1 = Inr pg \<Longrightarrow>
       rd q s2 = Inr (pg\<lparr>page_body := last_body us q (page_body pg)\<rparr>)"
    using Cons.IH [OF _ s1(2) us] by blast
  show ?case
  proof (rule Cons.prems(1) [of s2])
    show "sfor (u # us) (\<lambda>(p, b). put_body rd wr p b) s = (Inr (), s2)"
      using s1(1) s2(1) by (simp add: u)
    show "rd q s2 = Inr (pg'\<lparr>page_body := last_body (u # us) q (page_body pg')\<rparr>)"
      if "has s q" and "rd q s = Inr pg'" for q pg'
    proof (cases "q = p")
      case True
      then show ?thesis using r2 [of p] s1(3,5) that pg by (simp add: u)
    next
      case False
      then show ?thesis using r2 [of q pg'] s1(3) fr [OF that(1)] that by (simp add: u)
    qed
  qed (use s1 s2 in simp_all)
qed

end

section \<open>The file store keeps its pages\<close>

definition capacity :: "file_store \<Rightarrow> nat" where
  "capacity st = page_size st - FILE_HEADER_SIZE"

definition has_page :: "file_store \<Rightarrow> nat \<Rightarrow> bool" where
  "has_page st p \<longleftrightarrow> p < page_count st"

text \<open>
  A well-formed store: an open file that is exactly its pages, each with a readable
  header that carries the page's own number.
\<close>

definition wf_store :: "file_store \<Rightarrow> bool" where
  "wf_store st \<longleftrightarrow>
     fs_open st \<and> 512 \<le> page_size st \<and> page_size st \<le> 65536
     \<and> 0 < page_count st \<and> page_count st < 256 ^ 4
     \<and> length (fs_file st) = page_count st * page_size st
     \<and> (\<forall>p < page_count st. case read_page p st of Inl _ \<Rightarrow> False | Inr pg \<Rightarrow> page_id pg = p)"

lemma le_dec_slice_bound: "le_dec (pyslice xs a b) < 256 ^ (b - a)"
proof -
  have "le_dec (pyslice xs a b) < 256 ^ length (pyslice xs a b)" by (rule le_dec_bound)
  also have "\<dots> \<le> 256 ^ (b - a)"
    by (rule power_increasing) (simp_all add: pyslice_length)
  finally show ?thesis .
qed

lemma read_page_storable:
  assumes "read_page p st = Inr pg"
  shows "storable (capacity st) pg"
proof -
  from assms obtain raw i t lsn n where raw: "raw_read p st = Inr raw"
    and h: "unpack_header raw = Inr (i, t, lsn, n)"
    and pg: "pg = \<lparr>page_id = i, page_kind = t, page_lsn = lsn,
       page_body = pyslice raw FILE_HEADER_SIZE (FILE_HEADER_SIZE + n)\<rparr>"
    by (auto simp: read_page_def)
  have "length raw \<le> page_size st"
    using raw by (auto simp: raw_read_def os_pread_def split: if_splits)
  moreover have "lsn < 256 ^ 4"
    using h le_dec_slice_bound [of "take FILE_HEADER_SIZE raw" 5 9]
    by (auto simp: unpack_header_def Let_def split: if_splits)
  ultimately show ?thesis
    by (auto simp: pg storable_def capacity_def pyslice_length)
qed

text \<open>The bytes written for a page read back as that page, its body cut to the capacity.\<close>

lemma page_image:
  assumes "pack_header (page_id pg) (page_kind pg) (page_lsn pg) (length (page_body pg)) = Inr h"
  shows "unpack_header (h @ pad_body (page_body pg) psize)
           = Inr (page_id pg, page_kind pg, page_lsn pg, length (page_body pg))"
    and "pyslice (h @ pad_body (page_body pg) psize) FILE_HEADER_SIZE
           (FILE_HEADER_SIZE + length (page_body pg)) = take (psize - FILE_HEADER_SIZE) (page_body pg)"
  using unpack_pack_header [OF assms] pack_header_length [OF assms]
  by (auto simp: pyslice_def pad_body_def Let_def)

lemma raw_read_at:
  "fs_open st \<Longrightarrow> raw_read p st = Inr (take (page_size st) (drop (p * page_size st) (fs_file st)))"
  by (simp add: raw_read_def os_pread_def)

lemma wf_storeD:
  assumes "wf_store st"
  shows "fs_open st" "512 \<le> page_size st" "page_size st \<le> 65536" "0 < page_count st"
    "page_count st < 256 ^ 4" "length (fs_file st) = page_count st * page_size st"
  using assms by (auto simp: wf_store_def)

lemma page_region: "p < n \<Longrightarrow> p * k + k \<le> n * (k::nat)"
  by (metis Suc_leI mult_Suc mult_le_mono1 add.commute)

lemma page_regions_disjoint: "q \<noteq> p \<Longrightarrow> q * k + k \<le> p * k \<or> p * k + k \<le> q * (k::nat)"
  by (metis linorder_neqE_nat page_region)

text \<open>The bytes of a file of \<open>n\<close> pages, one of them written or a new one added.\<close>

lemma image_bytes:
  assumes f: "length f = n * k" and p: "p \<le> n" and raw: "length raw = k"
  shows "length (pwrite_bytes f raw (p * k)) = max n (p + 1) * k"
    and "take k (drop (p * k) (pwrite_bytes f raw (p * k))) = raw"
    and "q < n \<Longrightarrow> q \<noteq> p \<Longrightarrow> take k (drop (q * k) (pwrite_bytes f raw (p * k))) = take k (drop (q * k) f)"
proof -
  have new: "pwrite_bytes f raw (p * k) = f @ raw" if "p = n" using pwrite_append [of f raw] f that by simp
  have old: "p * k + length raw \<le> length f" if "p \<noteq> n" using page_region [of p n k] p f raw that by simp
  show "length (pwrite_bytes f raw (p * k)) = max n (p + 1) * k"
    using new old p f raw by (cases "p = n") (simp_all add: max_def)
  show "take k (drop (p * k) (pwrite_bytes f raw (p * k))) = raw"
    using new old f raw pread_pwrite_same [of "p * k" raw f] by (cases "p = n") simp_all
  show "take k (drop (q * k) (pwrite_bytes f raw (p * k))) = take k (drop (q * k) f)" if q: "q < n" "q \<noteq> p"
  proof (cases "p = n")
    case True
    then show ?thesis using new page_region [OF q(1), of k] f by simp
  next
    case False
    then show ?thesis
      using pread_pwrite_other [OF old [OF False]] page_regions_disjoint [OF q(2), of k] raw by simp
  qed
qed

text \<open>
  Writing the image of a page at its place, for a page of the file or the next new one:
  the store stays well-formed and only that page changes.
\<close>

lemma write_image:
  assumes wf: "wf_store st" and p: "page_id pg \<le> page_count st" and pc: "page_id pg + 1 < 256 ^ 4"
    and h: "pack_header (page_id pg) (page_kind pg) (page_lsn pg) (length (page_body pg)) = Inr h"
    and st': "st' = st\<lparr>fs_file := pwrite_bytes (fs_file st)
        (h @ pad_body (page_body pg) (page_size st)) (page_id pg * page_size st),
        page_count := max (page_count st) (page_id pg + 1), free_head := fh\<rparr>"
  shows "wf_store st'"
    and "read_page (page_id pg) st' = Inr (pg\<lparr>page_body := take (capacity st) (page_body pg)\<rparr>)"
    and "\<And>q. q < page_count st \<Longrightarrow> q \<noteq> page_id pg \<Longrightarrow> read_page q st' = read_page q st"
proof -
  let ?raw = "h @ pad_body (page_body pg) (page_size st)" and ?k = "page_size st"
  let ?p = "page_id pg" and ?f = "fs_file st"
  note d = wf_storeD [OF wf]
  have lr: "length ?raw = ?k"
    using pack_header_length [OF h] d(2) by (simp add: FILE_HEADER_SIZE_def)
  note b = image_bytes [OF d(6) p lr]
  have lf: "length (fs_file st') = page_count st' * ?k" and same: "take ?k (drop (?p * ?k) (fs_file st')) = ?raw"
    using b(1,2) by (simp_all add: st')
  have other: "take ?k (drop (q * ?k) (fs_file st')) = take ?k (drop (q * ?k) ?f)"
    if "q < page_count st" "q \<noteq> ?p" for q
    using b(3) [OF that] by (simp add: st')
  have op: "fs_open st'" "page_size st' = ?k" using d(1) by (simp_all add: st')
  show rp: "read_page ?p st' = Inr (pg\<lparr>page_body := take (capacity st) (page_body pg)\<rparr>)"
    using page_image [OF h] by (simp add: read_page_def raw_read_at [OF op(1)] op(2) same capacity_def)
  show ro: "read_page q st' = read_page q st" if "q < page_count st" "q \<noteq> ?p" for q
    using other [OF that] by (simp add: read_page_def raw_read_at [OF op(1)] raw_read_at [OF d(1)] op(2))
  have "case read_page q st' of Inl _ \<Rightarrow> False | Inr pg \<Rightarrow> page_id pg = q" if "q < page_count st'" for q
  proof (cases "q = ?p")
    case True
    then show ?thesis by (simp add: rp)
  next
    case False
    then have "q < page_count st" using that p by (auto simp: st' max_def split: if_splits)
    then show ?thesis using wf ro [OF _ False] by (simp add: wf_store_def)
  qed
  then show "wf_store st'"
    using d lf pc by (auto simp: wf_store_def st' max_def)
qed

text \<open>
  \<open>write_page\<close> on an existing page: a body beyond the capacity is cut without an error.
\<close>

lemma write_page_cut:
  assumes wf: "wf_store st" and p: "page_id pg < page_count st"
    and l: "page_lsn pg < 256 ^ 4" "length (page_body pg) < 256 ^ 2"
  obtains st' where "write_page pg st = (Inr (), st')" and "wf_store st'"
    and "page_count st' = page_count st" and "page_size st' = page_size st"
    and "free_head st' = free_head st"
    and "read_page (page_id pg) st' = Inr (pg\<lparr>page_body := take (capacity st) (page_body pg)\<rparr>)"
    and "\<And>q. q < page_count st \<Longrightarrow> q \<noteq> page_id pg \<Longrightarrow> read_page q st' = read_page q st"
proof -
  note d = wf_storeD [OF wf]
  obtain h where
    h: "pack_header (page_id pg) (page_kind pg) (page_lsn pg) (length (page_body pg)) = Inr h"
    using l p d(5) by (fastforce simp: pack_header_Inr)
  let ?st = "st\<lparr>fs_file := pwrite_bytes (fs_file st)
        (h @ pad_body (page_body pg) (page_size st)) (page_id pg * page_size st),
        page_count := max (page_count st) (page_id pg + 1), free_head := free_head st\<rparr>"
  have "?st = st\<lparr>fs_file := pwrite_bytes (fs_file st)
        (h @ pad_body (page_body pg) (page_size st)) (page_id pg * page_size st)\<rparr>"
    using p by (simp add: max_def)
  then have "write_page pg st = (Inr (), ?st)"
    using d(1) by (simp add: write_page_def h os_pwrite_def)
  moreover have "page_count ?st = page_count st" using p by simp
  moreover have "wf_store ?st"
    "read_page (page_id pg) ?st = Inr (pg\<lparr>page_body := take (capacity st) (page_body pg)\<rparr>)"
    and "\<And>q. q < page_count st \<Longrightarrow> q \<noteq> page_id pg \<Longrightarrow> read_page q ?st = read_page q st"
    using write_image [OF wf _ _ h refl, where fh = "free_head st"] p d(5) by auto
  ultimately show ?thesis by (intro that [of ?st]) simp_all
qed

lemma storable_lengths:
  assumes "wf_store st" and "storable (capacity st) pg"
  shows "page_lsn pg < 256 ^ 4" and "length (page_body pg) < 256 ^ 2"
    and "pg\<lparr>page_body := take (capacity st) (page_body pg)\<rparr> = pg"
proof -
  have "length (page_body pg) + 11 \<le> page_size st"
    using assms wf_storeD [OF assms(1)] by (auto simp: storable_def capacity_def FILE_HEADER_SIZE_def)
  then show "length (page_body pg) < 256 ^ 2" using wf_storeD(3) [OF assms(1)] by simp
qed (use assms(2) in \<open>simp_all add: storable_def\<close>)

lemma write_page_ok:
  assumes wf: "wf_store st" and p: "page_id pg < page_count st" and st: "storable (capacity st) pg"
  obtains st' where "write_page pg st = (Inr (), st')" and "wf_store st'"
    and "page_count st' = page_count st" and "page_size st' = page_size st"
    and "free_head st' = free_head st" and "read_page (page_id pg) st' = Inr pg"
    and "\<And>q. q < page_count st \<Longrightarrow> q \<noteq> page_id pg \<Longrightarrow> read_page q st' = read_page q st"
  using write_page_cut [OF wf p storable_lengths(1,2) [OF wf st]] storable_lengths(3) [OF wf st]
  by metis

lemma capacity_bound: "wf_store st \<Longrightarrow> capacity st < 256 ^ 2"
  using wf_storeD [of st] by (simp add: capacity_def FILE_HEADER_SIZE_def)

interpretation fs: page_store read_page write_page wf_store has_page capacity
proof unfold_locales
  fix s :: file_store and p
  assume "wf_store s" and "has_page s p"
  then have "case read_page p s of Inl _ \<Rightarrow> False | Inr pg \<Rightarrow> page_id pg = p"
    by (simp add: wf_store_def has_page_def)
  then show "\<exists>pg. read_page p s = Inr pg \<and> page_id pg = p \<and> storable (capacity s) pg"
    using read_page_storable [of p s] by (cases "read_page p s") auto
next
  fix s :: file_store and pg :: page
  assume a: "wf_store s" "has_page s (page_id pg)" "storable (capacity s) pg"
  have p: "page_id pg < page_count s" using a(2) by (simp add: has_page_def)
  obtain s' where s': "write_page pg s = (Inr (), s')"
    "wf_store s'" "page_count s' = page_count s" "page_size s' = page_size s"
    "read_page (page_id pg) s' = Inr pg"
    "\<forall>q < page_count s. q \<noteq> page_id pg \<longrightarrow> read_page q s' = read_page q s"
    by (rule write_page_ok [OF a(1) p a(3)]) blast
  then show "\<exists>s'. write_page pg s = (Inr (), s') \<and> wf_store s' \<and> has_page s' = has_page s
      \<and> capacity s' = capacity s \<and> read_page (page_id pg) s' = Inr pg
      \<and> (\<forall>q. has_page s q \<longrightarrow> q \<noteq> page_id pg \<longrightarrow> read_page q s' = read_page q s)"
    by (intro exI [of _ s']) (simp add: has_page_def capacity_def fun_eq_iff)
qed

lemma read_page_beyond:
  assumes "wf_store st" and "page_count st \<le> q"
  shows "read_page q st = Inl StructError"
proof -
  have "page_count st * page_size st \<le> q * page_size st" using assms(2) by simp
  then have "drop (q * page_size st) (fs_file st) = []" using assms(1) by (simp add: wf_store_def)
  then show ?thesis
    using wf_storeD(1) [OF assms(1)]
    by (simp add: read_page_def raw_read_def os_pread_def unpack_header_def FILE_HEADER_SIZE_def)
qed

section \<open>The chain of free pages\<close>

text \<open>
  A free page has the kind FREE and a body of four bytes, the number of the next free
  page. \<open>free_chain st h ps\<close>: from the head \<open>h\<close> the chain runs through exactly the pages
  \<open>ps\<close> and ends with 0.
\<close>

fun free_chain :: "file_store \<Rightarrow> nat \<Rightarrow> nat list \<Rightarrow> bool" where
  "free_chain st h [] = (h = 0)"
| "free_chain st h (p # ps) =
     (h = p \<and> 0 < p \<and> p < page_count st \<and> p \<notin> set ps
      \<and> (case read_page p st of Inl _ \<Rightarrow> False
          | Inr pg \<Rightarrow> page_kind pg = FREE \<and> length (page_body pg) = 4
                     \<and> free_chain st (le_dec (page_body pg)) ps))"

definition free_list :: "file_store \<Rightarrow> nat list \<Rightarrow> bool" where
  "free_list st ps \<longleftrightarrow> free_chain st (free_head st) ps"

lemma free_chain_bound: "free_chain st h ps \<Longrightarrow> q \<in> set ps \<Longrightarrow> 0 < q \<and> q < page_count st"
  by (induction ps arbitrary: h) (auto split: sum.splits)

lemma free_chain_distinct: "free_chain st h ps \<Longrightarrow> distinct ps"
  by (induction ps arbitrary: h) (auto split: sum.splits)

lemma free_chain_head: "free_chain st h ps \<Longrightarrow> h \<noteq> 0 \<Longrightarrow> h < page_count st"
  by (cases ps) auto

lemma free_chain_frame:
  "free_chain st h ps \<Longrightarrow> page_count st \<le> page_count st' \<Longrightarrow>
   (\<And>q. q \<in> set ps \<Longrightarrow> read_page q st' = read_page q st) \<Longrightarrow> free_chain st' h ps"
proof (induction ps arbitrary: h)
  case (Cons p ps)
  then obtain pg where "read_page p st = Inr pg" by (auto split: sum.splits)
  with Cons show ?case by auto
qed simp

lemma read_page_raw:
  assumes "read_page p st = Inr pg"
  obtains raw where "raw_read p st = Inr raw"
    and "pyslice raw FILE_HEADER_SIZE (FILE_HEADER_SIZE + length (page_body pg)) = page_body pg"
  using assms by (auto simp: read_page_def pyslice_def min_def)

lemma free_page_ok:
  assumes wf: "wf_store st" and p: "0 < pid" "pid < page_count st"
    and fl: "free_list st ps" "pid \<notin> set ps"
  obtains st' where "free_page pid st = (Inr (), st')" and "wf_store st'"
    and "page_count st' = page_count st" and "page_size st' = page_size st"
    and "free_list st' (pid # ps)"
    and "\<And>q. q < page_count st \<Longrightarrow> q \<noteq> pid \<Longrightarrow> read_page q st' = read_page q st"
proof -
  note d = wf_storeD [OF wf]
  have fh: "free_head st < 256 ^ 4"
    using free_chain_head [of st "free_head st" ps] fl(1) d(5)
    by (cases "free_head st = 0") (auto simp: free_list_def)
  let ?pg = "\<lparr>page_id = pid, page_kind = FREE, page_lsn = 0, page_body = le_enc 4 (free_head st)\<rparr>"
  obtain h where h: "pack_header pid FREE 0 4 = Inr h"
    using p(2) d(5) by (fastforce simp: pack_header_Inr)
  let ?st = "st\<lparr>fs_file := pwrite_bytes (fs_file st)
        (h @ pad_body (page_body ?pg) (page_size st)) (page_id ?pg * page_size st),
        page_count := max (page_count st) (page_id ?pg + 1), free_head := pid\<rparr>"
  have st: "storable (capacity st) ?pg"
    using d(2) by (simp add: storable_def capacity_def FILE_HEADER_SIZE_def)
  have pc: "page_count ?st = page_count st" using p by simp
  have e: "?st = st\<lparr>fs_file := pwrite_bytes (fs_file st)
        (h @ pad_body (le_enc 4 (free_head st)) (page_size st)) (pid * page_size st),
        free_head := pid\<rparr>"
    using p by (simp add: max_def)
  have "free_page pid st = (Inr (), ?st)"
    unfolding e using p fh h d(1) by (simp add: free_page_def os_pwrite_def pack_uint_def)
  moreover have w: "wf_store ?st" "read_page pid ?st = Inr ?pg"
    "\<And>q. q < page_count st \<Longrightarrow> q \<noteq> pid \<Longrightarrow> read_page q ?st = read_page q st"
    using write_image [OF wf, of ?pg h ?st pid] storable_lengths(3) [OF wf st] h p d(5) by auto
  moreover have "free_chain ?st (free_head st) ps"
  proof (rule free_chain_frame)
    show "free_chain st (free_head st) ps" using fl(1) by (simp add: free_list_def)
    show "read_page q ?st = read_page q st" if "q \<in> set ps" for q
      using w(3) [of q] free_chain_bound [OF \<open>free_chain st (free_head st) ps\<close> that] that fl(2)
      by blast
  qed (simp add: pc)
  ultimately show ?thesis
    using pc p fl(2) fh by (intro that [of ?st]) (auto simp: free_list_def)
qed

text \<open>
  Allocation reuses the head of the chain, or extends the file by one page when the chain
  is empty; the new page is empty and no other page of the file changes.
\<close>

definition alloc_result :: "file_store \<Rightarrow> nat list \<Rightarrow> nat \<times> nat list \<times> nat" where
  "alloc_result st ps =
     (case ps of [] \<Rightarrow> (page_count st, [], page_count st + 1) | p # ps' \<Rightarrow> (p, ps', page_count st))"

lemma alloc_next_page:
  assumes wf: "wf_store st" and fh: "free_head st = 0" and room: "page_count st + 1 < 256 ^ 4"
  obtains st' where "alloc_page t st = (Inr (page_count st), st')" and "wf_store st'"
    and "page_count st' = page_count st + 1" and "page_size st' = page_size st" and "free_head st' = 0"
    and "read_page (page_count st) st' = Inr (new_page (page_count st) t)"
    and "\<And>q. q < page_count st \<Longrightarrow> read_page q st' = read_page q st"
proof -
  note d = wf_storeD [OF wf]
  let ?pg = "new_page (page_count st) t"
  obtain h where h: "pack_header (page_count st) t 0 0 = Inr h"
    using room by (fastforce simp: pack_header_Inr)
  let ?st = "st\<lparr>fs_file := pwrite_bytes (fs_file st)
        (h @ pad_body (page_body ?pg) (page_size st)) (page_id ?pg * page_size st),
        page_count := max (page_count st) (page_id ?pg + 1), free_head := free_head st\<rparr>"
  have e: "?st = st\<lparr>page_count := page_count st + 1, fs_file := pwrite_bytes (fs_file st)
        (h @ pad_body [] (page_size st)) (page_count st * page_size st)\<rparr>"
    by (simp add: new_page_def)
  have a: "alloc_page t st = (Inr (page_count st), ?st)"
    unfolding e using h d(1) fh
    by (simp add: Let_def alloc_page_def write_page_def new_page_def os_pwrite_def)
  have w: "wf_store ?st" "read_page (page_count st) ?st = Inr ?pg"
      "\<And>q. q < page_count st \<Longrightarrow> read_page q ?st = read_page q st"
    using write_image [OF wf, of ?pg h ?st "free_head st"] h room
    by (auto simp: new_page_def storable_def)
  show ?thesis by (rule that [OF a w(1) _ _ _ w(2,3)]) (use fh in \<open>simp_all add: new_page_def\<close>)
qed

lemma alloc_freed_page:
  assumes wf: "wf_store st" and fh: "0 < free_head st" "free_head st < page_count st"
  obtains st' raw where "raw_read (free_head st) st = Inr raw" and "alloc_page t st = (Inr (free_head st), st')"
    and "wf_store st'" and "page_count st' = page_count st" and "page_size st' = page_size st"
    and "free_head st' = le_dec (pyslice raw FILE_HEADER_SIZE (FILE_HEADER_SIZE + 4))"
    and "read_page (free_head st) st' = Inr (new_page (free_head st) t)"
    and "\<And>q. q < page_count st \<Longrightarrow> q \<noteq> free_head st \<Longrightarrow> read_page q st' = read_page q st"
proof -
  note d = wf_storeD [OF wf]
  let ?p = "free_head st" and ?pg = "new_page (free_head st) t"
  let ?raw = "take (page_size st) (drop (?p * page_size st) (fs_file st))"
  let ?n = "le_dec (pyslice ?raw FILE_HEADER_SIZE (FILE_HEADER_SIZE + 4))"
  have "length ?raw = page_size st" using page_region [OF fh(2), of "page_size st"] d(6) by simp
  then have l: "length (pyslice ?raw FILE_HEADER_SIZE (FILE_HEADER_SIZE + 4)) = 4"
    using d(2) by (simp add: pyslice_length FILE_HEADER_SIZE_def)
  obtain h where h: "pack_header ?p t 0 0 = Inr h"
    using fh(2) d(5) by (fastforce simp: pack_header_Inr)
  let ?st = "st\<lparr>fs_file := pwrite_bytes (fs_file st)
        (h @ pad_body (page_body ?pg) (page_size st)) (page_id ?pg * page_size st),
        page_count := max (page_count st) (page_id ?pg + 1), free_head := ?n\<rparr>"
  have e: "?st = st\<lparr>free_head := ?n, fs_file := pwrite_bytes (fs_file st)
        (h @ pad_body [] (page_size st)) (?p * page_size st)\<rparr>"
    using fh(2) by (simp add: new_page_def max_def)
  have a: "alloc_page t st = (Inr ?p, ?st)"
    unfolding e using h fh(1) l raw_read_at [OF d(1)]
    by (simp add: Let_def alloc_page_def write_page_def new_page_def os_pwrite_def unpack_uint_def d(1))
  have w: "wf_store ?st" "read_page ?p ?st = Inr ?pg"
      "\<And>q. q < page_count st \<Longrightarrow> q \<noteq> ?p \<Longrightarrow> read_page q ?st = read_page q st"
    using write_image [OF wf, of ?pg h ?st ?n] h fh(2) d(5)
    by (auto simp: new_page_def storable_def)
  show ?thesis
    by (rule that [OF raw_read_at [OF d(1)] a w(1) _ _ _ w(2,3)]) (use fh(2) in \<open>simp_all add: new_page_def\<close>)
qed

lemma alloc_page_ok:
  assumes wf: "wf_store st" and fl: "free_list st ps" and room: "page_count st + 1 < 256 ^ 4"
    and r: "alloc_result st ps = (pid, ps', pc)"
  obtains st' where "alloc_page t st = (Inr pid, st')" and "wf_store st'"
    and "page_count st' = pc" and "page_size st' = page_size st" and "free_list st' ps'"
    and "read_page pid st' = Inr (new_page pid t)"
    and "\<And>q. q < page_count st \<Longrightarrow> q \<noteq> pid \<Longrightarrow> read_page q st' = read_page q st"
proof (cases ps)
  case Nil
  then have pid: "pid = page_count st" "ps' = []" "pc = page_count st + 1"
    using r by (simp_all add: alloc_result_def)
  have fh: "free_head st = 0" using fl Nil by (simp add: free_list_def)
  obtain st' where "alloc_page t st = (Inr (page_count st), st')" "wf_store st'" "page_count st' = page_count st + 1"
      "page_size st' = page_size st" "free_head st' = 0" "read_page (page_count st) st' = Inr (new_page (page_count st) t)"
      "\<And>q. q < page_count st \<Longrightarrow> read_page q st' = read_page q st"
    by (rule alloc_next_page [OF wf fh room, of t]) (rule that; assumption)
  then show ?thesis using pid by (intro that [of st']) (simp_all add: free_list_def)
next
  case (Cons p qs)
  then have pid: "pid = p" "ps' = qs" "pc = page_count st"
    using r by (simp_all add: alloc_result_def)
  from fl Cons obtain pg where fh: "free_head st = p" "0 < p" "p < page_count st" "p \<notin> set qs"
    and pg: "read_page p st = Inr pg" "length (page_body pg) = 4"
    and ch: "free_chain st (le_dec (page_body pg)) qs"
    by (auto simp: free_list_def split: sum.splits)
  have h: "0 < free_head st" "free_head st < page_count st" using fh by simp_all
  obtain st' raw where a: "raw_read p st = Inr raw" "alloc_page t st = (Inr p, st')" "wf_store st'"
      "page_count st' = page_count st" "page_size st' = page_size st"
      "free_head st' = le_dec (pyslice raw FILE_HEADER_SIZE (FILE_HEADER_SIZE + 4))" "read_page p st' = Inr (new_page p t)"
    and fr: "\<And>q. q < page_count st \<Longrightarrow> q \<noteq> p \<Longrightarrow> read_page q st' = read_page q st"
    by (rule alloc_freed_page [OF wf h, of t, unfolded fh(1)]) (rule that; assumption)
  obtain raw' where "raw_read p st = Inr raw'" "pyslice raw' FILE_HEADER_SIZE (FILE_HEADER_SIZE + 4) = page_body pg"
    using read_page_raw [OF pg(1)] pg(2) by metis
  then have n: "free_head st' = le_dec (page_body pg)" using a(1,6) by simp
  have "free_list st' qs"
    unfolding free_list_def n
  proof (rule free_chain_frame [OF ch])
    show "read_page q st' = read_page q st" if "q \<in> set qs" for q
      using fr [of q] free_chain_bound [OF ch that] that fh(4) by blast
  qed (simp add: a(4))
  then show ?thesis using a(2-5,7) fr pid by (intro that [of st']) simp_all
qed

section \<open>Opening, closing and reopening\<close>

definition file_meta :: "nat \<Rightarrow> nat \<Rightarrow> byte list" where
  "file_meta psize fhead = FILE_HEADER_MAGIC @ le_enc 4 psize @ le_enc 4 fhead"

lemma length_file_meta [simp]: "length (file_meta a b) = 16"
  by (simp add: file_meta_def FILE_HEADER_MAGIC_def)

lemma pack_file_meta_Inr:
  "a < 256 ^ 4 \<Longrightarrow> b < 256 ^ 4 \<Longrightarrow> pack_file_meta a b = Inr (file_meta a b)"
  by (simp add: pack_file_meta_def file_meta_def pack_uint_def)

lemma unpack_file_meta:
  "a < 256 ^ 4 \<Longrightarrow> b < 256 ^ 4 \<Longrightarrow>
   unpack_file_meta (file_meta a b) = Inr (FILE_HEADER_MAGIC, a, b)"
proof -
  assume ab: "a < 256 ^ 4" "b < 256 ^ 4"
  have m: "length FILE_HEADER_MAGIC = 8" by (simp add: FILE_HEADER_MAGIC_def)
  have "pyslice (file_meta a b) 8 12 = le_enc 4 a" "pyslice (file_meta a b) 12 16 = le_enc 4 b"
    "take 8 (file_meta a b) = FILE_HEADER_MAGIC"
    using m by (simp_all add: file_meta_def pyslice_def)
  with ab show ?thesis by (simp add: unpack_file_meta_def)
qed

lemma open_new_file:
  assumes "512 \<le> psize" and "psize \<le> 65536"
  obtains st where "open_file [] psize = Inr st" and "wf_store st" and "free_list st []"
    and "page_size st = psize" and "page_count st = 1"
    and "read_page 0 st = Inr \<lparr>page_id = 0, page_kind = HEADER, page_lsn = 0,
           page_body = file_meta psize 0\<rparr>"
proof -
  let ?pg = "\<lparr>page_id = 0, page_kind = HEADER, page_lsn = 0, page_body = file_meta psize 0\<rparr>"
  obtain h where h: "pack_header 0 HEADER 0 16 = Inr h"
    by (fastforce simp: pack_header_Inr)
  let ?st = "\<lparr>fs_file = h @ pad_body (file_meta psize 0) psize, fs_open = True,
      page_size = psize, page_count = 1, free_head = 0\<rparr>"
  have l: "length (h @ pad_body (file_meta psize 0) psize) = psize"
    using pack_header_length [OF h] assms by (simp add: FILE_HEADER_SIZE_def)
  have "open_file [] psize = Inr ?st"
    using assms h by (simp add: open_file_def pack_file_meta_Inr)
  moreover have r: "read_page 0 ?st = Inr ?pg"
    using page_image [of ?pg h psize] h l assms
    by (simp add: read_page_def raw_read_def os_pread_def FILE_HEADER_SIZE_def)
  moreover have "wf_store ?st"
    using l assms r by (simp add: wf_store_def)
  ultimately show ?thesis by (intro that [of ?st]) (simp_all add: free_list_def)
qed

lemma page_zero_prefix:
  assumes "wf_store st" and "read_page 0 st = Inr pg"
  shows "unpack_header (take (page_size st) (fs_file st))
      = Inr (0, page_kind pg, page_lsn pg, snd (snd (snd (case unpack_header
          (take (page_size st) (fs_file st)) of Inl _ \<Rightarrow> (0, FREE, 0, 0) | Inr x \<Rightarrow> x))))"
    and "16 \<le> length (page_body pg) \<Longrightarrow>
      take 16 (drop FILE_HEADER_SIZE (take (page_size st) (fs_file st))) = take 16 (page_body pg)"
proof -
  note d = wf_storeD [OF assms(1)]
  have id0: "page_id pg = 0" using assms d(4) by (auto simp: wf_store_def)
  from assms(2) obtain t lsn n where
    u: "unpack_header (take (page_size st) (fs_file st)) = Inr (page_id pg, t, lsn, n)"
    and pg: "page_kind pg = t" "page_lsn pg = lsn"
      "page_body pg = pyslice (take (page_size st) (fs_file st)) FILE_HEADER_SIZE (FILE_HEADER_SIZE + n)"
    by (auto simp: read_page_def raw_read_at [OF d(1)])
  show "unpack_header (take (page_size st) (fs_file st))
      = Inr (0, page_kind pg, page_lsn pg, snd (snd (snd (case unpack_header
          (take (page_size st) (fs_file st)) of Inl _ \<Rightarrow> (0, FREE, 0, 0) | Inr x \<Rightarrow> x))))"
    using u pg id0 by simp
  assume "16 \<le> length (page_body pg)"
  then have "16 \<le> n" using pg(3) by (simp add: pyslice_length)
  then show "take 16 (drop FILE_HEADER_SIZE (take (page_size st) (fs_file st))) = take 16 (page_body pg)"
    using pg(3) by (simp add: pyslice_def min_absorb1 del: take_drop drop_take)
qed

text \<open>The header page after \<open>_flush_free_head\<close>: new metadata, the rest of its body kept.\<close>

lemma flush_free_head_ok:
  assumes wf: "wf_store st" and fh: "free_head st < 256 ^ 4" and r: "read_page 0 st = Inr pg"
  obtains st' b where "flush_free_head st = (Inr (), st')" and "wf_store st'"
    and "page_count st' = page_count st" and "page_size st' = page_size st"
    and "free_head st' = free_head st"
    and "read_page 0 st' = Inr \<lparr>page_id = 0, page_kind = HEADER, page_lsn = 0, page_body = b\<rparr>"
    and "b = file_meta (page_size st) (free_head st) @ drop 16 (page_body pg)"
    and "\<And>q. 0 < q \<Longrightarrow> q < page_count st \<Longrightarrow> read_page q st' = read_page q st"
proof -
  note d = wf_storeD [OF wf]
  let ?m = "file_meta (page_size st) (free_head st)"
  let ?b = "?m @ drop 16 (page_body pg)"
  let ?pg = "\<lparr>page_id = 0, page_kind = HEADER, page_lsn = 0, page_body = ?b\<rparr>"
  have m: "pack_file_meta (page_size st) (free_head st) = Inr ?m"
    using fh d(3) by (simp add: pack_file_meta_Inr)
  have b: "slice_assign (page_body pg @ replicate (16 - length (page_body pg)) 0) 0 16 ?m = ?b"
    by (simp add: slice_assign_def)
  have lb: "length (page_body pg) + 11 \<le> page_size st"
    using read_page_storable [OF r] d(2) by (auto simp: storable_def capacity_def FILE_HEADER_SIZE_def)
  then have l: "length ?b + 11 \<le> page_size st" using d(2) by auto
  then obtain h where h: "pack_header 0 HEADER 0 (length ?b) = Inr h"
    using d(3) by (fastforce simp: pack_header_Inr)
  let ?st = "st\<lparr>fs_file := pwrite_bytes (fs_file st)
        (h @ pad_body (page_body ?pg) (page_size st)) (page_id ?pg * page_size st),
        page_count := max (page_count st) (page_id ?pg + 1), free_head := free_head st\<rparr>"
  have e: "?st = st\<lparr>fs_file := pwrite_bytes (fs_file st) (h @ pad_body ?b (page_size st)) 0\<rparr>"
    using d(4) by (simp add: max_def)
  have "flush_free_head st = (Inr (), ?st)"
    unfolding e using d(1) r m b h by (simp add: flush_free_head_def os_pwrite_def Let_def del: length_append)
  moreover have "wf_store ?st" "read_page 0 ?st = Inr ?pg"
    and "\<And>q. 0 < q \<Longrightarrow> q < page_count st \<Longrightarrow> read_page q ?st = read_page q st"
    using write_image [OF wf, of ?pg h ?st "free_head st"] h l
    by (simp_all add: capacity_def FILE_HEADER_SIZE_def)
  moreover have "page_count ?st = page_count st" using d(4) by simp
  ultimately show ?thesis by (intro that [of ?st ?b]) simp_all
qed

text \<open>A file whose header page tells the head of the free chain is opened as it is.\<close>

lemma open_current:
  assumes wf: "wf_store st" and r: "read_page 0 st = Inr \<lparr>page_id = 0, page_kind = HEADER, page_lsn = 0, page_body = b\<rparr>"
    and b: "b = file_meta (page_size st) (free_head st) @ rest" and fh: "free_head st < 256 ^ 4"
  shows "open_file (fs_file st) (page_size st) = Inr st"
proof -
  note d = wf_storeD [OF wf]
  have ne: "fs_file st \<noteq> []" using d by auto
  obtain n where hd: "unpack_header (take (page_size st) (fs_file st)) = Inr (0, HEADER, 0, n)"
    using page_zero_prefix(1) [OF wf r] by auto
  have bm: "take 16 (drop FILE_HEADER_SIZE (take (page_size st) (fs_file st))) = file_meta (page_size st) (free_head st)"
    using page_zero_prefix(2) [OF wf r] by (simp add: b)
  have um: "unpack_file_meta (file_meta (page_size st) (free_head st)) = Inr (FILE_HEADER_MAGIC, page_size st, free_head st)"
    using d(3) fh by (intro unpack_file_meta) simp_all
  show ?thesis using hd bm um ne d by (simp add: open_file_def Let_def)
qed

lemma close_reopen_ok:
  assumes wf: "wf_store st" and fl: "free_list st ps" and r: "read_page 0 st = Inr pg"
  shows "\<exists>st1 st2 b. close_store st = (Inr (), st1) \<and> \<not> fs_open st1
           \<and> open_file (fs_file st1) (page_size st) = Inr st2
           \<and> wf_store st2 \<and> free_list st2 ps \<and> page_count st2 = page_count st
           \<and> (\<forall>q. 0 < q \<longrightarrow> q < page_count st \<longrightarrow> read_page q st2 = read_page q st)
           \<and> read_page 0 st2
               = Inr \<lparr>page_id = 0, page_kind = HEADER, page_lsn = 0, page_body = b\<rparr>
           \<and> drop 16 b = drop 16 (page_body pg)"
proof -
  note d = wf_storeD [OF wf]
  have fh: "free_head st < 256 ^ 4"
    using free_chain_head [of st "free_head st" ps] fl d(5)
    by (cases "free_head st = 0") (auto simp: free_list_def)
  obtain st' b where st': "flush_free_head st = (Inr (), st')" and w': "wf_store st'"
    and pc: "page_count st' = page_count st" and psz: "page_size st' = page_size st"
    and fh': "free_head st' = free_head st"
    and r0: "read_page 0 st' = Inr \<lparr>page_id = 0, page_kind = HEADER, page_lsn = 0, page_body = b\<rparr>"
    and b: "b = file_meta (page_size st) (free_head st) @ drop 16 (page_body pg)"
    and fr: "\<And>q. 0 < q \<Longrightarrow> q < page_count st \<Longrightarrow> read_page q st' = read_page q st"
    by (rule flush_free_head_ok [OF wf fh r]) blast
  note d' = wf_storeD [OF w']
  let ?st1 = "st'\<lparr>fs_open := False\<rparr>"
  have c: "close_store st = (Inr (), ?st1)"
    using d(1) st' d'(1) by (simp add: close_store_def fsync_def)
  have "free_head st' < 256 ^ 4" using fh fh' by simp
  then have "open_file (fs_file st') (page_size st) = Inr st'"
    using open_current [OF w' r0] b psz fh' by simp
  moreover have "free_list st' ps"
    unfolding free_list_def
  proof (rule free_chain_frame)
    show ch: "free_chain st (free_head st') ps" using fl fh' by (simp add: free_list_def)
    show "read_page q st' = read_page q st" if "q \<in> set ps" for q
      using fr free_chain_bound [OF ch that] by blast
  qed (simp add: pc)
  ultimately show ?thesis
    using c w' pc fr r0 b by (intro exI [of _ ?st1] exI [of _ st'] exI [of _ b]) simp
qed

text \<open>
  C18: closing a database file and opening it again (with the same page size) finds the same
  pages, the same number of pages and the same chain of free pages.
\<close>

theorem close_reopen:
  assumes wf: "wf_store st" and fl: "free_list st ps" and r: "read_page 0 st = Inr pg"
  shows "\<exists>st1 st2 b. close_store st = (Inr (), st1) \<and> \<not> fs_open st1
           \<and> open_file (fs_file st1) (page_size st) = Inr st2
           \<and> wf_store st2 \<and> free_list st2 ps \<and> page_count st2 = page_count st
           \<and> (\<forall>q. 0 < q \<longrightarrow> q < page_count st \<longrightarrow> read_page q st2 = read_page q st)
           \<and> read_page 0 st2
               = Inr \<lparr>page_id = 0, page_kind = HEADER, page_lsn = 0, page_body = b\<rparr>
           \<and> drop 16 b = drop 16 (page_body pg)"
  by (rule close_reopen_ok [OF assms])

section \<open>A concrete store\<close>

text \<open>A new database file, with one empty table page allocated.\<close>

definition demo_store :: file_store where
  "demo_store = (case open_file [] 512 of Inr st \<Rightarrow> snd (alloc_page TABLE st)
     | Inl _ \<Rightarrow> \<lparr>fs_file = [], fs_open = False, page_size = 0, page_count = 0, free_head = 0\<rparr>)"

lemma demo_store_facts:
  shows "wf_store demo_store" and "free_list demo_store []" and "page_size demo_store = 512"
    and "page_count demo_store = 2" and "read_page 1 demo_store = Inr (new_page 1 TABLE)"
    and "\<exists>pg. read_page 0 demo_store = Inr pg \<and> page_kind pg = HEADER \<and> 16 = length (page_body pg)"
proof -
  obtain st where st: "open_file [] 512 = Inr st" "wf_store st" "free_list st []"
    "page_size st = 512" "page_count st = 1"
    and r0: "read_page 0 st = Inr \<lparr>page_id = 0, page_kind = HEADER, page_lsn = 0,
           page_body = file_meta 512 0\<rparr>"
    by (rule open_new_file [of 512]) simp_all
  obtain st' where st': "alloc_page TABLE st = (Inr 1, st')" "wf_store st'" "page_count st' = 2"
      "page_size st' = page_size st" "read_page 1 st' = Inr (new_page 1 TABLE)" "free_list st' []"
    and fr: "\<And>q. q < page_count st \<Longrightarrow> q \<noteq> 1 \<Longrightarrow> read_page q st' = read_page q st"
    by (rule alloc_page_ok [OF st(2,3), of 1 "[]" 2 TABLE]) (use st in \<open>simp_all add: alloc_result_def\<close>)
  have "demo_store = st'" using st(1) st'(1) by (simp add: demo_store_def)
  then show "wf_store demo_store" "free_list demo_store []" "page_size demo_store = 512"
    "page_count demo_store = 2" "read_page 1 demo_store = Inr (new_page 1 TABLE)"
    "\<exists>pg. read_page 0 demo_store = Inr pg \<and> page_kind pg = HEADER \<and> 16 = length (page_body pg)"
    using st' st(4,5) r0 fr [of 0] by simp_all
qed

lemmas demo_store_read = demo_store_facts(5) [unfolded One_nat_def]

lemma demo_capacity: "capacity demo_store = 501"
  by (simp add: capacity_def demo_store_facts FILE_HEADER_SIZE_def)

lemma close_reopen_witness:
  "\<exists>st1 st2. close_store demo_store = (Inr (), st1) \<and> open_file (fs_file st1) 512 = Inr st2
     \<and> read_page 1 st2 = Inr (new_page 1 TABLE)"
proof -
  obtain pg where "read_page 0 demo_store = Inr pg" using demo_store_facts(6) by blast
  from close_reopen [OF demo_store_facts(1,2) this] show ?thesis
    by (auto simp: demo_store_facts demo_store_read)
qed

end
