(* ===== verification/BufferPool.thy ===== *)
theory BufferPool
  imports Storage
begin

text \<open>
  tinydb/storage.py, BufferPool and PageHandle. A handle is a reference to a pool entry and
  outlives its eviction, so the entries are objects: the pool's dict maps a page number to
  the index of an entry object, and a handle is such an index.
\<close>

section \<open>The pool\<close>

record pool_entry =
  pe_page :: page
  pe_dirty :: bool
  pe_pins :: nat

record pool =
  pl_store :: file_store
  pl_capacity :: nat
  pl_objs :: "pool_entry list"
  pl_entries :: "(nat, nat) dict"

type_synonym 'a poolx = "(pool, py_error, 'a) sx"
type_synonym page_handle = nat

definition new_pool :: "file_store \<Rightarrow> nat \<Rightarrow> pool" where
  "new_pool st n = \<lparr>pl_store = st, pl_capacity = n, pl_objs = [], pl_entries = []\<rparr>"

text \<open>A store operation inside the pool.\<close>

definition on_store :: "'a fsx \<Rightarrow> 'a poolx" where
  "on_store m p = (case m (pl_store p) of (r, st) \<Rightarrow> (r, p\<lparr>pl_store := st\<rparr>))"

definition pool_obj :: "pool \<Rightarrow> nat \<Rightarrow> pool_entry" where
  "pool_obj p i = pl_objs p ! i"

definition upd_obj :: "nat \<Rightarrow> (pool_entry \<Rightarrow> pool_entry) \<Rightarrow> pool \<Rightarrow> pool" where
  "upd_obj i f p = p\<lparr>pl_objs := (pl_objs p)[i := f (pool_obj p i)]\<rparr>"

text \<open>The loop of \<open>_evict_if_full\<close> over a copy of the items.\<close>

fun evict_loop :: "(nat \<times> nat) list \<Rightarrow> unit poolx" where
  "evict_loop [] = sraise RuntimeError"
| "evict_loop ((pid, i) # items) =
     sbind sget (\<lambda>p.
     if pe_pins (pool_obj p i) = 0 then
       sbind (if pe_dirty (pool_obj p i) then on_store (write_page (pe_page (pool_obj p i))) else sret ())
         (\<lambda>_. smodify (\<lambda>p. p\<lparr>pl_entries := dict_del pid (pl_entries p)\<rparr>))
     else evict_loop items)"

definition evict_if_full :: "unit poolx" where
  "evict_if_full =
     sbind sget (\<lambda>p. if length (pl_entries p) < pl_capacity p then sret () else evict_loop (pl_entries p))"

definition add_entry :: "nat \<Rightarrow> pool_entry \<Rightarrow> page_handle poolx" where
  "add_entry pid e p =
     (Inr (length (pl_objs p)),
      p\<lparr>pl_objs := pl_objs p @ [e], pl_entries := dict_set pid (length (pl_objs p)) (pl_entries p)\<rparr>)"

definition pool_get :: "nat \<Rightarrow> page_handle poolx" where
  "pool_get pid =
     sbind sget (\<lambda>p.
     case dict_get (pl_entries p) pid of
       Some i \<Rightarrow> sret i
     | None \<Rightarrow>
         sbind evict_if_full (\<lambda>_.
         sbind (on_store (sread (read_page pid))) (\<lambda>pg.
         add_entry pid \<lparr>pe_page = pg, pe_dirty = False, pe_pins = 0\<rparr>)))"

definition pool_put :: "page \<Rightarrow> page_handle poolx" where
  "pool_put pg =
     sbind evict_if_full (\<lambda>_. add_entry (page_id pg) \<lparr>pe_page = pg, pe_dirty = True, pe_pins = 0\<rparr>)"

fun flush_loop :: "(nat \<times> nat) list \<Rightarrow> unit poolx" where
  "flush_loop [] = sret ()"
| "flush_loop ((pid, i) # items) =
     sbind sget (\<lambda>p.
     sbind (if pe_dirty (pool_obj p i)
            then sbind (on_store (write_page (pe_page (pool_obj p i))))
                   (\<lambda>_. smodify (upd_obj i (\<lambda>e. e\<lparr>pe_dirty := False\<rparr>)))
            else sret ())
       (\<lambda>_. flush_loop items))"

definition flush_all :: "unit poolx" where
  "flush_all = sbind sget (\<lambda>p. flush_loop (pl_entries p))"

definition pool_has :: "nat \<Rightarrow> pool \<Rightarrow> bool" where
  "pool_has pid p = dict_has (pl_entries p) pid"

definition pool_pages :: "pool \<Rightarrow> page list" where
  "pool_pages p = map (\<lambda>(_, i). pe_page (pool_obj p i)) (pl_entries p)"

section \<open>Handles\<close>

definition handle_page :: "page_handle \<Rightarrow> pool \<Rightarrow> page" where
  "handle_page h p = pe_page (pool_obj p h)"

definition pin :: "page_handle \<Rightarrow> unit poolx" where
  "pin h = smodify (upd_obj h (\<lambda>e. e\<lparr>pe_pins := pe_pins e + 1\<rparr>))"

definition unpin :: "page_handle \<Rightarrow> unit poolx" where
  "unpin h = smodify (upd_obj h (\<lambda>e. if pe_pins e > 0 then e\<lparr>pe_pins := pe_pins e - 1\<rparr> else e))"

definition mark_dirty :: "page_handle \<Rightarrow> unit poolx" where
  "mark_dirty h = smodify (upd_obj h (\<lambda>e. e\<lparr>pe_dirty := True\<rparr>))"

text \<open>A client's assignment to \<open>handle.page.body\<close>.\<close>

definition set_body :: "page_handle \<Rightarrow> byte list \<Rightarrow> unit poolx" where
  "set_body h b = smodify (upd_obj h (\<lambda>e. e\<lparr>pe_page := (pe_page e)\<lparr>page_body := b\<rparr>\<rparr>))"

section \<open>Well-formed pools and what they show\<close>

text \<open>
  The pages a client sees through the pool: the pooled page, else the stored one.
\<close>

definition pool_view :: "pool \<Rightarrow> nat \<Rightarrow> py_error + page" where
  "pool_view p pid =
     (case dict_get (pl_entries p) pid of
        Some i \<Rightarrow> Inr (pe_page (pool_obj p i))
      | None \<Rightarrow> read_page pid (pl_store p))"

definition entry_wf :: "pool \<Rightarrow> nat \<Rightarrow> nat \<Rightarrow> bool" where
  "entry_wf p pid i \<longleftrightarrow>
     i < length (pl_objs p) \<and> page_id (pe_page (pool_obj p i)) = pid
     \<and> has_page (pl_store p) pid \<and> storable (capacity (pl_store p)) (pe_page (pool_obj p i))
     \<and> (\<not> pe_dirty (pool_obj p i) \<longrightarrow> read_page pid (pl_store p) = Inr (pe_page (pool_obj p i)))"

definition wf_pool :: "pool \<Rightarrow> bool" where
  "wf_pool p \<longleftrightarrow>
     wf_store (pl_store p) \<and> distinct (map fst (pl_entries p)) \<and> distinct (map snd (pl_entries p))
     \<and> (\<forall>(pid, i) \<in> set (pl_entries p). entry_wf p pid i)"

lemma wf_poolD:
  assumes "wf_pool p"
  shows "wf_store (pl_store p)" "distinct (map fst (pl_entries p))" "distinct (map snd (pl_entries p))"
    "(pid, i) \<in> set (pl_entries p) \<Longrightarrow> entry_wf p pid i"
  using assms by (auto simp: wf_pool_def)

lemma wf_new_pool: "wf_store st \<Longrightarrow> wf_pool (new_pool st n)"
  by (simp add: wf_pool_def new_pool_def)

lemma pool_obj_frame [simp]:
  "pool_obj (p\<lparr>pl_store := st\<rparr>) = pool_obj p"
  "pool_obj (p\<lparr>pl_entries := d\<rparr>) = pool_obj p"
  by (simp_all add: pool_obj_def fun_eq_iff)

lemma pool_obj_upd:
  "i < length (pl_objs p) \<Longrightarrow> pool_obj (upd_obj i f p) j = (if i = j then f (pool_obj p i) else pool_obj p j)"
  by (simp add: pool_obj_def upd_obj_def nth_list_update)

lemma upd_obj_simps [simp]:
  "pl_store (upd_obj i f p) = pl_store p" "pl_entries (upd_obj i f p) = pl_entries p"
  "pl_capacity (upd_obj i f p) = pl_capacity p" "length (pl_objs (upd_obj i f p)) = length (pl_objs p)"
  by (simp_all add: upd_obj_def)

text \<open>Writing a pooled page back: the store then holds it, and every view stays.\<close>

lemma write_back:
  assumes wf: "wf_pool p" and i: "(pid, i) \<in> set (pl_entries p)"
  obtains st where "write_page (pe_page (pool_obj p i)) (pl_store p) = (Inr (), st)" and "wf_store st"
    and "has_page st = has_page (pl_store p)" and "capacity st = capacity (pl_store p)"
    and "read_page pid st = Inr (pe_page (pool_obj p i))"
    and "\<And>q. has_page (pl_store p) q \<Longrightarrow> q \<noteq> pid \<Longrightarrow> read_page q st = read_page q (pl_store p)"
proof -
  note e = wf_poolD(4) [OF wf i, unfolded entry_wf_def]
  have h: "has_page (pl_store p) (page_id (pe_page (pool_obj p i)))" using e by simp
  from fs.wr_ok [OF wf_poolD(1) [OF wf] h] e obtain st where
    "write_page (pe_page (pool_obj p i)) (pl_store p) = (Inr (), st)" "wf_store st"
    "has_page st = has_page (pl_store p)" "capacity st = capacity (pl_store p)"
    "read_page (page_id (pe_page (pool_obj p i))) st = Inr (pe_page (pool_obj p i))"
    "\<forall>q. has_page (pl_store p) q \<longrightarrow> q \<noteq> page_id (pe_page (pool_obj p i)) \<longrightarrow>
       read_page q st = read_page q (pl_store p)" by blast
  with e show ?thesis by (intro that [of st]) auto
qed

text \<open>
  A pool whose store agrees with the old one on every page but one, whose pooled page it
  holds: the invariant and the views are kept.
\<close>

definition same_view :: "pool \<Rightarrow> pool \<Rightarrow> bool" where
  "same_view p q \<longleftrightarrow>
     wf_pool q \<and> has_page (pl_store q) = has_page (pl_store p)
     \<and> capacity (pl_store q) = capacity (pl_store p) \<and> pl_capacity q = pl_capacity p
     \<and> (\<forall>pid. has_page (pl_store p) pid \<longrightarrow> pool_view q pid = pool_view p pid)"

lemma same_view_refl: "wf_pool p \<Longrightarrow> same_view p p"
  by (simp add: same_view_def)

lemma same_view_trans: "same_view p q \<Longrightarrow> same_view q r \<Longrightarrow> same_view p r"
  by (auto simp: same_view_def)

lemma view_entry:
  "wf_pool p \<Longrightarrow> (pid, i) \<in> set (pl_entries p) \<Longrightarrow> dict_get (pl_entries p) pid = Some i"
  by (simp add: wf_poolD(2))

lemma store_written:
  assumes wf: "wf_pool p" and i: "(pid, i) \<in> set (pl_entries p)"
    and st: "wf_store st" "has_page st = has_page (pl_store p)" "capacity st = capacity (pl_store p)"
      "read_page pid st = Inr (pe_page (pool_obj p i))"
      "\<And>q. has_page (pl_store p) q \<Longrightarrow> q \<noteq> pid \<Longrightarrow> read_page q st = read_page q (pl_store p)"
  shows "same_view p (p\<lparr>pl_store := st\<rparr>)"
proof -
  let ?q = "p\<lparr>pl_store := st\<rparr>"
  have "entry_wf ?q q j" if "(q, j) \<in> set (pl_entries p)" for q j
  proof (cases "q = pid")
    case True
    then have "j = i" using that view_entry [OF wf that] view_entry [OF wf i] by simp
    then show ?thesis using wf_poolD(4) [OF wf that] st True by (simp add: entry_wf_def)
  next
    case False
    then show ?thesis using wf_poolD(4) [OF wf that] st by (simp add: entry_wf_def)
  qed
  moreover have "pool_view ?q q = pool_view p q" if "has_page (pl_store p) q" for q
    using that st view_entry [OF wf i]
    by (cases "q = pid") (auto simp: pool_view_def split: option.split)
  ultimately show ?thesis
    using wf st by (auto simp: same_view_def wf_pool_def)
qed

lemma entry_dropped:
  assumes wf: "wf_pool p" and i: "(pid, i) \<in> set (pl_entries p)"
    and s: "read_page pid (pl_store p) = Inr (pe_page (pool_obj p i))"
  shows "same_view p (p\<lparr>pl_entries := dict_del pid (pl_entries p)\<rparr>)"
proof -
  let ?q = "p\<lparr>pl_entries := dict_del pid (pl_entries p)\<rparr>"
  have f: "AList.delete pid (pl_entries p) = filter (\<lambda>(k, _). pid \<noteq> k) (pl_entries p)"
    by (simp add: AList.delete_eq)
  have "wf_pool ?q"
    using wf unfolding wf_pool_def
    by (auto simp: f entry_wf_def distinct_map_filter)
  then show ?thesis
    using s view_entry [OF wf i] by (auto simp: same_view_def pool_view_def dict_get_del split: option.split)
qed

text \<open>
  What an eviction does, error or not: no view and no entry object changes, pinned entries
  stay, and when it succeeds one entry less is pooled.
\<close>

definition evicted :: "pool \<Rightarrow> pool \<Rightarrow> bool" where
  "evicted p q \<longleftrightarrow>
     same_view p q \<and> pl_objs q = pl_objs p
     \<and> (\<forall>(pid, i) \<in> set (pl_entries p). 0 < pe_pins (pool_obj p i) \<longrightarrow> (pid, i) \<in> set (pl_entries q))"

lemma evicted_refl: "wf_pool p \<Longrightarrow> evicted p p"
  by (auto simp: evicted_def same_view_refl)

lemma evicted_drop:
  assumes wf: "wf_pool p" and m: "(pid, i) \<in> set (pl_entries p)" and pins: "pe_pins (pool_obj p i) = 0"
    and s: "same_view p p1" and p1: "pl_entries p1 = pl_entries p" "pl_objs p1 = pl_objs p"
    and r: "read_page pid (pl_store p1) = Inr (pe_page (pool_obj p1 i))"
  shows "evicted p (p1\<lparr>pl_entries := dict_del pid (pl_entries p)\<rparr>)"
    and "length (dict_del pid (pl_entries p)) = length (pl_entries p) - 1"
proof -
  have "same_view p1 (p1\<lparr>pl_entries := dict_del pid (pl_entries p1)\<rparr>)"
    by (rule entry_dropped) (use s m p1 r in \<open>simp_all add: same_view_def\<close>)
  then have "same_view p (p1\<lparr>pl_entries := dict_del pid (pl_entries p)\<rparr>)"
    using same_view_trans [OF s] p1 by simp
  moreover have "(k, j) \<in> set (dict_del pid (pl_entries p))"
    if "(k, j) \<in> set (pl_entries p)" "0 < pe_pins (pool_obj p j)" for k j
  proof -
    have "k \<noteq> pid"
      using that m pins eq_key_imp_eq_value [OF wf_poolD(2) [OF wf]] by fastforce
    then show ?thesis using that by (auto simp: AList.delete_eq)
  qed
  ultimately show "evicted p (p1\<lparr>pl_entries := dict_del pid (pl_entries p)\<rparr>)"
    using p1 by (auto simp: evicted_def)
  show "length (dict_del pid (pl_entries p)) = length (pl_entries p) - 1"
    by (rule length_dict_del [OF wf_poolD(2) [OF wf]]) (use m in force)
qed

lemma evict_loop_evicted:
  assumes "wf_pool p" and "set items \<subseteq> set (pl_entries p)" and "evict_loop items p = (r, q)"
  shows "evicted p q \<and> (r = Inr () \<longrightarrow> length (pl_entries q) = length (pl_entries p) - 1)"
  using assms
proof (induction items)
  case Nil
  then show ?case by (auto simp: evicted_refl)
next
  case (Cons it items)
  note wf = Cons.prems(1)
  obtain pid i where it: "it = (pid, i)" by (cases it)
  have m: "(pid, i) \<in> set (pl_entries p)" using Cons.prems(2) it by simp
  show ?case
  proof (cases "pe_pins (pool_obj p i) = 0")
    case False
    then show ?thesis using Cons by (simp add: it)
  next
    case pins: True
    show ?thesis
    proof (cases "pe_dirty (pool_obj p i)")
      case False
      then have "read_page pid (pl_store p) = Inr (pe_page (pool_obj p i))"
        using wf_poolD(4) [OF wf m] by (simp add: entry_wf_def)
      note d = evicted_drop [OF wf m pins same_view_refl [OF wf] refl refl this]
      have "q = p\<lparr>pl_entries := dict_del pid (pl_entries p)\<rparr>"
        using Cons.prems(3) pins False by (simp add: it)
      then show ?thesis using d by simp
    next
      case True
      obtain st where st: "write_page (pe_page (pool_obj p i)) (pl_store p) = (Inr (), st)"
        and ok: "wf_store st" "has_page st = has_page (pl_store p)" "capacity st = capacity (pl_store p)"
          "read_page pid st = Inr (pe_page (pool_obj p i))"
          "\<And>q. has_page (pl_store p) q \<Longrightarrow> q \<noteq> pid \<Longrightarrow> read_page q st = read_page q (pl_store p)"
        by (rule write_back [OF wf m]) blast
      note d = evicted_drop [OF wf m pins store_written [OF wf m ok]]
      have "q = p\<lparr>pl_store := st, pl_entries := dict_del pid (pl_entries p)\<rparr>"
        using Cons.prems(3) pins True st by (simp add: it on_store_def)
      then show ?thesis using d ok(4) by simp
    qed
  qed
qed

lemma evict_loop_error: "evict_loop items p = (Inl e, q) \<Longrightarrow> wf_pool p \<Longrightarrow>
   set items \<subseteq> set (pl_entries p) \<Longrightarrow> pl_entries q = pl_entries p"
proof (induction items)
  case (Cons it items)
  obtain pid i where it: "it = (pid, i)" by (cases it)
  have m: "(pid, i) \<in> set (pl_entries p)" using Cons.prems(3) it by simp
  obtain st where "write_page (pe_page (pool_obj p i)) (pl_store p) = (Inr (), st)"
    by (rule write_back [OF Cons.prems(2) m])
  then show ?case using Cons by (auto simp: it on_store_def split: if_splits)
qed simp

lemma evict_loop_entries:
  "evict_loop items p = (r, q) \<Longrightarrow> set (pl_entries q) \<subseteq> set (pl_entries p)"
proof (induction items)
  case (Cons it items)
  obtain pid i where it: "it = (pid, i)" by (cases it)
  show ?case
    using Cons
    by (auto simp: it on_store_def AList.delete_eq split: if_splits prod.splits elim!: sbind_cases)
qed simp

lemma evict_entries_subset:
  "evict_if_full p = (r, q) \<Longrightarrow> fst ` set (pl_entries q) \<subseteq> fst ` set (pl_entries p)"
  using evict_loop_entries [of "pl_entries p" p r q] by (auto simp: evict_if_full_def split: if_splits)

lemma evict_if_full_evicted:
  assumes "wf_pool p" and "evict_if_full p = (r, q)"
  shows "evicted p q"
    and "r = Inr () \<Longrightarrow> 0 < pl_capacity p \<Longrightarrow> length (pl_entries p) \<le> pl_capacity p \<Longrightarrow>
      length (pl_entries q) < pl_capacity p"
  using assms evict_loop_evicted [OF assms(1) subset_refl, of r q]
  by (auto simp: evict_if_full_def evicted_refl split: if_splits)

text \<open>A new entry object under a page number.\<close>

lemma add_entry_wf:
  assumes wf: "wf_pool p" and e: "page_id (pe_page e) = pid" "has_page (pl_store p) pid"
    "storable (capacity (pl_store p)) (pe_page e)"
    "\<not> pe_dirty e \<Longrightarrow> read_page pid (pl_store p) = Inr (pe_page e)"
    and r: "add_entry pid e p = (r, q)"
  shows "wf_pool q" and "pool_view q pid = Inr (pe_page e)"
    and "\<And>k. k \<noteq> pid \<Longrightarrow> pool_view q k = pool_view p k" and "pl_store q = pl_store p"
proof -
  let ?n = "length (pl_objs p)"
  have q: "q = p\<lparr>pl_objs := pl_objs p @ [e], pl_entries := dict_set pid ?n (pl_entries p)\<rparr>"
    using r by (simp add: add_entry_def)
  have old: "pool_obj q i = pool_obj p i" if "i < ?n" for i
    using that by (simp add: q pool_obj_def nth_append)
  have new: "pool_obj q ?n = e" by (simp add: q pool_obj_def)
  have lt: "i < ?n" if "(k, i) \<in> set (pl_entries p)" for k i
    using wf_poolD(4) [OF wf that] by (simp add: entry_wf_def)
  have mem: "(k = pid \<and> i = ?n) \<or> (k \<noteq> pid \<and> (k, i) \<in> set (pl_entries p))"
    if "(k, i) \<in> set (dict_set pid ?n (pl_entries p))" for k i
    using that wf_poolD(2) [OF wf] dict_set_keys_distinct [OF wf_poolD(2) [OF wf], of pid ?n]
    by (metis dict_get_set map_of_eq_Some_iff option.inject)
  have snd: "distinct (map snd (dict_set pid ?n (pl_entries p)))"
    by (rule distinct_snd_update [OF wf_poolD(3) [OF wf]]) (use lt in force)
  show "pl_store q = pl_store p" by (simp add: q)
  show "wf_pool q"
    unfolding wf_pool_def
  proof (intro conjI ballI; clarify?)
    show "wf_store (pl_store q)" "distinct (map fst (pl_entries q))" "distinct (map snd (pl_entries q))"
      using wf_poolD(1,2) [OF wf] snd by (simp_all add: q dict_set_keys_distinct)
    show "entry_wf q k i" if "(k, i) \<in> set (pl_entries q)" for k i
    proof (cases "k = pid")
      case True
      then have "i = ?n" using mem [of k i] that by (simp add: q)
      then show ?thesis using True e new by (simp add: entry_wf_def) (simp add: q)
    next
      case False
      then have m: "(k, i) \<in> set (pl_entries p)" using mem [of k i] that by (simp add: q)
      show ?thesis
        using wf_poolD(4) [OF wf m] lt [OF m] by (simp add: entry_wf_def old [OF lt [OF m]]) (simp add: q)
    qed
  qed
  show "pool_view q pid = Inr (pe_page e)" using new by (simp add: pool_view_def q dict_get_set)
  show "pool_view q k = pool_view p k" if "k \<noteq> pid" for k
    using that old lt by (auto simp: pool_view_def q dict_get_set split: option.split dest: map_of_SomeD)
qed

section \<open>What a client of the pool sees\<close>

text \<open>A page of the store reads back as a page the pool can hold.\<close>

lemma read_page_entry:
  assumes "wf_pool p" and "has_page (pl_store p) pid"
  obtains pg where "read_page pid (pl_store p) = Inr pg" and "page_id pg = pid"
    and "storable (capacity (pl_store p)) pg"
  using fs.rd_ok [OF wf_poolD(1) [OF assms(1)] assms(2)] by blast

lemma loaded_entry:
  assumes wf: "wf_pool p" and h: "has_page (pl_store p) pid" and n: "dict_get (pl_entries p) pid = None"
    and pg: "read_page pid (pl_store p) = Inr pg"
    and a: "add_entry pid \<lparr>pe_page = pg, pe_dirty = False, pe_pins = 0\<rparr> p = (r, q)"
  shows "r = Inr (length (pl_objs p))" and "dict_get (pl_entries q) pid = Some (length (pl_objs p))"
    and "same_view p q" and "length (pl_entries q) = length (pl_entries p) + 1"
proof -
  show "r = Inr (length (pl_objs p))" "dict_get (pl_entries q) pid = Some (length (pl_objs p))"
    using a by (auto simp: add_entry_def dict_get_set)
  show "length (pl_entries q) = length (pl_entries p) + 1"
    using a n by (auto simp: add_entry_def length_dict_set map_of_eq_None_iff)
  have pg': "page_id pg = pid" "storable (capacity (pl_store p)) pg"
    using read_page_entry [OF wf h] pg by auto
  note w = add_entry_wf [OF wf _ h _ _ a]
  have q: "wf_pool q" "pool_view q pid = Inr pg" "\<And>k. k \<noteq> pid \<Longrightarrow> pool_view q k = pool_view p k"
    "pl_store q = pl_store p" using w pg pg' by simp_all
  have "pool_view p pid = Inr pg" using n pg by (simp add: pool_view_def)
  then have "pool_view q k = pool_view p k" for k using q by (cases "k = pid") simp_all
  moreover have "pl_capacity q = pl_capacity p" using a by (auto simp: add_entry_def)
  ultimately show "same_view p q" using q by (simp add: same_view_def)
qed

lemma pool_get_cases:
  assumes wf: "wf_pool p" and h: "has_page (pl_store p) pid" and g: "pool_get pid p = (r, q)"
  shows "same_view p q"
    and "r = Inr i \<Longrightarrow> pool_view p pid = Inr (handle_page i q) \<and> dict_get (pl_entries q) pid = Some i"
    and "r = Inl e \<Longrightarrow> evict_if_full p = (Inl e, q) \<and> dict_get (pl_entries p) pid = None"
    and "0 < pl_capacity p \<Longrightarrow> length (pl_entries p) \<le> pl_capacity p \<Longrightarrow>
      length (pl_entries q) \<le> pl_capacity p"
proof -
  have "same_view p q
     \<and> (\<forall>i. r = Inr i \<longrightarrow> pool_view p pid = Inr (handle_page i q) \<and> dict_get (pl_entries q) pid = Some i)
     \<and> (\<forall>e. r = Inl e \<longrightarrow> evict_if_full p = (Inl e, q) \<and> dict_get (pl_entries p) pid = None)
     \<and> (0 < pl_capacity p \<longrightarrow> length (pl_entries p) \<le> pl_capacity p \<longrightarrow> length (pl_entries q) \<le> pl_capacity p)"
  proof (cases "dict_get (pl_entries p) pid")
    case (Some i)
    then have "r = Inr i" "q = p" using g by (simp_all add: pool_get_def)
    then show ?thesis using Some wf by (simp add: same_view_refl pool_view_def handle_page_def)
  next
    case None
    obtain r1 p1 where e: "evict_if_full p = (r1, p1)" by force
    note ev = evict_if_full_evicted [OF wf e]
    have v1: "same_view p p1" using ev(1) by (simp add: evicted_def)
    then have wf1: "wf_pool p1" and h1: "has_page (pl_store p1) pid"
      using h by (simp_all add: same_view_def)
    show ?thesis
    proof (cases r1)
      case (Inl x)
      then have "r = Inl x" "q = p1" using g None e by (simp_all add: pool_get_def)
      moreover have "pl_entries p1 = pl_entries p"
        using evict_loop_error [OF _ wf subset_refl, of x p1] e Inl
        by (auto simp: evict_if_full_def split: if_splits)
      ultimately show ?thesis using v1 e Inl None by simp
    next
      case (Inr u)
      obtain pg where pg: "read_page pid (pl_store p1) = Inr pg" using read_page_entry [OF wf1 h1] by blast
      have a: "add_entry pid \<lparr>pe_page = pg, pe_dirty = False, pe_pins = 0\<rparr> p1 = (r, q)"
        using g None e Inr pg by (simp add: pool_get_def on_store_def)
      have "dict_get (pl_entries p1) pid = None"
        using evict_entries_subset [OF e] None by (auto simp: map_of_eq_None_iff)
      note ld = loaded_entry [OF wf1 h1 this pg a]
      have vq: "same_view p q" by (rule same_view_trans [OF v1 ld(3)])
      have "0 < pl_capacity p \<longrightarrow> length (pl_entries p) \<le> pl_capacity p \<longrightarrow>
          length (pl_entries q) \<le> pl_capacity p"
        using ev(2) Inr ld(4) by (auto simp: Suc_le_eq)
      moreover have "pool_view p pid = Inr (handle_page (length (pl_objs p1)) q)"
      proof -
        have "pool_view p pid = pool_view q pid" using vq h by (simp add: same_view_def)
        then show ?thesis using ld(2) by (simp add: pool_view_def handle_page_def)
      qed
      ultimately show ?thesis using vq ld(1,2) by simp
    qed
  qed
  then show "same_view p q"
    "r = Inr i \<Longrightarrow> pool_view p pid = Inr (handle_page i q) \<and> dict_get (pl_entries q) pid = Some i"
    "r = Inl e \<Longrightarrow> evict_if_full p = (Inl e, q) \<and> dict_get (pl_entries p) pid = None"
    "0 < pl_capacity p \<Longrightarrow> length (pl_entries p) \<le> pl_capacity p \<Longrightarrow>
      length (pl_entries q) \<le> pl_capacity p"
    by blast+
qed

lemma evict_loop_fails:
  "evict_loop items p = (Inl e, q) \<Longrightarrow> wf_pool p \<Longrightarrow> set items \<subseteq> set (pl_entries p) \<Longrightarrow>
   e = RuntimeError \<and> (\<forall>(pid, i) \<in> set items. 0 < pe_pins (pool_obj p i))"
proof (induction items)
  case (Cons it items)
  obtain pid i where it: "it = (pid, i)" by (cases it)
  have m: "(pid, i) \<in> set (pl_entries p)" using Cons.prems(3) it by simp
  obtain st where "write_page (pe_page (pool_obj p i)) (pl_store p) = (Inr (), st)"
    by (rule write_back [OF Cons.prems(2) m])
  then show ?case using Cons by (auto simp: it on_store_def split: if_splits)
qed simp

text \<open>
  C15: getting a page through a well-formed pool keeps the pool well-formed and within its
  capacity and changes no page a client sees; when it succeeds the handle holds the page of
  that number, and it fails only when every pooled page is pinned.
\<close>

theorem pool_get_keeps_view:
  assumes "wf_pool p" and "has_page (pl_store p) pid" and "0 < pl_capacity p"
    and "length (pl_entries p) \<le> pl_capacity p"
  shows "\<exists>r q. pool_get pid p = (r, q) \<and> wf_pool q \<and> length (pl_entries q) \<le> pl_capacity p
    \<and> (\<forall>k. has_page (pl_store p) k \<longrightarrow> pool_view q k = pool_view p k)
    \<and> (case r of Inr h \<Rightarrow> pool_view p pid = Inr (handle_page h q)
        | Inl e \<Rightarrow> e = RuntimeError \<and> (\<forall>(k, i) \<in> set (pl_entries p). 0 < pe_pins (pool_obj p i)))"
proof -
  obtain r q where g: "pool_get pid p = (r, q)" by force
  note c = pool_get_cases [OF assms(1,2) g]
  have "case r of Inr h \<Rightarrow> pool_view p pid = Inr (handle_page h q)
      | Inl e \<Rightarrow> e = RuntimeError \<and> (\<forall>(k, i) \<in> set (pl_entries p). 0 < pe_pins (pool_obj p i))"
    using c(2,3) evict_loop_fails [OF _ assms(1) subset_refl]
    by (auto simp: evict_if_full_def split: sum.split if_splits)
  then show ?thesis using g c(1) c(4) [OF assms(3,4)] by (auto simp: same_view_def)
qed

text \<open>
  Putting a page makes it the page a client sees under its number, and changes no
  other page a client sees.
\<close>

theorem pool_put_sets_view:
  assumes wf: "wf_pool p" and pg: "has_page (pl_store p) (page_id pg)" "storable (capacity (pl_store p)) pg"
    and ok: "pool_put pg p = (Inr h, q)"
  shows "wf_pool q \<and> pool_view q (page_id pg) = Inr pg \<and> handle_page h q = pg
    \<and> (\<forall>k. has_page (pl_store p) k \<longrightarrow> k \<noteq> page_id pg \<longrightarrow> pool_view q k = pool_view p k)"
proof -
  let ?e = "\<lparr>pe_page = pg, pe_dirty = True, pe_pins = 0\<rparr>"
  from ok obtain p1 where e: "evict_if_full p = (Inr (), p1)" and a: "add_entry (page_id pg) ?e p1 = (Inr h, q)"
    by (auto simp: pool_put_def elim!: sbind_InrE)
  have v: "same_view p p1" using evict_if_full_evicted(1) [OF wf e] by (simp add: evicted_def)
  then have wf1: "wf_pool p1" and h1: "has_page (pl_store p1) (page_id pg)"
    and s1: "storable (capacity (pl_store p1)) pg" using pg by (simp_all add: same_view_def)
  note w = add_entry_wf [OF wf1 _ h1 _ _ a]
  have "wf_pool q" "pool_view q (page_id pg) = Inr pg" "\<And>k. k \<noteq> page_id pg \<Longrightarrow> pool_view q k = pool_view p1 k"
    using w s1 by simp_all
  moreover have "handle_page h q = pg" using a by (auto simp: add_entry_def handle_page_def pool_obj_def)
  ultimately show ?thesis using v by (auto simp: same_view_def)
qed

lemma upd_clean:
  assumes wf: "wf_pool p" and m: "(pid, i) \<in> set (pl_entries p)"
    and r: "read_page pid (pl_store p) = Inr (pe_page (pool_obj p i))"
  shows "same_view p (upd_obj i (\<lambda>e. e\<lparr>pe_dirty := False\<rparr>) p)"
proof -
  let ?q = "upd_obj i (\<lambda>e. e\<lparr>pe_dirty := False\<rparr>) p"
  have l: "i < length (pl_objs p)" using wf_poolD(4) [OF wf m] by (simp add: entry_wf_def)
  note o = pool_obj_upd [OF l]
  have "entry_wf ?q k j" if "(k, j) \<in> set (pl_entries p)" for k j
  proof (cases "j = i")
    case True
    have "k = pid"
      using that m wf_poolD(3) [OF wf] unfolding True
      by (metis (no_types, lifting) distinct_map fst_conv inj_onD snd_conv)
    then show ?thesis using wf_poolD(4) [OF wf that] r True by (simp add: entry_wf_def o)
  next
    case False
    then show ?thesis using wf_poolD(4) [OF wf that] by (simp add: entry_wf_def o)
  qed
  then show ?thesis
    using wf by (auto simp: same_view_def wf_pool_def pool_view_def o split: option.split)
qed

lemma flush_loop_clean:
  assumes "wf_pool p" and "set items \<subseteq> set (pl_entries p)" and "distinct (map fst items)"
  shows "\<exists>q. flush_loop items p = (Inr (), q) \<and> same_view p q \<and> pl_entries q = pl_entries p
    \<and> (\<forall>(pid, i) \<in> set (pl_entries p). (pid, i) \<in> set items \<or> \<not> pe_dirty (pool_obj p i)
         \<longrightarrow> \<not> pe_dirty (pool_obj q i))"
  using assms
proof (induction items arbitrary: p)
  case Nil
  then show ?case by (auto simp: same_view_refl)
next
  case (Cons it items)
  note wf = Cons.prems(1)
  obtain pid i where it: "it = (pid, i)" by (cases it)
  have m: "(pid, i) \<in> set (pl_entries p)" using Cons.prems(2) it by simp
  have dist: "distinct (map fst items)" using Cons.prems(3) by simp
  show ?case
  proof (cases "pe_dirty (pool_obj p i)")
    case False
    then have "flush_loop (it # items) p = flush_loop items p" by (simp add: it)
    then show ?thesis using Cons.IH [OF wf _ dist] Cons.prems(2) False by (auto simp: it)
  next
    case True
    obtain st where st: "write_page (pe_page (pool_obj p i)) (pl_store p) = (Inr (), st)"
      and ok: "wf_store st" "has_page st = has_page (pl_store p)" "capacity st = capacity (pl_store p)"
        "read_page pid st = Inr (pe_page (pool_obj p i))"
        "\<And>q. has_page (pl_store p) q \<Longrightarrow> q \<noteq> pid \<Longrightarrow> read_page q st = read_page q (pl_store p)"
      by (rule write_back [OF wf m]) blast
    let ?p1 = "p\<lparr>pl_store := st\<rparr>" and ?f = "\<lambda>e. e\<lparr>pe_dirty := False\<rparr>"
    have s1: "same_view p ?p1" by (rule store_written [OF wf m ok])
    have s2: "same_view ?p1 (upd_obj i ?f ?p1)"
      by (rule upd_clean) (use s1 m ok in \<open>simp_all add: same_view_def\<close>)
    have s: "same_view p (upd_obj i ?f ?p1)" by (rule same_view_trans [OF s1 s2])
    then have wf2: "wf_pool (upd_obj i ?f ?p1)" by (simp add: same_view_def)
    have fl: "flush_loop (it # items) p = flush_loop items (upd_obj i ?f ?p1)"
      using True st by (simp add: it on_store_def)
    obtain q where q: "flush_loop items (upd_obj i ?f ?p1) = (Inr (), q)" "same_view (upd_obj i ?f ?p1) q"
      "pl_entries q = pl_entries p"
      "\<forall>(k, j) \<in> set (pl_entries p). (k, j) \<in> set items \<or> \<not> pe_dirty (pool_obj (upd_obj i ?f ?p1) j)
         \<longrightarrow> \<not> pe_dirty (pool_obj q j)"
      using Cons.IH [OF wf2 _ dist] Cons.prems(2) by auto
    have l: "i < length (pl_objs ?p1)" using wf_poolD(4) [OF wf m] by (simp add: entry_wf_def)
    have "\<not> pe_dirty (pool_obj q j)"
      if "(k, j) \<in> set (pl_entries p)" "(k, j) \<in> set (it # items) \<or> \<not> pe_dirty (pool_obj p j)" for k j
      using q(4) that pool_obj_upd [OF l, of ?f j] by (auto simp: it split: if_splits)
    then show ?thesis using fl q(1,3) same_view_trans [OF s q(2)] by auto
  qed
qed

text \<open>
  C14: flushing a well-formed pool succeeds, and afterwards the store itself holds every
  page a client sees through the pool.
\<close>

theorem flush_all_writes_every_view:
  assumes wf: "wf_pool p"
  shows "\<exists>q. flush_all p = (Inr (), q) \<and> wf_pool q
    \<and> (\<forall>k. has_page (pl_store p) k \<longrightarrow> pool_view q k = pool_view p k \<and> read_page k (pl_store q) = pool_view p k)"
proof -
  obtain q where q: "flush_loop (pl_entries p) p = (Inr (), q)" "same_view p q" "pl_entries q = pl_entries p"
    and clean: "\<forall>(pid, i) \<in> set (pl_entries p). \<not> pe_dirty (pool_obj q i)"
    using flush_loop_clean [OF wf subset_refl wf_poolD(2) [OF wf]] by blast
  have wfq: "wf_pool q" using q(2) by (simp add: same_view_def)
  have "read_page k (pl_store q) = pool_view q k" for k
  proof (cases "dict_get (pl_entries q) k")
    case (Some i)
    then have "(k, i) \<in> set (pl_entries q)" by (rule map_of_SomeD)
    then show ?thesis
      using wf_poolD(4) [OF wfq] clean q(3) Some by (fastforce simp: entry_wf_def pool_view_def)
  qed (simp add: pool_view_def)
  then show ?thesis using q by (auto simp: flush_all_def same_view_def)
qed

text \<open>
  The pool evicts the page that entered it first, not the one used least recently: a get
  that hits changes nothing in the pool, and a get that misses a full pool drops its first
  entry when that is not pinned.
\<close>

theorem pool_evicts_first_entered:
  assumes wf: "wf_pool p" and full: "pl_entries p = (a, i) # rest" "pl_capacity p = length (pl_entries p)"
    and unpinned: "pe_pins (pool_obj p i) = 0"
    and c: "has_page (pl_store p) c" "c \<notin> fst ` set (pl_entries p)"
  shows "\<exists>q r. pool_get a p = (Inr i, p) \<and> pool_get c p = (Inr r, q)
     \<and> map fst (pl_entries q) = map fst rest @ [c]"
proof -
  have m: "(a, i) \<in> set (pl_entries p)" by (simp add: full)
  have a: "a \<notin> fst ` set rest" using wf_poolD(2) [OF wf] by (simp add: full)
  have hit: "pool_get a p = (Inr i, p)" by (simp add: pool_get_def full)
  have miss: "dict_get (pl_entries p) c = None" using c(2) by (simp add: map_of_eq_None_iff)
  obtain st where ev: "evict_if_full p = (Inr (), p\<lparr>pl_store := st, pl_entries := rest\<rparr>)"
  proof -
    obtain st where "write_page (pe_page (pool_obj p i)) (pl_store p) = (Inr (), st)"
      by (rule write_back [OF wf m])
    then show thesis
      using that [of st] that [of "pl_store p"] unpinned full a
      by (cases "pe_dirty (pool_obj p i)") (auto simp: evict_if_full_def on_store_def)
  qed
  have v: "same_view p (p\<lparr>pl_store := st, pl_entries := rest\<rparr>)"
    using evict_if_full_evicted(1) [OF wf ev] by (simp add: evicted_def)
  then obtain pg where "read_page c st = Inr pg"
    using read_page_entry [of "p\<lparr>pl_store := st, pl_entries := rest\<rparr>" c] c(1)
    by (auto simp: same_view_def)
  then have "\<exists>q r. pool_get c p = (Inr r, q) \<and> map fst (pl_entries q) = map fst rest @ [c]"
    using miss ev c(2) full by (simp add: pool_get_def on_store_def add_entry_def update_keys)
  then show ?thesis using hit by blast
qed

section \<open>A concrete pool\<close>

text \<open>A pool of one page over a new database file, holding its table page.\<close>

definition demo_pool :: pool where
  "demo_pool = snd (pool_get 1 (new_pool demo_store 1))"

lemma demo_pool_eq:
  "demo_pool = \<lparr>pl_store = demo_store, pl_capacity = 1,
     pl_objs = [\<lparr>pe_page = new_page 1 TABLE, pe_dirty = False, pe_pins = 0\<rparr>], pl_entries = [(1, 0)]\<rparr>"
  by (simp add: demo_pool_def pool_get_def new_pool_def evict_if_full_def on_store_def demo_store_read
      add_entry_def)

lemma demo_pool_wf: "wf_pool demo_pool" and demo_pool_has: "has_page (pl_store demo_pool) 0"
proof -
  have h: "has_page (pl_store (new_pool demo_store 1)) 1"
    by (simp add: new_pool_def has_page_def demo_store_facts)
  show "wf_pool demo_pool"
    using pool_get_cases(1) [OF wf_new_pool [OF demo_store_facts(1)] h] surjective_pairing
    unfolding demo_pool_def same_view_def by blast
  show "has_page (pl_store demo_pool) 0" by (simp add: demo_pool_eq has_page_def demo_store_facts)
qed

theorem pool_get_keeps_view_witness:
  "\<exists>r q. pool_get 0 demo_pool = (r, q) \<and> wf_pool q \<and> pool_view q 1 = Inr (new_page 1 TABLE)"
proof -
  have "pool_view demo_pool 1 = Inr (new_page 1 TABLE)"
    by (simp add: demo_pool_eq pool_view_def pool_obj_def)
  moreover have "has_page (pl_store demo_pool) 1" "0 < pl_capacity demo_pool"
    "length (pl_entries demo_pool) \<le> pl_capacity demo_pool"
    by (simp_all add: demo_pool_eq has_page_def demo_store_facts)
  ultimately show ?thesis
    using pool_get_keeps_view [OF demo_pool_wf demo_pool_has] by auto
qed

theorem pool_put_sets_view_witness:
  "\<exists>h q. pool_put (new_page 1 INDEX) demo_pool = (Inr h, q) \<and> pool_view q 1 = Inr (new_page 1 INDEX)"
proof -
  obtain h q where e: "pool_put (new_page 1 INDEX) demo_pool = (Inr h, q)"
    by (simp add: demo_pool_eq pool_put_def evict_if_full_def pool_obj_def add_entry_def)
  have "has_page (pl_store demo_pool) (page_id (new_page 1 INDEX))"
    "storable (capacity (pl_store demo_pool)) (new_page 1 INDEX)"
    by (simp_all add: demo_pool_eq has_page_def demo_store_facts new_page_def storable_def)
  from pool_put_sets_view [OF demo_pool_wf this e] e show ?thesis by (auto simp: new_page_def)
qed

theorem flush_all_writes_every_view_witness:
  "\<exists>q. flush_all demo_pool = (Inr (), q) \<and> read_page 1 (pl_store q) = Inr (new_page 1 TABLE)"
  using flush_all_writes_every_view [OF demo_pool_wf]
  by (auto simp: demo_pool_eq has_page_def demo_store_facts pool_view_def pool_obj_def)

theorem pool_evicts_first_entered_witness:
  "\<exists>q r. pool_get 1 demo_pool = (Inr 0, demo_pool) \<and> pool_get 0 demo_pool = (Inr r, q)
     \<and> map fst (pl_entries q) = [0]"
  using pool_evicts_first_entered [OF demo_pool_wf, of 1 0 "[]" 0] demo_pool_has
  by (simp add: demo_pool_eq pool_obj_def)

end
