(* ===== verification/Lock.thy ===== *)
theory Lock
  imports Prelude PyErrors
begin

text \<open>
  tinydb/lock.py: the reader-writer lock as a step relation between the critical sections
  of its mutex (a thread blocked in \<open>Condition.wait\<close> is asleep until it is notified or its
  timeout passes). The lock on the file is the theory FileLock.
\<close>

section \<open>RWLock\<close>

text \<open>A waiting thread carries whether it has been notified.\<close>

datatype thread_state = Idle | RWaiting bool | WWaiting bool | Reading | Writing

record rwlock =
  readers :: int
  writers :: int
  writer_waiters :: int
  threads :: "thread_state list"

definition rw_init :: "nat \<Rightarrow> rwlock" where
  "rw_init n = \<lparr>readers = 0, writers = 0, writer_waiters = 0, threads = replicate n Idle\<rparr>"

definition set_thread :: "nat \<Rightarrow> thread_state \<Rightarrow> rwlock \<Rightarrow> rwlock" where
  "set_thread t x s = s\<lparr>threads := (threads s)[t := x]\<rparr>"

text \<open>
  The loop test of \<open>acquire_read\<close>, when the thread holds the mutex: enter, raise
  \<open>DatabaseBusy\<close> when the deadline has passed, or sleep.
\<close>

definition read_attempt :: "nat \<Rightarrow> bool \<Rightarrow> rwlock \<Rightarrow> rwlock" where
  "read_attempt t expired s =
     (if writers s > 0 \<or> writer_waiters s > 0
      then (if expired then set_thread t Idle s else set_thread t (RWaiting False) s)
      else set_thread t Reading (s\<lparr>readers := readers s + 1\<rparr>))"

definition write_attempt :: "nat \<Rightarrow> bool \<Rightarrow> rwlock \<Rightarrow> rwlock" where
  "write_attempt t expired s =
     (if readers s > 0 \<or> writers s > 0
      then (if expired then set_thread t Idle (s\<lparr>writer_waiters := writer_waiters s - 1\<rparr>)
            else set_thread t (WWaiting False) s)
      else set_thread t Writing (s\<lparr>writers := writers s + 1, writer_waiters := writer_waiters s - 1\<rparr>))"

text \<open>\<open>_writers_ok.notify()\<close> wakes one sleeping writer if there is any.\<close>

definition sleeping_writers :: "rwlock \<Rightarrow> nat list" where
  "sleeping_writers s = filter (\<lambda>t. threads s ! t = WWaiting False) [0..<length (threads s)]"

definition notify_writer :: "nat option \<Rightarrow> rwlock \<Rightarrow> rwlock" where
  "notify_writer w s = (case w of None \<Rightarrow> s | Some t \<Rightarrow> set_thread t (WWaiting True) s)"

definition may_notify :: "nat option \<Rightarrow> rwlock \<Rightarrow> bool" where
  "may_notify w s \<longleftrightarrow>
     (case w of None \<Rightarrow> sleeping_writers s = [] | Some t \<Rightarrow> t \<in> set (sleeping_writers s))"

definition notify_readers :: "rwlock \<Rightarrow> rwlock" where
  "notify_readers s =
     s\<lparr>threads := map (\<lambda>x. if x = RWaiting False then RWaiting True else x) (threads s)\<rparr>"

inductive rw_step :: "rwlock \<Rightarrow> rwlock \<Rightarrow> bool" where
  acquire_read: "t < length (threads s) \<Longrightarrow> threads s ! t = Idle \<Longrightarrow> rw_step s (read_attempt t expired s)"
| resume_read: "t < length (threads s) \<Longrightarrow> threads s ! t = RWaiting notified \<Longrightarrow> notified \<or> expired \<Longrightarrow>
    rw_step s (read_attempt t expired s)"
| acquire_write: "t < length (threads s) \<Longrightarrow> threads s ! t = Idle \<Longrightarrow>
    rw_step s (write_attempt t expired (s\<lparr>writer_waiters := writer_waiters s + 1\<rparr>))"
| resume_write: "t < length (threads s) \<Longrightarrow> threads s ! t = WWaiting notified \<Longrightarrow> notified \<or> expired \<Longrightarrow>
    rw_step s (write_attempt t expired s)"
| release_read_last: "t < length (threads s) \<Longrightarrow> threads s ! t = Reading \<Longrightarrow> readers s - 1 = 0 \<Longrightarrow>
    may_notify w s \<Longrightarrow> rw_step s (notify_writer w (set_thread t Idle (s\<lparr>readers := readers s - 1\<rparr>)))"
| release_read_other: "t < length (threads s) \<Longrightarrow> threads s ! t = Reading \<Longrightarrow> readers s - 1 \<noteq> 0 \<Longrightarrow>
    rw_step s (set_thread t Idle (s\<lparr>readers := readers s - 1\<rparr>))"
| release_write: "t < length (threads s) \<Longrightarrow> threads s ! t = Writing \<Longrightarrow> may_notify w s \<Longrightarrow>
    rw_step s (notify_readers (notify_writer w (set_thread t Idle (s\<lparr>writers := writers s - 1\<rparr>))))"

inductive rw_reachable :: "nat \<Rightarrow> rwlock \<Rightarrow> bool" for n where
  start: "rw_reachable n (rw_init n)"
| step: "rw_reachable n s \<Longrightarrow> rw_step s s' \<Longrightarrow> rw_reachable n s'"

section \<open>Mutual exclusion\<close>

definition num :: "(thread_state \<Rightarrow> bool) \<Rightarrow> rwlock \<Rightarrow> int" where
  "num P s = int (length (filter P (threads s)))"

definition is_wwait :: "thread_state \<Rightarrow> bool" where
  "is_wwait x \<longleftrightarrow> (\<exists>b. x = WWaiting b)"

text \<open>The counters count the threads; a writer excludes everyone else.\<close>

definition rw_inv :: "rwlock \<Rightarrow> bool" where
  "rw_inv s \<longleftrightarrow>
     readers s = num (\<lambda>x. x = Reading) s \<and> writers s = num (\<lambda>x. x = Writing) s
     \<and> writer_waiters s = num is_wwait s
     \<and> (0 < writers s \<longrightarrow> writers s = 1 \<and> readers s = 0)"

lemma count_update:
  "t < length xs \<Longrightarrow> int (length (filter P (xs[t := x])))
     = int (length (filter P xs)) - (if P (xs ! t) then 1 else 0) + (if P x then 1 else 0)"
proof -
  assume t: "t < length xs"
  have "filter P xs = filter P (take t xs) @ (if P (xs ! t) then [xs ! t] else []) @ filter P (drop (Suc t) xs)"
    by (subst (1) id_take_nth_drop [OF t]) simp
  then show ?thesis using t by (simp add: upd_conv_take_nth_drop)
qed

lemma num_set_thread:
  "t < length (threads s) \<Longrightarrow> num P (set_thread t x s)
     = num P s - (if P (threads s ! t) then 1 else 0) + (if P x then 1 else 0)"
  by (simp add: num_def set_thread_def count_update)

lemma num_counters [simp]:
  "num P (s\<lparr>readers := r\<rparr>) = num P s" "num P (s\<lparr>writers := w\<rparr>) = num P s"
  "num P (s\<lparr>writer_waiters := v\<rparr>) = num P s"
  by (simp_all add: num_def)

lemma set_thread_counters [simp]:
  "readers (set_thread t x s) = readers s" "writers (set_thread t x s) = writers s"
  "writer_waiters (set_thread t x s) = writer_waiters s"
  "length (threads (set_thread t x s)) = length (threads s)"
  by (simp_all add: set_thread_def)

lemma num_nonneg [simp]: "0 \<le> num P s"
  by (simp add: num_def)

lemma is_wwait_simps [simp]:
  "is_wwait (WWaiting b)" "\<not> is_wwait Idle" "\<not> is_wwait Reading" "\<not> is_wwait Writing"
  "\<not> is_wwait (RWaiting b)"
  by (simp_all add: is_wwait_def)

lemma num_notify_writer:
  assumes "may_notify w s" and "threads s' = (threads s)[t := x]" and "threads s ! t \<noteq> WWaiting False"
    and "P (WWaiting True) = P (WWaiting False)"
  shows "num P (notify_writer w s') = num P s'"
proof (cases w)
  case (Some u)
  then have u: "u < length (threads s')" "threads s ! u = WWaiting False" "u \<noteq> t"
    using assms(1-3) by (auto simp: may_notify_def sleeping_writers_def)
  then have "threads s' ! u = WWaiting False" using assms(2) by simp
  then show ?thesis using u assms(4) Some by (simp add: notify_writer_def num_set_thread)
qed (simp add: notify_writer_def)

lemma notify_writer_counters [simp]:
  "readers (notify_writer w s) = readers s" "writers (notify_writer w s) = writers s"
  "writer_waiters (notify_writer w s) = writer_waiters s"
  by (simp_all add: notify_writer_def split: option.splits)

lemma num_notify_readers:
  "P (RWaiting True) = P (RWaiting False) \<Longrightarrow> num P (notify_readers s) = num P s"
  by (simp add: num_def notify_readers_def filter_map o_def if_distrib [of P] cong: filter_cong)
    (metis (mono_tags, lifting) filter_cong)

lemma notify_readers_counters [simp]:
  "readers (notify_readers s) = readers s" "writers (notify_readers s) = writers s"
  "writer_waiters (notify_readers s) = writer_waiters s"
  by (simp_all add: notify_readers_def)

lemma rw_inv_read_attempt:
  assumes "rw_inv s" and "t < length (threads s)" and "threads s ! t = Idle \<or> threads s ! t = RWaiting b"
  shows "rw_inv (read_attempt t expired s)"
  using assms by (auto simp: rw_inv_def read_attempt_def num_set_thread)

lemma rw_inv_write_attempt:
  assumes r: "readers s = num (\<lambda>x. x = Reading) s" and w: "writers s = num (\<lambda>x. x = Writing) s"
    and x: "0 < writers s \<longrightarrow> writers s = 1 \<and> readers s = 0" and t: "t < length (threads s)"
    and c: "threads s ! t = Idle \<and> writer_waiters s = num is_wwait s + 1
       \<or> threads s ! t = WWaiting b \<and> writer_waiters s = num is_wwait s"
  shows "rw_inv (write_attempt t expired s)"
proof -
  have free: "readers s = 0 \<and> writers s = 0" if "\<not> (readers s > 0 \<or> writers s > 0)"
    using that r w num_nonneg [of "\<lambda>x. x = Reading" s] num_nonneg [of "\<lambda>x. x = Writing" s] by linarith
  show ?thesis
  proof (cases "readers s > 0 \<or> writers s > 0")
    case True
    then show ?thesis using assms by (auto simp: rw_inv_def write_attempt_def num_set_thread)
  next
    case False
    then show ?thesis
      using free [OF False] assms by (auto simp: rw_inv_def write_attempt_def num_set_thread)
  qed
qed

lemma num_pos: "t < length (threads s) \<Longrightarrow> P (threads s ! t) \<Longrightarrow> 0 < num P s"
  by (auto simp: num_def filter_empty_conv intro: nth_mem)

lemma rw_inv_notify:
  assumes inv: "rw_inv (set_thread t Idle s')"
    and m: "may_notify w s" and t: "t < length (threads s)" "threads s ! t = Reading \<or> threads s ! t = Writing"
    and s': "threads s' = threads s"
  shows "rw_inv (notify_writer w (set_thread t Idle s'))"
proof -
  let ?s = "set_thread t Idle s'"
  have "num P (notify_writer w ?s) = num P ?s" if "P (WWaiting True) = P (WWaiting False)" for P
    by (rule num_notify_writer [OF m, where t = t]) (use t that s' in \<open>auto simp: set_thread_def\<close>)
  then have "num (\<lambda>x. x = Reading) (notify_writer w ?s) = num (\<lambda>x. x = Reading) ?s"
    "num (\<lambda>x. x = Writing) (notify_writer w ?s) = num (\<lambda>x. x = Writing) ?s"
    "num is_wwait (notify_writer w ?s) = num is_wwait ?s" by simp_all
  then show ?thesis using inv by (auto simp: rw_inv_def)
qed

lemma rw_inv_notify_readers: "rw_inv s \<Longrightarrow> rw_inv (notify_readers s)"
  by (auto simp: rw_inv_def num_notify_readers)

lemma rw_inv_step: "rw_step s s' \<Longrightarrow> rw_inv s \<Longrightarrow> rw_inv s'"
proof (induction rule: rw_step.induct)
  case (acquire_read t s expired)
  then show ?case by (intro rw_inv_read_attempt) auto
next
  case (resume_read t s notified expired)
  then show ?case by (intro rw_inv_read_attempt) auto
next
  case (acquire_write t s expired)
  then show ?case by (intro rw_inv_write_attempt) (auto simp: rw_inv_def)
next
  case (resume_write t s notified expired)
  then show ?case by (intro rw_inv_write_attempt) (auto simp: rw_inv_def)
next
  case (release_read_last t s w)
  have "rw_inv (set_thread t Idle (s\<lparr>readers := readers s - 1\<rparr>))"
    using release_read_last num_pos [OF release_read_last(1), of "\<lambda>x. x = Reading"]
    by (auto simp: rw_inv_def num_set_thread)
  then show ?case by (rule rw_inv_notify [OF _ release_read_last(4,1)]) (simp_all add: release_read_last)
next
  case (release_read_other t s)
  then show ?case using num_pos [OF release_read_other(1), of "\<lambda>x. x = Reading"]
    by (auto simp: rw_inv_def num_set_thread)
next
  case (release_write t s w)
  have "rw_inv (set_thread t Idle (s\<lparr>writers := writers s - 1\<rparr>))"
    using release_write num_pos [OF release_write(1), of "\<lambda>x. x = Writing"]
    by (auto simp: rw_inv_def num_set_thread)
  then have "rw_inv (notify_writer w (set_thread t Idle (s\<lparr>writers := writers s - 1\<rparr>)))"
    by (rule rw_inv_notify [OF _ release_write(3,1)]) (simp_all add: release_write)
  then show ?case by (rule rw_inv_notify_readers)
qed

lemma rw_inv_reachable: "rw_reachable n s \<Longrightarrow> rw_inv s"
proof (induction rule: rw_reachable.induct)
  case start
  show ?case by (simp add: rw_inv_def rw_init_def num_def)
next
  case (step s s')
  then show ?case by (blast intro: rw_inv_step)
qed

lemma num_two:
  assumes "t < length (threads s)" "u < length (threads s)" "t \<noteq> u" "P (threads s ! t)" "P (threads s ! u)"
  shows "2 \<le> num P s"
proof -
  have "card {t, u} \<le> card {i. i < length (threads s) \<and> P (threads s ! i)}"
    by (rule card_mono) (use assms in auto)
  then show ?thesis using assms(3) by (simp add: num_def length_filter_conv_card)
qed

text \<open>
  C19: in every reachable state of the lock, whatever the interleaving and whichever waits
  time out, a thread that holds the write lock is the only thread that holds the lock.
\<close>

theorem rwlock_mutual_exclusion:
  assumes "rw_reachable n s" and "t < length (threads s)" and "threads s ! t = Writing"
    and "u < length (threads s)" and "u \<noteq> t"
  shows "threads s ! u \<noteq> Reading \<and> threads s ! u \<noteq> Writing"
proof -
  note i = rw_inv_reachable [OF assms(1), unfolded rw_inv_def]
  have w: "0 < writers s" using num_pos [OF assms(2)] assms(3) i by simp
  have "threads s ! u \<noteq> Writing"
    using num_two [OF assms(2,4), of "\<lambda>x. x = Writing"] assms(3,5) i w by auto
  moreover have "threads s ! u \<noteq> Reading"
    using num_pos [OF assms(4), of "\<lambda>x. x = Reading"] i w by auto
  ultimately show ?thesis by simp
qed

text \<open>
  C26: while a writer waits, a thread that asks for the read lock does not get it, in every
  reachable state: writers are preferred.
\<close>

theorem rwlock_prefers_writers:
  assumes "rw_reachable n s" and "w < length (threads s)" and "threads s ! w = WWaiting b"
    and "t < length (threads s)"
  shows "threads (read_attempt t expired s) ! t = (if expired then Idle else RWaiting False)"
proof -
  have "0 < writer_waiters s"
    using rw_inv_reachable [OF assms(1), unfolded rw_inv_def] num_pos [OF assms(2), of is_wwait] assms(3) by simp
  then show ?thesis using assms(4) by (simp add: read_attempt_def set_thread_def)
qed

text \<open>
  A writer that times out leaves the waiting count without notifying the readers that wait
  for it.
\<close>

definition stranded :: rwlock where
  "stranded = \<lparr>readers = 1, writers = 0, writer_waiters = 0, threads = [Reading, Idle, RWaiting False]\<rparr>"

text \<open>
  A reachable state in which no thread writes and no writer waits, and yet a thread
  sleeps in \<open>acquire_read\<close> without a notification on its way: the writer it gave way to has
  timed out, and nobody woke it.
\<close>

theorem rwlock_stranded_reader: "rw_reachable 3 stranded"
proof -
  have a: "rw_reachable 3 (read_attempt 0 False (rw_init 3))"
    by (rule rw_reachable.step [OF start acquire_read]) (simp_all add: rw_init_def)
  let ?s1 = "read_attempt 0 False (rw_init 3)"
  let ?s2 = "write_attempt 1 False (?s1\<lparr>writer_waiters := writer_waiters ?s1 + 1\<rparr>)"
  have b: "rw_reachable 3 ?s2"
    by (rule rw_reachable.step [OF a acquire_write])
      (simp_all add: rw_init_def read_attempt_def set_thread_def numeral_3_eq_3)
  let ?s3 = "read_attempt 2 False ?s2"
  have c: "rw_reachable 3 ?s3"
    by (rule rw_reachable.step [OF b acquire_read])
      (simp_all add: rw_init_def read_attempt_def write_attempt_def set_thread_def numeral_3_eq_3)
  have "rw_reachable 3 (write_attempt 1 True ?s3)"
    by (rule rw_reachable.step [OF c resume_write [where notified = False]])
      (simp_all add: rw_init_def read_attempt_def write_attempt_def set_thread_def numeral_3_eq_3)
  moreover have "write_attempt 1 True ?s3 = stranded"
    by (simp add: rw_init_def read_attempt_def write_attempt_def set_thread_def numeral_3_eq_3 stranded_def)
  ultimately show ?thesis by simp
qed

text \<open>A lock that one of two threads holds for writing.\<close>

lemma demo_writing:
  "rw_reachable 2 \<lparr>readers = 0, writers = 1, writer_waiters = 0, threads = [Writing, Idle]\<rparr>"
proof -
  have "rw_reachable 2 (write_attempt 0 False ((rw_init 2)\<lparr>writer_waiters := writer_waiters (rw_init 2) + 1\<rparr>))"
    by (rule rw_reachable.step [OF start acquire_write]) (simp_all add: rw_init_def)
  then show ?thesis by (simp add: rw_init_def write_attempt_def set_thread_def numeral_2_eq_2)
qed

theorem rwlock_mutual_exclusion_witness:
  "\<exists>s. rw_reachable 2 s \<and> threads s ! 0 = Writing \<and> threads s ! 1 \<noteq> Reading"
  using rwlock_mutual_exclusion [OF demo_writing, of 0 1] demo_writing by auto

lemma demo_waiting:
  "rw_reachable 2 \<lparr>readers = 1, writers = 0, writer_waiters = 1, threads = [Reading, WWaiting False]\<rparr>"
proof -
  have a: "rw_reachable 2 (read_attempt 0 False (rw_init 2))"
    by (rule rw_reachable.step [OF start acquire_read]) (simp_all add: rw_init_def)
  let ?s = "read_attempt 0 False (rw_init 2)"
  have "rw_reachable 2 (write_attempt 1 False (?s\<lparr>writer_waiters := writer_waiters ?s + 1\<rparr>))"
    by (rule rw_reachable.step [OF a acquire_write])
      (simp_all add: rw_init_def read_attempt_def set_thread_def numeral_2_eq_2)
  then show ?thesis
    by (simp add: rw_init_def read_attempt_def write_attempt_def set_thread_def numeral_2_eq_2)
qed

theorem rwlock_prefers_writers_witness:
  "threads (read_attempt 0 True \<lparr>readers = 1, writers = 0, writer_waiters = 1,
     threads = [Reading, WWaiting False]\<rparr>) ! 0 = Idle"
  using rwlock_prefers_writers [OF demo_waiting, of 1 False 0 True] by simp

end
