(* ===== verification/FileLock.thy ===== *)
theory FileLock
  imports Prelude PyErrors
begin

text \<open>
  tinydb/lock.py, \<open>FileLock\<close>: the advisory lock on the database file. The table of the operating
  system is modelled as \<open>flock\<close> documents it: a lock belongs to an open file description, a
  request that conflicts with the lock of another description is refused, and a refused
  conversion may have lost the lock that was to be converted. A process names its descriptions
  by numbers, and a number that has been closed may be given to the next file it opens. Any
  number of lock objects, in any processes, work on the table; each call of the operating
  system is a step of its own, so that the steps of all objects may interleave. One object is
  used by one thread at a time. Descriptors that a child inherits from its parent are not
  modelled.
\<close>

section \<open>The locks of the operating system\<close>

datatype flock_mode = LOCK_SH | LOCK_EX

datatype flock_outcome = Flock_OK | Flock_AGAIN | Flock_ERR

type_synonym process = nat

text \<open>
  The descriptors of the lock file: a process and a number, with the open description (counted
  as they are opened) behind it, and the locks of the descriptions.
\<close>

record flock_table =
  ft_next :: nat
  ft_fds :: "((process \<times> nat) \<times> nat) list"
  ft_held :: "nat \<Rightarrow> flock_mode option"

definition flock_init :: flock_table where
  "flock_init = \<lparr>ft_next = 0, ft_fds = [], ft_held = (\<lambda>_. None)\<rparr>"

definition fd_at :: "process \<Rightarrow> nat \<Rightarrow> flock_table \<Rightarrow> nat option" where
  "fd_at p n t = map_of (ft_fds t) (p, n)"

definition flock_compatible :: "nat \<Rightarrow> flock_mode \<Rightarrow> flock_table \<Rightarrow> bool" where
  "flock_compatible d mode t =
     list_all (\<lambda>g. g = d \<or> ft_held t g = None \<or> (mode = LOCK_SH \<and> ft_held t g = Some LOCK_SH)) (map snd (ft_fds t))"

text \<open>\<open>flock(fd, mode | LOCK_NB)\<close>; \<open>kept\<close>: whether a refused conversion kept the old lock.\<close>

definition flock :: "process \<Rightarrow> nat \<Rightarrow> flock_mode \<Rightarrow> bool \<Rightarrow> flock_table \<Rightarrow> flock_outcome \<times> flock_table" where
  "flock p fd mode kept t =
     (case fd_at p fd t of
        None \<Rightarrow> (Flock_ERR, t)
      | Some d \<Rightarrow>
          if flock_compatible d mode t then (Flock_OK, t\<lparr>ft_held := (ft_held t)(d \<mapsto> mode)\<rparr>)
          else (Flock_AGAIN, if kept then t else t\<lparr>ft_held := (ft_held t)(d := None)\<rparr>))"

definition flock_un :: "process \<Rightarrow> nat \<Rightarrow> flock_table \<Rightarrow> flock_outcome \<times> flock_table" where
  "flock_un p fd t =
     (case fd_at p fd t of
        None \<Rightarrow> (Flock_ERR, t)
      | Some d \<Rightarrow> (Flock_OK, t\<lparr>ft_held := (ft_held t)(d := None)\<rparr>))"

text \<open>The system calls open and close. The number is free again as soon as it is closed.\<close>

definition open_fd :: "process \<Rightarrow> nat \<Rightarrow> flock_table \<Rightarrow> flock_table" where
  "open_fd p n t = t\<lparr>ft_next := ft_next t + 1, ft_fds := ((p, n), ft_next t) # ft_fds t\<rparr>"

definition close_fd :: "process \<Rightarrow> nat \<Rightarrow> flock_table \<Rightarrow> flock_outcome \<times> flock_table" where
  "close_fd p n t =
     (case fd_at p n t of
        None \<Rightarrow> (Flock_ERR, t)
      | Some d \<Rightarrow> (Flock_OK, t\<lparr>ft_fds := filter (\<lambda>x. fst x \<noteq> (p, n)) (ft_fds t), ft_held := (ft_held t)(d := None)\<rparr>))"

section \<open>The lock object\<close>

text \<open>\<open>fl_file\<close> is the number that the file object has noted, \<open>fl_fd\<close> the one of \<open>_fd\<close>.\<close>

record file_lock =
  fl_path :: pystr
  fl_file :: "nat option"
  fl_fd :: "nat option"

type_synonym 'a flx = "(file_lock \<times> flock_table, py_error, 'a) sx"

definition file_lock_new :: "pystr \<Rightarrow> file_lock" where
  "file_lock_new path = \<lparr>fl_path = path, fl_file = None, fl_fd = None\<rparr>"

text \<open>
  \<open>_open\<close>: the operating system picks a number that the process does not use (the steps below
  ask for one), or refuses.
\<close>

definition fl_open :: "process \<Rightarrow> nat option \<Rightarrow> unit flx" where
  "fl_open p pick = (\<lambda>(l, t).
     if fl_fd l = None then
       (case pick of
          None \<Rightarrow> (Inl OSError, l, t)
        | Some n \<Rightarrow> (Inr (), l\<lparr>fl_file := Some n, fl_fd := Some n\<rparr>, open_fd p n t))
     else (Inr (), l, t))"

definition fl_get_fd :: "nat flx" where
  "fl_get_fd = (\<lambda>(l, t). case fl_fd l of None \<Rightarrow> (Inl AssertionError, l, t) | Some fd \<Rightarrow> (Inr fd, l, t))"

text \<open>
  One round of the loop of \<open>shared\<close> and \<open>exclusive\<close>: the outcome of \<open>flock\<close> and, after a refusal,
  the reading of the clock decide on the return, the exception, or (None) the next sleep.
\<close>

definition lock_round :: "pystr \<Rightarrow> int \<Rightarrow> flock_outcome \<Rightarrow> int \<Rightarrow> (py_error + unit) option" where
  "lock_round what deadline r now =
     (case r of
        Flock_OK \<Rightarrow> Some (Inr ())
      | Flock_ERR \<Rightarrow> Some (Inl OSError)
      | Flock_AGAIN \<Rightarrow> if deadline \<le> now then Some (Inl (DatabaseBusy what)) else None)"

definition lock_message :: "flock_mode \<Rightarrow> pystr \<Rightarrow> pystr" where
  "lock_message mode path =
     str ''timeout acquiring '' @ (case mode of LOCK_SH \<Rightarrow> str ''shared'' | LOCK_EX \<Rightarrow> str ''exclusive'')
     @ str '' file lock on '' @ path"

text \<open>The round on the table: True when the lock is taken, False when the caller sleeps.\<close>

definition fl_round :: "process \<Rightarrow> flock_mode \<Rightarrow> int \<Rightarrow> int \<Rightarrow> bool \<Rightarrow> nat \<Rightarrow> bool flx" where
  "fl_round p mode deadline now kept fd = (\<lambda>(l, t).
     case flock p fd mode kept t of (r, t') \<Rightarrow>
       (case lock_round (lock_message mode (fl_path l)) deadline r now of
          None \<Rightarrow> Inr False
        | Some (Inr u) \<Rightarrow> Inr True
        | Some (Inl e) \<Rightarrow> Inl e, l, t'))"

definition fl_release :: "process \<Rightarrow> unit flx" where
  "fl_release p = (\<lambda>(l, t).
     case fl_fd l of
       None \<Rightarrow> (Inr (), l, t)
     | Some fd \<Rightarrow> (case flock_un p fd t of (r, t') \<Rightarrow> (if r = Flock_OK then Inr () else Inl OSError, l, t')))"

text \<open>
  \<open>close\<close> (and \<open>__exit__\<close>) makes three calls of the operating system: it unlocks the descriptor,
  closes its number, and lets the file object close the number it has noted, which is the same
  one; errors are passed over.
\<close>

definition fl_close_unlock :: "process \<Rightarrow> unit flx" where
  "fl_close_unlock p = (\<lambda>(l, t). case fl_fd l of None \<Rightarrow> (Inr (), l, t) | Some fd \<Rightarrow> (Inr (), l, snd (flock_un p fd t)))"

definition fl_close_fd :: "process \<Rightarrow> unit flx" where
  "fl_close_fd p = (\<lambda>(l, t).
     case fl_fd l of None \<Rightarrow> (Inr (), l, t) | Some fd \<Rightarrow> (Inr (), l\<lparr>fl_fd := None\<rparr>, snd (close_fd p fd t)))"

definition fl_close_file :: "process \<Rightarrow> unit flx" where
  "fl_close_file p = (\<lambda>(l, t).
     case fl_file l of None \<Rightarrow> (Inr (), l, t) | Some n \<Rightarrow> (Inr (), l\<lparr>fl_file := None\<rparr>, snd (close_fd p n t)))"

section \<open>The retry loop of one call\<close>

text \<open>
  A run of the loop is given by the outcome and the clock reading of each round; None stands
  for a loop that still runs when they are used up.
\<close>

fun flock_loop :: "pystr \<Rightarrow> int \<Rightarrow> (flock_outcome \<times> int) list \<Rightarrow> (py_error + unit) option" where
  "flock_loop what deadline [] = None"
| "flock_loop what deadline ((r, now) # rounds) =
     (case lock_round what deadline r now of
        None \<Rightarrow> flock_loop what deadline rounds
      | Some result \<Rightarrow> Some result)"

definition file_lock_shared :: "pystr \<Rightarrow> int \<Rightarrow> int \<Rightarrow> (flock_outcome \<times> int) list \<Rightarrow> (py_error + unit) option" where
  "file_lock_shared path start timeout rounds = flock_loop (lock_message LOCK_SH path) (start + timeout) rounds"

definition file_lock_exclusive :: "pystr \<Rightarrow> int \<Rightarrow> int \<Rightarrow> (flock_outcome \<times> int) list \<Rightarrow> (py_error + unit) option" where
  "file_lock_exclusive path start timeout rounds = flock_loop (lock_message LOCK_EX path) (start + timeout) rounds"

lemma lock_round_simps [simp]:
  "lock_round what deadline Flock_OK now = Some (Inr ())"
  "lock_round what deadline Flock_ERR now = Some (Inl OSError)"
  "lock_round what deadline Flock_AGAIN now = (if deadline \<le> now then Some (Inl (DatabaseBusy what)) else None)"
  by (simp_all add: lock_round_def)

lemma lock_round_cases:
  "lock_round what deadline r now = None \<longleftrightarrow> r = Flock_AGAIN \<and> now < deadline"
  "lock_round what deadline r now = Some (Inr ()) \<longleftrightarrow> r = Flock_OK"
  by (cases r; auto)+

lemma flock_loop_returns:
  "\<exists>(r, now) \<in> set rounds. deadline \<le> now \<Longrightarrow> flock_loop what deadline rounds \<noteq> None"
  by (induction rounds) (fastforce simp: lock_round_cases split: option.splits)+

lemma flock_loop_OK:
  "flock_loop what deadline rounds = Some (Inr ()) \<longleftrightarrow>
     (\<exists>pre now post. rounds = pre @ (Flock_OK, now) # post
        \<and> (\<forall>(r, n) \<in> set pre. r = Flock_AGAIN \<and> n < deadline))" (is "_ \<longleftrightarrow> ?R rounds")
proof (induction rounds)
  case (Cons x rounds)
  obtain r now where x: "x = (r, now)" by (cases x)
  have step: "?R (x # rounds) \<longleftrightarrow> r = Flock_OK \<or> r = Flock_AGAIN \<and> now < deadline \<and> ?R rounds"
    (is "_ \<longleftrightarrow> ?S")
  proof
    assume "?R (x # rounds)"
    then obtain pre n post where "x # rounds = pre @ (Flock_OK, n) # post"
      "\<forall>(r, n) \<in> set pre. r = Flock_AGAIN \<and> n < deadline" by blast
    then show ?S by (cases pre) (auto simp: x)
  next
    assume ?S
    then show "?R (x # rounds)"
    proof (elim disjE conjE exE)
      assume "r = Flock_OK"
      then show ?thesis by (intro exI [of _ "[]"]) (simp add: x)
    next
      fix pre n post assume "r = Flock_AGAIN" "now < deadline" "rounds = pre @ (Flock_OK, n) # post"
        "\<forall>(r, n) \<in> set pre. r = Flock_AGAIN \<and> n < deadline"
      then show ?thesis by (intro exI [of _ "x # pre"] exI [of _ n] exI [of _ post]) (simp add: x)
    qed
  qed
  have "flock_loop what deadline (x # rounds) = Some (Inr ())
      \<longleftrightarrow> r = Flock_OK \<or> r = Flock_AGAIN \<and> now < deadline \<and> flock_loop what deadline rounds = Some (Inr ())"
    by (cases r) (auto simp: x)
  then show ?case unfolding step Cons.IH .
qed simp

text \<open>
  The retry loop returns once the clock has reached the deadline, and it returns with the lock
  exactly when an attempt succeeds before an attempt fails for another reason and before an
  attempt fails at or after the deadline.
\<close>

theorem file_lock_returns:
  assumes "\<exists>(r, now) \<in> set rounds. start + timeout \<le> now"
  shows "file_lock_shared path start timeout rounds \<noteq> None
    \<and> (file_lock_shared path start timeout rounds = Some (Inr ()) \<longleftrightarrow>
      (\<exists>pre now post. rounds = pre @ (Flock_OK, now) # post
         \<and> (\<forall>(r, n) \<in> set pre. r = Flock_AGAIN \<and> n < start + timeout)))"
  unfolding file_lock_shared_def using flock_loop_returns [OF assms] flock_loop_OK by blast

theorem file_lock_returns_witness:
  "file_lock_shared (str ''a.db'') 0 5000 [(Flock_AGAIN, 3), (Flock_OK, 60), (Flock_OK, 6000)] = Some (Inr ())"
proof -
  have "\<exists>(r, now) \<in> set [(Flock_AGAIN, 3), (Flock_OK, 60), (Flock_OK, 6000)]. (0 :: int) + 5000 \<le> now"
    by simp
  note r = file_lock_returns [OF this, of "str ''a.db''"]
  have "[(Flock_AGAIN, 3), (Flock_OK, 60), (Flock_OK, 6000 :: int)]
      = [(Flock_AGAIN, 3)] @ (Flock_OK, 60) # [(Flock_OK, 6000)]" by simp
  then show ?thesis by (intro iffD2 [OF conjunct2 [OF r]] exI conjI) (assumption, simp)
qed

section \<open>Lock objects that share a file\<close>

text \<open>
  A lock object with its process, where its current call stands (\<open>Waiting\<close>: before a round of the
  loop, \<open>Unlocked\<close> and \<open>Closed\<close>: within \<open>close\<close>, before the first and the second closing of the
  number), and the mode its last call returned with, unless it has been released, closed or
  used for another call since.
\<close>

datatype lock_phase = Idle | Waiting flock_mode int | Unlocked | Closed

record locker =
  lk_proc :: process
  lk_lock :: file_lock
  lk_phase :: lock_phase
  lk_granted :: "flock_mode option"

record lock_system =
  ls_table :: flock_table
  ls_lockers :: "locker list"

definition lockers_init :: "process list \<Rightarrow> pystr \<Rightarrow> lock_system" where
  "lockers_init procs path =
     \<lparr>ls_table = flock_init,
      ls_lockers = map (\<lambda>p. \<lparr>lk_proc = p, lk_lock = file_lock_new path, lk_phase = Idle, lk_granted = None\<rparr>) procs\<rparr>"

text \<open>A step of object \<open>i\<close>; the phase and the grant after it depend on the result.\<close>

definition lock_act ::
  "nat \<Rightarrow> (process \<Rightarrow> 'a flx) \<Rightarrow> (py_error + 'a \<Rightarrow> lock_phase) \<Rightarrow> (py_error + 'a \<Rightarrow> flock_mode option) \<Rightarrow> lock_system \<Rightarrow> lock_system" where
  "lock_act i m phase granted s =
     (let k = ls_lockers s ! i in
      case m (lk_proc k) (lk_lock k, ls_table s) of (r, l, t) \<Rightarrow>
        \<lparr>ls_table = t, ls_lockers = (ls_lockers s)[i := k\<lparr>lk_lock := l, lk_phase := phase r, lk_granted := granted r\<rparr>]\<rparr>)"

text \<open>A call of \<open>shared\<close> or \<open>exclusive\<close> opens the file and goes into the loop.\<close>

definition open_call :: "nat \<Rightarrow> flock_mode \<Rightarrow> int \<Rightarrow> nat option \<Rightarrow> lock_system \<Rightarrow> lock_system" where
  "open_call i mode deadline pick =
     lock_act i (\<lambda>p. fl_open p pick) (\<lambda>r. if r = Inr () then Waiting mode deadline else Idle) (\<lambda>_. None)"

definition round_call :: "nat \<Rightarrow> flock_mode \<Rightarrow> int \<Rightarrow> int \<Rightarrow> bool \<Rightarrow> lock_system \<Rightarrow> lock_system" where
  "round_call i mode deadline now kept =
     lock_act i (\<lambda>p. sbind fl_get_fd (fl_round p mode deadline now kept))
       (\<lambda>r. if r = Inr False then Waiting mode deadline else Idle) (\<lambda>r. if r = Inr True then Some mode else None)"

definition release_call :: "nat \<Rightarrow> lock_system \<Rightarrow> lock_system" where
  "release_call i = lock_act i fl_release (\<lambda>_. Idle) (\<lambda>_. None)"

definition close_unlock :: "nat \<Rightarrow> lock_system \<Rightarrow> lock_system" where
  "close_unlock i = lock_act i fl_close_unlock (\<lambda>_. Unlocked) (\<lambda>_. None)"

definition close_number :: "nat \<Rightarrow> lock_system \<Rightarrow> lock_system" where
  "close_number i = lock_act i fl_close_fd (\<lambda>_. Closed) (\<lambda>_. None)"

definition close_file :: "nat \<Rightarrow> lock_system \<Rightarrow> lock_system" where
  "close_file i = lock_act i fl_close_file (\<lambda>_. Idle) (\<lambda>_. None)"

text \<open>The whole of \<open>close\<close>, when nothing comes between.\<close>

definition close_call :: "nat \<Rightarrow> lock_system \<Rightarrow> lock_system" where
  "close_call i s = close_file i (close_number i (close_unlock i s))"

text \<open>
  \<open>quiet p s\<close>: no object of the process is between the two closings of its number. The runs with
  \<open>calm\<close> are those in which a process opens the file only then.
\<close>

definition quiet :: "process \<Rightarrow> lock_system \<Rightarrow> bool" where
  "quiet p s \<longleftrightarrow> (\<forall>k \<in> set (ls_lockers s). lk_proc k = p \<longrightarrow> lk_phase k \<noteq> Closed)"

inductive locker_step :: "bool \<Rightarrow> lock_system \<Rightarrow> lock_system \<Rightarrow> bool" for calm where
  start: "locker_step calm s (open_call i mode deadline pick s)"
    if "i < length (ls_lockers s)" "lk_phase (ls_lockers s ! i) = Idle"
      "\<forall>n. pick = Some n \<longrightarrow> fd_at (lk_proc (ls_lockers s ! i)) n (ls_table s) = None"
      "calm \<longrightarrow> quiet (lk_proc (ls_lockers s ! i)) s"
| round: "locker_step calm s (round_call i mode deadline now kept s)"
    if "i < length (ls_lockers s)" "lk_phase (ls_lockers s ! i) = Waiting mode deadline"
| release: "locker_step calm s (release_call i s)"
    if "i < length (ls_lockers s)" "lk_phase (ls_lockers s ! i) = Idle"
| unlock: "locker_step calm s (close_unlock i s)"
    if "i < length (ls_lockers s)" "lk_phase (ls_lockers s ! i) = Idle"
| number: "locker_step calm s (close_number i s)"
    if "i < length (ls_lockers s)" "lk_phase (ls_lockers s ! i) = Unlocked"
| file_object: "locker_step calm s (close_file i s)"
    if "i < length (ls_lockers s)" "lk_phase (ls_lockers s ! i) = Closed"

inductive locker_reachable :: "bool \<Rightarrow> process list \<Rightarrow> pystr \<Rightarrow> lock_system \<Rightarrow> bool" for calm procs path where
  init: "locker_reachable calm procs path (lockers_init procs path)"
| step: "locker_reachable calm procs path s \<Longrightarrow> locker_step calm s s' \<Longrightarrow> locker_reachable calm procs path s'"

section \<open>The invariant\<close>

text \<open>
  The table: a number of a process stands for one description, a description has one number,
  and the locks are those of open descriptions and are compatible.
\<close>

definition table_ok :: "flock_table \<Rightarrow> bool" where
  "table_ok t \<longleftrightarrow>
     distinct (map fst (ft_fds t)) \<and> distinct (map snd (ft_fds t)) \<and> (\<forall>d \<in> snd ` set (ft_fds t). d < ft_next t)
     \<and> (\<forall>d. ft_held t d \<noteq> None \<longrightarrow> d \<in> snd ` set (ft_fds t))
     \<and> (\<forall>d g. ft_held t d = Some LOCK_EX \<longrightarrow> g \<noteq> d \<longrightarrow> ft_held t g = None)"

text \<open>
  The object: outside of \<open>close\<close> both its numbers are one open descriptor or none; between the
  two closings the number it has still to close is not in use.
\<close>

definition lock_ok :: "process \<Rightarrow> flock_table \<Rightarrow> file_lock \<Rightarrow> bool" where
  "lock_ok p t l \<longleftrightarrow> fl_file l = fl_fd l \<and> (\<forall>n. fl_fd l = Some n \<longrightarrow> fd_at p n t \<noteq> None)"

definition lock_closed :: "process \<Rightarrow> flock_table \<Rightarrow> file_lock \<Rightarrow> bool" where
  "lock_closed p t l \<longleftrightarrow> fl_fd l = None \<and> (\<forall>n. fl_file l = Some n \<longrightarrow> fd_at p n t = None)"

definition holds :: "process \<Rightarrow> flock_table \<Rightarrow> file_lock \<Rightarrow> flock_mode \<Rightarrow> bool" where
  "holds p t l m \<longleftrightarrow> (\<exists>n d. fl_fd l = Some n \<and> fd_at p n t = Some d \<and> ft_held t d = Some m)"

definition locker_ok :: "flock_table \<Rightarrow> locker \<Rightarrow> bool" where
  "locker_ok t k \<longleftrightarrow>
     (if lk_phase k = Closed then lock_closed (lk_proc k) t (lk_lock k) else lock_ok (lk_proc k) t (lk_lock k))
     \<and> (\<forall>m. lk_granted k = Some m \<longrightarrow> lk_phase k = Idle \<and> holds (lk_proc k) t (lk_lock k) m)
     \<and> (\<forall>m d. lk_phase k = Waiting m d \<longrightarrow> fl_fd (lk_lock k) \<noteq> None)"

definition apart :: "locker list \<Rightarrow> bool" where
  "apart ks \<longleftrightarrow>
     (\<forall>i < length ks. \<forall>j < length ks. i \<noteq> j \<longrightarrow> lk_proc (ks ! i) = lk_proc (ks ! j) \<longrightarrow>
        fl_fd (lk_lock (ks ! i)) = None \<or> fl_fd (lk_lock (ks ! i)) \<noteq> fl_fd (lk_lock (ks ! j)))"

definition system_ok :: "lock_system \<Rightarrow> bool" where
  "system_ok s \<longleftrightarrow>
     table_ok (ls_table s) \<and> (\<forall>k \<in> set (ls_lockers s). locker_ok (ls_table s) k) \<and> apart (ls_lockers s)"

lemma fd_at_inj: "table_ok t \<Longrightarrow> fd_at p n t = Some d \<Longrightarrow> fd_at q m t = Some d \<Longrightarrow> p = q \<and> n = m"
proof -
  assume t: "table_ok t" and "fd_at p n t = Some d" "fd_at q m t = Some d"
  then have "((p, n), d) \<in> set (ft_fds t)" "((q, m), d) \<in> set (ft_fds t)"
    unfolding fd_at_def by (blast dest: map_of_SomeD)+
  moreover have "inj_on snd (set (ft_fds t))" using t by (simp add: table_ok_def distinct_map)
  ultimately show ?thesis using inj_onD [of snd "set (ft_fds t)" "((p, n), d)" "((q, m), d)"] by simp
qed

lemma table_ok_held: "table_ok t \<Longrightarrow> ft_held t d \<noteq> None \<Longrightarrow> d \<in> snd ` set (ft_fds t)"
proof -
  assume "table_ok t" and d: "ft_held t d \<noteq> None"
  then have "\<forall>d. ft_held t d \<noteq> None \<longrightarrow> d \<in> snd ` set (ft_fds t)" unfolding table_ok_def by (elim conjE)
  then show ?thesis using d by (rule mp [OF spec [of _ d]])
qed

lemma table_ok_exclusive: "table_ok t \<Longrightarrow> ft_held t d = Some LOCK_EX \<Longrightarrow> g \<noteq> d \<Longrightarrow> ft_held t g = None"
proof -
  assume "table_ok t" and d: "ft_held t d = Some LOCK_EX" "g \<noteq> d"
  then have "\<forall>d g. ft_held t d = Some LOCK_EX \<longrightarrow> g \<noteq> d \<longrightarrow> ft_held t g = None" unfolding table_ok_def by (elim conjE)
  from this [THEN spec [where x = d], THEN spec [where x = g]] show ?thesis using d by simp
qed

lemma flock_compatibleD:
  "flock_compatible d m t \<Longrightarrow> g \<in> snd ` set (ft_fds t) \<Longrightarrow> g \<noteq> d \<Longrightarrow>
   ft_held t g = None \<or> m = LOCK_SH \<and> ft_held t g = Some LOCK_SH"
  unfolding flock_compatible_def list_all_iff set_map by (drule (1) bspec) simp

lemma fd_at_open: "fd_at p n t = Some d \<Longrightarrow> d \<in> snd ` set (ft_fds t)"
  unfolding fd_at_def by (force dest: map_of_SomeD)

lemma fd_at_change [simp]:
  "fd_at p n (t\<lparr>ft_held := h\<rparr>) = fd_at p n t"
  "fd_at p n (open_fd q m t) = (if (p, n) = (q, m) then Some (ft_next t) else fd_at p n t)"
  by (auto simp: fd_at_def open_fd_def)

lemma map_of_without: "map_of (filter (\<lambda>x. fst x \<noteq> k) xs) k' = (if k' = k then None else map_of xs k')"
  by (induction xs) auto

lemma close_fd_open:
  "fd_at p n t = Some d \<Longrightarrow>
     fd_at q m (snd (close_fd p n t)) = (if (q, m) = (p, n) then None else fd_at q m t)
     \<and> ft_held (snd (close_fd p n t)) = (ft_held t)(d := None)"
  by (simp add: close_fd_def fd_at_def map_of_without)

lemma close_fd_free: "fd_at p n t = None \<Longrightarrow> snd (close_fd p n t) = t"
  by (simp add: close_fd_def)

section \<open>What a step does to the other objects\<close>

text \<open>
  A step of an object of process \<open>p\<close>: the descriptors of all others stay, with their locks; the
  object's number is its old one, a new one or none, and no other number comes into use.
\<close>

definition own_change :: "process \<Rightarrow> file_lock \<Rightarrow> flock_table \<Rightarrow> file_lock \<Rightarrow> flock_table \<Rightarrow> bool" where
  "own_change p l t l' t' \<longleftrightarrow>
     table_ok t'
     \<and> (\<forall>q n d. fd_at q n t = Some d \<longrightarrow> \<not> (q = p \<and> fl_fd l = Some n) \<longrightarrow>
          fd_at q n t' = Some d \<and> ft_held t' d = ft_held t d)
     \<and> (\<forall>n. fl_fd l' = Some n \<longrightarrow> fl_fd l = Some n \<or> fd_at p n t = None)
     \<and> (\<forall>q n. fd_at q n t = None \<longrightarrow> fd_at q n t' = None \<or> q = p \<and> fl_fd l' = Some n)"

lemma own_changeD:
  assumes "own_change p l t l' t'"
  shows "table_ok t'"
    and "fd_at q n t = Some d \<Longrightarrow> \<not> (q = p \<and> fl_fd l = Some n) \<Longrightarrow> fd_at q n t' = Some d \<and> ft_held t' d = ft_held t d"
    and "fl_fd l' = Some n \<Longrightarrow> fl_fd l = Some n \<or> fd_at p n t = None"
    and "fd_at q n t = None \<Longrightarrow> fd_at q n t' = None \<or> q = p \<and> fl_fd l' = Some n"
  using assms unfolding own_change_def by (blast, blast, (elim conjE allE [of _ n]; simp), (elim conjE; blast))

lemma own_change_refl: "table_ok t \<Longrightarrow> own_change p l t l t"
  by (simp add: own_change_def)

text \<open>Changing the lock of the own description, to a compatible one or to none.\<close>

lemma own_change_held:
  assumes t: "table_ok t" and n: "fl_fd l = Some n" and d: "fd_at p n t = Some d"
    and c: "\<forall>m. h = Some m \<longrightarrow> flock_compatible d m t"
  shows "own_change p l t l (t\<lparr>ft_held := (ft_held t)(d := h)\<rparr>)"
proof -
  let ?t = "t\<lparr>ft_held := (ft_held t)(d := h)\<rparr>"
  have op: "d \<in> snd ` set (ft_fds t)" by (rule fd_at_open [OF d])
  have c: "ft_held t g = None \<or> m = LOCK_SH \<and> ft_held t g = Some LOCK_SH" if "h = Some m" "g \<noteq> d" for g m
    using table_ok_held [OF t] flock_compatibleD c that by metis
  have "ft_held ?t g = None" if f: "ft_held ?t f = Some LOCK_EX" and ne: "g \<noteq> f" for f g
  proof (cases "f = d")
    case True
    then show ?thesis using c [of LOCK_EX g] f ne by simp
  next
    case False
    then have e: "ft_held t f = Some LOCK_EX" using f by simp
    then have "h = None" using c [of _ f] False by (cases h) auto
    then show ?thesis using t e ne by (simp add: table_ok_def)
  qed
  then have "table_ok ?t" using t op unfolding table_ok_def by simp
  moreover have "e \<noteq> d" if "fd_at q k t = Some e" "\<not> (q = p \<and> fl_fd l = Some k)" for q k e
    using fd_at_inj [OF t d, of q k] that n by auto
  ultimately show ?thesis by (simp add: own_change_def)
qed

lemma own_change_fl_open:
  assumes t: "table_ok t" and pick: "\<forall>n. pick = Some n \<longrightarrow> fd_at p n t = None"
    and o: "fl_open p pick (l, t) = (r, l', t')"
  shows "own_change p l t l' t'"
proof -
  have "table_ok (open_fd p n t)" if "fd_at p n t = None" for n
    using t that by (fastforce simp: table_ok_def open_fd_def fd_at_def map_of_eq_None_iff)
  then show ?thesis
    using t pick o own_change_refl [OF t]
    by (auto simp: own_change_def fl_open_def open_fd_def [of _ _ t, THEN arg_cong [where f = ft_held], simplified]
        split: if_splits option.splits)
qed

lemma own_change_close_fd:
  assumes t: "table_ok t" and n: "fl_fd l = Some n"
  shows "own_change p l t (l\<lparr>fl_fd := None\<rparr>) (snd (close_fd p n t))"
proof (cases "fd_at p n t")
  case None
  then show ?thesis using t by (simp add: close_fd_free own_change_def)
next
  case (Some d)
  have "table_ok (snd (close_fd p n t))"
  proof -
    have "x \<in> snd ` set (filter (\<lambda>x. fst x \<noteq> (p, n)) (ft_fds t))" if x: "x \<in> snd ` set (ft_fds t)" "x \<noteq> d" for x
    proof -
      obtain k where k: "(k, x) \<in> set (ft_fds t)" using x by auto
      have "k \<noteq> (p, n)"
      proof
        assume "k = (p, n)"
        then have "fd_at p n t = Some x" using k t by (simp add: fd_at_def table_ok_def map_of_is_SomeI)
        then show False using Some x(2) by simp
      qed
      then show ?thesis using k by force
    qed
    then show ?thesis
      using t Some unfolding table_ok_def close_fd_def by (auto simp: distinct_map_filter)
  qed
  moreover have "e \<noteq> d" if "fd_at q k t = Some e" "\<not> (q = p \<and> n = k)" for q k e
    using fd_at_inj [OF t Some, of q k] that by auto
  ultimately show ?thesis using n close_fd_open [OF Some] by (auto simp: own_change_def)
qed

text \<open>Two objects never have the same descriptor.\<close>

lemma other_descriptor:
  assumes s: "system_ok s" and i: "i < length (ls_lockers s)" and j: "j < length (ls_lockers s)" "j \<noteq> i"
    and n: "fl_fd (lk_lock (ls_lockers s ! j)) = Some n"
  shows "\<not> (lk_proc (ls_lockers s ! j) = lk_proc (ls_lockers s ! i) \<and> fl_fd (lk_lock (ls_lockers s ! i)) = Some n)"
  using s i j n unfolding system_ok_def apart_def by (metis option.distinct(1))

lemma locker_open:
  "locker_ok t k \<Longrightarrow> fl_fd (lk_lock k) = Some n \<Longrightarrow> lk_phase k \<noteq> Closed \<and> fd_at (lk_proc k) n t \<noteq> None"
  by (auto simp: locker_ok_def lock_ok_def lock_closed_def split: if_splits)

lemma other_locker_ok:
  assumes s: "system_ok s" and i: "i < length (ls_lockers s)" and j: "j < length (ls_lockers s)" "j \<noteq> i"
    and c: "own_change (lk_proc (ls_lockers s ! i)) (lk_lock (ls_lockers s ! i)) (ls_table s) l t"
    and new: "fl_fd l = fl_fd (lk_lock (ls_lockers s ! i)) \<or> fl_fd l = None \<or> quiet (lk_proc (ls_lockers s ! i)) s"
  shows "locker_ok t (ls_lockers s ! j)"
proof -
  let ?i = "ls_lockers s ! i" and ?j = "ls_lockers s ! j"
  have ok: "locker_ok (ls_table s) ?i" "locker_ok (ls_table s) ?j" using s i j(1) by (simp_all add: system_ok_def)
  note other = other_descriptor [OF s i j]
  have kept: "fd_at (lk_proc ?j) n t = Some d \<and> ft_held t d = ft_held (ls_table s) d"
    if "fl_fd (lk_lock ?j) = Some n" "fd_at (lk_proc ?j) n (ls_table s) = Some d" for n d
    using own_changeD(2) [OF c that(2) other [OF that(1)]] .
  have "lock_closed (lk_proc ?j) t (lk_lock ?j)" if closed: "lk_phase ?j = Closed"
  proof -
    have l: "lock_closed (lk_proc ?j) (ls_table s) (lk_lock ?j)" using ok(2) closed by (simp add: locker_ok_def)
    have "fd_at (lk_proc ?j) n t = None" if n: "fl_file (lk_lock ?j) = Some n" for n
    proof (rule ccontr)
      have free: "fd_at (lk_proc ?j) n (ls_table s) = None" using l n by (simp add: lock_closed_def)
      assume "fd_at (lk_proc ?j) n t \<noteq> None"
      then have o: "lk_proc ?j = lk_proc ?i" "fl_fd l = Some n" using own_changeD(4) [OF c free] by auto
      have "\<not> quiet (lk_proc ?i) s" using closed j(1) o(1) by (auto simp: quiet_def)
      then have "fl_fd (lk_lock ?i) = Some n" using new o(2) by simp
      then show False using locker_open [OF ok(1)] free o(1) by simp
    qed
    then show ?thesis using l by (simp add: lock_closed_def)
  qed
  moreover have "lock_ok (lk_proc ?j) t (lk_lock ?j)" if "lk_phase ?j \<noteq> Closed"
    using ok(2) that kept by (fastforce simp: locker_ok_def lock_ok_def)
  moreover have "holds (lk_proc ?j) t (lk_lock ?j) m" if "holds (lk_proc ?j) (ls_table s) (lk_lock ?j) m" for m
    using that kept by (fastforce simp: holds_def)
  ultimately show ?thesis using ok(2) by (simp add: locker_ok_def)
qed

lemma system_ok_act:
  assumes s: "system_ok s" and i: "i < length (ls_lockers s)"
    and m: "m (lk_proc (ls_lockers s ! i)) (lk_lock (ls_lockers s ! i), ls_table s) = (r, l, t)"
    and c: "own_change (lk_proc (ls_lockers s ! i)) (lk_lock (ls_lockers s ! i)) (ls_table s) l t"
    and new: "fl_fd l = fl_fd (lk_lock (ls_lockers s ! i)) \<or> fl_fd l = None \<or> quiet (lk_proc (ls_lockers s ! i)) s"
    and own: "locker_ok t ((ls_lockers s ! i)\<lparr>lk_lock := l, lk_phase := phase r, lk_granted := granted r\<rparr>)"
  shows "system_ok (lock_act i m phase granted s)"
proof -
  let ?ks = "ls_lockers s" and ?k = "(ls_lockers s ! i)\<lparr>lk_lock := l, lk_phase := phase r, lk_granted := granted r\<rparr>"
  have "locker_ok t (?ks[i := ?k] ! j)" if "j < length ?ks" for j
  proof (cases "j = i")
    case False
    then show ?thesis using other_locker_ok [OF s i that _ c new] by simp
  qed (use own i in simp)
  then have "\<forall>k \<in> set (?ks[i := ?k]). locker_ok t k" by (simp add: all_set_conv_all_nth)
  moreover have fresh: "fl_fd (lk_lock (?ks ! j)) = None \<or> fl_fd (lk_lock (?ks ! j)) \<noteq> fl_fd l"
    if j: "j < length ?ks" "j \<noteq> i" "lk_proc (?ks ! j) = lk_proc (?ks ! i)" for j
  proof (cases "fl_fd (lk_lock (?ks ! j))")
    case (Some n)
    have "locker_ok (ls_table s) (?ks ! j)" using s j(1) by (simp add: system_ok_def)
    then have "fd_at (lk_proc (?ks ! i)) n (ls_table s) \<noteq> None" using locker_open [OF _ Some] j(3) by simp
    then have "fl_fd l \<noteq> Some n" using own_changeD(3) [OF c, of n] other_descriptor [OF s i j(1,2) Some] j(3) by auto
    then show ?thesis using Some by simp
  qed simp
  have "apart (?ks[i := ?k])"
    unfolding apart_def
  proof (intro allI impI)
    fix a b
    assume ab: "a < length (?ks[i := ?k])" "b < length (?ks[i := ?k])" "a \<noteq> b"
      "lk_proc (?ks[i := ?k] ! a) = lk_proc (?ks[i := ?k] ! b)"
    consider "a = i" | "b = i" "a \<noteq> i" | "a \<noteq> i" "b \<noteq> i" by blast
    then show "fl_fd (lk_lock (?ks[i := ?k] ! a)) = None \<or> fl_fd (lk_lock (?ks[i := ?k] ! a)) \<noteq> fl_fd (lk_lock (?ks[i := ?k] ! b))"
    proof cases
      case 1
      then show ?thesis using ab fresh [of b] by auto
    next
      case 2
      then show ?thesis using ab fresh [of a] by auto
    next
      case 3
      have "apart ?ks" using s by (simp add: system_ok_def)
      then show ?thesis using ab 3 unfolding apart_def by simp
    qed
  qed
  ultimately show ?thesis
    using own_changeD(1) [OF c] by (simp add: lock_act_def m system_ok_def)
qed

section \<open>The steps\<close>

lemma system_okD:
  assumes "system_ok s" and "i < length (ls_lockers s)"
  shows "table_ok (ls_table s)" and "locker_ok (ls_table s) (ls_lockers s ! i)"
  using assms by (simp_all add: system_ok_def)

lemma system_ok_open:
  assumes s: "system_ok s" and i: "i < length (ls_lockers s)" and ph: "lk_phase (ls_lockers s ! i) = Idle"
    and pick: "\<forall>n. pick = Some n \<longrightarrow> fd_at (lk_proc (ls_lockers s ! i)) n (ls_table s) = None"
    and q: "quiet (lk_proc (ls_lockers s ! i)) s"
  shows "system_ok (open_call i mode deadline pick s)"
proof -
  let ?k = "ls_lockers s ! i"
  obtain r l t where m: "fl_open (lk_proc ?k) pick (lk_lock ?k, ls_table s) = (r, l, t)"
    by (cases "fl_open (lk_proc ?k) pick (lk_lock ?k, ls_table s)") auto
  note ok = system_okD [OF s i]
  have l: "lock_ok (lk_proc ?k) (ls_table s) (lk_lock ?k)" using ok(2) ph by (simp add: locker_ok_def)
  have "lock_ok (lk_proc ?k) t l \<and> (r = Inr () \<longrightarrow> fl_fd l \<noteq> None)"
    using m l by (auto simp: fl_open_def lock_ok_def split: if_splits option.splits)
  then have "locker_ok t (?k\<lparr>lk_lock := l, lk_phase := if r = Inr () then Waiting mode deadline else Idle, lk_granted := None\<rparr>)"
    by (simp add: locker_ok_def)
  then show ?thesis
    unfolding open_call_def by (intro system_ok_act [OF s i _ own_change_fl_open [OF ok(1) pick m]]) (use m q in simp_all)
qed

lemma round_table:
  assumes t: "table_ok t" and n: "fl_fd l = Some n" "fd_at p n t = Some d"
    and r: "sbind fl_get_fd (fl_round p mode deadline now kept) (l, t) = (r, l', t')"
  shows "l' = l" and "own_change p l t l t'" and "\<And>q k. fd_at q k t' = fd_at q k t"
    and "r = Inr True \<longleftrightarrow> flock_compatible d mode t" and "r = Inr True \<Longrightarrow> ft_held t' d = Some mode"
proof -
  obtain o' t1 where f: "flock p n mode kept t = (o', t1)" by (cases "flock p n mode kept t")
  have rd: "fl_round p mode deadline now kept n (l, t) = (r, l', t')" using r n(1) by (simp add: sbind_def fl_get_fd_def)
  have l: "l' = l" "t' = t1" and o: "r = Inr True \<longleftrightarrow> o' = Flock_OK"
    using rd f by (auto simp: fl_round_def lock_round_def split: flock_outcome.splits if_splits)
  show "l' = l" by (rule l)
  show "own_change p l t l t'"
    using own_change_held [OF t n, of "Some mode"] own_change_held [OF t n, of None] own_change_refl [OF t] f n(2) l(2)
    by (auto simp: flock_def split: if_splits)
  show "fd_at q k t' = fd_at q k t" for q k using f n(2) l(2) by (auto simp: flock_def split: if_splits)
  show "r = Inr True \<longleftrightarrow> flock_compatible d mode t" "r = Inr True \<Longrightarrow> ft_held t' d = Some mode"
    using f n(2) l(2) unfolding o by (auto simp: flock_def split: if_splits)
qed

lemma locker_descriptor:
  assumes "locker_ok t k" and "lk_phase k \<noteq> Closed" and "fl_fd (lk_lock k) = Some n"
  obtains d where "fd_at (lk_proc k) n t = Some d"
  using assms by (auto simp: locker_ok_def lock_ok_def)

lemma system_ok_round:
  assumes s: "system_ok s" and i: "i < length (ls_lockers s)" and ph: "lk_phase (ls_lockers s ! i) = Waiting mode deadline"
  shows "system_ok (round_call i mode deadline now kept s)"
proof -
  let ?k = "ls_lockers s ! i"
  let ?m = "\<lambda>p. sbind fl_get_fd (fl_round p mode deadline now kept)"
  obtain r l t where m: "?m (lk_proc ?k) (lk_lock ?k, ls_table s) = (r, l, t)"
    by (cases "?m (lk_proc ?k) (lk_lock ?k, ls_table s)") auto
  note ok = system_okD [OF s i]
  obtain n where n: "fl_fd (lk_lock ?k) = Some n" using ok(2) ph by (auto simp: locker_ok_def)
  obtain d where d: "fd_at (lk_proc ?k) n (ls_table s) = Some d" by (rule locker_descriptor [OF ok(2) _ n]) (simp add: ph)
  note c = round_table [OF ok(1) n d m]
  have "lock_ok (lk_proc ?k) t l" using ok(2) ph c(1,3) by (simp add: locker_ok_def lock_ok_def)
  moreover have "holds (lk_proc ?k) t l mode" if "r = Inr True" using that n d c(1,3,5) by (simp add: holds_def)
  ultimately have "locker_ok t (?k\<lparr>lk_lock := l, lk_phase := if r = Inr False then Waiting mode deadline else Idle,
      lk_granted := if r = Inr True then Some mode else None\<rparr>)"
    using n c(1) by (simp add: locker_ok_def)
  then show ?thesis
    unfolding round_call_def
    by (intro system_ok_act [where m = ?m and r = r and l = l and t = t, OF s i m]) (use c(1,2) in auto)
qed

text \<open>Steps that give no lock: the object's number stays or is given up.\<close>

lemma system_ok_quit:
  assumes s: "system_ok s" and i: "i < length (ls_lockers s)"
    and c: "\<And>r l t. m (lk_proc (ls_lockers s ! i)) (lk_lock (ls_lockers s ! i), ls_table s) = (r, l, t) \<Longrightarrow>
      own_change (lk_proc (ls_lockers s ! i)) (lk_lock (ls_lockers s ! i)) (ls_table s) l t
      \<and> (fl_fd l = fl_fd (lk_lock (ls_lockers s ! i)) \<or> fl_fd l = None)
      \<and> (if ph = Closed then lock_closed (lk_proc (ls_lockers s ! i)) t l else lock_ok (lk_proc (ls_lockers s ! i)) t l)"
    and ph: "\<forall>mode d. ph \<noteq> Waiting mode d"
  shows "system_ok (lock_act i m (\<lambda>_. ph) (\<lambda>_. None) s)"
proof -
  let ?k = "ls_lockers s ! i"
  obtain r l t where m: "m (lk_proc ?k) (lk_lock ?k, ls_table s) = (r, l, t)"
    by (cases "m (lk_proc ?k) (lk_lock ?k, ls_table s)") auto
  note c = c [OF m]
  have "locker_ok t (?k\<lparr>lk_lock := l, lk_phase := ph, lk_granted := None\<rparr>)" using c ph by (simp add: locker_ok_def)
  then show ?thesis
    by (intro system_ok_act [where m = m and r = r and l = l and t = t, OF s i m conjunct1 [OF c]]) (use c in auto)
qed

lemma own_change_unlock:
  assumes t: "table_ok t" and l: "lock_ok p t l" and n: "fl_fd l = Some n"
  shows "own_change p l t l (snd (flock_un p n t))" and "lock_ok p (snd (flock_un p n t)) l"
proof -
  obtain d where d: "fd_at p n t = Some d" using l n by (auto simp: lock_ok_def)
  show "own_change p l t l (snd (flock_un p n t))"
    using own_change_held [OF t n d, of None] d by (simp add: flock_un_def)
  show "lock_ok p (snd (flock_un p n t)) l" using l d by (simp add: flock_un_def lock_ok_def)
qed

lemma system_ok_step: "locker_step True s s' \<Longrightarrow> system_ok s \<Longrightarrow> system_ok s'"
proof (induction rule: locker_step.induct)
  case (start i s pick mode deadline)
  then show ?case by (intro system_ok_open) simp_all
next
  case (round i s mode deadline now kept)
  then show ?case by (intro system_ok_round)
next
  case (release i s)
  note ok = system_okD [OF release(3,1)]
  have l: "lock_ok (lk_proc (ls_lockers s ! i)) (ls_table s) (lk_lock (ls_lockers s ! i))"
    using ok(2) release(2) by (simp add: locker_ok_def)
  show ?case unfolding release_call_def
  proof (rule system_ok_quit [OF release(3,1)], goal_cases)
    case (1 r l t)
    then show ?case using own_change_refl [OF ok(1)] own_change_unlock [OF ok(1) l] l
      by (force simp: fl_release_def split: option.splits prod.splits)
  qed simp
next
  case (unlock i s)
  note ok = system_okD [OF unlock(3,1)]
  have l: "lock_ok (lk_proc (ls_lockers s ! i)) (ls_table s) (lk_lock (ls_lockers s ! i))"
    using ok(2) unlock(2) by (simp add: locker_ok_def)
  show ?case unfolding close_unlock_def
  proof (rule system_ok_quit [OF unlock(3,1)], goal_cases)
    case (1 r l t)
    then show ?case using own_change_refl [OF ok(1)] own_change_unlock [OF ok(1) l] l
      by (auto simp: fl_close_unlock_def split: option.splits)
  qed simp
next
  case (number i s)
  note ok = system_okD [OF number(3,1)]
  have l: "lock_ok (lk_proc (ls_lockers s ! i)) (ls_table s) (lk_lock (ls_lockers s ! i))"
    using ok(2) number(2) by (simp add: locker_ok_def)
  have "lock_closed p (snd (close_fd p n t)) (l\<lparr>fl_fd := None\<rparr>)" if "lock_ok p t l" "fl_fd l = Some n" for p n t l
    using that close_fd_open [of p n t] by (auto simp: lock_ok_def lock_closed_def)
  then show ?case unfolding close_number_def
    using own_change_refl [OF ok(1)] own_change_close_fd [OF ok(1)] l
    by (intro system_ok_quit [OF number(3,1)]) (auto simp: fl_close_fd_def lock_ok_def lock_closed_def split: option.splits)
next
  case (file_object i s)
  note ok = system_okD [OF file_object(3,1)]
  have "lock_closed (lk_proc (ls_lockers s ! i)) (ls_table s) (lk_lock (ls_lockers s ! i))"
    using ok(2) file_object(2) by (simp add: locker_ok_def)
  then show ?case unfolding close_file_def
    using own_change_refl [OF ok(1)]
    by (intro system_ok_quit [OF file_object(3,1)])
      (auto simp: fl_close_file_def lock_ok_def lock_closed_def own_change_def close_fd_free split: option.splits)
qed

section \<open>Runs\<close>

lemma lock_act_simps [simp]:
  "length (ls_lockers (lock_act i m ph g s)) = length (ls_lockers s)"
  "map lk_proc (ls_lockers (lock_act i m ph g s)) = map lk_proc (ls_lockers s)"
  by (simp_all add: lock_act_def Let_def map_update split: prod.splits)
    (metis (no_types, lifting) list_update_id map_update)

lemma locker_step_procs: "locker_step calm s s' \<Longrightarrow> map lk_proc (ls_lockers s') = map lk_proc (ls_lockers s)"
  by (induction rule: locker_step.induct)
    (simp_all add: open_call_def round_call_def release_call_def close_unlock_def close_number_def close_file_def)

lemma locker_reachable_procs: "locker_reachable calm procs path s \<Longrightarrow> map lk_proc (ls_lockers s) = procs"
  by (induction rule: locker_reachable.induct) (simp_all add: lockers_init_def comp_def locker_step_procs)

text \<open>With one object in each process every run is calm.\<close>

lemma locker_step_calm:
  assumes "locker_step calm s s'" and "calm \<or> distinct (map lk_proc (ls_lockers s))"
  shows "locker_step True s s'"
  using assms
proof (induction rule: locker_step.induct)
  case (start i s pick mode deadline)
  have "k = ls_lockers s ! i" if "distinct (map lk_proc (ls_lockers s))" "k \<in> set (ls_lockers s)"
    "lk_proc k = lk_proc (ls_lockers s ! i)" for k
    using that start(1) by (auto simp: distinct_map dest: inj_onD)
  then have "lk_phase k \<noteq> Closed" if "distinct (map lk_proc (ls_lockers s))" "k \<in> set (ls_lockers s)"
    "lk_proc k = lk_proc (ls_lockers s ! i)" for k
    using that start(2) by force
  then have "quiet (lk_proc (ls_lockers s ! i)) s" using start(4,5) unfolding quiet_def by blast
  then show ?case using start by (intro locker_step.start) simp_all
qed (auto intro: locker_step.intros)

lemma system_ok_init: "system_ok (lockers_init procs path)"
  by (auto simp: system_ok_def table_ok_def locker_ok_def lock_ok_def apart_def lockers_init_def flock_init_def file_lock_new_def)

lemma system_ok_reachable:
  "locker_reachable calm procs path s \<Longrightarrow> calm \<or> distinct procs \<Longrightarrow> system_ok s"
proof (induction rule: locker_reachable.induct)
  case (step s s')
  then have "locker_step True s s'" using locker_step_calm locker_reachable_procs by blast
  then show ?case using step system_ok_step by blast
qed (simp add: system_ok_init)

text \<open>
  C25: However many lock objects, in whatever processes, work on the file, and however their
  calls, retries, refused conversions, releases and the single system calls of their \<open>close\<close>
  interleave: while a call of \<open>exclusive\<close> has returned and its object has not been used since, no
  other object's call has. This holds when each process has one lock object, and for any
  objects in the runs in which no object opens the file while another object of its process
  is between the two closings of its number; without that it fails, as
  \<open>double_close_loses_lock\<close> shows.
\<close>

theorem file_lock_exclusion:
  assumes r: "locker_reachable calm procs path s" and c: "calm \<or> distinct procs" and i: "i < length (ls_lockers s)"
    and g: "lk_granted (ls_lockers s ! i) = Some LOCK_EX"
    and j: "j < length (ls_lockers s)" "j \<noteq> i"
  shows "lk_granted (ls_lockers s ! j) = None"
proof (rule ccontr)
  assume "lk_granted (ls_lockers s ! j) \<noteq> None"
  then obtain m where m: "lk_granted (ls_lockers s ! j) = Some m" by blast
  let ?i = "ls_lockers s ! i" and ?j = "ls_lockers s ! j"
  have s: "system_ok s" by (rule system_ok_reachable [OF r c])
  have "holds (lk_proc ?i) (ls_table s) (lk_lock ?i) LOCK_EX" "holds (lk_proc ?j) (ls_table s) (lk_lock ?j) m"
    using system_okD(2) [OF s i] system_okD(2) [OF s j(1)] g m by (simp_all add: locker_ok_def)
  then obtain n d k e where d: "fl_fd (lk_lock ?i) = Some n" "fd_at (lk_proc ?i) n (ls_table s) = Some d" "ft_held (ls_table s) d = Some LOCK_EX"
    and e: "fl_fd (lk_lock ?j) = Some k" "fd_at (lk_proc ?j) k (ls_table s) = Some e" "ft_held (ls_table s) e = Some m"
    by (auto simp: holds_def)
  have t: "table_ok (ls_table s)" by (rule system_okD(1) [OF s i])
  have "d \<noteq> e" using fd_at_inj [OF t d(2), of "lk_proc ?j" k] e(2) other_descriptor [OF s i j e(1)] d(1) by auto
  then have "ft_held (ls_table s) e = None" using table_ok_exclusive [OF t d(3)] by simp
  then show False using e(3) by simp
qed

section \<open>A lock that is given up is taken at once\<close>

lemma lock_act_at:
  assumes "i < length (ls_lockers s)" and "m (lk_proc (ls_lockers s ! i)) (lk_lock (ls_lockers s ! i), ls_table s) = (r, l, t)"
  shows "ls_table (lock_act i m ph g s) = t"
    and "ls_lockers (lock_act i m ph g s) ! i = (ls_lockers s ! i)\<lparr>lk_lock := l, lk_phase := ph r, lk_granted := g r\<rparr>"
  using assms by (simp_all add: lock_act_def)

lemma lock_act_phase: "i < length (ls_lockers s) \<Longrightarrow> lk_phase (ls_lockers (lock_act i m (\<lambda>_. ph) g s) ! i) = ph"
  by (simp add: lock_act_def Let_def split: prod.splits)

lemma lock_act_other: "j \<noteq> i \<Longrightarrow> ls_lockers (lock_act i m ph g s) ! j = ls_lockers s ! j"
  by (simp add: lock_act_def Let_def split: prod.splits)

lemmas close_defs = close_call_def close_unlock_def close_number_def close_file_def

lemma close_call_ok:
  assumes s: "system_ok s" and i: "i < length (ls_lockers s)" and ph: "lk_phase (ls_lockers s ! i) = Idle"
  shows "system_ok (close_call i s)"
proof -
  have "system_ok (close_unlock i s)" using locker_step.unlock [OF i ph] s by (rule system_ok_step)
  moreover have "locker_step True (close_unlock i s) (close_number i (close_unlock i s))"
    using i by (intro locker_step.number) (simp_all add: close_unlock_def lock_act_phase)
  ultimately have "system_ok (close_number i (close_unlock i s))" by (rule system_ok_step [rotated])
  moreover have "locker_step True (close_number i (close_unlock i s)) (close_call i s)"
    using i unfolding close_call_def
    by (intro locker_step.file_object) (simp_all add: close_unlock_def close_number_def lock_act_phase)
  ultimately show ?thesis by (rule system_ok_step [rotated])
qed

lemma close_steps_held:
  "(\<forall>d. ft_held (ls_table s) d = None) \<Longrightarrow> i < length (ls_lockers s) \<Longrightarrow>
     (\<forall>d. ft_held (ls_table (close_number i s)) d = None) \<and> (\<forall>d. ft_held (ls_table (close_file i s)) d = None)"
  by (simp add: close_number_def close_file_def lock_act_def Let_def fl_close_fd_def fl_close_file_def close_fd_def
      split: option.splits)

lemma close_call_frees:
  assumes s: "system_ok s" and i: "i < length (ls_lockers s)" and g: "lk_granted (ls_lockers s ! i) = Some LOCK_EX"
  shows "ft_held (ls_table (close_call i s)) d = None"
proof -
  let ?i = "ls_lockers s ! i"
  have "holds (lk_proc ?i) (ls_table s) (lk_lock ?i) LOCK_EX" using system_okD(2) [OF s i] g by (simp add: locker_ok_def)
  then obtain n e where e: "fl_fd (lk_lock ?i) = Some n" "fd_at (lk_proc ?i) n (ls_table s) = Some e" "ft_held (ls_table s) e = Some LOCK_EX"
    by (auto simp: holds_def)
  have t: "ls_table (close_unlock i s) = (ls_table s)\<lparr>ft_held := (ft_held (ls_table s))(e := None)\<rparr>"
    unfolding close_unlock_def by (rule lock_act_at(1) [OF i]) (simp add: fl_close_unlock_def flock_un_def e)
  have "ft_held (ls_table s) g = None" if "g \<noteq> e" for g
    by (rule table_ok_exclusive [OF system_okD(1) [OF s i] e(3) that])
  then have "\<forall>d. ft_held (ls_table (close_unlock i s)) d = None" by (simp add: t)
  moreover have "i < length (ls_lockers (close_unlock i s))" "i < length (ls_lockers (close_number i (close_unlock i s)))"
    using i by (simp_all add: close_unlock_def close_number_def)
  ultimately show ?thesis using close_steps_held unfolding close_call_def by blast
qed

lemma free_lock_granted:
  assumes j: "j < length (ls_lockers s)" and free: "\<forall>d. ft_held (ls_table s) d = None"
    and n: "fl_fd (lk_lock (ls_lockers s ! j)) = Some n" "fd_at (lk_proc (ls_lockers s ! j)) n (ls_table s) = Some d"
  shows "lk_granted (ls_lockers (round_call j mode deadline now kept s) ! j) = Some mode"
proof -
  have "flock_compatible d mode (ls_table s)" using free by (simp add: flock_compatible_def list_all_iff)
  then show ?thesis
    using j n by (simp add: round_call_def lock_act_def sbind_def fl_get_fd_def fl_round_def flock_def)
qed

text \<open>
  C40: \<open>close\<close> gives the lock up: when the closed object held the exclusive lock, the next call of
  \<open>shared\<close> or \<open>exclusive\<close> of any object that is in no call, the closed one included, returns with
  the lock in its first round, provided that the operating system opens the file for it and that
  no step of another object comes between. As for the exclusion, each process has one lock
  object, or none opened the file between the two closings of another one's number.
\<close>

theorem close_passes_lock_on:
  assumes r: "locker_reachable calm procs path s" and c: "calm \<or> distinct procs" and i: "i < length (ls_lockers s)"
    and g: "lk_granted (ls_lockers s ! i) = Some LOCK_EX"
    and j: "j < length (ls_lockers s)" "lk_phase (ls_lockers s ! j) = Idle"
  shows "lk_granted (ls_lockers (round_call j mode deadline now kept
      (open_call j mode deadline (Some n) (close_call i s))) ! j) = Some mode"
proof -
  let ?c = "close_call i s" and ?o = "open_call j mode deadline (Some n) (close_call i s)"
  have s: "system_ok s" by (rule system_ok_reachable [OF r c])
  have "lk_phase (ls_lockers s ! i) = Idle" using system_okD(2) [OF s i] g by (simp add: locker_ok_def)
  then have ok: "system_ok ?c" by (rule close_call_ok [OF s i])
  have len: "j < length (ls_lockers ?c)" using j(1) by (simp add: close_defs)
  have ph: "lk_phase (ls_lockers ?c ! j) = Idle"
    using j i unfolding close_defs by (cases "j = i") (simp_all add: lock_act_phase lock_act_other)
  then have lo: "lock_ok (lk_proc (ls_lockers ?c ! j)) (ls_table ?c) (lk_lock (ls_lockers ?c ! j))"
    using system_okD(2) [OF ok len] by (simp add: locker_ok_def)
  obtain k d where "fl_fd (lk_lock (ls_lockers ?o ! j)) = Some k" "fd_at (lk_proc (ls_lockers ?o ! j)) k (ls_table ?o) = Some d"
    and h: "ft_held (ls_table ?o) = ft_held (ls_table ?c)"
    using lo len by (cases "fl_fd (lk_lock (ls_lockers ?c ! j))")
      (auto simp: open_call_def lock_act_def Let_def fl_open_def lock_ok_def open_fd_def fd_at_def)
  moreover have "\<forall>d. ft_held (ls_table ?o) d = None" using close_call_frees [OF s i g] h by simp
  ultimately show ?thesis using len by (intro free_lock_granted) (simp_all add: open_call_def)
qed

section \<open>Concrete runs\<close>

lemmas lock_run_simps = lockers_init_def open_call_def round_call_def close_unlock_def close_number_def close_file_def
  lock_act_def Let_def fl_open_def fl_get_fd_def fl_round_def fl_close_unlock_def fl_close_fd_def fl_close_file_def sbind_def
  flock_def flock_un_def open_fd_def close_fd_def fd_at_def flock_compatible_def flock_init_def file_lock_new_def
  numeral_2_eq_2

text \<open>Object \<open>i\<close> takes the lock under the number 3.\<close>

definition demo_take :: "nat \<Rightarrow> flock_mode \<Rightarrow> lock_system \<Rightarrow> lock_system" where
  "demo_take i mode s = round_call i mode 10 0 True (open_call i mode 10 (Some 3) s)"

lemma demo_take_reachable:
  assumes r: "locker_reachable calm procs path s" and i: "i < length (ls_lockers s)" "lk_phase (ls_lockers s ! i) = Idle"
    and n: "fl_fd (lk_lock (ls_lockers s ! i)) = None" "fd_at (lk_proc (ls_lockers s ! i)) 3 (ls_table s) = None"
    and q: "calm \<longrightarrow> quiet (lk_proc (ls_lockers s ! i)) s"
  shows "locker_reachable calm procs path (demo_take i mode s)"
  unfolding demo_take_def
proof (rule locker_reachable.step [OF locker_reachable.step [OF r locker_step.start] locker_step.round])
  show "lk_phase (ls_lockers (open_call i mode 10 (Some 3) s) ! i) = Waiting mode 10"
    using i n by (simp add: open_call_def lock_act_def Let_def fl_open_def)
qed (use i n q in \<open>simp_all add: open_call_def\<close>)

lemma demo_exclusive:
  "locker_reachable True [0, 1] path (demo_take 0 LOCK_EX (lockers_init [0, 1] path))"
  "lk_granted (ls_lockers (demo_take 0 LOCK_EX (lockers_init [0, 1] path)) ! 0) = Some LOCK_EX"
  "lk_phase (ls_lockers (demo_take 0 LOCK_EX (lockers_init [0, 1] path)) ! 1) = Idle"
  "length (ls_lockers (demo_take 0 LOCK_EX (lockers_init [0, 1] path))) = 2"
proof -
  show "locker_reachable True [0, 1] path (demo_take 0 LOCK_EX (lockers_init [0, 1] path))"
    by (rule demo_take_reachable [OF init]) (simp_all add: lockers_init_def quiet_def file_lock_new_def flock_init_def fd_at_def)
qed (simp_all add: demo_take_def lock_run_simps)

theorem file_lock_exclusion_witness:
  "\<exists>s. locker_reachable True [0, 1] (str ''a.db'') s \<and> lk_granted (ls_lockers s ! 0) = Some LOCK_EX
    \<and> lk_granted (ls_lockers s ! 1) = None"
proof (intro exI conjI)
  show "lk_granted (ls_lockers (demo_take 0 LOCK_EX (lockers_init [0, 1] (str ''a.db''))) ! 1) = None"
    by (rule file_lock_exclusion [OF demo_exclusive(1) _ _ demo_exclusive(2)]) (simp_all only: demo_exclusive(4), simp_all)
qed (rule demo_exclusive(1), rule demo_exclusive(2))

theorem close_passes_lock_on_witness:
  "lk_granted (ls_lockers (round_call 1 LOCK_SH 20 5 True (open_call 1 LOCK_SH 20 (Some 4)
     (close_call 0 (demo_take 0 LOCK_EX (lockers_init [0, 1] (str ''a.db'')))))) ! 1) = Some LOCK_SH"
  by (rule close_passes_lock_on [OF demo_exclusive(1) _ _ demo_exclusive(2) _ demo_exclusive(3)])
    (simp_all only: demo_exclusive(4), simp_all)

text \<open>
  A \<open>Database\<close> takes the lock with \<open>shared\<close> only, so that two connections, in two processes, hold
  it at the same time; both may write.
\<close>

theorem two_databases_hold_the_lock:
  "\<exists>s. locker_reachable True [0, 1] path s \<and> lk_granted (ls_lockers s ! 0) = Some LOCK_SH
    \<and> lk_granted (ls_lockers s ! 1) = Some LOCK_SH"
proof -
  let ?s1 = "demo_take 0 LOCK_SH (lockers_init [0, 1] path)" and ?s2 = "demo_take 1 LOCK_SH (demo_take 0 LOCK_SH (lockers_init [0, 1] path))"
  have "locker_reachable True [0, 1] path ?s1"
    by (rule demo_take_reachable [OF init]) (simp_all add: lockers_init_def quiet_def file_lock_new_def flock_init_def fd_at_def)
  then have "locker_reachable True [0, 1] path ?s2"
    by (rule demo_take_reachable) (simp_all add: demo_take_def lock_run_simps quiet_def)
  moreover have "lk_granted (ls_lockers ?s2 ! 0) = Some LOCK_SH \<and> lk_granted (ls_lockers ?s2 ! 1) = Some LOCK_SH"
    by (simp add: demo_take_def lock_run_simps)
  ultimately show ?thesis by blast
qed

text \<open>
  Two objects of one process, used by two threads, and one of another process. Between the two
  closings of the first object's number the second object is given that number, and takes the
  exclusive lock; the second closing takes it away, and the third object gets it as well.
\<close>

theorem double_close_loses_lock:
  "\<exists>s. locker_reachable False [0, 0, 1] path s \<and> lk_granted (ls_lockers s ! 1) = Some LOCK_EX
    \<and> lk_granted (ls_lockers s ! 2) = Some LOCK_EX"
proof -
  let ?s1 = "demo_take 0 LOCK_EX (lockers_init [0, 0, 1] path)"
  let ?s2 = "close_number 0 (close_unlock 0 ?s1)"
  let ?s3 = "demo_take 1 LOCK_EX ?s2"
  let ?s4 = "close_file 0 ?s3"
  let ?s5 = "demo_take 2 LOCK_EX ?s4"
  have "locker_reachable False [0, 0, 1] path ?s1"
    by (rule demo_take_reachable [OF init]) (simp_all add: lockers_init_def file_lock_new_def flock_init_def fd_at_def)
  then have "locker_reachable False [0, 0, 1] path (close_unlock 0 ?s1)"
    by (rule locker_reachable.step) (rule locker_step.unlock; simp add: demo_take_def lock_run_simps)
  then have "locker_reachable False [0, 0, 1] path ?s2"
    by (rule locker_reachable.step) (rule locker_step.number; simp add: demo_take_def lock_run_simps)
  then have "locker_reachable False [0, 0, 1] path ?s3"
    by (rule demo_take_reachable) (simp_all add: demo_take_def lock_run_simps)
  then have "locker_reachable False [0, 0, 1] path ?s4"
    by (rule locker_reachable.step) (rule locker_step.file_object; simp add: demo_take_def lock_run_simps)
  then have "locker_reachable False [0, 0, 1] path ?s5"
    by (rule demo_take_reachable) (simp_all add: demo_take_def lock_run_simps)
  moreover have "lk_granted (ls_lockers ?s5 ! 1) = Some LOCK_EX \<and> lk_granted (ls_lockers ?s5 ! 2) = Some LOCK_EX"
    by (simp add: demo_take_def lock_run_simps)
  ultimately show ?thesis by blast
qed

end
