(* ===== verification/Wal.thy ===== *)
theory Wal
  imports Storage
begin

unbundle bit_operations_syntax

text \<open>
  tinydb/wal.py: the frame of one record (magic, length, CRC, body, CRC), the log file with
  its file position and next LSN, and the replay of a log into a page store.
\<close>

section \<open>CRC-32\<close>

text \<open>\<open>zlib.crc32\<close>: the reflected polynomial, the register inverted before and after.\<close>

type_synonym crc = "32 word"

definition crc_bit :: "crc \<Rightarrow> crc" where
  "crc_bit s = (if bit s 0 then drop_bit 1 s XOR 0xEDB88320 else drop_bit 1 s)"

definition crc_byte :: "byte \<Rightarrow> crc \<Rightarrow> crc" where
  "crc_byte b s = (crc_bit ^^ 8) (s XOR ucast b)"

definition crc32 :: "byte list \<Rightarrow> nat" where
  "crc32 bs = unat (NOT (fold crc_byte bs (NOT 0)))"

lemma crc32_less [simp]: "crc32 bs < 256 ^ 4"
  using unsigned_less [of "NOT (fold crc_byte bs (NOT 0)) :: crc", where ?'a = nat] by (simp add: crc32_def)

lemma xor_cancel: "a XOR p = b XOR p \<longleftrightarrow> a = (b :: 'a::len word)"
proof
  assume "a XOR p = b XOR p"
  then have "(a XOR p) XOR p = (b XOR p) XOR p" by simp
  then show "a = b" by (simp add: xor.assoc)
qed simp

lemma crc_bit_top: "bit (crc_bit s) 31 \<longleftrightarrow> bit s 0"
proof -
  have "bit (0xEDB88320 :: crc) 31" by simp
  moreover have "\<not> bit s 32" using bit_imp_le_length [of s 32] by auto
  ultimately show ?thesis by (simp add: crc_bit_def bit_xor_iff bit_drop_bit_eq)
qed

lemma crc_bit_inject: "crc_bit s = crc_bit t \<Longrightarrow> s = t"
proof -
  assume eq: "crc_bit s = crc_bit t"
  then have b0: "bit s 0 = bit t 0" by (metis crc_bit_top)
  then have d: "drop_bit 1 s = drop_bit 1 t" using eq by (simp add: crc_bit_def xor_cancel split: if_splits)
  show "s = t"
  proof (rule bit_word_eqI)
    fix n
    show "bit s n = bit t n"
    proof (cases n)
      case (Suc m)
      have "bit (drop_bit 1 s) m = bit (drop_bit 1 t) m" using d by simp
      then show ?thesis by (simp add: bit_simps Suc)
    qed (simp add: b0)
  qed
qed

lemma crc_bits_inject: "(crc_bit ^^ n) s = (crc_bit ^^ n) t \<Longrightarrow> s = t"
  by (induction n) (auto dest: crc_bit_inject)

lemma crc_byte_inject: "crc_byte b s = crc_byte b t \<Longrightarrow> s = t"
proof -
  assume "crc_byte b s = crc_byte b t"
  then have "s XOR ucast b = t XOR ucast b" unfolding crc_byte_def by (rule crc_bits_inject)
  then show "s = t" by (simp add: xor_cancel)
qed

lemma crc_byte_inject_byte: "crc_byte b s = crc_byte c s \<Longrightarrow> b = c"
proof -
  assume "crc_byte b s = crc_byte c s"
  then have "s XOR ucast b = s XOR (ucast c :: crc)" unfolding crc_byte_def by (rule crc_bits_inject)
  then have "ucast b = (ucast c :: crc)" by (metis xor.commute xor_cancel)
  then have "unat (ucast b :: crc) = unat (ucast c :: crc)" by simp
  moreover have "take_bit 32 (unat x) = unat x" for x :: byte
    using unat_byte_less [of x] by (simp add: take_bit_nat_eq_self_iff del: unat_byte_less)
  ultimately have "unat b = unat c" by (simp add: unsigned_ucast_eq unsigned_take_bit_eq)
  then show "b = c" by (rule unsigned_word_eqI)
qed

lemma crc_fold_inject: "fold crc_byte bs s = fold crc_byte bs t \<Longrightarrow> s = t"
  by (induction bs arbitrary: s t) (auto dest: crc_byte_inject)

text \<open>A change of one byte always changes the checksum.\<close>

lemma crc32_one_byte:
  assumes "b \<noteq> c"
  shows "crc32 (pre @ b # post) \<noteq> crc32 (pre @ c # post)"
proof
  let ?s = "fold crc_byte pre (NOT 0)"
  assume "crc32 (pre @ b # post) = crc32 (pre @ c # post)"
  then have "NOT (fold crc_byte post (crc_byte b ?s)) = NOT (fold crc_byte post (crc_byte c ?s))"
    unfolding crc32_def by (simp only: unsigned_word_eqI fold_append fold_Cons o_apply)
  then have "fold crc_byte post (crc_byte b ?s) = fold crc_byte post (crc_byte c ?s)"
    by (metis bit.double_compl)
  then show False using assms crc_fold_inject crc_byte_inject_byte by blast
qed

section \<open>Records\<close>

datatype record_kind = MUTATE | TX_COMMIT | TX_ROLLBACK

fun record_kind_value :: "record_kind \<Rightarrow> nat" where
  "record_kind_value MUTATE = 1"
| "record_kind_value TX_COMMIT = 2"
| "record_kind_value TX_ROLLBACK = 3"

definition record_kind_of :: "nat \<Rightarrow> py_error + record_kind" where
  "record_kind_of n =
     (if n = 1 then Inr MUTATE else if n = 2 then Inr TX_COMMIT
      else if n = 3 then Inr TX_ROLLBACK else Inl ValueError)"

lemma record_kind_of_value [simp]: "record_kind_of (record_kind_value k) = Inr k"
  by (cases k) (simp_all add: record_kind_of_def)

lemma record_kind_value_less [simp]: "record_kind_value k < 256"
  by (cases k) simp_all

record wal_record =
  wr_lsn :: nat
  wr_tx :: nat
  wr_kind :: record_kind
  wr_page :: nat
  wr_before :: "byte list"
  wr_after :: "byte list"

text \<open>\<open>b"TINYWAL1"\<close>.\<close>

definition WAL_MAGIC :: "byte list" where
  "WAL_MAGIC = [84, 73, 78, 89, 87, 65, 76, 49]"

lemma length_WAL_MAGIC [simp]: "length WAL_MAGIC = 8"
  by (simp add: WAL_MAGIC_def)

definition record_body :: "wal_record \<Rightarrow> py_error + byte list" where
  "record_body rec =
     rbind (pack_I (wr_lsn rec)) (\<lambda>a.
     rbind (pack_B (record_kind_value (wr_kind rec))) (\<lambda>b.
     rbind (pack_I (wr_tx rec)) (\<lambda>c.
     rbind (pack_H (wr_page rec)) (\<lambda>d.
     rbind (pack_H (length (wr_before rec))) (\<lambda>e.
     rbind (pack_H (length (wr_after rec))) (\<lambda>f.
     Inr (a @ b @ c @ d @ e @ f @ wr_before rec @ wr_after rec)))))))"

definition encode_record :: "wal_record \<Rightarrow> py_error + byte list" where
  "encode_record rec =
     rbind (record_body rec) (\<lambda>body.
     let crc = crc32 body in
     rbind (pack_I (length body + 4)) (\<lambda>l.
     rbind (pack_I crc) (\<lambda>c. Inr (WAL_MAGIC @ l @ c @ body @ c))))"

definition decode_body :: "byte list \<Rightarrow> py_error + wal_record" where
  "decode_body body =
     (if length (take 11 body) \<noteq> 11 then Inl StructError
      else
        let lsn = le_dec (pyslice body 0 4); kind = le_dec (pyslice body 4 5);
            tx = le_dec (pyslice body 5 9); pid = le_dec (pyslice body 9 11);
            rest = drop 11 body in
        if length (take 4 rest) \<noteq> 4 then Inl StructError
        else
          let before_len = le_dec (pyslice rest 0 2); after_len = le_dec (pyslice rest 2 4);
              payload = drop 4 rest in
          rbind (record_kind_of kind) (\<lambda>k.
          Inr \<lparr>wr_lsn = lsn, wr_tx = tx, wr_kind = k, wr_page = pid,
               wr_before = take before_len payload,
               wr_after = pyslice payload before_len (before_len + after_len)\<rparr>))"

definition decode_record :: "byte list \<Rightarrow> py_error + wal_record" where
  "decode_record raw =
     (if length raw < 16 then Inl (TransactionLogCorrupt 0)
      else if take 8 raw \<noteq> WAL_MAGIC then Inl (TransactionLogCorrupt 0)
      else
        let len = le_dec (pyslice raw 8 12); expected = le_dec (pyslice raw 12 16) in
        if length raw < 16 + len then Inl (TransactionLogCorrupt 0)
        else
          let bc = pyslice raw 16 (16 + len);
              body = take (length bc - 4) bc; stored_bytes = drop (length bc - 4) bc in
          rbind (unpack_I stored_bytes) (\<lambda>stored_crc.
          if crc32 body \<noteq> expected \<or> crc32 body \<noteq> stored_crc then Inl (TransactionLogCorrupt 0)
          else decode_body body))"

definition record_ok :: "wal_record \<Rightarrow> bool" where
  "record_ok rec \<longleftrightarrow>
     wr_lsn rec < 256 ^ 4 \<and> wr_tx rec < 256 ^ 4 \<and> wr_page rec < 256 ^ 2
     \<and> length (wr_before rec) < 256 ^ 2 \<and> length (wr_after rec) < 256 ^ 2"

lemma record_body_Inr:
  "record_body rec = Inr body \<longleftrightarrow> record_ok rec \<and>
     body = le_enc 4 (wr_lsn rec) @ le_enc 1 (record_kind_value (wr_kind rec)) @ le_enc 4 (wr_tx rec)
       @ le_enc 2 (wr_page rec) @ le_enc 2 (length (wr_before rec)) @ le_enc 2 (length (wr_after rec))
       @ wr_before rec @ wr_after rec"
  using record_kind_value_less [of "wr_kind rec"] by (auto simp: record_body_def record_ok_def)

lemma decode_record_body: "record_body rec = Inr body \<Longrightarrow> decode_body body = Inr rec"
proof -
  assume "record_body rec = Inr body"
  then have ok: "record_ok rec" and b: "body = le_enc 4 (wr_lsn rec) @ le_enc 1 (record_kind_value (wr_kind rec))
      @ le_enc 4 (wr_tx rec) @ le_enc 2 (wr_page rec) @ le_enc 2 (length (wr_before rec))
      @ le_enc 2 (length (wr_after rec)) @ wr_before rec @ wr_after rec" by (simp_all add: record_body_Inr)
  have "le_dec (le_enc (Suc 0) (record_kind_value (wr_kind rec))) = record_kind_value (wr_kind rec)"
    using le_dec_enc [of "record_kind_value (wr_kind rec)" 1] by simp
  then show ?thesis using ok
    by (simp add: decode_body_def b record_ok_def pyslice_def Let_def del: le_enc.simps)
qed

text \<open>A frame: the fields around a body.\<close>

definition frame :: "nat \<Rightarrow> byte list \<Rightarrow> nat \<Rightarrow> byte list" where
  "frame crc1 body crc2 = WAL_MAGIC @ le_enc 4 (length body + 4) @ le_enc 4 crc1 @ body @ le_enc 4 crc2"

lemma length_frame [simp]: "length (frame c body d) = 20 + length body"
  by (simp add: frame_def)

lemma encode_record_Inr:
  "encode_record rec = Inr raw \<longleftrightarrow>
     (\<exists>body. record_body rec = Inr body \<and> raw = frame (crc32 body) body (crc32 body))"
proof -
  have "length body + 4 < 256 ^ 4" if "record_body rec = Inr body" for body
    using that by (auto simp: record_body_Inr record_ok_def)
  then show ?thesis using crc32_less by (auto simp: encode_record_def frame_def Let_def)
qed

lemma decode_frame:
  assumes "length body + 4 < 256 ^ 4" and "c < 256 ^ 4" and "d < 256 ^ 4"
  shows "decode_record (frame c body d @ rest) =
    (if crc32 body = c \<and> crc32 body = d then decode_body body else Inl (TransactionLogCorrupt 0))"
  using assms by (auto simp: decode_record_def frame_def pyslice_def Let_def)

lemma encode_record_total:
  assumes "record_ok rec"
  obtains body where "encode_record rec = Inr (frame (crc32 body) body (crc32 body))"
    and "record_body rec = Inr body" and "length body + 4 < 256 ^ 4"
proof -
  obtain body where b: "record_body rec = Inr body" using assms record_body_Inr by blast
  moreover from b have "length body + 4 < 256 ^ 4" by (auto simp: record_body_Inr record_ok_def)
  ultimately show ?thesis using that by (simp add: encode_record_Inr)
qed

lemma decode_encode_record:
  assumes "encode_record rec = Inr raw"
  shows "decode_record (raw @ rest) = Inr rec"
proof -
  from assms obtain body where b: "record_body rec = Inr body"
    and raw: "raw = frame (crc32 body) body (crc32 body)" by (auto simp: encode_record_Inr)
  from b have "length body + 4 < 256 ^ 4" by (auto simp: record_body_Inr record_ok_def)
  then show ?thesis using decode_record_body [OF b] by (simp add: raw decode_frame [OF _ crc32_less crc32_less])
qed

text \<open>
  Every record within its field widths is encoded, and the frame decodes to the record
  also when other frames follow it.
\<close>

theorem record_roundtrip:
  assumes "record_ok rec"
  shows "\<exists>raw. encode_record rec = Inr raw \<and> (\<forall>rest. decode_record (raw @ rest) = Inr rec)"
  using encode_record_total [OF assms] decode_encode_record by metis

text \<open>
  C23: a frame in which any one byte of the record body has been changed is rejected as
  corrupt, whatever the byte was changed to.
\<close>

theorem one_byte_corruption_detected:
  assumes "encode_record rec = Inr raw" and "16 \<le> i" and "i < length raw - 4"
    and "b \<noteq> raw ! i"
  shows "decode_record (raw[i := b]) = Inl (TransactionLogCorrupt 0)"
proof -
  from assms(1) obtain body where bd: "record_body rec = Inr body"
    and raw: "raw = frame (crc32 body) body (crc32 body)" by (auto simp: encode_record_Inr)
  from bd have l: "length body + 4 < 256 ^ 4" by (auto simp: record_body_Inr record_ok_def)
  have i: "i - 16 < length body" using assms(2,3) raw by simp
  define pre where "pre = WAL_MAGIC @ le_enc 4 (length body + 4) @ le_enc 4 (crc32 body)"
  have lp: "length pre = 16" by (simp add: pre_def)
  have fr: "frame (crc32 body) x (crc32 body) = pre @ x @ le_enc 4 (crc32 body)"
    if "length x = length body" for x by (simp add: frame_def pre_def that)
  have old: "raw ! i = body ! (i - 16)"
    using assms(2) i lp by (simp add: raw fr nth_append)
  have new: "raw[i := b] = frame (crc32 body) (body[i - 16 := b]) (crc32 body)"
    using assms(2) i lp by (simp add: raw fr list_update_append)
  have "crc32 (body[i - 16 := b]) \<noteq> crc32 body"
    using crc32_one_byte [of b "body ! (i - 16)" "take (i - 16) body" "drop (Suc (i - 16)) body"]
      assms(4) old i by (simp add: upd_conv_take_nth_drop id_take_nth_drop [symmetric])
  then show ?thesis
    unfolding new using l decode_frame [of "body[i - 16 := b]", OF _ crc32_less [of body] crc32_less [of body], of "[]"]
    by simp
qed

section \<open>The log file\<close>

text \<open>
  \<open>os.write\<close> writes at the file position and moves it; \<open>os.pread\<close> does not. Iterating the
  records seeks to the end for the size and back to the start, and leaves the position there.
\<close>

record wal =
  wal_bytes :: "byte list"
  wal_pos :: nat
  wal_open :: bool
  next_lsn :: nat

type_synonym 'a walx = "(wal, py_error, 'a) sx"

function scan_log :: "byte list \<Rightarrow> nat \<Rightarrow> wal_record list \<times> py_error option" where
  "scan_log bs pos =
     (if length bs \<le> pos then ([], None)
      else let raw = take 16 (drop pos bs) in
        if length raw < 16 then ([], None)
        else let len = le_dec (pyslice raw 8 12) in
          case decode_record (take (16 + len) (drop pos bs)) of
            Inl e \<Rightarrow> ([], Some e)
          | Inr rec \<Rightarrow> (case scan_log bs (pos + (16 + len)) of (rs, e) \<Rightarrow> (rec # rs, e)))"
  by pat_completeness auto

termination by (relation "measure (\<lambda>(bs, pos). length bs - pos)") auto

declare scan_log.simps [simp del]

definition recover_next_lsn :: "byte list \<Rightarrow> nat" where
  "recover_next_lsn bs =
     (case scan_log bs 0 of
        (rs, Some e) \<Rightarrow> 1
      | (rs, None) \<Rightarrow> (let m = fold max (map wr_lsn rs) 0 in if m > 0 then m + 1 else 1))"

definition open_wal :: "byte list \<Rightarrow> wal" where
  "open_wal content = \<lparr>wal_bytes = content, wal_pos = 0, wal_open = True,
     next_lsn = recover_next_lsn content\<rparr>"

definition close_wal :: "wal \<Rightarrow> wal" where
  "close_wal w = w\<lparr>wal_open := False\<rparr>"

definition append_rec :: "wal_record \<Rightarrow> nat walx" where
  "append_rec rec =
     sbind (slift (encode_record rec)) (\<lambda>raw. \<lambda>w.
     if wal_open w then
       (Inr (wr_lsn rec),
        w\<lparr>wal_bytes := pwrite_bytes (wal_bytes w) raw (wal_pos w), wal_pos := wal_pos w + length raw,
          next_lsn := max (next_lsn w) (wr_lsn rec + 1)\<rparr>)
     else (Inl OSError, w))"

definition wal_append ::
  "record_kind \<Rightarrow> nat \<Rightarrow> nat \<Rightarrow> byte list \<Rightarrow> byte list \<Rightarrow> nat walx" where
  "wal_append kind tx pid before after =
     sbind sget (\<lambda>w. append_rec \<lparr>wr_lsn = next_lsn w, wr_tx = tx, wr_kind = kind, wr_page = pid,
       wr_before = before, wr_after = after\<rparr>)"

definition wal_fsync :: "unit walx" where
  "wal_fsync w = (if wal_open w then Inr () else Inl OSError, w)"

definition wal_truncate :: "unit walx" where
  "wal_truncate w =
     (if wal_open w then (Inr (), w\<lparr>wal_bytes := [], wal_pos := 0, next_lsn := 1\<rparr>)
      else (Inl OSError, w))"

text \<open>Exhausting the generator: the records before the error, and the error.\<close>

definition iter_records :: "(wal_record list \<times> py_error option) walx" where
  "iter_records w =
     (if wal_open w then (Inr (scan_log (wal_bytes w) 0), w\<lparr>wal_pos := 0\<rparr>) else (Inl OSError, w))"

section \<open>What a log holds\<close>

definition encode_log :: "wal_record list \<Rightarrow> byte list" where
  "encode_log rs = concat (map (\<lambda>r. case encode_record r of Inr raw \<Rightarrow> raw | Inl _ \<Rightarrow> []) rs)"

lemma encode_log_simps [simp]:
  "encode_log [] = []"
  "encode_record r = Inr raw \<Longrightarrow> encode_log (r # rs) = raw @ encode_log rs"
  "encode_log (rs @ qs) = encode_log rs @ encode_log qs"
  by (simp_all add: encode_log_def)

text \<open>The length field of a frame, and a scan that meets a whole frame.\<close>

lemma frame_length_field:
  assumes "length body + 4 < 256 ^ 4" and "16 \<le> k"
  shows "le_dec (pyslice (take 16 (take k (frame c body d) @ rest)) 8 12) = length body + 4"
    and "take 16 (take k (frame c body d) @ rest) = take 16 (frame c body d)"
proof -
  show t: "take 16 (take k (frame c body d) @ rest) = take 16 (frame c body d)"
    using assms(2) by (simp add: min_def)
  show "le_dec (pyslice (take 16 (take k (frame c body d) @ rest)) 8 12) = length body + 4"
    unfolding t using assms(1) by (simp add: frame_def pyslice_def)
qed

lemma scan_log_frame:
  assumes e: "encode_record r = Inr raw" and l: "length pre = pos"
  shows "scan_log (pre @ raw @ rest) pos
    = (case scan_log (pre @ raw @ rest) (pos + length raw) of (rs, e) \<Rightarrow> (r # rs, e))"
proof -
  from e obtain body where bd: "record_body r = Inr body"
    and raw: "raw = frame (crc32 body) body (crc32 body)" by (auto simp: encode_record_Inr)
  from bd have lb: "length body + 4 < 256 ^ 4" by (auto simp: record_body_Inr record_ok_def)
  have lr: "length raw = 16 + (length body + 4)" by (simp add: raw)
  have f: "le_dec (pyslice (take 16 (raw @ rest)) 8 12) = length body + 4"
    using frame_length_field(1) [OF lb, of "length raw" "crc32 body" "crc32 body" rest] lr raw by simp
  have d: "decode_record raw = Inr r" using decode_encode_record [OF e, of "[]"] by simp
  show ?thesis
    using l f d lr by (subst scan_log.simps) (simp add: Let_def add.assoc)
qed

lemma scan_log_encoded:
  "list_all record_ok rs \<Longrightarrow> length pre = pos \<Longrightarrow>
   scan_log (pre @ encode_log rs @ rest) pos
     = (case scan_log (pre @ encode_log rs @ rest) (pos + length (encode_log rs)) of
          (qs, e) \<Rightarrow> (rs @ qs, e))"
proof (induction rs arbitrary: pre pos)
  case (Cons r rs)
  then obtain body where e: "encode_record r = Inr (frame (crc32 body) body (crc32 body))"
    by (auto elim: encode_record_total)
  let ?raw = "frame (crc32 body) body (crc32 body)"
  have "scan_log ((pre @ ?raw) @ encode_log rs @ rest) (pos + length ?raw)
     = (case scan_log ((pre @ ?raw) @ encode_log rs @ rest) (pos + length ?raw + length (encode_log rs)) of
          (qs, e) \<Rightarrow> (rs @ qs, e))"
    by (rule Cons.IH) (use Cons.prems in auto)
  then show ?case
    using scan_log_frame [OF e Cons.prems(2), of "encode_log rs @ rest"] e
    by (simp add: add.assoc split: prod.splits)
qed (simp split: prod.splits)

lemma scan_log_end [simp]: "length bs \<le> pos \<Longrightarrow> scan_log bs pos = ([], None)"
  by (subst scan_log.simps) simp

lemma scan_log_whole: "list_all record_ok rs \<Longrightarrow> scan_log (encode_log rs) 0 = (rs, None)"
  using scan_log_encoded [of rs "[]" 0 "[]"] by simp

text \<open>A frame cut off by a crash: inside its header it is the end of the log, later an error.\<close>

lemma scan_log_torn:
  assumes rs: "list_all record_ok rs" and e: "encode_record r = Inr raw" and k: "k < length raw"
  shows "scan_log (encode_log rs @ take k raw) 0
    = (rs, if k < 16 then None else Some (TransactionLogCorrupt 0))"
proof -
  from e obtain body where bd: "record_body r = Inr body"
    and raw: "raw = frame (crc32 body) body (crc32 body)" by (auto simp: encode_record_Inr)
  from bd have lb: "length body + 4 < 256 ^ 4" by (auto simp: record_body_Inr record_ok_def)
  let ?bs = "encode_log rs @ take k raw" and ?n = "length (encode_log rs)"
  have "scan_log ?bs ?n = ([], if k < 16 then None else Some (TransactionLogCorrupt 0))"
  proof (cases "k < 16")
    case True
    then show ?thesis using k by (subst scan_log.simps) (auto simp: Let_def)
  next
    case False
    then have f: "le_dec (pyslice (take 16 (take k raw)) 8 12) = length body + 4"
        and t: "take 16 (take k raw) = take 16 raw"
      using frame_length_field [OF lb, of k "crc32 body" "crc32 body" "[]"] by (simp_all add: raw)
    have sl: "pyslice (take k raw) 8 12 = pyslice (take 16 (take k raw)) 8 12"
      using False by (simp add: pyslice_def drop_take min_def)
    have m: "take 8 (take k raw) = WAL_MAGIC" using False by (simp add: raw frame_def min_def)
    have "decode_record (take k raw) = Inl (TransactionLogCorrupt 0)"
      unfolding decode_record_def Let_def sl f m using False k by (simp add: raw)
    then show ?thesis
      using False k f by (subst scan_log.simps) (simp add: Let_def raw min_def)
  qed
  then show ?thesis using scan_log_encoded [OF rs, of "[]" 0 "take k raw"] by simp
qed

section \<open>Appending within one session\<close>

text \<open>A log whose position is at its end, holding the given records.\<close>

definition wal_at_end :: "wal \<Rightarrow> wal_record list \<Rightarrow> bool" where
  "wal_at_end w rs \<longleftrightarrow>
     wal_open w \<and> list_all record_ok rs \<and> wal_bytes w = encode_log rs
     \<and> wal_pos w = length (wal_bytes w) \<and> next_lsn w = length rs + 1
     \<and> map wr_lsn rs = [1..<length rs + 1]"

lemma wal_at_end_new: "wal_at_end (open_wal []) []"
  by (simp add: wal_at_end_def open_wal_def recover_next_lsn_def)

definition next_record :: "wal_record list \<Rightarrow> record_kind \<times> nat \<times> nat \<times> byte list \<times> byte list \<Rightarrow> wal_record" where
  "next_record rs = (\<lambda>(kind, tx, pid, before, after).
     \<lparr>wr_lsn = length rs + 1, wr_tx = tx, wr_kind = kind, wr_page = pid,
      wr_before = before, wr_after = after\<rparr>)"

lemma wal_append_at_end:
  assumes w: "wal_at_end w rs" and r: "record_ok (next_record rs (kind, tx, pid, b, a))"
  shows "\<exists>w'. wal_append kind tx pid b a w = (Inr (length rs + 1), w')
           \<and> wal_at_end w' (rs @ [next_record rs (kind, tx, pid, b, a)])"
proof -
  let ?r = "next_record rs (kind, tx, pid, b, a)"
  obtain raw where raw: "encode_record ?r = Inr raw" using r by (metis encode_record_total)
  let ?w = "w\<lparr>wal_bytes := wal_bytes w @ raw, wal_pos := wal_pos w + length raw,
      next_lsn := length rs + 2\<rparr>"
  have "wal_append kind tx pid b a w = (Inr (length rs + 1), ?w)"
    using w raw by (simp add: wal_append_def append_rec_def wal_at_end_def next_record_def pwrite_append)
  moreover have "wal_at_end ?w (rs @ [?r])"
    using w r raw by (simp add: wal_at_end_def) (simp add: next_record_def)
  ultimately show ?thesis by blast
qed

fun records_from :: "wal_record list \<Rightarrow> (record_kind \<times> nat \<times> nat \<times> byte list \<times> byte list) list \<Rightarrow> wal_record list" where
  "records_from rs [] = rs"
| "records_from rs (c # cs) = records_from (rs @ [next_record rs c]) cs"

fun records_ok :: "wal_record list \<Rightarrow> (record_kind \<times> nat \<times> nat \<times> byte list \<times> byte list) list \<Rightarrow> bool" where
  "records_ok rs [] \<longleftrightarrow> True"
| "records_ok rs (c # cs) \<longleftrightarrow> record_ok (next_record rs c) \<and> records_ok (rs @ [next_record rs c]) cs"

definition wal_append_all :: "(record_kind \<times> nat \<times> nat \<times> byte list \<times> byte list) list \<Rightarrow> unit walx" where
  "wal_append_all cs = sfor cs (\<lambda>(kind, tx, pid, b, a). sbind (wal_append kind tx pid b a) (\<lambda>_. sret ()))"

lemma wal_append_all_at_end:
  "wal_at_end w rs \<Longrightarrow> records_ok rs cs \<Longrightarrow>
   \<exists>w'. wal_append_all cs w = (Inr (), w') \<and> wal_at_end w' (records_from rs cs)"
proof (induction cs arbitrary: w rs)
  case (Cons c cs)
  obtain kind tx pid b a where c: "c = (kind, tx, pid, b, a)" by (cases c) auto
  from Cons.prems have "record_ok (next_record rs (kind, tx, pid, b, a))" by (simp add: c)
  from wal_append_at_end [OF Cons.prems(1) this] obtain w1 where
    w1: "wal_append kind tx pid b a w = (Inr (length rs + 1), w1)"
      "wal_at_end w1 (rs @ [next_record rs c])" by (auto simp: c)
  then show ?case using Cons.IH [OF w1(2)] Cons.prems(2) by (simp add: wal_append_all_def c)
qed (simp add: wal_append_all_def)

text \<open>
  What is appended to a new log in one session is what iterating the log yields, in
  order, with the LSNs 1, 2, 3, and so on; the next LSN is the one after the last.
\<close>

lemma wal_session_readback:
  assumes "records_ok [] cs"
  shows "\<exists>w. wal_append_all cs (open_wal []) = (Inr (), w)
           \<and> fst (iter_records w) = Inr (records_from [] cs, None)
           \<and> next_lsn w = length (records_from [] cs) + 1
           \<and> map wr_lsn (records_from [] cs) = [1..<length (records_from [] cs) + 1]"
  using wal_append_all_at_end [OF wal_at_end_new assms] scan_log_whole
  by (auto simp: wal_at_end_def iter_records_def)

text \<open>
  Reopening a log leaves the file position at its start, so that the first record
  appended overwrites the beginning of the log; when it is as long as the first record it
  takes its place, and that record is lost.
\<close>

theorem reopen_overwrites_first_record:
  assumes rs: "list_all record_ok (r0 # rs)"
    and new: "rec = \<lparr>wr_lsn = next_lsn (open_wal (encode_log (r0 # rs))), wr_tx = tx,
      wr_kind = kind, wr_page = pid, wr_before = b, wr_after = a\<rparr>"
    and ok: "record_ok rec"
    and len: "length b + length a = length (wr_before r0) + length (wr_after r0)"
  shows "\<exists>w. wal_append kind tx pid b a (open_wal (encode_log (r0 # rs))) = (Inr (wr_lsn rec), w)
           \<and> fst (iter_records w) = Inr (rec # rs, None)"
proof -
  obtain body0 where r0: "encode_record r0 = Inr (frame (crc32 body0) body0 (crc32 body0))"
    and b0: "record_body r0 = Inr body0" using rs by (auto elim: encode_record_total)
  obtain body where r: "encode_record rec = Inr (frame (crc32 body) body (crc32 body))"
    and b1: "record_body rec = Inr body" using ok by (rule encode_record_total)
  have "length body = length body0"
    using b0 b1 len by (simp add: record_body_Inr new)
  then have l: "length (frame (crc32 body0) body0 (crc32 body0)) = length (frame (crc32 body) body (crc32 body))"
    by simp
  let ?raw = "frame (crc32 body) body (crc32 body)"
  let ?w = "\<lparr>wal_bytes = encode_log (rec # rs), wal_pos = length ?raw, wal_open = True,
      next_lsn = wr_lsn rec + 1\<rparr>"
  have "pwrite_bytes (encode_log (r0 # rs)) ?raw 0 = encode_log (rec # rs)"
    using l by (simp add: pwrite_bytes_def r0 r)
  then have "wal_append kind tx pid b a (open_wal (encode_log (r0 # rs))) = (Inr (wr_lsn rec), ?w)"
    using r by (simp add: wal_append_def append_rec_def new open_wal_def)
  then show ?thesis
    using scan_log_whole [of "rec # rs"] rs ok by (simp add: iter_records_def)
qed

section \<open>Replay\<close>

definition committed_tx :: "wal_record list \<Rightarrow> nat list" where
  "committed_tx rs = map wr_tx (filter (\<lambda>r. wr_kind r = TX_COMMIT) rs)"

text \<open>The body updates of a replay: after-images of committed, before-images of other transactions.\<close>

definition replay_image :: "nat list \<Rightarrow> wal_record \<Rightarrow> byte list" where
  "replay_image committed r = (if wr_tx r \<in> set committed then wr_after r else wr_before r)"

definition replay_records ::
  "(nat \<Rightarrow> 's \<Rightarrow> py_error + page) \<Rightarrow> (page \<Rightarrow> ('s, py_error, unit) sx) \<Rightarrow>
   wal_record list \<Rightarrow> ('s, py_error, unit) sx" where
  "replay_records rd wr rs =
     sfor rs (\<lambda>r. if wr_kind r = MUTATE
       then put_body rd wr (wr_page r) (replay_image (committed_tx rs) r) else sret ())"

text \<open>\<open>replay_wal\<close> on the content of the log file, None when there is no such file.\<close>

definition replay_wal ::
  "(nat \<Rightarrow> 's \<Rightarrow> py_error + page) \<Rightarrow> (page \<Rightarrow> ('s, py_error, unit) sx) \<Rightarrow>
   byte list option \<Rightarrow> ('s, py_error, unit) sx" where
  "replay_wal rd wr content =
     (case content of
        None \<Rightarrow> sret ()
      | Some bs \<Rightarrow> (case scan_log bs 0 of
          (rs, Some e) \<Rightarrow> sraise e
        | (rs, None) \<Rightarrow> replay_records rd wr rs))"

text \<open>\<open>FileStore.open\<close>, with the replay of the log file beside the database file.\<close>

definition open_store :: "byte list \<Rightarrow> byte list option \<Rightarrow> nat \<Rightarrow> py_error + file_store" where
  "open_store content wal_content psize =
     rbind (open_file content psize) (\<lambda>st.
     case replay_wal read_page write_page wal_content st of
       (Inl e, st') \<Rightarrow> Inl e
     | (Inr _, st') \<Rightarrow> Inr st')"

definition replay_updates :: "wal_record list \<Rightarrow> (nat \<times> byte list) list" where
  "replay_updates rs =
     map (\<lambda>r. (wr_page r, replay_image (committed_tx rs) r)) (filter (\<lambda>r. wr_kind r = MUTATE) rs)"

lemma sfor_filter: "sfor xs (\<lambda>x. if P x then f x else sret ()) = sfor (filter P xs) f"
  by (induction xs) simp_all

lemma sfor_map: "sfor (map g xs) f = sfor xs (\<lambda>x. f (g x))"
  by (induction xs) simp_all

lemma replay_records_updates:
  "replay_records rd wr rs = sfor (replay_updates rs) (\<lambda>(p, b). put_body rd wr p b)"
  by (simp add: replay_records_def replay_updates_def sfor_filter sfor_map)

context page_store begin

lemma replay_ok:
  assumes "ok s" and "list_all record_ok rs"
    and "\<And>p b. (p, b) \<in> set (replay_updates rs) \<Longrightarrow> has s p \<and> length b \<le> cap s"
  obtains s' where "replay_wal rd wr (Some (encode_log rs)) s = (Inr (), s')" and "ok s'"
    and "has s' = has s" and "cap s' = cap s"
    and "\<And>q pg. has s q \<Longrightarrow> rd q s = Inr pg \<Longrightarrow>
       rd q s' = Inr (pg\<lparr>page_body := last_body (replay_updates rs) q (page_body pg)\<rparr>)"
  using put_bodies_ok [OF assms(1,3)] scan_log_whole [OF assms(2)]
  by (simp add: replay_wal_def replay_records_updates) metis

lemma replay_torn:
  assumes "list_all record_ok rs" and "encode_record r = Inr raw" and "16 \<le> k" and "k < length raw"
  shows "replay_wal rd wr (Some (encode_log rs @ take k raw)) s = (Inl (TransactionLogCorrupt 0), s)"
  using scan_log_torn [OF assms(1,2,4)] assms(3) by (simp add: replay_wal_def)

end

lemma replay_updates_append_mutate:
  "replay_updates (as @ r # bs) = map (\<lambda>r'. (wr_page r', replay_image (committed_tx (as @ r # bs)) r'))
     (filter (\<lambda>r. wr_kind r = MUTATE) as @ (if wr_kind r = MUTATE then [r] else []) @ filter (\<lambda>r. wr_kind r = MUTATE) bs)"
  by (simp add: replay_updates_def)

text \<open>Logs that a replay can apply to a store: its pages, bodies within the capacity.\<close>

definition replayable :: "file_store \<Rightarrow> wal_record list \<Rightarrow> bool" where
  "replayable st rs \<longleftrightarrow> list_all record_ok rs \<and>
     list_all (\<lambda>r. wr_kind r = MUTATE \<longrightarrow> wr_page r < page_count st
       \<and> length (wr_before r) \<le> capacity st \<and> length (wr_after r) \<le> capacity st) rs"

lemma replay_store:
  assumes "wf_store st" and "replayable st rs"
  obtains st' where "replay_wal read_page write_page (Some (encode_log rs)) st = (Inr (), st')"
    and "wf_store st'" and "page_count st' = page_count st" and "capacity st' = capacity st"
    and "\<And>q pg. q < page_count st \<Longrightarrow> read_page q st = Inr pg \<Longrightarrow>
       read_page q st' = Inr (pg\<lparr>page_body := last_body (replay_updates rs) q (page_body pg)\<rparr>)"
proof -
  have u: "has_page st p \<and> length b \<le> capacity st" if "(p, b) \<in> set (replay_updates rs)" for p b
    using that assms(2) by (auto simp: replay_updates_def replayable_def list_all_iff has_page_def replay_image_def)
  have "list_all record_ok rs" using assms(2) by (simp add: replayable_def)
  from fs.replay_ok [OF assms(1) this u] obtain st' where
    st': "replay_wal read_page write_page (Some (encode_log rs)) st = (Inr (), st')" "wf_store st'"
      "has_page st' = has_page st" "capacity st' = capacity st"
    and r: "\<And>q pg. has_page st q \<Longrightarrow> read_page q st = Inr pg \<Longrightarrow>
       read_page q st' = Inr (pg\<lparr>page_body := last_body (replay_updates rs) q (page_body pg)\<rparr>)" by blast
  have "page_count st' = page_count st"
    using fun_cong [OF st'(3), of "page_count st"] fun_cong [OF st'(3), of "page_count st'"]
    by (auto simp: has_page_def)
  then show ?thesis using that [OF st'(1,2) _ st'(4)] r by (simp add: has_page_def)
qed

lemma committed_tx_iff: "t \<in> set (committed_tx rs) \<longleftrightarrow> (\<exists>c \<in> set rs. wr_kind c = TX_COMMIT \<and> wr_tx c = t)"
  by (auto simp: committed_tx_def)

lemma last_body_of_record:
  assumes "wr_kind r = MUTATE" and "\<forall>x \<in> set bs. wr_kind x = MUTATE \<longrightarrow> wr_page x \<noteq> wr_page r"
  shows "last_body (replay_updates (as @ r # bs)) (wr_page r) b = replay_image (committed_tx (as @ r # bs)) r"
proof -
  let ?f = "\<lambda>x. (wr_page x, replay_image (committed_tx (as @ r # bs)) x)"
  have "wr_page r \<notin> fst ` set (map ?f (filter (\<lambda>r. wr_kind r = MUTATE) bs))" using assms(2) by auto
  then show ?thesis
    using assms(1) by (simp add: replay_updates_append_mutate last_body_append last_body_absent)
qed

text \<open>
  C13: after a replay each page the log mutates holds the after-image of the last record
  that mutates it when that record's transaction committed, and its before-image when not;
  a page the log does not mutate is as it was.
\<close>

theorem replay_last_image:
  assumes wf: "wf_store st" and ok: "replayable st (as @ r # bs)" and m: "wr_kind r = MUTATE"
    and last: "\<forall>x \<in> set bs. wr_kind x = MUTATE \<longrightarrow> wr_page x \<noteq> wr_page r"
    and pg: "read_page (wr_page r) st = Inr pg"
  shows "\<exists>st'. replay_wal read_page write_page (Some (encode_log (as @ r # bs))) st = (Inr (), st')
    \<and> wf_store st'
    \<and> read_page (wr_page r) st' = Inr (pg\<lparr>page_body :=
        if \<exists>c \<in> set (as @ r # bs). wr_kind c = TX_COMMIT \<and> wr_tx c = wr_tx r
        then wr_after r else wr_before r\<rparr>)
    \<and> (\<forall>q < page_count st. (\<forall>x \<in> set (as @ r # bs). wr_kind x = MUTATE \<longrightarrow> wr_page x \<noteq> q) \<longrightarrow>
         read_page q st' = read_page q st)"
proof -
  obtain st' where st': "replay_wal read_page write_page (Some (encode_log (as @ r # bs))) st = (Inr (), st')"
      "wf_store st'"
    and r: "\<And>q pg. q < page_count st \<Longrightarrow> read_page q st = Inr pg \<Longrightarrow>
       read_page q st' = Inr (pg\<lparr>page_body := last_body (replay_updates (as @ r # bs)) q (page_body pg)\<rparr>)"
    by (rule replay_store [OF wf ok]) blast
  have p: "wr_page r < page_count st" using ok m by (simp add: replayable_def)
  have "read_page (wr_page r) st' = Inr (pg\<lparr>page_body :=
      if \<exists>c \<in> set (as @ r # bs). wr_kind c = TX_COMMIT \<and> wr_tx c = wr_tx r
      then wr_after r else wr_before r\<rparr>)"
    unfolding r [OF p pg] last_body_of_record [OF m last] replay_image_def committed_tx_iff ..
  moreover have "read_page q st' = read_page q st"
    if q: "q < page_count st" and no: "\<forall>x \<in> set (as @ r # bs). wr_kind x = MUTATE \<longrightarrow> wr_page x \<noteq> q" for q
  proof -
    obtain pq where pq: "read_page q st = Inr pq"
      using fs.rd_ok [OF wf, of q] q by (auto simp: has_page_def)
    have "q \<notin> fst ` set (replay_updates (as @ r # bs))"
      using no unfolding replay_updates_def set_map set_filter image_iff by fastforce
    then have "last_body (replay_updates (as @ r # bs)) q (page_body pq) = page_body pq"
      by (rule last_body_absent)
    with r [OF q pq] show ?thesis unfolding pq by simp
  qed
  ultimately show ?thesis by (intro exI [of _ st'] conjI st') blast+
qed

text \<open>
  When a transaction that did not commit changed a page twice, the replay, going
  forward through the log, leaves the page with the first of the two changes instead of the
  content before the transaction.
\<close>

theorem replay_undo_keeps_first_change:
  assumes wf: "wf_store st" and ok: "replayable st [r1, r2]"
    and m: "wr_kind r1 = MUTATE" "wr_kind r2 = MUTATE" and p: "wr_page r2 = wr_page r1"
    and tx: "wr_tx r2 = wr_tx r1" and chain: "wr_before r2 = wr_after r1"
  shows "\<exists>st' pg. replay_wal read_page write_page (Some (encode_log [r1, r2])) st = (Inr (), st')
    \<and> read_page (wr_page r1) st' = Inr pg \<and> page_body pg = wr_after r1"
proof -
  obtain st' where st': "replay_wal read_page write_page (Some (encode_log [r1, r2])) st = (Inr (), st')"
    and r: "\<And>q pg. q < page_count st \<Longrightarrow> read_page q st = Inr pg \<Longrightarrow>
       read_page q st' = Inr (pg\<lparr>page_body := last_body (replay_updates [r1, r2]) q (page_body pg)\<rparr>)"
    by (rule replay_store [OF wf ok]) blast
  have q: "wr_page r1 < page_count st" using ok m by (simp add: replayable_def)
  obtain pg where "read_page (wr_page r1) st = Inr pg"
    using fs.rd_ok [OF wf, of "wr_page r1"] q by (auto simp: has_page_def)
  then show ?thesis
    using st' r [OF q] m p chain by (simp add: replay_updates_def committed_tx_def replay_image_def)
qed

text \<open>
  A log that ends in a frame cut off by a crash is accepted only when the cut lies in
  the frame's first 16 bytes; a cut behind them makes opening the database raise
  \<open>TransactionLogCorrupt\<close>.
\<close>

theorem torn_log_blocks_open:
  assumes "open_file content psize = Inr st" and "list_all record_ok rs"
    and "encode_record r = Inr raw" and "k < length raw"
  shows "open_store content (Some (encode_log rs @ take k raw)) psize =
    (if k < 16 then open_store content (Some (encode_log rs)) psize else Inl (TransactionLogCorrupt 0))"
  using assms scan_log_torn [OF assms(2-4)] scan_log_whole [OF assms(2)]
  by (simp add: open_store_def replay_wal_def)

lemma last_body_present: "q \<in> fst ` set us \<Longrightarrow> last_body us q x = last_body us q y"
  by (induction us arbitrary: x y) fastforce+

lemma last_body_idem: "last_body us q (last_body us q b) = last_body us q b"
proof (induction us arbitrary: b)
  case (Cons u us)
  obtain p c where u: "u = (p, c)" by (cases u)
  show ?case
  proof (cases "p = q \<and> q \<notin> fst ` set us")
    case False
    then show ?thesis using Cons last_body_present [of q us] by (auto simp: u last_body_absent)
  qed (auto simp: u last_body_absent)
qed simp

text \<open>
  Replaying a log again changes nothing, so that a database opened twice with the same
  log has the same pages.
\<close>

theorem replay_idempotent:
  assumes wf: "wf_store st" and ok: "replayable st rs"
  shows "\<exists>st1 st2. replay_wal read_page write_page (Some (encode_log rs)) st = (Inr (), st1)
    \<and> replay_wal read_page write_page (Some (encode_log rs)) st1 = (Inr (), st2)
    \<and> (\<forall>q < page_count st. read_page q st2 = read_page q st1)"
proof -
  obtain st1 where s1: "replay_wal read_page write_page (Some (encode_log rs)) st = (Inr (), st1)"
    "wf_store st1" "page_count st1 = page_count st" "capacity st1 = capacity st"
    and r1: "\<And>q pg. q < page_count st \<Longrightarrow> read_page q st = Inr pg \<Longrightarrow>
       read_page q st1 = Inr (pg\<lparr>page_body := last_body (replay_updates rs) q (page_body pg)\<rparr>)"
    by (rule replay_store [OF wf ok]) blast
  have ok1: "replayable st1 rs" using ok s1 by (simp add: replayable_def)
  obtain st2 where s2: "replay_wal read_page write_page (Some (encode_log rs)) st1 = (Inr (), st2)"
    and r2: "\<And>q pg. q < page_count st1 \<Longrightarrow> read_page q st1 = Inr pg \<Longrightarrow>
       read_page q st2 = Inr (pg\<lparr>page_body := last_body (replay_updates rs) q (page_body pg)\<rparr>)"
    by (rule replay_store [OF s1(2) ok1]) blast
  have "read_page q st2 = read_page q st1" if q: "q < page_count st" for q
  proof -
    obtain pg where pg: "read_page q st = Inr pg"
      using fs.rd_ok [OF wf, of q] q by (auto simp: has_page_def)
    show ?thesis using r1 [OF q pg] r2 [OF _ r1 [OF q pg]] q s1(3) by (simp add: last_body_idem)
  qed
  then show ?thesis using s1 s2 by blast
qed

section \<open>Concrete logs\<close>

definition demo_mutate :: "nat \<Rightarrow> byte \<Rightarrow> byte \<Rightarrow> wal_record" where
  "demo_mutate lsn b a = \<lparr>wr_lsn = lsn, wr_tx = 1, wr_kind = MUTATE, wr_page = 1,
     wr_before = [b], wr_after = [a]\<rparr>"

definition demo_commit :: "nat \<Rightarrow> wal_record" where
  "demo_commit lsn = \<lparr>wr_lsn = lsn, wr_tx = 1, wr_kind = TX_COMMIT, wr_page = 0,
     wr_before = [], wr_after = []\<rparr>"

lemma demo_records_ok [simp]:
  "lsn < 4294967296 \<Longrightarrow> record_ok (demo_mutate lsn b a)"
  "lsn < 4294967296 \<Longrightarrow> record_ok (demo_commit lsn)"
  by (simp_all add: record_ok_def demo_mutate_def demo_commit_def)

lemma demo_replayable:
  "replayable demo_store [demo_mutate 1 0 5, demo_mutate 2 5 6]"
  "replayable demo_store ([demo_mutate 1 0 5] @ demo_mutate 2 5 6 # [demo_commit 3])"
  by (simp_all add: replayable_def demo_store_facts demo_capacity)
    (simp_all add: demo_mutate_def demo_commit_def)

theorem record_roundtrip_witness:
  "\<exists>raw. encode_record (demo_commit 3) = Inr raw \<and> decode_record (raw @ [1, 2]) = Inr (demo_commit 3)"
  using record_roundtrip [of "demo_commit 3"] by auto

lemma le_enc_head: "0 < n \<Longrightarrow> le_enc n v ! 0 = byte_of (v mod 256)"
  by (cases n) simp_all

theorem one_byte_corruption_detected_witness:
  "\<exists>raw. encode_record (demo_commit 3) = Inr raw
      \<and> decode_record (raw[16 := 77]) = Inl (TransactionLogCorrupt 0)"
proof -
  obtain body where b: "encode_record (demo_commit 3) = Inr (frame (crc32 body) body (crc32 body))"
    "record_body (demo_commit 3) = Inr body"
    by (rule encode_record_total [of "demo_commit 3"]) simp_all
  have l: "body ! 0 = 3" "length body = 15"
    using b(2) by (simp_all add: record_body_Inr demo_commit_def record_ok_def nth_append le_enc_head byte_of_def)
  have "frame (crc32 body) body (crc32 body) ! 16 = body ! 0"
    using l(2) by (simp add: frame_def nth_append)
  then show ?thesis
    using b(1) one_byte_corruption_detected [OF b(1), of 16 77] l by simp
qed

theorem reopen_overwrites_first_record_witness:
  "\<exists>w. wal_append MUTATE 1 1 [8] [9] (open_wal (encode_log [demo_mutate 1 0 5, demo_commit 2])) = (Inr 3, w)
     \<and> fst (iter_records w) = Inr ([demo_mutate 3 8 9, demo_commit 2], None)"
proof -
  have n: "next_lsn (open_wal (encode_log [demo_mutate 1 0 5, demo_commit 2])) = 3"
    using scan_log_whole [of "[demo_mutate 1 0 5, demo_commit 2]"]
    by (simp add: open_wal_def recover_next_lsn_def del: encode_log_simps)
      (simp add: demo_mutate_def demo_commit_def)
  show ?thesis
    using reopen_overwrites_first_record [of "demo_mutate 1 0 5" "[demo_commit 2]"
        "demo_mutate 3 8 9" 1 MUTATE 1 "[8]" "[9]"] n
    by (simp add: demo_mutate_def [of 3]) (simp add: demo_mutate_def record_ok_def)
qed

theorem replay_last_image_witness:
  "\<exists>st' pg. replay_wal read_page write_page
      (Some (encode_log [demo_mutate 1 0 5, demo_mutate 2 5 6, demo_commit 3])) demo_store = (Inr (), st')
      \<and> read_page 1 st' = Inr pg \<and> page_body pg = [6]"
  using replay_last_image [OF demo_store_facts(1) demo_replayable(2), of "new_page 1 TABLE"]
    demo_store_facts(5) by (auto simp: demo_mutate_def demo_commit_def)

theorem replay_undo_keeps_first_change_witness:
  "\<exists>st' pg. replay_wal read_page write_page (Some (encode_log [demo_mutate 1 0 5, demo_mutate 2 5 6])) demo_store
      = (Inr (), st') \<and> read_page 1 st' = Inr pg \<and> page_body pg = [5]"
  using replay_undo_keeps_first_change [OF demo_store_facts(1) demo_replayable(1)]
  by (auto simp: demo_mutate_def)

theorem torn_log_blocks_open_witness:
  "\<exists>raw. encode_record (demo_commit 1) = Inr raw
     \<and> open_store [] (Some (encode_log [] @ take 20 raw)) 512 = Inl (TransactionLogCorrupt 0)"
proof -
  obtain raw where raw: "encode_record (demo_commit 1) = Inr raw"
    and l: "20 < length raw"
    by (rule encode_record_total [of "demo_commit 1"])
      (auto simp: record_body_Inr demo_commit_def record_ok_def)
  obtain st where "open_file [] 512 = Inr st" by (rule open_new_file [of 512]) simp_all
  from torn_log_blocks_open [OF this, of "[]", OF _ raw l] show ?thesis using raw by simp
qed

theorem replay_idempotent_witness:
  "\<exists>st1 st2. replay_wal read_page write_page (Some (encode_log [demo_mutate 1 0 5, demo_mutate 2 5 6])) demo_store
      = (Inr (), st1)
     \<and> replay_wal read_page write_page (Some (encode_log [demo_mutate 1 0 5, demo_mutate 2 5 6])) st1 = (Inr (), st2)
     \<and> read_page 1 st2 = read_page 1 st1"
  using replay_idempotent [OF demo_store_facts(1) demo_replayable(1)] by (auto simp: demo_store_facts)

end
