(* ===== verification/Tx.thy ===== *)
theory Tx
  imports Wal
begin

text \<open>
  tinydb/tx.py: the transaction manager, a state machine over a log and a store. The store
  is the manager's \<open>object\<close>: only \<open>checkpoint\<close> uses it, and only when it has a \<open>flush_all\<close>.
\<close>

section \<open>The manager\<close>

record 's tx_manager =
  tx_store :: 's
  tx_wal :: wal
  tx_txs :: "(nat, bool) dict"
  tx_next_id :: nat

type_synonym ('s, 'a) txx = "('s tx_manager, py_error, 'a) sx"

definition new_tx_manager :: "'s \<Rightarrow> wal \<Rightarrow> 's tx_manager" where
  "new_tx_manager st w = \<lparr>tx_store = st, tx_wal = w, tx_txs = [], tx_next_id = 1\<rparr>"

definition on_wal :: "'a walx \<Rightarrow> ('s, 'a) txx" where
  "on_wal m tm = (case m (tx_wal tm) of (r, w) \<Rightarrow> (r, tm\<lparr>tx_wal := w\<rparr>))"

definition tx_begin :: "('s, nat) txx" where
  "tx_begin =
     sbind sget (\<lambda>tm.
     if filter snd (tx_txs tm) \<noteq> [] then sraise TransactionAlreadyActive
     else
       let tx_id = tx_next_id tm in
       sbind (smodify (\<lambda>tm. tm\<lparr>tx_next_id := tx_id + 1, tx_txs := dict_set tx_id True (tx_txs tm)\<rparr>))
         (\<lambda>_. sret tx_id))"

definition check_tx :: "nat \<Rightarrow> ('s, unit) txx" where
  "check_tx tx_id =
     sbind sget (\<lambda>tm. case dict_get (tx_txs tm) tx_id of
       Some True \<Rightarrow> sret () | _ \<Rightarrow> sraise TransactionAlreadyActive)"

definition tx_commit :: "nat \<Rightarrow> ('s, unit) txx" where
  "tx_commit tx_id =
     sbind (check_tx tx_id) (\<lambda>_.
     sbind (on_wal (wal_append TX_COMMIT tx_id 0 [] [])) (\<lambda>_.
     sbind (on_wal wal_fsync) (\<lambda>_.
     smodify (\<lambda>tm. tm\<lparr>tx_txs := dict_del tx_id (tx_txs tm)\<rparr>))))"

definition tx_rollback :: "nat \<Rightarrow> ('s, unit) txx" where
  "tx_rollback tx_id =
     sbind (check_tx tx_id) (\<lambda>_.
     sbind (on_wal (wal_append TX_ROLLBACK tx_id 0 [] [])) (\<lambda>_.
     smodify (\<lambda>tm. tm\<lparr>tx_txs := dict_del tx_id (tx_txs tm)\<rparr>)))"

text \<open>\<open>flush\<close> is the store's \<open>flush_all\<close>, None when it has none.\<close>

definition tx_checkpoint :: "('s, py_error, unit) sx option \<Rightarrow> ('s, unit) txx" where
  "tx_checkpoint flush =
     sbind (case flush of
         None \<Rightarrow> sret ()
       | Some f \<Rightarrow> (\<lambda>tm. case f (tx_store tm) of (r, s) \<Rightarrow> (r, tm\<lparr>tx_store := s\<rparr>))) (\<lambda>_.
     sbind (on_wal wal_fsync) (\<lambda>_. on_wal wal_truncate))"

text \<open>\<open>executor/checkpoint.py\<close>.\<close>

definition exec_checkpoint :: "('s, py_error, unit) sx option \<Rightarrow> ('s, unit) txx" where
  "exec_checkpoint flush = tx_checkpoint flush"

text \<open>\<open>replay\<close> asks the log for a \<open>_path\<close>, which \<open>Wal\<close> does not have, and returns.\<close>

definition tx_replay :: "('s, unit) txx" where
  "tx_replay = sret ()"

section \<open>The state machine\<close>

inductive tx_step :: "'s tx_manager \<Rightarrow> 's tx_manager \<Rightarrow> bool" where
  step_begin: "tx_begin tm = (r, tm') \<Longrightarrow> tx_step tm tm'"
| step_commit: "tx_commit t tm = (r, tm') \<Longrightarrow> tx_step tm tm'"
| step_rollback: "tx_rollback t tm = (r, tm') \<Longrightarrow> tx_step tm tm'"
| step_checkpoint: "tx_checkpoint flush tm = (r, tm') \<Longrightarrow> tx_step tm tm'"

inductive tx_reachable :: "'s \<Rightarrow> wal \<Rightarrow> 's tx_manager \<Rightarrow> bool" for st w where
  start: "tx_reachable st w (new_tx_manager st w)"
| step: "tx_reachable st w tm \<Longrightarrow> tx_step tm tm' \<Longrightarrow> tx_reachable st w tm'"

text \<open>At most one transaction is open, it is active, and its id has been given out.\<close>

definition tx_inv :: "'s tx_manager \<Rightarrow> bool" where
  "tx_inv tm \<longleftrightarrow> tx_txs tm = [] \<or> (\<exists>t. tx_txs tm = [(t, True)] \<and> t < tx_next_id tm)"

lemma on_wal_frame:
  "on_wal m tm = (r, tm') \<Longrightarrow> tx_txs tm' = tx_txs tm \<and> tx_next_id tm' = tx_next_id tm"
  by (auto simp: on_wal_def split: prod.splits)

lemma check_tx_frame: "check_tx t tm = (r, tm') \<Longrightarrow> tm' = tm"
  by (auto simp: check_tx_def split: option.splits bool.splits)

lemma tx_begin_inv: "tx_begin tm = (r, tm') \<Longrightarrow> tx_inv tm \<Longrightarrow> tx_inv tm'"
  by (auto simp: tx_begin_def tx_inv_def Let_def split: if_splits)

lemma tx_inv_del: "tx_inv tm \<Longrightarrow> tx_inv (tm\<lparr>tx_txs := dict_del t (tx_txs tm)\<rparr>)"
  by (auto simp: tx_inv_def split: if_splits)

lemma tx_inv_frame:
  "tx_txs tm' = tx_txs tm \<Longrightarrow> tx_next_id tm' = tx_next_id tm \<Longrightarrow> tx_inv tm \<Longrightarrow> tx_inv tm'"
  by (simp add: tx_inv_def)

lemma keeps_tx_inv [intro]:
  shows "keeps tx_inv (check_tx t)" and "keeps tx_inv (on_wal m)"
    and "keeps tx_inv (smodify (\<lambda>tm. tm\<lparr>tx_txs := dict_del t (tx_txs tm)\<rparr>))"
proof -
  show "keeps tx_inv (check_tx t)" by (metis keepsI check_tx_frame prod.collapse)
  show "keeps tx_inv (on_wal m)" by (metis keepsI on_wal_frame tx_inv_frame prod.collapse)
qed (simp add: keeps_def tx_inv_del)

lemma keeps_tx_end: "keeps tx_inv (tx_commit t)" "keeps tx_inv (tx_rollback t)"
  unfolding tx_commit_def tx_rollback_def by blast+

lemmas tx_end_inv = keepsD [OF keeps_tx_end(1)] keepsD [OF keeps_tx_end(2)]

lemma tx_checkpoint_inv: "tx_checkpoint flush tm = (r, tm') \<Longrightarrow> tx_inv tm \<Longrightarrow> tx_inv tm'"
  unfolding tx_checkpoint_def
  by (erule sbind_cases; auto simp: tx_inv_def dest!: on_wal_frame elim!: sbind_cases
      split: option.splits prod.splits)

lemma tx_inv_reachable: "tx_reachable st w tm \<Longrightarrow> tx_inv tm"
proof (induction rule: tx_reachable.induct)
  case start
  show ?case by (simp add: tx_inv_def new_tx_manager_def)
next
  case (step tm tm')
  then show ?case
    by (auto elim!: tx_step.cases intro: tx_begin_inv tx_checkpoint_inv dest: tx_end_inv [rotated])
qed

text \<open>
  C20: in every reachable state of the transaction manager, whatever the calls and errors
  before, at most one transaction is open; BEGIN gives a new id when none is open, and
  otherwise raises \<open>TransactionAlreadyActive\<close> and changes nothing.
\<close>

theorem tx_single_active:
  assumes "tx_reachable st w tm"
  shows "length (tx_txs tm) \<le> 1
    \<and> (if tx_txs tm = []
       then \<exists>tm'. tx_begin tm = (Inr (tx_next_id tm), tm') \<and> tx_txs tm' = [(tx_next_id tm, True)]
         \<and> tx_next_id tm < tx_next_id tm'
       else tx_begin tm = (Inl TransactionAlreadyActive, tm))"
  using tx_inv_reachable [OF assms] by (auto simp: tx_inv_def tx_begin_def Let_def)

text \<open>
  C21: When the position of the log is at its end, as in a session that began with an empty log,
  COMMIT of the open transaction returns, the log then holds its commit record after everything
  logged before, so that a replay of the log counts the transaction as committed, and the
  manager is ready for the next BEGIN. The numbers of the transaction and of the record fit
  their 32 bits. (A log that was opened with records in it has its position at the start:
  \<open>reopen_overwrites_first_record\<close>.)
\<close>

theorem commit_is_logged:
  assumes w: "wal_at_end (tx_wal tm) rs" and t: "tx_txs tm = [(t, True)]"
    and b: "t < 256 ^ 4" "length rs + 1 < 256 ^ 4"
  shows "\<exists>tm' r. tx_commit t tm = (Inr (), tm') \<and> tx_txs tm' = []
    \<and> wal_at_end (tx_wal tm') (rs @ [r]) \<and> fst (iter_records (tx_wal tm')) = Inr (rs @ [r], None)
    \<and> t \<in> set (committed_tx (rs @ [r]))"
proof -
  let ?r = "next_record rs (TX_COMMIT, t, 0, [], [])"
  have "record_ok ?r" using b by (simp add: next_record_def record_ok_def)
  from wal_append_at_end [OF w this] obtain w' where
    w': "wal_append TX_COMMIT t 0 [] [] (tx_wal tm) = (Inr (length rs + 1), w')" "wal_at_end w' (rs @ [?r])"
    by blast
  then have "wal_open w'" by (simp add: wal_at_end_def)
  then have "tx_commit t tm = (Inr (), tm\<lparr>tx_wal := w', tx_txs := []\<rparr>)"
    using t w'(1) by (simp add: tx_commit_def check_tx_def on_wal_def wal_fsync_def)
  moreover have "fst (iter_records w') = Inr (rs @ [?r], None)"
    using w'(2) scan_log_whole [of "rs @ [?r]"] by (simp add: wal_at_end_def iter_records_def)
  moreover have "t \<in> set (committed_tx (rs @ [?r]))" by (simp add: committed_tx_def next_record_def)
  ultimately show ?thesis using w'(2)
    by (intro exI [of _ "tm\<lparr>tx_wal := w', tx_txs := []\<rparr>"] exI [of _ ?r]) simp
qed

text \<open>
  A checkpoint of a store without \<open>flush_all\<close>, as the file store is, empties the log and
  starts its LSNs again at 1, keeping the store and the open transaction as they are.
\<close>

theorem checkpoint_truncates:
  assumes "wal_open (tx_wal tm)"
  shows "\<exists>tm'. exec_checkpoint None tm = (Inr (), tm') \<and> wal_at_end (tx_wal tm') []
    \<and> tx_store tm' = tx_store tm \<and> tx_txs tm' = tx_txs tm"
  using assms by (simp add: exec_checkpoint_def tx_checkpoint_def on_wal_def wal_fsync_def
      wal_truncate_def wal_at_end_def)

section \<open>A concrete session\<close>

definition demo_tx :: "unit tx_manager" where
  "demo_tx = snd (tx_begin (new_tx_manager () (open_wal [])))"

lemma demo_tx_eq: "demo_tx = \<lparr>tx_store = (), tx_wal = open_wal [], tx_txs = [(1, True)], tx_next_id = 2\<rparr>"
  by (simp add: demo_tx_def tx_begin_def new_tx_manager_def Let_def)

theorem tx_single_active_witness:
  "tx_reachable () (open_wal []) demo_tx \<and> tx_begin demo_tx = (Inl TransactionAlreadyActive, demo_tx)"
proof -
  have r: "tx_reachable () (open_wal []) demo_tx"
    unfolding demo_tx_def
    by (rule tx_reachable.step [OF start step_begin]) (rule surjective_pairing)
  show ?thesis using tx_single_active [OF r] r by (simp add: demo_tx_eq)
qed

theorem commit_is_logged_witness:
  "\<exists>tm' r. tx_commit 1 demo_tx = (Inr (), tm') \<and> fst (iter_records (tx_wal tm')) = Inr ([r], None)"
  using commit_is_logged [of demo_tx "[]" 1] wal_at_end_new by (auto simp: demo_tx_eq)

theorem checkpoint_truncates_witness:
  "\<exists>tm'. exec_checkpoint None demo_tx = (Inr (), tm') \<and> tx_txs tm' = [(1, True)]"
  using checkpoint_truncates [of demo_tx] by (auto simp: demo_tx_eq open_wal_def)

end
