(* ===== verification/Recovery.thy ===== *)
theory Recovery
  imports Tx
begin

text \<open>
  Crash recovery, across tinydb/tx.py, wal.py and storage.py: a client of the transaction
  manager logs the body of a page before and after every change and ends its transactions by a
  commit, a rollback or a crash. Whatever part of the changes had reached the file at the
  crash, opening it with the log gives the pages that the committed transactions leave when
  they run one after the other.
\<close>

section \<open>A history of transactions\<close>

datatype outcome = Commits | RollsBack | Crashes

type_synonym bodies = "nat \<Rightarrow> byte list"

text \<open>The new bodies of pages, in order, and how the transaction ends.\<close>

type_synonym txn = "(nat \<times> byte list) list \<times> outcome"

text \<open>What \<open>wal.append\<close> is called with: kind, transaction, page, body before and after.\<close>

type_synonym log_call = "record_kind \<times> nat \<times> nat \<times> byte list \<times> byte list"

fun change_calls :: "nat \<Rightarrow> bodies \<Rightarrow> (nat \<times> byte list) list \<Rightarrow> log_call list" where
  "change_calls t s [] = []"
| "change_calls t s ((p, a) # ws) = (MUTATE, t, p, s p, a) # change_calls t (s(p := a)) ws"

definition end_txn :: "nat \<Rightarrow> outcome \<Rightarrow> ('s, unit) txx" where
  "end_txn t end = (case end of Commits \<Rightarrow> tx_commit t | RollsBack \<Rightarrow> tx_rollback t | Crashes \<Rightarrow> sret ())"

definition run_txn :: "bodies \<Rightarrow> txn \<Rightarrow> ('s, unit) txx" where
  "run_txn s x =
     sbind tx_begin (\<lambda>t.
     sbind (on_wal (wal_append_all (change_calls t s (fst x)))) (\<lambda>_. end_txn t (snd x)))"

fun body_after :: "bodies \<Rightarrow> txn \<Rightarrow> bodies" where
  "body_after s (ws, end) = (if end = Commits then (\<lambda>q. last_body ws q (s q)) else s)"

fun run_history :: "bodies \<Rightarrow> txn list \<Rightarrow> ('s, unit) txx" where
  "run_history s [] = sret ()"
| "run_history s (x # h) = sbind (run_txn s x) (\<lambda>_. run_history (body_after s x) h)"

text \<open>The bodies after the committed transactions, one after the other.\<close>

definition serial :: "bodies \<Rightarrow> txn list \<Rightarrow> bodies" where
  "serial s h = fold (\<lambda>x s. body_after s x) h s"

section \<open>The log of a history\<close>

fun end_calls :: "nat \<Rightarrow> outcome \<Rightarrow> log_call list" where
  "end_calls t Commits = [(TX_COMMIT, t, 0, [], [])]"
| "end_calls t RollsBack = [(TX_ROLLBACK, t, 0, [], [])]"
| "end_calls t Crashes = []"

definition txn_calls :: "nat \<Rightarrow> bodies \<Rightarrow> txn \<Rightarrow> log_call list" where
  "txn_calls t s x = change_calls t s (fst x) @ end_calls t (snd x)"

fun history_calls :: "nat \<Rightarrow> bodies \<Rightarrow> txn list \<Rightarrow> log_call list" where
  "history_calls t s [] = []"
| "history_calls t s (x # h) = txn_calls t s x @ history_calls (Suc t) (body_after s x) h"

definition call_of :: "wal_record \<Rightarrow> log_call" where
  "call_of r = (wr_kind r, wr_tx r, wr_page r, wr_before r, wr_after r)"

definition call_ok :: "log_call \<Rightarrow> bool" where
  "call_ok = (\<lambda>(k, t, p, b, a). t < 256 ^ 4 \<and> p < 256 ^ 2 \<and> length b < 256 ^ 2 \<and> length a < 256 ^ 2)"

lemma call_of_next_record [simp]: "call_of (next_record rs c) = c"
  by (cases c) (simp add: call_of_def next_record_def)

lemma records_from_calls: "map call_of (records_from rs cs) = map call_of rs @ cs"
  by (induction cs arbitrary: rs) simp_all

lemma records_from_append: "records_from rs (cs @ ds) = records_from (records_from rs cs) ds"
  by (induction cs arbitrary: rs) simp_all

lemma length_records_from [simp]: "length (records_from rs cs) = length rs + length cs"
  by (induction cs arbitrary: rs) simp_all

lemma records_ok_calls: "list_all call_ok cs \<Longrightarrow> length rs + length cs < 256 ^ 4 \<Longrightarrow> records_ok rs cs"
  by (induction cs arbitrary: rs) (auto simp: record_ok_def next_record_def call_ok_def)

lemma wal_append_all_calls:
  assumes "wal_at_end w rs" and "list_all call_ok cs" and "length rs + length cs < 256 ^ 4"
  obtains w' where "wal_append_all cs w = (Inr (), w')" and "wal_at_end w' (records_from rs cs)"
  using wal_append_all_at_end [OF assms(1) records_ok_calls [OF assms(2,3)]] that by blast

lemma length_change_calls [simp]: "length (change_calls t s ws) = length ws"
  by (induction ws arbitrary: s) auto

lemma length_end_calls: "length (end_calls t end) \<le> 1"
  by (cases "end") simp_all

text \<open>Running a transaction appends its records.\<close>

lemma append_end:
  assumes "wal_at_end (tx_wal tm) rs" and "t < 256 ^ 4" and "length rs + 1 < 256 ^ 4"
  obtains w where "on_wal (wal_append k t 0 [] []) tm = (Inr (length rs + 1), tm\<lparr>tx_wal := w\<rparr>)"
    and "wal_at_end w (records_from rs [(k, t, 0, [], [])])" and "wal_open w"
proof -
  have "record_ok (next_record rs (k, t, 0, [], []))" using assms(2,3) by (simp add: record_ok_def next_record_def)
  from wal_append_at_end [OF assms(1) this] obtain w where w: "wal_append k t 0 [] [] (tx_wal tm) = (Inr (length rs + 1), w)"
    "wal_at_end w (rs @ [next_record rs (k, t, 0, [], [])])" by blast
  show ?thesis by (rule that [of w]) (use w in \<open>simp_all add: on_wal_def wal_at_end_def\<close>)
qed

lemma end_txn_log:
  assumes w: "wal_at_end (tx_wal tm) rs" and t: "tx_txs tm = [(t, True)]" and n: "t < 256 ^ 4" "length rs + 1 < 256 ^ 4"
  obtains tm' where "end_txn t e tm = (Inr (), tm')" and "wal_at_end (tx_wal tm') (records_from rs (end_calls t e))"
    and "e \<noteq> Crashes \<Longrightarrow> tx_txs tm' = []" and "tx_next_id tm' = tx_next_id tm"
proof (cases e)
  case Commits
  obtain w' where w': "on_wal (wal_append TX_COMMIT t 0 [] []) tm = (Inr (length rs + 1), tm\<lparr>tx_wal := w'\<rparr>)"
    "wal_at_end w' (records_from rs [(TX_COMMIT, t, 0, [], [])])" "wal_open w'"
    by (rule append_end [OF w n, of TX_COMMIT]) (rule that; assumption)
  then show ?thesis using t Commits
    by (intro that [of "tm\<lparr>tx_wal := w', tx_txs := []\<rparr>"])
      (simp_all add: end_txn_def tx_commit_def check_tx_def wal_fsync_def on_wal_def)
next
  case RollsBack
  obtain w' where w': "on_wal (wal_append TX_ROLLBACK t 0 [] []) tm = (Inr (length rs + 1), tm\<lparr>tx_wal := w'\<rparr>)"
    "wal_at_end w' (records_from rs [(TX_ROLLBACK, t, 0, [], [])])" "wal_open w'"
    by (rule append_end [OF w n, of TX_ROLLBACK]) (rule that; assumption)
  then show ?thesis using t RollsBack
    by (intro that [of "tm\<lparr>tx_wal := w', tx_txs := []\<rparr>"]) (simp_all add: end_txn_def tx_rollback_def check_tx_def)
next
  case Crashes
  then show ?thesis using w by (intro that [of tm]) (simp_all add: end_txn_def)
qed

lemma run_txn_log:
  assumes w: "wal_at_end (tx_wal tm) rs" and t: "tx_txs tm = []"
    and ok: "list_all call_ok (change_calls (tx_next_id tm) s (fst x))" "tx_next_id tm < 256 ^ 4"
    and n: "length rs + length (fst x) + 1 < 256 ^ 4"
  obtains tm' where "run_txn s x tm = (Inr (), tm')" and "wal_at_end (tx_wal tm') (records_from rs (txn_calls (tx_next_id tm) s x))"
    and "snd x \<noteq> Crashes \<Longrightarrow> tx_txs tm' = []" and "tx_next_id tm' = Suc (tx_next_id tm)"
proof -
  let ?t = "tx_next_id tm" and ?cs = "change_calls (tx_next_id tm) s (fst x)"
  let ?tm = "tm\<lparr>tx_next_id := Suc ?t, tx_txs := [(?t, True)]\<rparr>"
  have b: "tx_begin tm = (Inr ?t, ?tm)" using t by (simp add: tx_begin_def Let_def)
  have "length rs + length ?cs < 256 ^ 4" using n by simp
  then obtain w1 where w1: "wal_append_all ?cs (tx_wal tm) = (Inr (), w1)" "wal_at_end w1 (records_from rs ?cs)"
    by (rule wal_append_all_calls [OF w ok(1)])
  let ?tm1 = "?tm\<lparr>tx_wal := w1\<rparr>"
  have at: "wal_at_end (tx_wal ?tm1) (records_from rs ?cs)" "tx_txs ?tm1 = [(?t, True)]" "length (records_from rs ?cs) + 1 < 256 ^ 4"
    using w1(2) n by simp_all
  obtain tm' where "end_txn ?t (snd x) ?tm1 = (Inr (), tm')" "wal_at_end (tx_wal tm') (records_from (records_from rs ?cs) (end_calls ?t (snd x)))"
    "snd x \<noteq> Crashes \<Longrightarrow> tx_txs tm' = []" "tx_next_id tm' = tx_next_id ?tm1"
    by (rule end_txn_log [OF at(1,2) ok(2) at(3), of "snd x"]) (rule that; assumption)
  then show ?thesis using b w1(1)
    by (intro that [of tm']) (simp_all add: run_txn_def on_wal_def txn_calls_def records_from_append)
qed

definition history_size :: "txn list \<Rightarrow> nat" where
  "history_size h = sum_list (map (\<lambda>x. length (fst x) + 1) h)"

definition small_bodies :: "bodies \<Rightarrow> bool" where
  "small_bodies s \<longleftrightarrow> (\<forall>q. length (s q) < 256 ^ 2)"

definition small_changes :: "(nat \<times> byte list) list \<Rightarrow> bool" where
  "small_changes ws \<longleftrightarrow> (\<forall>(p, a) \<in> set ws. p < 256 ^ 2 \<and> length a < 256 ^ 2)"

lemma history_size_simps [simp]:
  "history_size [] = 0" "history_size (x # h) = length (fst x) + 1 + history_size h"
  by (simp_all add: history_size_def)

lemma change_calls_ok:
  "t < 256 ^ 4 \<Longrightarrow> small_bodies s \<Longrightarrow> small_changes ws \<Longrightarrow> list_all call_ok (change_calls t s ws)"
  by (induction ws arbitrary: s) (auto simp: call_ok_def small_bodies_def small_changes_def)

lemma small_last_body: "small_changes ws \<Longrightarrow> length b < 256 ^ 2 \<Longrightarrow> length (last_body ws q b) < 256 ^ 2"
  by (induction ws arbitrary: b) (auto simp: small_changes_def)

lemma body_after_small: "small_bodies s \<Longrightarrow> small_changes (fst x) \<Longrightarrow> small_bodies (body_after s x)"
  by (cases x) (auto simp: small_bodies_def small_last_body [simplified])

lemma run_history_log:
  assumes "wal_at_end (tx_wal tm) rs" and "tx_txs tm = []" and "small_bodies s" and "\<forall>x \<in> set h. small_changes (fst x)"
    and "\<forall>x \<in> set (butlast h). snd x \<noteq> Crashes"
    and "length rs + history_size h < 256 ^ 4" and "tx_next_id tm + history_size h \<le> 256 ^ 4"
  obtains tm' where "run_history s h tm = (Inr (), tm')"
    and "wal_at_end (tx_wal tm') (records_from rs (history_calls (tx_next_id tm) s h))"
  using assms
proof (induction h arbitrary: s tm rs thesis)
  case Nil
  then show ?case by simp
next
  case (Cons x h)
  let ?t = "tx_next_id tm"
  have t: "?t < 256 ^ 4" and x: "small_changes (fst x)" using Cons.prems(5,8) by simp_all
  have n: "length rs + length (fst x) + 1 < 256 ^ 4" using Cons.prems(7) by simp
  obtain tm1 where tm1: "run_txn s x tm = (Inr (), tm1)" "wal_at_end (tx_wal tm1) (records_from rs (txn_calls ?t s x))"
    "snd x \<noteq> Crashes \<Longrightarrow> tx_txs tm1 = []" "tx_next_id tm1 = Suc ?t"
    by (rule run_txn_log [OF Cons.prems(2,3) change_calls_ok [OF t Cons.prems(4) x] t n]) (rule that; assumption)
  show ?case
  proof (cases h)
    case Nil
    then show ?thesis using tm1(1,2) by (intro Cons.prems(1) [of tm1]) simp_all
  next
    case h: (Cons y h')
    have l: "length (txn_calls ?t s x) \<le> length (fst x) + 1" using length_end_calls [of ?t "snd x"] by (simp add: txn_calls_def)
    have c: "snd x \<noteq> Crashes" "\<forall>x \<in> set (butlast h). snd x \<noteq> Crashes" using Cons.prems(6) h by simp_all
    have sm: "\<forall>x \<in> set h. small_changes (fst x)" using Cons.prems(5) by simp
    have b: "length (records_from rs (txn_calls ?t s x)) + history_size h < 256 ^ 4" "tx_next_id tm1 + history_size h \<le> 256 ^ 4"
      using Cons.prems(7,8) l tm1(4) by simp_all
    obtain tm' where "run_history (body_after s x) h tm1 = (Inr (), tm')"
      "wal_at_end (tx_wal tm') (records_from (records_from rs (txn_calls ?t s x)) (history_calls (tx_next_id tm1) (body_after s x) h))"
      by (rule Cons.IH [OF _ tm1(2) tm1(3) [OF c(1)] body_after_small [OF Cons.prems(4) x] sm c(2) b]) (rule that; assumption)
    then show ?thesis using tm1(1,4) by (intro Cons.prems(1) [of tm']) (simp_all add: records_from_append)
  qed
qed

section \<open>What a replay makes of it\<close>

definition commits :: "log_call list \<Rightarrow> nat set" where
  "commits cs = {t. \<exists>p b a. (TX_COMMIT, t, p, b, a) \<in> set cs}"

definition call_updates :: "nat set \<Rightarrow> log_call list \<Rightarrow> (nat \<times> byte list) list" where
  "call_updates C cs = map (\<lambda>(k, t, p, b, a). (p, if t \<in> C then a else b)) (filter (\<lambda>c. fst c = MUTATE) cs)"

lemma call_updates_append: "call_updates C (cs @ ds) = call_updates C cs @ call_updates C ds"
  by (simp add: call_updates_def)

lemma commits_append: "commits (cs @ ds) = commits cs \<union> commits ds"
  by (auto simp: commits_def)

lemma replay_updates_calls: "replay_updates rs = call_updates (commits (map call_of rs)) (map call_of rs)"
proof -
  have c: "wr_tx r \<in> set (committed_tx rs) \<longleftrightarrow> wr_tx r \<in> commits (map call_of rs)" for r
    by (auto simp: committed_tx_def commits_def call_of_def image_iff) metis
  show ?thesis
    by (simp add: replay_updates_def call_updates_def filter_map comp_def replay_image_def c) (simp add: call_of_def)
qed

lemma change_updates_committed: "t \<in> C \<Longrightarrow> call_updates C (change_calls t s ws) = ws"
  by (induction ws arbitrary: s) (auto simp: call_updates_def)

lemma change_updates_undone:
  "t \<notin> C \<Longrightarrow> distinct (map fst ws) \<Longrightarrow> call_updates C (change_calls t s ws) = map (\<lambda>(p, a). (p, s p)) ws"
proof (induction ws arbitrary: s)
  case (Cons w ws)
  obtain p a where w: "w = (p, a)" by (cases w)
  have "map (\<lambda>(q, b). (q, (s(p := a)) q)) ws = map (\<lambda>(q, b). (q, s q)) ws"
    using Cons.prems(2) by (intro map_cong) (force simp: w)+
  then show ?case using Cons by (simp add: w call_updates_def)
qed (simp add: call_updates_def)

lemma last_body_undone: "last_body (map (\<lambda>(p, a). (p, s p)) ws) q b = (if q \<in> fst ` set ws then s q else b)"
  by (induction ws arbitrary: b) force+

lemma end_updates: "call_updates C (cs @ end_calls t e) = call_updates C cs"
  by (cases e) (simp_all add: call_updates_def)

fun agrees :: "nat set \<Rightarrow> nat \<Rightarrow> txn list \<Rightarrow> bool" where
  "agrees C t [] = True"
| "agrees C t (x # h) = ((t \<in> C \<longleftrightarrow> snd x = Commits) \<and> agrees C (Suc t) h)"

lemma txn_image:
  assumes "t \<in> C \<longleftrightarrow> snd x = Commits" and "distinct (map fst (fst x))"
  shows "last_body (call_updates C (txn_calls t s x)) q b = (if q \<in> fst ` set (fst x) then body_after s x q else b)"
proof (cases x)
  case (Pair ws e)
  show ?thesis
  proof (cases "e = Commits")
    case True
    then show ?thesis using assms Pair last_body_present [of q ws b "s q"] last_body_absent [of q ws b]
      by (auto simp del: end_calls.simps simp: txn_calls_def end_updates change_updates_committed)
  next
    case False
    then show ?thesis using assms Pair
      by (simp add: txn_calls_def end_updates change_updates_undone last_body_undone)
  qed
qed

definition touched :: "txn list \<Rightarrow> nat set" where
  "touched h = (\<Union>x \<in> set h. fst ` set (fst x))"

lemma body_after_absent: "q \<notin> fst ` set (fst x) \<Longrightarrow> body_after s x q = s q"
  by (cases x) (simp add: last_body_absent)

lemma serial_simps [simp]: "serial s [] = s" "serial s (x # h) = serial (body_after s x) h"
  by (simp_all add: serial_def)

lemma serial_absent: "q \<notin> touched h \<Longrightarrow> serial s h q = s q"
  by (induction h arbitrary: s) (simp_all add: touched_def body_after_absent)

lemma history_image:
  assumes "agrees C t h" and "\<forall>x \<in> set h. distinct (map fst (fst x))"
  shows "last_body (call_updates C (history_calls t s h)) q b = (if q \<in> touched h then serial s h q else b)"
  using assms
proof (induction h arbitrary: t s b)
  case (Cons x h)
  have x: "t \<in> C \<longleftrightarrow> snd x = Commits" "distinct (map fst (fst x))" using Cons.prems by simp_all
  have h: "last_body (call_updates C (history_calls (Suc t) (body_after s x) h)) q b'
      = (if q \<in> touched h then serial (body_after s x) h q else b')" for b'
    using Cons by simp
  have "q \<in> touched (x # h) \<longleftrightarrow> q \<in> fst ` set (fst x) \<or> q \<in> touched h" by (simp add: touched_def)
  then show ?case
    using serial_absent [of q h "body_after s x"] by (simp add: call_updates_append last_body_append txn_image [OF x] h)
qed (simp add: touched_def call_updates_def)

lemma commits_txn: "commits (txn_calls t s x) = (if snd x = Commits then {t} else {})"
proof -
  have "commits (change_calls t s ws) = {}" for ws
    by (induction ws arbitrary: s) (auto simp: commits_def)
  then show ?thesis unfolding txn_calls_def commits_append by (cases "snd x") (auto simp: commits_def)
qed

lemma commits_history: "u \<in> commits (history_calls t s h) \<Longrightarrow> t \<le> u"
proof (induction h arbitrary: t s)
  case (Cons x h)
  then show ?case using Cons.IH [of "Suc t" "body_after s x"] by (force simp: commits_append commits_txn split: if_splits)
qed (simp add: commits_def)

lemma history_agrees: "\<forall>u \<in> A. u < t \<Longrightarrow> agrees (A \<union> commits (history_calls t s h)) t h"
proof (induction h arbitrary: t s A)
  case (Cons x h)
  let ?A = "A \<union> commits (txn_calls t s x)"
  have "\<forall>u \<in> ?A. u < Suc t" using Cons.prems by (auto simp: commits_txn split: if_splits)
  then have "agrees (?A \<union> commits (history_calls (Suc t) (body_after s x) h)) (Suc t) h" by (rule Cons.IH)
  moreover have "t \<notin> A" "t \<notin> commits (history_calls (Suc t) (body_after s x) h)"
    using Cons.prems commits_history by fastforce+
  ultimately show ?case by (auto simp: commits_append commits_txn Un_assoc)
qed simp

section \<open>The crash and the recovery\<close>

text \<open>
  The pages of the file before the history, and a file at the crash: the pages that no
  transaction changed are as before, the others have any body.
\<close>

definition page_bodies_of :: "file_store \<Rightarrow> bodies" where
  "page_bodies_of st q = (case read_page q st of Inr pg \<Rightarrow> page_body pg | Inl _ \<Rightarrow> [])"

definition crashed :: "nat set \<Rightarrow> file_store \<Rightarrow> file_store \<Rightarrow> bool" where
  "crashed changed st st' \<longleftrightarrow>
     wf_store st' \<and> page_count st' = page_count st \<and> capacity st' = capacity st
     \<and> (\<forall>q < page_count st. \<exists>pg b. read_page q st = Inr pg \<and> read_page q st' = Inr (pg\<lparr>page_body := b\<rparr>)
          \<and> (q \<notin> changed \<longrightarrow> b = page_body pg))"

lemma crashed_page:
  assumes "crashed changed st st'" and "q < page_count st" and "read_page q st = Inr pg"
  obtains b where "read_page q st' = Inr (pg\<lparr>page_body := b\<rparr>)" and "q \<notin> changed \<longrightarrow> b = page_body pg"
proof -
  obtain pg' b where "read_page q st = Inr pg'" "read_page q st' = Inr (pg'\<lparr>page_body := b\<rparr>)" "q \<notin> changed \<longrightarrow> b = page_body pg'"
    using assms(1,2) unfolding crashed_def by blast
  then show ?thesis using assms(3) that by simp
qed

definition fits :: "file_store \<Rightarrow> (nat \<times> byte list) list \<Rightarrow> bool" where
  "fits st ws \<longleftrightarrow> (\<forall>(p, a) \<in> set ws. p < 256 ^ 2 \<and> p < page_count st \<and> length a \<le> capacity st)"

lemma page_bodies_bound:
  assumes "wf_store st"
  shows "length (page_bodies_of st q) \<le> capacity st"
proof (cases "read_page q st")
  case (Inr pg)
  then have "q < page_count st" using read_page_beyond [OF assms, of q] by (cases "q < page_count st") auto
  then have "storable (capacity st) pg" using fs.rd_ok [OF assms, of q] Inr by (simp add: has_page_def)
  then show ?thesis using Inr by (simp add: page_bodies_of_def storable_def)
qed (simp add: page_bodies_of_def)

text \<open>The bodies in the log fit the pages they belong to.\<close>

definition bounded :: "file_store \<Rightarrow> bodies \<Rightarrow> bool" where
  "bounded st s \<longleftrightarrow> (\<forall>q. length (s q) \<le> capacity st)"

lemma bounded_last_body: "fits st ws \<Longrightarrow> length b \<le> capacity st \<Longrightarrow> length (last_body ws q b) \<le> capacity st"
  by (induction ws arbitrary: b) (auto simp: fits_def)

lemma bounded_after: "bounded st s \<Longrightarrow> fits st (fst x) \<Longrightarrow> bounded st (body_after s x)"
  by (cases x) (auto simp: bounded_def bounded_last_body)

lemma change_calls_fit:
  "bounded st s \<Longrightarrow> fits st ws \<Longrightarrow> (k, u, p, b, a) \<in> set (change_calls t s ws)
    \<Longrightarrow> p < page_count st \<and> length b \<le> capacity st \<and> length a \<le> capacity st"
proof (induction ws arbitrary: s)
  case (Cons w ws)
  obtain q a' where w: "w = (q, a')" by (cases w)
  define s' where "s' = s(q := a')"
  have "bounded st s'" "fits st ws" using Cons.prems(1,2) by (auto simp: s'_def bounded_def fits_def w)
  moreover have "(k, u, p, b, a) = (MUTATE, t, q, s q, a') \<or> (k, u, p, b, a) \<in> set (change_calls t s' ws)"
    using Cons.prems(3) by (simp add: w s'_def)
  ultimately show ?case using Cons.IH [of s'] Cons.prems(1,2) by (auto simp: bounded_def fits_def w)
qed simp

lemma end_calls_kind: "(MUTATE, u, p, b, a) \<notin> set (end_calls t e)"
  by (cases e) simp_all

lemma history_calls_fit:
  "bounded st s \<Longrightarrow> \<forall>x \<in> set h. fits st (fst x) \<Longrightarrow> (MUTATE, u, p, b, a) \<in> set (history_calls t s h)
    \<Longrightarrow> p < page_count st \<and> length b \<le> capacity st \<and> length a \<le> capacity st"
proof (induction h arbitrary: t s)
  case (Cons x h)
  have x: "fits st (fst x)" and h: "\<forall>x \<in> set h. fits st (fst x)" using Cons.prems(2) by simp_all
  consider "(MUTATE, u, p, b, a) \<in> set (change_calls t s (fst x))"
    | "(MUTATE, u, p, b, a) \<in> set (history_calls (Suc t) (body_after s x) h)"
    using Cons.prems(3) end_calls_kind by (auto simp: txn_calls_def)
  then show ?case
    using change_calls_fit [OF Cons.prems(1) x] Cons.IH [OF bounded_after [OF Cons.prems(1) x] h] by cases blast+
qed simp

lemma history_replayable:
  assumes "list_all record_ok rs" and "map call_of rs = history_calls t s h" and "bounded st s" and "\<forall>x \<in> set h. fits st (fst x)"
  shows "replayable st rs"
proof -
  have "wr_page r < page_count st \<and> length (wr_before r) \<le> capacity st \<and> length (wr_after r) \<le> capacity st"
    if "r \<in> set rs" "wr_kind r = MUTATE" for r
  proof -
    have "call_of r \<in> set (history_calls t s h)" using that(1) assms(2) by (metis image_eqI list.set_map)
    then show ?thesis using history_calls_fit [OF assms(3,4)] that(2) by (auto simp: call_of_def)
  qed
  then show ?thesis using assms(1) by (simp add: replayable_def list_all_iff)
qed



end
