(* ===== verification/Ast.thy ===== *)
theory Ast
  imports Types
begin

text \<open>
  tinydb/parser/ast.py: expressions and statements. Fields the code declares as \<open>object\<close>
  are expressions; where a field may be None it is an option.
\<close>

datatype join_type = INNER | LEFT

datatype expr =
    Column pystr
  | Star
  | SqlLiteral pyval pystr
  | BinaryOp pystr expr expr
  | LogicalOp pystr expr expr
  | UnaryOp pystr expr
  | InPredicate expr "pyval list" bool
  | QualifiedColumn "pystr option" pystr

record column_def =
  cd_name :: pystr
  cd_type :: pystr
  cd_constraints :: "pystr list"

record join_clause =
  jc_kind :: join_type
  jc_table :: pystr
  jc_alias :: "pystr option"
  jc_on :: "expr option"

text \<open>An ORDER BY item: the expression and whether the direction is DESC.\<close>

type_synonym order_item = "expr \<times> bool"

record select =
  sel_projections :: "expr list"
  sel_table :: pystr
  sel_joins :: "join_clause list"
  sel_alias :: "pystr option"
  sel_where :: "expr option"
  sel_order_by :: "order_item list"
  sel_limit :: "int option"
  sel_offset :: "int option"
  sel_group_by :: "expr list"

datatype stmt =
    CreateTable pystr "column_def list" bool
  | DropTable "pystr list" bool
  | Insert pystr "pystr list option" "pyval list list"
  | SelectStmt select
  | UpdateStmt pystr "(pystr \<times> pyval) list" "expr option"
  | DeleteStmt pystr "expr option"
  | Begin
  | Commit
  | Rollback
  | Checkpoint
  | Explain stmt

end
