(* ===== verification/Runtime.thy ===== *)
theory Runtime
  imports Ast
begin

text \<open>
  What the engine uses of Python's text and number functions. On ASCII they are defined
  here; what lies outside, and what differs between the interpreter versions the project
  supports, is a parameter: the Unicode tables beyond ASCII, the digit limit of \<open>int\<close>, the
  accuracy of \<open>sum\<close> on floats, the order a sort leaves keys with a NaN in, and the printed
  form of floats and syntax trees.
\<close>

record runtime =
  rt_digit :: "nat \<Rightarrow> bool"
  rt_alpha :: "nat \<Rightarrow> bool"
  rt_alnum :: "nat \<Rightarrow> bool"
  rt_upper :: "nat \<Rightarrow> pystr"
  rt_lower :: "pystr \<Rightarrow> pystr"
  rt_int :: "pystr \<Rightarrow> py_error + int"
  rt_float :: "pystr \<Rightarrow> py_error + float64"
  rt_max_digits :: "nat option"
  rt_sum :: "pyval list \<Rightarrow> pyval"
  rt_str_float :: "float64 \<Rightarrow> pystr"
  rt_str_expr :: "expr \<Rightarrow> pystr"
  rt_sort_nan :: "bool \<Rightarrow> pyval list list \<Rightarrow> nat list"

section \<open>Characters\<close>

definition ascii_digit :: "nat \<Rightarrow> bool" where
  "ascii_digit c \<longleftrightarrow> 48 \<le> c \<and> c \<le> 57"

definition ascii_upper :: "nat \<Rightarrow> bool" where
  "ascii_upper c \<longleftrightarrow> 65 \<le> c \<and> c \<le> 90"

definition ascii_lower :: "nat \<Rightarrow> bool" where
  "ascii_lower c \<longleftrightarrow> 97 \<le> c \<and> c \<le> 122"

definition ch_isdigit :: "runtime \<Rightarrow> nat \<Rightarrow> bool" where
  "ch_isdigit u c = (if c < 128 then ascii_digit c else rt_digit u c)"

definition ch_isalpha :: "runtime \<Rightarrow> nat \<Rightarrow> bool" where
  "ch_isalpha u c = (if c < 128 then ascii_upper c \<or> ascii_lower c else rt_alpha u c)"

definition ch_isalnum :: "runtime \<Rightarrow> nat \<Rightarrow> bool" where
  "ch_isalnum u c =
     (if c < 128 then ascii_upper c \<or> ascii_lower c \<or> ascii_digit c else rt_alnum u c)"

definition ch_upper :: "runtime \<Rightarrow> nat \<Rightarrow> pystr" where
  "ch_upper u c = (if c < 128 then [if ascii_lower c then c - 32 else c] else rt_upper u c)"

text \<open>\<open>s.upper()\<close> maps the characters one by one.\<close>

definition py_upper :: "runtime \<Rightarrow> pystr \<Rightarrow> pystr" where
  "py_upper u s = concat (map (ch_upper u) s)"

text \<open>\<open>s.lower()\<close> on ASCII; elsewhere the mapping depends on the context.\<close>

definition py_lower :: "runtime \<Rightarrow> pystr \<Rightarrow> pystr" where
  "py_lower u s =
     (if \<forall>c \<in> set s. c < 128 then map (\<lambda>c. if ascii_upper c then c + 32 else c) s else rt_lower u s)"

text \<open>\<open>s.startswith(p)\<close> and \<open>x in s\<close> for one character.\<close>

definition starts_with :: "pystr \<Rightarrow> pystr \<Rightarrow> bool" where
  "starts_with s p \<longleftrightarrow> take (length p) s = p"

section \<open>Numbers\<close>

text \<open>\<open>int(text)\<close> for a text of digits.\<close>

definition digits_value :: "pystr \<Rightarrow> nat" where
  "digits_value ds = fold (\<lambda>d n. 10 * n + (d - 48)) ds 0"

definition py_int :: "runtime \<Rightarrow> pystr \<Rightarrow> py_error + int" where
  "py_int u text =
     (if text \<noteq> [] \<and> (\<forall>c \<in> set text. ascii_digit c) then
        (case rt_max_digits u of
           Some n \<Rightarrow> if n < length text then Inl ValueError else Inr (int (digits_value text))
         | None \<Rightarrow> Inr (int (digits_value text)))
      else rt_int u text)"

text \<open>
  The float nearest to \<open>n / d\<close>, ties to even: the quotient is scaled to 53 bits, or to the
  smallest exponent; the carry of the rounding moves into the exponent by itself.
\<close>

fun bit_len :: "nat \<Rightarrow> nat" where
  "bit_len n = (if n = 0 then 0 else Suc (bit_len (n div 2)))"

declare bit_len.simps [simp del]

definition scale2 :: "nat \<Rightarrow> int \<Rightarrow> nat" where
  "scale2 n e = (if e < 0 then n else n * 2 ^ nat e)"

definition floor_log_ratio :: "nat \<Rightarrow> nat \<Rightarrow> int" where
  "floor_log_ratio n d =
     (let k = int (bit_len n) - int (bit_len d) in
      if scale2 d k \<le> scale2 n (- k) then k else k - 1)"

definition round_ratio :: "bool \<Rightarrow> nat \<Rightarrow> nat \<Rightarrow> float64" where
  "round_ratio neg n d =
     (let sign = (if neg then 2 ^ 63 else 0) in
      if n = 0 then of_nat sign
      else
        let e = max (- 1074) (floor_log_ratio n d - 52);
            num = scale2 n (- e); den = scale2 d e;
            q = num div den; r = num mod den;
            q' = (if 2 * r > den \<or> 2 * r = den \<and> odd q then q + 1 else q);
            bits = q' + nat (e + 1074) * 2 ^ 52 in
        of_nat (sign + min bits (2047 * 2 ^ 52)))"

text \<open>\<open>float(text)\<close> for a text of digits with at most one point.\<close>

definition py_float :: "runtime \<Rightarrow> pystr \<Rightarrow> py_error + float64" where
  "py_float u text =
     (if \<forall>c \<in> set text. ascii_digit c \<or> c = 46 then
        (let ip = takeWhile (\<lambda>c. c \<noteq> 46) text; fp = drop 1 (dropWhile (\<lambda>c. c \<noteq> 46) text) in
         if 46 \<in> set fp \<or> ip @ fp = [] then Inl ValueError
         else Inr (round_ratio False (digits_value (ip @ fp)) (10 ^ length fp)))
      else rt_float u text)"

text \<open>\<open>float(x)\<close> of a value, and true division of a float by an int.\<close>

fun to_float :: "runtime \<Rightarrow> pyval \<Rightarrow> py_error + float64" where
  "to_float u (PInt i) =
     (let b = round_ratio (i < 0) (nat \<bar>i\<bar>) 1 in if f_is_inf b then Inl OverflowError else Inr b)"
| "to_float u (PFloat b) = Inr b"
| "to_float u (PBool b) = Inr (round_ratio False (if b then 1 else 0) 1)"
| "to_float u (PText s) = py_float u s"
| "to_float u PNone = Inl PyTypeError"

definition f_div_nat :: "float64 \<Rightarrow> nat \<Rightarrow> float64" where
  "f_div_nat b n =
     (if f_is_nan b \<or> f_is_inf b then b
      else if f_scaled b = 0 then b
      else round_ratio (f_neg b) (nat \<bar>f_scaled b\<bar>) (n * 2 ^ 1074))"

text \<open>\<open>str(n)\<close>.\<close>

fun nat_digits :: "nat \<Rightarrow> pystr" where
  "nat_digits n = (if n < 10 then [48 + n] else nat_digits (n div 10) @ [48 + n mod 10])"

declare nat_digits.simps [simp del]

fun py_str :: "runtime \<Rightarrow> pyval \<Rightarrow> pystr" where
  "py_str u PNone = str ''None''"
| "py_str u (PInt i) = (if i < 0 then 45 # nat_digits (nat (- i)) else nat_digits (nat i))"
| "py_str u (PFloat b) = rt_str_float u b"
| "py_str u (PText s) = s"
| "py_str u (PBool b) = (if b then str ''True'' else str ''False'')"

lemma digits_value_append: "digits_value (ds @ [d]) = 10 * digits_value ds + (d - 48)"
  by (simp add: digits_value_def)

lemma nat_digits_ascii: "c \<in> set (nat_digits n) \<Longrightarrow> ascii_digit c"
proof (induction n rule: nat_digits.induct)
  case (1 n)
  show ?case
  proof (cases "n < 10")
    case True
    then show ?thesis using 1(2) by (simp add: nat_digits.simps [of n] ascii_digit_def)
  next
    case False
    have "n mod 10 < 10" by simp
    then show ?thesis using 1 False by (auto simp: nat_digits.simps [of n] ascii_digit_def)
  qed
qed

lemma nat_digits_not_Nil [simp]: "nat_digits n \<noteq> []"
  by (simp add: nat_digits.simps [of n])

lemma digits_value_nat_digits [simp]: "digits_value (nat_digits n) = n"
proof (induction n rule: nat_digits.induct)
  case (1 n)
  show ?case
  proof (cases "n < 10")
    case True
    then show ?thesis by (simp add: nat_digits.simps [of n] digits_value_def)
  next
    case False
    then show ?thesis using 1 by (simp add: nat_digits.simps [of n] digits_value_append)
  qed
qed

section \<open>A runtime\<close>

text \<open>
  What the theorems on the parser rely on: no conversion runs out of the model's fuel,
  which is not a Python exception. One runtime with this law is a machine that knows no
  letters and digits beyond ASCII.
\<close>

definition runtime_ok :: "runtime \<Rightarrow> bool" where
  "runtime_ok u \<longleftrightarrow> (\<forall>s. rt_int u s \<noteq> Inl OutOfFuel \<and> rt_float u s \<noteq> Inl OutOfFuel)"

definition ascii_runtime :: runtime where
  "ascii_runtime =
     \<lparr>rt_digit = (\<lambda>_. False), rt_alpha = (\<lambda>_. False), rt_alnum = (\<lambda>_. False),
      rt_upper = (\<lambda>c. [c]), rt_lower = (\<lambda>s. s),
      rt_int = (\<lambda>_. Inl ValueError), rt_float = (\<lambda>_. Inl ValueError), rt_max_digits = Some 4300,
      rt_sum = (\<lambda>_. PInt 0), rt_str_float = (\<lambda>_. str ''float''), rt_str_expr = (\<lambda>_. str ''expr''),
      rt_sort_nan = (\<lambda>_ ks. [0..<length ks])\<rparr>"

lemma ascii_runtime_ok [simp]: "runtime_ok ascii_runtime"
  by (simp add: runtime_ok_def ascii_runtime_def)

end
