(* ===== verification/Lexer.thy ===== *)
theory Lexer
  imports Runtime
begin

text \<open>
  tinydb/parser/lexer.py: the tokenizer, as a recursion on the rest of the text that carries
  the line and the column; \<open>sql[pos + 1]\<close> is the next character of the rest.
\<close>

section \<open>Tokens\<close>

datatype token_type = KEYWORD | IDENT | NUMBER | STRING | OPERATOR | PUNCT | EOF

record token =
  tok_type :: token_type
  tok_value :: pystr
  tok_line :: nat
  tok_column :: nat

definition mk_token :: "token_type \<Rightarrow> pystr \<Rightarrow> nat \<Rightarrow> nat \<Rightarrow> token" where
  "mk_token t v l c = \<lparr>tok_type = t, tok_value = v, tok_line = l, tok_column = c\<rparr>"

lemma mk_token_simps [simp]:
  "tok_type (mk_token t v l c) = t" "tok_value (mk_token t v l c) = v"
  by (simp_all add: mk_token_def)

definition sql_keywords :: "pystr list" where
  "sql_keywords = map str
    [''CREATE'', ''TABLE'', ''IF'', ''NOT'', ''EXISTS'', ''DROP'', ''INSERT'', ''INTO'',
     ''VALUES'', ''SELECT'', ''FROM'', ''WHERE'', ''ORDER'', ''BY'', ''ASC'', ''DESC'',
     ''LIMIT'', ''OFFSET'', ''GROUP'', ''UPDATE'', ''SET'', ''DELETE'', ''AND'', ''OR'',
     ''NULL'', ''IS'', ''IN'', ''BETWEEN'', ''TRUE'', ''FALSE'', ''PRIMARY'', ''KEY'',
     ''UNIQUE'', ''CHECKPOINT'', ''BEGIN'', ''TRANSACTION'', ''COMMIT'', ''END'',
     ''ROLLBACK'', ''INT'', ''FLOAT'', ''TEXT'', ''BOOL'', ''INTEGER'', ''REAL'',
     ''VARCHAR'', ''BOOLEAN'', ''AVG'', ''SUM'', ''COUNT'', ''AS'', ''JOIN'', ''ON'',
     ''LEFT'', ''RIGHT'', ''INNER'', ''OUTER'', ''CROSS'', ''NULLS'', ''FIRST'', ''LAST'',
     ''EXPLAIN'']"

section \<open>Character classes of the tokenizer\<close>

definition is_space :: "nat \<Rightarrow> bool" where
  "is_space c \<longleftrightarrow> c = 32 \<or> c = 9 \<or> c = 13 \<or> c = 10"

definition is_word_start :: "runtime \<Rightarrow> nat \<Rightarrow> bool" where
  "is_word_start u c \<longleftrightarrow> ch_isalpha u c \<or> c = 95"

definition is_word :: "runtime \<Rightarrow> nat \<Rightarrow> bool" where
  "is_word u c \<longleftrightarrow> ch_isalnum u c \<or> c = 95"

definition is_numeric :: "runtime \<Rightarrow> nat \<Rightarrow> bool" where
  "is_numeric u c \<longleftrightarrow> ch_isdigit u c \<or> c = 46"

text \<open>A number starts with a digit, or with a point before a digit.\<close>

definition starts_number :: "runtime \<Rightarrow> pystr \<Rightarrow> bool" where
  "starts_number u s = (case s of
       [] \<Rightarrow> False
     | c # rest \<Rightarrow> ch_isdigit u c \<or> c = 46 \<and> (case rest of [] \<Rightarrow> False | d # _ \<Rightarrow> ch_isdigit u d))"

text \<open>\<open>(),;*.\<close>\<close>

definition is_punct :: "nat \<Rightarrow> bool" where
  "is_punct c \<longleftrightarrow> c \<in> {40, 41, 44, 59, 42, 46}"

definition operators :: "pystr list" where
  "operators = map str [''<>'', ''<='', ''>='', ''='', ''<'', ''>'']"

definition match_operator :: "pystr \<Rightarrow> pystr option" where
  "match_operator s = List.find (starts_with s) operators"

lemma match_operator_Some: "match_operator s = Some op \<Longrightarrow> op \<noteq> [] \<and> s = op @ drop (length op) s"
proof -
  assume "match_operator s = Some op"
  then have "op \<in> set operators" and "take (length op) s = op"
    by (auto simp: match_operator_def find_Some_iff starts_with_def)
  then show ?thesis using append_take_drop_id [of "length op" s] by (auto simp: operators_def)
qed

section \<open>The tokenizer\<close>

text \<open>
  The body of a string literal, after the opening quote: a doubled quote is a quote, a
  literal without closing quote runs to the end of the text.
\<close>

fun lex_string :: "pystr \<Rightarrow> nat \<Rightarrow> nat \<Rightarrow> pystr \<times> pystr \<times> nat \<times> nat" where
  "lex_string [] line col = ([], [], line, col)"
| "lex_string (c # rest) line col =
     (if c = 39 then
        (case rest of
           d # rest' \<Rightarrow>
             if d = 39 then
               (case lex_string rest' line (col + 2) of (s, r, l, k) \<Rightarrow> (39 # s, r, l, k))
             else ([], rest, line, col + 1)
         | [] \<Rightarrow> ([], rest, line, col + 1))
      else if c = 10 then
        (case lex_string rest (line + 1) 1 of (s, r, l, k) \<Rightarrow> (c # s, r, l, k))
      else
        (case lex_string rest line (col + 1) of (s, r, l, k) \<Rightarrow> (c # s, r, l, k)))"

lemma lex_string_length: "lex_string cs line col = (s, rest, l, k) \<Longrightarrow> length rest \<le> length cs"
  by (induction cs line col arbitrary: s rest l k rule: lex_string.induct)
    (force split: if_splits list.splits prod.splits)+

definition word_token :: "runtime \<Rightarrow> pystr \<Rightarrow> nat \<Rightarrow> nat \<Rightarrow> token" where
  "word_token u w line col =
     (if py_upper u w \<in> set sql_keywords then mk_token KEYWORD (py_upper u w) line col
      else mk_token IDENT w line col)"

function lex :: "runtime \<Rightarrow> pystr \<Rightarrow> nat \<Rightarrow> nat \<Rightarrow> py_error + token list" where
  "lex u [] line col = Inr [mk_token EOF [] line col]"
| "lex u (c # rest) line col =
     (if is_space c then
        (if c = 10 then lex u rest (line + 1) 1 else lex u rest line (col + 1))
      else if c = 45 \<and> take 1 rest = [45] then lex u (dropWhile (\<lambda>d. d \<noteq> 10) rest) line col
      else if c = 39 then
        (case lex_string rest line (col + 1) of (s, rest', line', col') \<Rightarrow>
           rbind (lex u rest' line' col') (\<lambda>ts. Inr (mk_token STRING s line' col # ts)))
      else if starts_number u (c # rest) then
        (let w = c # takeWhile (is_numeric u) rest in
         rbind (lex u (dropWhile (is_numeric u) rest) line (col + length w)) (\<lambda>ts.
         Inr (mk_token NUMBER w line col # ts)))
      else if is_word_start u c then
        (let w = c # takeWhile (is_word u) rest in
         rbind (lex u (dropWhile (is_word u) rest) line (col + length w)) (\<lambda>ts.
         Inr (word_token u w line col # ts)))
      else
        (case match_operator (c # rest) of
           Some op \<Rightarrow>
             rbind (lex u (drop (length op) (c # rest)) line (col + length op)) (\<lambda>ts.
             Inr (mk_token OPERATOR op line col # ts))
         | None \<Rightarrow>
             if is_punct c then
               rbind (lex u rest line (col + 1)) (\<lambda>ts. Inr (mk_token PUNCT [c] line col # ts))
             else Inl (ParseError (UnexpectedCharacter c) line col)))"
  by pat_completeness auto

termination
  by (relation "measure (\<lambda>(u, s, l, c). length s)")
    (auto simp: le_imp_less_Suc length_dropWhile_le dest: lex_string_length [OF sym] match_operator_Some)

definition tokenize :: "runtime \<Rightarrow> pystr \<Rightarrow> py_error + token list" where
  "tokenize u sql = lex u sql 1 1"

declare lex.simps(2) [simp del]

end
