(* ===== verification/Parser.thy ===== *)
theory Parser
  imports Lexer
begin

text \<open>
  tinydb/parser: the recursive-descent parser. Its state is the list of tokens from the
  parser's position on; \<open>_advance\<close> does not move past the last one. Loops that consume a
  token in each round, and the recursion through parentheses, get the number of tokens left
  as their budget, which the theory ParserFacts shows to be enough.
\<close>

type_synonym 'a px = "(token list, py_error, 'a) sx"

section \<open>The token stream\<close>

definition first_token :: "token list \<Rightarrow> token" where
  "first_token ts = (case ts of [] \<Rightarrow> mk_token EOF [] 1 1 | t # _ \<Rightarrow> t)"

definition peek :: "token px" where
  "peek = sread (\<lambda>ts. Inr (first_token ts))"

definition advance :: "token px" where
  "advance ts = (Inr (first_token ts), if 1 < length ts then tl ts else ts)"

fun token_type_name :: "token_type \<Rightarrow> string" where
  "token_type_name KEYWORD = ''KEYWORD''"
| "token_type_name IDENT = ''IDENT''"
| "token_type_name NUMBER = ''NUMBER''"
| "token_type_name STRING = ''STRING''"
| "token_type_name OPERATOR = ''OPERATOR''"
| "token_type_name PUNCT = ''PUNCT''"
| "token_type_name EOF = ''EOF''"

definition perror :: "parse_msg \<Rightarrow> token \<Rightarrow> py_error" where
  "perror m t = ParseError m (tok_line t) (tok_column t)"

definition expect :: "token_type \<Rightarrow> pystr option \<Rightarrow> token px" where
  "expect ty v =
     sbind peek (\<lambda>t.
     if tok_type t \<noteq> ty then sraise (perror (ExpectedType (token_type_name ty) (tok_value t)) t)
     else (case v of
         None \<Rightarrow> advance
       | Some v' \<Rightarrow>
           if tok_value t \<noteq> v' then sraise (perror (ExpectedValue v' (tok_value t)) t) else advance))"

definition expect_punct :: "string \<Rightarrow> token px" where
  "expect_punct p = expect PUNCT (Some (str p))"

definition is_keyword :: "runtime \<Rightarrow> string \<Rightarrow> token \<Rightarrow> bool" where
  "is_keyword u k t \<longleftrightarrow> tok_type t = KEYWORD \<and> py_upper u (tok_value t) = str k"

definition match_keyword :: "runtime \<Rightarrow> string \<Rightarrow> bool px" where
  "match_keyword u k =
     sbind peek (\<lambda>t. if is_keyword u k t then sbind advance (\<lambda>_. sret True) else sret False)"

definition expect_keyword :: "runtime \<Rightarrow> string \<Rightarrow> token px" where
  "expect_keyword u k =
     sbind peek (\<lambda>t. if is_keyword u k t then advance
       else sraise (perror (ExpectedKeyword (str k) (tok_value t)) t))"

definition is_punct_token :: "string \<Rightarrow> token \<Rightarrow> bool" where
  "is_punct_token p t \<longleftrightarrow> tok_type t = PUNCT \<and> tok_value t = str p"

definition match_punct :: "string \<Rightarrow> bool px" where
  "match_punct p =
     sbind peek (\<lambda>t. if is_punct_token p t then sbind advance (\<lambda>_. sret True) else sret False)"

definition parse_ident :: "pystr px" where
  "parse_ident = sbind (expect IDENT None) (\<lambda>t. sret (tok_value t))"

text \<open>\<open>xs = [p()]; while match(","): xs.append(p())\<close>.\<close>

fun comma_rest :: "nat \<Rightarrow> 'a px \<Rightarrow> 'a list px" where
  "comma_rest 0 p = sraise OutOfFuel"
| "comma_rest (Suc n) p =
     sbind (match_punct '','') (\<lambda>b.
     if b then sbind p (\<lambda>x. sbind (comma_rest n p) (\<lambda>xs. sret (x # xs))) else sret [])"

definition comma_list :: "'a px \<Rightarrow> 'a list px" where
  "comma_list p = sbind p (\<lambda>x. sbind sget (\<lambda>ts. sbind (comma_rest (length ts + 1) p) (\<lambda>xs. sret (x # xs))))"

section \<open>Predicates\<close>

definition parse_number :: "runtime \<Rightarrow> pystr \<Rightarrow> py_error + pyval" where
  "parse_number u text =
     (if 46 \<in> set text then rbind (py_float u text) (\<lambda>b. Inr (PFloat b))
      else rbind (py_int u text) (\<lambda>i. Inr (PInt i)))"

definition is_value_keyword :: "token \<Rightarrow> string \<Rightarrow> bool" where
  "is_value_keyword t k \<longleftrightarrow> tok_type t = KEYWORD \<and> tok_value t = str k"

definition parse_value :: "runtime \<Rightarrow> pyval px" where
  "parse_value u =
     sbind peek (\<lambda>t.
     if tok_type t = NUMBER then sbind advance (\<lambda>_. slift (parse_number u (tok_value t)))
     else if tok_type t = STRING then sbind advance (\<lambda>_. sret (PText (tok_value t)))
     else if is_value_keyword t ''TRUE'' \<or> is_value_keyword t ''FALSE''
       then sbind advance (\<lambda>_. sret (PBool (tok_value t = str ''TRUE'')))
     else if is_value_keyword t ''NULL'' then sbind advance (\<lambda>_. sret PNone)
     else sraise (perror (UnexpectedValue (tok_value t)) t))"

definition parse_in_list :: "runtime \<Rightarrow> pyval list px" where
  "parse_in_list u =
     sbind (expect_punct ''('') (\<lambda>_.
     sbind (comma_list (parse_value u)) (\<lambda>vs.
     sbind (expect_punct '')'') (\<lambda>_. sret vs)))"

text \<open>The levels of the expression grammar, over a parser for primary expressions.\<close>

definition comparison_with :: "runtime \<Rightarrow> expr px \<Rightarrow> expr px" where
  "comparison_with u prim =
     sbind prim (\<lambda>left.
     sbind (match_keyword u ''IS'') (\<lambda>is.
     if is then
       sbind (match_keyword u ''NOT'') (\<lambda>negated.
       sbind (expect_keyword u ''NULL'') (\<lambda>_.
       sret (BinaryOp (str (if negated then ''IS NOT NULL'' else ''IS NULL'')) left
               (SqlLiteral PNone (str ''NULL'')))))
     else
     sbind (match_keyword u ''NOT'') (\<lambda>not.
     if not then
       sbind (expect_keyword u ''IN'') (\<lambda>_.
       sbind (parse_in_list u) (\<lambda>vs. sret (InPredicate left vs True)))
     else
     sbind (match_keyword u ''IN'') (\<lambda>isin.
     if isin then sbind (parse_in_list u) (\<lambda>vs. sret (InPredicate left vs False))
     else
     sbind (match_keyword u ''BETWEEN'') (\<lambda>between.
     if between then
       sbind prim (\<lambda>lo.
       sbind (expect_keyword u ''AND'') (\<lambda>_.
       sbind prim (\<lambda>hi.
       sret (LogicalOp (str ''AND'') (BinaryOp (str ''>='') left lo) (BinaryOp (str ''<='') left hi)))))
     else
     sbind peek (\<lambda>t.
     if tok_type t = OPERATOR then
       sbind advance (\<lambda>_. sbind prim (\<lambda>right. sret (BinaryOp (tok_value t) left right)))
     else sret left))))))"

fun logical_rest :: "runtime \<Rightarrow> string \<Rightarrow> nat \<Rightarrow> expr px \<Rightarrow> expr \<Rightarrow> expr px" where
  "logical_rest u k 0 p left = sraise OutOfFuel"
| "logical_rest u k (Suc n) p left =
     sbind (match_keyword u k) (\<lambda>b.
     if b then sbind p (\<lambda>right. logical_rest u k n p (LogicalOp (str k) left right)) else sret left)"

definition logical_with :: "runtime \<Rightarrow> string \<Rightarrow> expr px \<Rightarrow> expr px" where
  "logical_with u k p = sbind p (\<lambda>left. sbind sget (\<lambda>ts. logical_rest u k (length ts + 1) p left))"

text \<open>\<open>parse_not_expression\<close> only calls \<open>parse_comparison\<close>.\<close>

definition and_with :: "runtime \<Rightarrow> expr px \<Rightarrow> expr px" where
  "and_with u prim = logical_with u ''AND'' (comparison_with u prim)"

definition expression_with :: "runtime \<Rightarrow> expr px \<Rightarrow> expr px" where
  "expression_with u prim = logical_with u ''OR'' (and_with u prim)"

fun primary :: "runtime \<Rightarrow> nat \<Rightarrow> expr px" where
  "primary u 0 = sraise OutOfFuel"
| "primary u (Suc n) =
     sbind peek (\<lambda>t.
     if tok_type t = NUMBER then
       sbind advance (\<lambda>_. sbind (slift (parse_number u (tok_value t))) (\<lambda>v.
         sret (SqlLiteral v (tok_value t))))
     else if tok_type t = STRING then
       sbind advance (\<lambda>_. sret (SqlLiteral (PText (tok_value t)) (39 # tok_value t @ [39])))
     else if is_value_keyword t ''TRUE'' \<or> is_value_keyword t ''FALSE'' then
       sbind advance (\<lambda>_. sret (SqlLiteral (PBool (tok_value t = str ''TRUE'')) (tok_value t)))
     else if is_value_keyword t ''NULL'' then
       sbind advance (\<lambda>_. sret (SqlLiteral PNone (str ''NULL'')))
     else if tok_type t = IDENT then
       sbind advance (\<lambda>_.
       sbind peek (\<lambda>d.
       if is_punct_token ''.'' d then
         sbind advance (\<lambda>_.
         sbind (expect IDENT None) (\<lambda>c. sret (QualifiedColumn (Some (tok_value t)) (tok_value c))))
       else sret (Column (tok_value t))))
     else if is_punct_token ''('' t then
       sbind advance (\<lambda>_.
       sbind (expression_with u (primary u n)) (\<lambda>e.
       sbind (expect_punct '')'') (\<lambda>_. sret e)))
     else sraise (perror (UnexpectedToken (tok_value t)) t))"

definition parse_primary :: "runtime \<Rightarrow> expr px" where
  "parse_primary u = (\<lambda>ts. primary u (length ts + 1) ts)"

definition parse_expression :: "runtime \<Rightarrow> expr px" where
  "parse_expression u = (\<lambda>ts. expression_with u (primary u (length ts + 1)) ts)"

section \<open>Joins\<close>

definition parse_optional_alias :: "runtime \<Rightarrow> pystr option px" where
  "parse_optional_alias u =
     sbind (match_keyword u ''AS'') (\<lambda>b.
     if b then sbind parse_ident (\<lambda>a. sret (Some a))
     else sbind peek (\<lambda>t.
       if tok_type t = IDENT then sbind parse_ident (\<lambda>a. sret (Some a)) else sret None))"

definition match_join_start :: "runtime \<Rightarrow> bool px" where
  "match_join_start u =
     sbind peek (\<lambda>t. sret (is_keyword u ''JOIN'' t \<or> is_keyword u ''INNER'' t \<or> is_keyword u ''LEFT'' t))"

definition parse_join_clause :: "runtime \<Rightarrow> join_clause px" where
  "parse_join_clause u =
     sbind peek (\<lambda>t.
     let kw = py_upper u (tok_value t) in
     sbind (if kw = str ''LEFT'' \<or> kw = str ''INNER''
            then sbind advance (\<lambda>_. expect_keyword u ''JOIN'') else expect_keyword u ''JOIN'') (\<lambda>_.
     sbind parse_ident (\<lambda>table.
     sbind (parse_optional_alias u) (\<lambda>alias.
     sbind (expect_keyword u ''ON'') (\<lambda>_.
     sbind (parse_expression u) (\<lambda>on.
     sret \<lparr>jc_kind = (if kw = str ''LEFT'' then LEFT else INNER), jc_table = table,
           jc_alias = alias, jc_on = Some on\<rparr>))))))"

fun join_loop :: "runtime \<Rightarrow> nat \<Rightarrow> join_clause list px" where
  "join_loop u 0 = sraise OutOfFuel"
| "join_loop u (Suc n) =
     sbind (match_join_start u) (\<lambda>b.
     if b then sbind (parse_join_clause u) (\<lambda>j. sbind (join_loop u n) (\<lambda>js. sret (j # js)))
     else sret [])"

definition parse_join_clauses :: "runtime \<Rightarrow> join_clause list px" where
  "parse_join_clauses u = sbind sget (\<lambda>ts. join_loop u (length ts + 1))"

section \<open>DML\<close>

definition paren_list :: "'a px \<Rightarrow> 'a list px" where
  "paren_list p =
     sbind (expect_punct ''('') (\<lambda>_. sbind (comma_list p) (\<lambda>xs. sbind (expect_punct '')'') (\<lambda>_. sret xs)))"

definition parse_value_tuple :: "runtime \<Rightarrow> pyval list px" where
  "parse_value_tuple u = paren_list (parse_value u)"

text \<open>The test for the column list looks at the value of the next token only.\<close>

definition parse_insert :: "runtime \<Rightarrow> stmt px" where
  "parse_insert u =
     sbind (expect_keyword u ''INSERT'') (\<lambda>_.
     sbind (expect_keyword u ''INTO'') (\<lambda>_.
     sbind parse_ident (\<lambda>table.
     sbind peek (\<lambda>t.
     sbind (if tok_value t = str ''('' then
              sbind advance (\<lambda>_.
              sbind (comma_list parse_ident) (\<lambda>cols.
              sbind (expect_punct '')'') (\<lambda>_. sret (Some cols))))
            else sret None) (\<lambda>columns.
     sbind (expect_keyword u ''VALUES'') (\<lambda>_.
     sbind (comma_list (parse_value_tuple u)) (\<lambda>vs. sret (Insert table columns vs))))))))"

definition parse_column_ref :: "expr px" where
  "parse_column_ref =
     sbind parse_ident (\<lambda>name.
     sbind peek (\<lambda>t.
     if is_punct_token ''.'' t then
       sbind advance (\<lambda>_. sbind parse_ident (\<lambda>col. sret (QualifiedColumn (Some name) col)))
     else sret (Column name)))"

definition agg_literal :: "pystr \<Rightarrow> pystr \<Rightarrow> expr" where
  "agg_literal func arg =
     (let s = func @ str ''('' @ arg @ str '')'' in SqlLiteral (PText s) s)"

definition parse_projection :: "runtime \<Rightarrow> expr px" where
  "parse_projection u =
     sbind peek (\<lambda>t.
     if tok_value t = str ''*'' then sbind advance (\<lambda>_. sret Star)
     else if tok_type t = KEYWORD \<and> tok_value t \<in> {str ''COUNT'', str ''SUM'', str ''AVG''} then
       sbind advance (\<lambda>f.
       sbind (expect_punct ''('') (\<lambda>_.
       sbind peek (\<lambda>a.
       if tok_value a = str ''*'' then
         sbind advance (\<lambda>_. sbind (expect_punct '')'') (\<lambda>_. sret (agg_literal (tok_value f) (str ''*''))))
       else
         sbind (parse_primary u) (\<lambda>arg.
         sbind (expect_punct '')'') (\<lambda>_.
         sret (agg_literal (tok_value f) (case arg of Column n \<Rightarrow> n | _ \<Rightarrow> rt_str_expr u arg)))))))
     else if tok_type t = NUMBER \<or> tok_type t = STRING then parse_primary u
     else
       sbind parse_column_ref (\<lambda>e.
       sbind (match_keyword u ''AS'') (\<lambda>b.
       if b then sbind parse_ident (\<lambda>a. sret (Column a)) else sret e)))"

definition parse_group_expr :: "expr px" where
  "parse_group_expr = parse_column_ref"

definition parse_order_item :: "runtime \<Rightarrow> order_item px" where
  "parse_order_item u =
     sbind parse_column_ref (\<lambda>e.
     sbind (match_keyword u ''ASC'') (\<lambda>asc.
     if asc then sret (e, False)
     else sbind (match_keyword u ''DESC'') (\<lambda>desc. sret (e, desc))))"

definition parse_int_literal :: "runtime \<Rightarrow> int px" where
  "parse_int_literal u = sbind (expect NUMBER None) (\<lambda>t. slift (py_int u (tok_value t)))"

text \<open>\<open>WHERE e\<close>, \<open>GROUP BY xs\<close>, \<open>ORDER BY xs\<close>, \<open>LIMIT n\<close>, \<open>OFFSET n\<close>: present or not.\<close>

definition parse_where :: "runtime \<Rightarrow> expr option px" where
  "parse_where u =
     sbind (match_keyword u ''WHERE'') (\<lambda>b.
     if b then sbind (parse_expression u) (\<lambda>e. sret (Some e)) else sret None)"

definition parse_by_list :: "runtime \<Rightarrow> string \<Rightarrow> 'a px \<Rightarrow> 'a list px" where
  "parse_by_list u k p =
     sbind (match_keyword u k) (\<lambda>b.
     if b then sbind (expect_keyword u ''BY'') (\<lambda>_. comma_list p) else sret [])"

definition parse_opt_int :: "runtime \<Rightarrow> string \<Rightarrow> int option px" where
  "parse_opt_int u k =
     sbind (match_keyword u k) (\<lambda>b.
     if b then sbind (parse_int_literal u) (\<lambda>i. sret (Some i)) else sret None)"

definition parse_from :: "runtime \<Rightarrow> (pystr \<times> pystr option \<times> join_clause list) px" where
  "parse_from u =
     sbind (match_keyword u ''FROM'') (\<lambda>b.
     if b then
       sbind parse_ident (\<lambda>table.
       sbind (parse_optional_alias u) (\<lambda>alias.
       sbind (parse_join_clauses u) (\<lambda>joins. sret (table, alias, joins))))
     else sret ([], None, []))"

definition parse_select :: "runtime \<Rightarrow> stmt px" where
  "parse_select u =
     sbind (expect_keyword u ''SELECT'') (\<lambda>_.
     sbind (comma_list (parse_projection u)) (\<lambda>projections.
     sbind (parse_from u) (\<lambda>(table, alias, joins).
     sbind (parse_where u) (\<lambda>wh.
     sbind (parse_by_list u ''GROUP'' parse_group_expr) (\<lambda>group_by.
     sbind (parse_by_list u ''ORDER'' (parse_order_item u)) (\<lambda>order_by.
     sbind (parse_opt_int u ''LIMIT'') (\<lambda>limit.
     sbind (parse_opt_int u ''OFFSET'') (\<lambda>offset.
     sret (SelectStmt \<lparr>sel_projections = projections, sel_table = table, sel_joins = joins,
       sel_alias = alias, sel_where = wh, sel_order_by = order_by, sel_limit = limit,
       sel_offset = offset, sel_group_by = group_by\<rparr>)))))))))"

definition parse_assignment :: "runtime \<Rightarrow> (pystr \<times> pyval) px" where
  "parse_assignment u =
     sbind parse_ident (\<lambda>col.
     sbind (expect OPERATOR (Some (str ''=''))) (\<lambda>_.
     sbind (parse_value u) (\<lambda>v. sret (col, v))))"

definition parse_update :: "runtime \<Rightarrow> stmt px" where
  "parse_update u =
     sbind (expect_keyword u ''UPDATE'') (\<lambda>_.
     sbind parse_ident (\<lambda>table.
     sbind (expect_keyword u ''SET'') (\<lambda>_.
     sbind (comma_list (parse_assignment u)) (\<lambda>asg.
     sbind (parse_where u) (\<lambda>wh. sret (UpdateStmt table asg wh))))))"

definition parse_delete :: "runtime \<Rightarrow> stmt px" where
  "parse_delete u =
     sbind (expect_keyword u ''DELETE'') (\<lambda>_.
     sbind (expect_keyword u ''FROM'') (\<lambda>_.
     sbind parse_ident (\<lambda>table.
     sbind (parse_where u) (\<lambda>wh. sret (DeleteStmt table wh)))))"

section \<open>DDL\<close>

fun constraint_loop :: "runtime \<Rightarrow> nat \<Rightarrow> pystr list px" where
  "constraint_loop u 0 = sraise OutOfFuel"
| "constraint_loop u (Suc n) =
     sbind peek (\<lambda>t.
     if is_keyword u ''PRIMARY'' t then
       sbind advance (\<lambda>_. sbind (expect_keyword u ''KEY'') (\<lambda>_.
       sbind (constraint_loop u n) (\<lambda>cs. sret (str ''PRIMARY KEY'' # cs))))
     else if is_keyword u ''NOT'' t then
       sbind advance (\<lambda>_. sbind (expect_keyword u ''NULL'') (\<lambda>_.
       sbind (constraint_loop u n) (\<lambda>cs. sret (str ''NOT NULL'' # cs))))
     else if is_keyword u ''UNIQUE'' t then
       sbind advance (\<lambda>_. sbind (constraint_loop u n) (\<lambda>cs. sret (str ''UNIQUE'' # cs)))
     else sret [])"

definition parse_column_def :: "runtime \<Rightarrow> column_def px" where
  "parse_column_def u =
     sbind parse_ident (\<lambda>name.
     sbind (expect KEYWORD None) (\<lambda>ty.
     sbind sget (\<lambda>ts.
     sbind (constraint_loop u (length ts + 1)) (\<lambda>cs.
     sret \<lparr>cd_name = name, cd_type = tok_value ty, cd_constraints = cs\<rparr>))))"

definition parse_create_table :: "runtime \<Rightarrow> stmt px" where
  "parse_create_table u =
     sbind (expect_keyword u ''CREATE'') (\<lambda>_.
     sbind (expect_keyword u ''TABLE'') (\<lambda>_.
     sbind (match_keyword u ''IF'') (\<lambda>b.
     sbind (if b then sbind (expect_keyword u ''NOT'') (\<lambda>_. sbind (expect_keyword u ''EXISTS'') (\<lambda>_. sret ()))
            else sret ()) (\<lambda>_.
     sbind parse_ident (\<lambda>name.
     sbind (paren_list (parse_column_def u)) (\<lambda>cols. sret (CreateTable name cols b)))))))"

definition parse_drop_table :: "runtime \<Rightarrow> stmt px" where
  "parse_drop_table u =
     sbind (expect_keyword u ''DROP'') (\<lambda>_.
     sbind (expect_keyword u ''TABLE'') (\<lambda>_.
     sbind (match_keyword u ''IF'') (\<lambda>b.
     sbind (if b then sbind (expect_keyword u ''EXISTS'') (\<lambda>_. sret ()) else sret ()) (\<lambda>_.
     sbind (comma_list parse_ident) (\<lambda>names. sret (DropTable names b))))))"

section \<open>Statements\<close>

definition parse_tx_control :: "runtime \<Rightarrow> stmt px" where
  "parse_tx_control u =
     sbind peek (\<lambda>t.
     let kw = py_upper u (tok_value t) in
     sbind advance (\<lambda>_.
     if kw = str ''BEGIN'' then sbind (match_keyword u ''TRANSACTION'') (\<lambda>_. sret Begin)
     else if kw = str ''COMMIT'' \<or> kw = str ''END'' then sret Commit
     else if kw = str ''ROLLBACK'' then sret Rollback
     else sraise (perror (UnexpectedTxKeyword kw) t)))"

fun statement :: "runtime \<Rightarrow> nat \<Rightarrow> stmt px" where
  "statement u 0 = sraise OutOfFuel"
| "statement u (Suc n) =
     sbind peek (\<lambda>t.
     if tok_type t = KEYWORD then
       (let kw = py_upper u (tok_value t) in
        if kw = str ''CREATE'' then parse_create_table u
        else if kw = str ''DROP'' then parse_drop_table u
        else if kw = str ''INSERT'' then parse_insert u
        else if kw = str ''SELECT'' then parse_select u
        else if kw = str ''UPDATE'' then parse_update u
        else if kw = str ''DELETE'' then parse_delete u
        else if kw = str ''CHECKPOINT'' then sbind advance (\<lambda>_. sret Checkpoint)
        else if kw = str ''EXPLAIN'' then
          sbind advance (\<lambda>_. sbind (statement u n) (\<lambda>s. sret (Explain s)))
        else parse_tx_control u)
     else sraise (perror (UnexpectedStatement (tok_value t)) t))"

definition parse_statement :: "runtime \<Rightarrow> stmt px" where
  "parse_statement u = (\<lambda>ts. statement u (length ts + 1) ts)"

definition is_semicolon :: "token \<Rightarrow> bool" where
  "is_semicolon t \<longleftrightarrow> is_punct_token '';'' t"

text \<open>\<open>parse\<close> drops every semicolon, wherever it stands, and appends another EOF.\<close>

definition parser_input :: "token list \<Rightarrow> token list" where
  "parser_input tokens =
     (let filtered = filter (\<lambda>t. \<not> is_semicolon t) tokens in
      filtered @ [mk_token EOF [] (if filtered \<noteq> [] then tok_line (last filtered) else 1) 1])"

definition parse :: "runtime \<Rightarrow> pystr \<Rightarrow> py_error + stmt" where
  "parse u sql =
     rbind (tokenize u sql) (\<lambda>tokens.
     fst (sbind (parse_statement u) (\<lambda>s. sbind (expect EOF None) (\<lambda>_. sret s)) (parser_input tokens)))"

end
