(* ===== verification/ParserFacts.thy ===== *)
theory ParserFacts
  imports Parser
begin

text \<open>
  The parser of the theory Parser: every loop ends within its budget, so that parsing any
  text returns a statement or an exception of the program.
\<close>

section \<open>The budgets are enough\<close>

text \<open>A token list as \<open>parse\<close> builds it ends with EOF.\<close>

definition wf_toks :: "token list \<Rightarrow> bool" where
  "wf_toks ts \<longleftrightarrow> ts \<noteq> [] \<and> tok_type (last ts) = EOF"

text \<open>
  \<open>good_at N t m\<close>: on a list of at most \<open>N\<close> tokens that starts with \<open>t\<close>, the parser \<open>m\<close>
  does not run out of fuel and leaves a list that is not longer.
\<close>

definition runs_ok :: "bool \<Rightarrow> 'a px \<Rightarrow> token list \<Rightarrow> bool" where
  "runs_ok d m ts \<longleftrightarrow> (case m ts of
       (Inl e, ts') \<Rightarrow> e \<noteq> OutOfFuel
     | (Inr x, ts') \<Rightarrow> wf_toks ts' \<and> length ts' \<le> length ts \<and> (d \<longrightarrow> length ts' < length ts))"

definition good :: "nat \<Rightarrow> 'a px \<Rightarrow> bool" where
  "good N m \<longleftrightarrow> (\<forall>ts. wf_toks ts \<longrightarrow> length ts \<le> N \<longrightarrow> runs_ok False m ts)"

definition eats :: "nat \<Rightarrow> 'a px \<Rightarrow> bool" where
  "eats N m \<longleftrightarrow> (\<forall>ts. wf_toks ts \<longrightarrow> length ts \<le> N \<longrightarrow> runs_ok True m ts)"

definition good_at :: "nat \<Rightarrow> token \<Rightarrow> 'a px \<Rightarrow> bool" where
  "good_at N t m \<longleftrightarrow>
     (\<forall>ts. wf_toks ts \<longrightarrow> length ts \<le> N \<longrightarrow> first_token ts = t \<longrightarrow> runs_ok False m ts)"

definition eats_at :: "nat \<Rightarrow> token \<Rightarrow> 'a px \<Rightarrow> bool" where
  "eats_at N t m \<longleftrightarrow>
     (\<forall>ts. wf_toks ts \<longrightarrow> length ts \<le> N \<longrightarrow> first_token ts = t \<longrightarrow> runs_ok True m ts)"

named_theorems budget \<open>composition rules for parsers within their budget\<close>
named_theorems lookahead \<open>the rules for the next token, tried before those of budget\<close>

lemma runs_okD:
  "runs_ok d m ts \<Longrightarrow> m ts = (Inr x, ts') \<Longrightarrow>
   wf_toks ts' \<and> length ts' \<le> length ts \<and> (d \<longrightarrow> length ts' < length ts)"
  by (simp add: runs_ok_def)

lemma runs_ok_bind:
  assumes m: "runs_ok d m ts" and f: "\<And>x ts'. m ts = (Inr x, ts') \<Longrightarrow> runs_ok e (f x) ts'"
  shows "runs_ok (d \<or> e) (sbind m f) ts"
proof (cases "m ts")
  case (Pair r ts')
  show ?thesis
  proof (cases r)
    case (Inl x)
    then show ?thesis using m Pair by (simp add: runs_ok_def)
  next
    case (Inr x)
    with Pair have mx: "m ts = (Inr x, ts')" by simp
    from f [OF mx] runs_okD [OF m mx] show ?thesis
      by (auto simp: runs_ok_def mx split: prod.splits sum.splits)
  qed
qed

lemma runs_ok_weak: "runs_ok d m ts \<Longrightarrow> runs_ok False m ts"
  by (auto simp: runs_ok_def split: prod.splits sum.splits)

lemma good_mono: "good N m \<Longrightarrow> M \<le> N \<Longrightarrow> good M m"
  and eats_mono: "eats N m \<Longrightarrow> M \<le> N \<Longrightarrow> eats M m"
  by (simp_all add: good_def eats_def)

lemma eats_good: "eats N m \<Longrightarrow> good N m"
  unfolding good_def eats_def by (blast intro: runs_ok_weak)

lemma good_pure [budget]:
  "good N (sret x)" "e \<noteq> OutOfFuel \<Longrightarrow> good N (sraise e)" "r \<noteq> Inl OutOfFuel \<Longrightarrow> good N (slift r)"
  by (auto simp: good_def runs_ok_def split: sum.split)

lemma eats_raise [budget]: "e \<noteq> OutOfFuel \<Longrightarrow> eats N (sraise e)"
  by (simp add: eats_def runs_ok_def)

lemma perror_fuel [simp]: "perror m t \<noteq> OutOfFuel"
  by (simp add: perror_def)

lemma bind_general:
  assumes m: "runs_ok d m ts" and ts: "length ts \<le> N"
    and f: "\<And>x ts'. wf_toks ts' \<Longrightarrow> length ts' \<le> (if d then N - 1 else N) \<Longrightarrow> runs_ok e (f x) ts'"
  shows "runs_ok (d \<or> e) (sbind m f) ts"
proof (rule runs_ok_bind [OF m])
  fix x ts'
  assume "m ts = (Inr x, ts')"
  from runs_okD [OF m this] ts show "runs_ok e (f x) ts'" by (intro f) auto
qed

lemma good_bind: "good N m \<Longrightarrow> (\<And>x. good N (f x)) \<Longrightarrow> good N (sbind m f)"
  using bind_general [of False m _ N False f] unfolding good_def by simp

lemma eats_bind: "eats N m \<Longrightarrow> (\<And>x. good (N - 1) (f x)) \<Longrightarrow> eats N (sbind m f)"
  using bind_general [of True m _ N False f] unfolding good_def eats_def by simp

lemma eats_bind_later: "good N m \<Longrightarrow> (\<And>x. eats N (f x)) \<Longrightarrow> eats N (sbind m f)"
  using bind_general [of False m _ N True f] unfolding good_def eats_def by simp

lemma eats_good_bind: "eats N m \<Longrightarrow> (\<And>x. good (N - 1) (f x)) \<Longrightarrow> good N (sbind m f)"
  by (rule eats_good, rule eats_bind)

text \<open>Looking at the next token, and taking it.\<close>

lemma first_token_wf: "wf_toks ts \<Longrightarrow> length ts = 1 \<Longrightarrow> tok_type (first_token ts) = EOF"
  by (cases ts) (auto simp: wf_toks_def first_token_def)

lemma good_peek [lookahead]: "(\<And>t. good_at N t (f t)) \<Longrightarrow> good N (sbind peek f)"
  and eats_peek [lookahead]: "(\<And>t. eats_at N t (g t)) \<Longrightarrow> eats N (sbind peek g)"
  by (auto simp: good_def eats_def good_at_def eats_at_def peek_def runs_ok_def)

lemma good_at_peek [lookahead]: "(\<And>x. good_at N t (f x)) \<Longrightarrow> good_at N t (sbind peek f)"
  by (auto simp: good_at_def peek_def runs_ok_def)

lemma good_at_intro: "good N m \<Longrightarrow> good_at N t m"
  by (simp add: good_def good_at_def)

lemma at_pure [lookahead]:
  "good_at N t (sret x)" "e \<noteq> OutOfFuel \<Longrightarrow> good_at N t (sraise e)" "e \<noteq> OutOfFuel \<Longrightarrow> eats_at N t (sraise e)"
  by (simp_all add: good_at_def eats_at_def runs_ok_def)

lemma at_if [lookahead]:
  "(b \<Longrightarrow> good_at N t p) \<Longrightarrow> (\<not> b \<Longrightarrow> good_at N t q) \<Longrightarrow> good_at N t (if b then p else q)"
  "(b \<Longrightarrow> eats_at N t p') \<Longrightarrow> (\<not> b \<Longrightarrow> eats_at N t q') \<Longrightarrow> eats_at N t (if b then p' else q')"
  by simp_all

lemma runs_ok_advance:
  assumes "wf_toks ts"
  shows "runs_ok (tok_type (first_token ts) \<noteq> EOF) advance ts"
  using assms first_token_wf [OF assms]
  by (cases ts) (auto simp: runs_ok_def advance_def wf_toks_def)

lemma good_advance [budget]: "good N advance"
  unfolding good_def using runs_ok_advance runs_ok_weak by blast

lemma eats_at_advance [lookahead]: "tok_type t \<noteq> EOF \<Longrightarrow> eats_at N t advance"
  unfolding eats_at_def using runs_ok_advance by fastforce

lemma eats_at_advance_bind [lookahead]:
  "tok_type t \<noteq> EOF \<Longrightarrow> (\<And>x. good (N - 1) (f x)) \<Longrightarrow> eats_at N t (sbind advance f)"
  using bind_general [of True advance _ N False f] eats_at_advance [of t N]
  unfolding good_def eats_at_def by simp

lemma good_at_advance_bind [lookahead]:
  "tok_type t \<noteq> EOF \<Longrightarrow> (\<And>x. good (N - 1) (f x)) \<Longrightarrow> good_at N t (sbind advance f)"
  using eats_at_advance_bind [of t N f] unfolding eats_at_def good_at_def by (blast intro: runs_ok_weak)

section \<open>The token operations\<close>

lemma keyword_not_eof: "is_keyword u k t \<Longrightarrow> tok_type t \<noteq> EOF"
  and punct_not_eof: "is_punct_token p t \<Longrightarrow> tok_type t \<noteq> EOF"
  and value_not_eof: "is_value_keyword t k \<Longrightarrow> tok_type t \<noteq> EOF"
  by (auto simp: is_keyword_def is_punct_token_def is_value_keyword_def)

lemma eats_expect [budget]: "ty \<noteq> EOF \<Longrightarrow> eats N (expect ty v)"
  unfolding expect_def
  by (rule eats_peek) (auto intro!: lookahead split: option.split)

lemma good_expect [budget]: "good N (expect ty v)"
  unfolding expect_def
  by (rule good_peek) (auto intro!: at_pure good_at_intro [OF good_advance] split: option.split)

lemma eats_expect_punct [budget]: "eats N (expect_punct p)"
  by (simp add: expect_punct_def eats_expect)

lemma eats_expect_keyword [budget]: "eats N (expect_keyword u k)"
  unfolding expect_keyword_def
  by (rule eats_peek) (auto intro!: lookahead dest: keyword_not_eof)

lemma eats_ident [budget]: "eats N parse_ident"
  unfolding parse_ident_def by (intro eats_bind budget) simp

text \<open>A match that succeeds has taken a token.\<close>

definition matches :: "bool px \<Rightarrow> bool" where
  "matches m \<longleftrightarrow> (\<forall>ts. (m ts = (Inr True, snd (advance ts)) \<and> tok_type (first_token ts) \<noteq> EOF)
     \<or> m ts = (Inr False, ts))"

lemma match_bind:
  assumes m: "matches m" and t: "good (N - 1) (f True)" and e: "good N (f False)"
  shows "good N (sbind m f)"
  unfolding good_def
proof (intro allI impI)
  fix ts
  assume ts: "wf_toks ts" "length ts \<le> N"
  from m consider (yes) "m ts = (Inr True, snd (advance ts))" "tok_type (first_token ts) \<noteq> EOF"
    | (no) "m ts = (Inr False, ts)" unfolding matches_def by blast
  then show "runs_ok False (sbind m f) ts"
  proof cases
    case yes
    have "wf_toks (snd (advance ts)) \<and> length (snd (advance ts)) < length ts"
      using runs_ok_advance [OF ts(1)] yes(2) by (simp add: runs_ok_def advance_def split: if_splits)
    then have "wf_toks (snd (advance ts))" "length (snd (advance ts)) \<le> N - 1" "length (snd (advance ts)) \<le> length ts"
      using ts(2) by auto
    then show ?thesis
      using t yes(1) by (auto simp: runs_ok_def good_def split: prod.splits sum.splits)
  next
    case no
    then have "sbind m f ts = f False ts" by (simp add: sbind_def)
    then show ?thesis using e ts by (simp add: good_def runs_ok_def)
  qed
qed

lemma matches_keyword: "matches (match_keyword u k)"
  by (auto simp: matches_def match_keyword_def peek_def sbind_def advance_def keyword_not_eof)

lemma matches_punct: "matches (match_punct p)"
  by (auto simp: matches_def match_punct_def peek_def sbind_def advance_def punct_not_eof)

lemmas good_match [lookahead] = match_bind [OF matches_keyword] match_bind [OF matches_punct]

lemma sbind_sret: "sbind m sret = m"
  by (auto simp: sbind_def fun_eq_iff split: prod.splits sum.splits)

lemma good_match_alone [budget]: "good N (match_keyword u k)"
proof -
  have "good N (sbind (match_keyword u k) sret)"
    by (rule match_bind [OF matches_keyword]; rule good_pure)
  then show ?thesis by (simp add: sbind_sret)
qed

declare good_bind [budget] eats_bind [budget]

text \<open>Loops that take a token in each round.\<close>

lemma good_comma_rest: "good N p \<Longrightarrow> N < n \<Longrightarrow> good N (comma_rest n p)"
proof (induction n arbitrary: N)
  case (Suc n)
  show ?case
  proof (cases N)
    case 0
    then show ?thesis by (auto simp: good_def wf_toks_def)
  next
    case (Suc M)
    have p: "good (N - 1) p" using Suc.prems(1) by (rule good_mono) simp
    then have "good (N - 1) (comma_rest n p)" using Suc.IH [OF p] Suc.prems(2) Suc by simp
    then show ?thesis using p by (simp, intro lookahead) (auto intro!: budget)
  qed
qed simp

lemma good_sget: "(\<And>ts. wf_toks ts \<Longrightarrow> length ts \<le> N \<Longrightarrow> good (length ts) (f ts)) \<Longrightarrow> good N (sbind sget f)"
  by (simp add: good_def runs_ok_def)

lemma good_comma_list [budget]: "good N p \<Longrightarrow> good N (comma_list p)"
  unfolding comma_list_def
  by (rule good_bind, assumption, rule good_sget, rule good_bind)
    (auto intro: good_comma_rest good_pure dest: good_mono simp del: comma_rest.simps)

lemma good_in_list [budget]: "good N p \<Longrightarrow> good N (paren_list p)"
  unfolding paren_list_def by (intro good_bind budget eats_good [OF eats_expect_punct])

lemma py_int_fuel: "runtime_ok u \<Longrightarrow> py_int u s \<noteq> Inl OutOfFuel"
  by (auto simp: py_int_def runtime_ok_def split: option.splits)

lemma py_float_fuel: "runtime_ok u \<Longrightarrow> py_float u s \<noteq> Inl OutOfFuel"
  by (auto simp: py_float_def runtime_ok_def Let_def)

lemma parse_number_fuel: "runtime_ok u \<Longrightarrow> parse_number u s \<noteq> Inl OutOfFuel"
  using py_int_fuel [of u s] py_float_fuel [of u s] by (auto simp: parse_number_def)

lemma eats_value: "runtime_ok u \<Longrightarrow> eats N (parse_value u)"
  unfolding parse_value_def
  by (intro lookahead) (auto intro: good_pure dest: value_not_eof parse_number_fuel)

lemma good_value [budget]: "runtime_ok u \<Longrightarrow> good N (parse_value u)"
  by (rule eats_good [OF eats_value])

lemma good_ident [budget]: "good N parse_ident"
  by (rule eats_good [OF eats_ident])

lemma good_expect_keyword [budget]: "good N (expect_keyword u k)"
  by (rule eats_good [OF eats_expect_keyword])

lemma good_expect_punct [budget]: "good N (expect_punct p)"
  by (rule eats_good [OF eats_expect_punct])

section \<open>Expressions\<close>

lemma good_parse_in_list [budget]: "runtime_ok u \<Longrightarrow> good N (parse_in_list u)"
  unfolding parse_in_list_def by (intro good_bind budget)

lemma good_if [budget]: "good N p \<Longrightarrow> good N q \<Longrightarrow> good N (if b then p else q)"
  by simp

lemma good_less: "good N m \<Longrightarrow> good (N - d) m"
  by (auto simp: good_def)

lemma good_peek_alone [budget]: "good N peek"
  by (simp add: good_def peek_def runs_ok_def)

lemma good_comparison [budget]: "runtime_ok u \<Longrightarrow> good N prim \<Longrightarrow> good N (comparison_with u prim)"
  unfolding comparison_with_def by (intro good_bind budget)

lemma good_logical_rest: "good N p \<Longrightarrow> N < n \<Longrightarrow> good N (logical_rest u k n p left)"
proof (induction n arbitrary: N left)
  case (Suc n)
  show ?case
  proof (cases N)
    case 0
    then show ?thesis by (auto simp: good_def wf_toks_def)
  next
    case (Suc M)
    have p: "good (N - 1) p" using Suc.prems(1) by (rule good_less)
    have "N - 1 < n" using Suc.prems(2) Suc by simp
    then have "good (N - 1) (logical_rest u k n p l)" for l by (rule Suc.IH [OF p])
    then show ?thesis using p by (simp, intro lookahead) (auto intro!: budget)
  qed
qed simp

lemma good_logical [budget]: "good N p \<Longrightarrow> good N (logical_with u k p)"
  unfolding logical_with_def
  by (rule good_bind, assumption, rule good_sget)
    (auto intro!: good_logical_rest dest: good_mono simp del: logical_rest.simps)

lemma good_expression_with [budget]:
  "runtime_ok u \<Longrightarrow> good N prim \<Longrightarrow> good N (expression_with u prim)"
  unfolding expression_with_def and_with_def by (intro budget)

text \<open>Only a parenthesis leads to a nested expression, so the recursion is bounded by the tokens.\<close>

lemma good_primary: "runtime_ok u \<Longrightarrow> N < n \<Longrightarrow> good N (primary u n)"
proof (induction n arbitrary: N)
  case (Suc n)
  show ?case
  proof (cases N)
    case 0
    then show ?thesis by (auto simp: good_def wf_toks_def)
  next
    case (Suc M)
    have "N - 1 < n" using Suc.prems(2) Suc by simp
    then have e: "good (N - 1) (expression_with u (primary u n))"
      by (intro budget Suc.IH Suc.prems(1))
    have num: "good M (slift (parse_number u x))" for x M
      by (rule good_pure(3)) (rule parse_number_fuel [OF Suc.prems(1)])
    show ?thesis
      unfolding primary.simps
      by (intro good_peek at_if; (rule good_at_intro, intro good_bind budget num perror_fuel; fail)?)
        (rule good_at_advance_bind, simp add: punct_not_eof, rule good_bind [OF e], intro good_bind budget)
  qed
qed simp

declare comma_rest.simps [simp del] logical_rest.simps [simp del] primary.simps [simp del]
declare join_loop.simps [simp del] constraint_loop.simps [simp del] statement.simps [simp del]

lemma good_own_length: "(\<And>n. good n (f n)) \<Longrightarrow> good N (\<lambda>ts. f (length ts) ts)"
  by (simp add: good_def runs_ok_def)

lemma good_parse_primary [budget]: "runtime_ok u \<Longrightarrow> good N (parse_primary u)"
  unfolding parse_primary_def by (rule good_own_length [of "\<lambda>n. primary u (n + 1)"]) (simp add: good_primary)

lemma good_parse_expression [budget]: "runtime_ok u \<Longrightarrow> good N (parse_expression u)"
  unfolding parse_expression_def
  by (rule good_own_length [of "\<lambda>n. expression_with u (primary u (n + 1))"])
    (simp add: good_expression_with good_primary)

section \<open>Statements\<close>

lemma good_optional_alias [budget]: "good N (parse_optional_alias u)"
  unfolding parse_optional_alias_def by (intro good_bind budget)

lemma eats_if: "eats N p \<Longrightarrow> eats N q \<Longrightarrow> eats N (if b then p else q)"
  by simp

text \<open>Each clause takes at least the word \<open>JOIN\<close>.\<close>

lemma eats_join_clause: "runtime_ok u \<Longrightarrow> eats N (parse_join_clause u)"
  unfolding parse_join_clause_def Let_def
  by (rule eats_bind_later [OF good_peek_alone], rule eats_bind,
      (rule eats_if eats_bind_later eats_expect_keyword good_advance)+)
    (intro good_bind budget, assumption?)

lemma good_join_loop: "runtime_ok u \<Longrightarrow> N < n \<Longrightarrow> good N (join_loop u n)"
proof (induction n arbitrary: N)
  case (Suc n)
  show ?case
  proof (cases N)
    case 0
    then show ?thesis by (auto simp: good_def wf_toks_def)
  next
    case (Suc M)
    have "N - 1 < n" using Suc.prems(2) Suc by simp
    then have "good (N - 1) (join_loop u n)" by (rule Suc.IH [OF Suc.prems(1)])
    then show ?thesis
      using Suc.prems(1) unfolding join_loop.simps match_join_start_def
      by (intro good_bind budget eats_good_bind eats_join_clause)
  qed
qed simp

lemma good_join_clauses [budget]: "runtime_ok u \<Longrightarrow> good N (parse_join_clauses u)"
  unfolding parse_join_clauses_def by (rule good_sget) (simp add: good_join_loop)

lemma good_constraint_loop: "N < n \<Longrightarrow> good N (constraint_loop u n)"
proof (induction n arbitrary: N)
  case (Suc n)
  show ?case
  proof (cases N)
    case 0
    then show ?thesis by (auto simp: good_def wf_toks_def)
  next
    case (Suc M)
    have "N - 1 < n" using Suc.prems Suc by simp
    then have "good (N - 1) (constraint_loop u n)" by (rule Suc.IH)
    then show ?thesis
      unfolding constraint_loop.simps
      by (intro good_peek at_if good_at_advance_bind)
        (auto intro!: good_bind budget good_at_intro dest: keyword_not_eof)
  qed
qed simp

lemma good_column_def [budget]: "good N (parse_column_def u)"
  unfolding parse_column_def_def
  by (intro good_bind budget good_sget) (simp add: good_constraint_loop)

lemma good_slift_int [budget]: "runtime_ok u \<Longrightarrow> good N (slift (py_int u s))"
  by (rule good_pure(3)) (rule py_int_fuel)

lemmas clause_defs = parse_where_def parse_by_list_def parse_opt_int_def parse_int_literal_def
  parse_from_def parse_assignment_def parse_value_tuple_def parse_group_expr_def parse_order_item_def
  parse_projection_def parse_column_ref_def

lemma good_projection [budget]: "runtime_ok u \<Longrightarrow> good N (parse_projection u)"
  unfolding clause_defs by (intro good_bind budget)

lemma good_statements [budget]:
  assumes "runtime_ok u"
  shows "good N (parse_create_table u)" "good N (parse_drop_table u)" "good N (parse_insert u)"
    "good N (parse_update u)" "good N (parse_delete u)" "good N (parse_tx_control u)"
  unfolding parse_create_table_def parse_drop_table_def parse_insert_def parse_update_def
    parse_delete_def parse_tx_control_def Let_def clause_defs
  by (intro good_bind budget assms perror_fuel)+

lemma good_prod [budget]: "(\<And>a b. good N (f a b)) \<Longrightarrow> good N (case x of (a, b) \<Rightarrow> f a b)"
  by (simp split: prod.split)

lemma good_column_ref [budget]: "good N parse_column_ref"
  unfolding clause_defs by (intro good_bind budget)

lemma good_group_order [budget]: "good N parse_group_expr" "good N (parse_order_item u)"
  unfolding clause_defs by (intro good_bind budget)+

lemma good_by_list [budget]: "good N p \<Longrightarrow> good N (parse_by_list u k p)"
  unfolding clause_defs by (intro good_bind budget)

lemma good_clauses [budget]:
  assumes "runtime_ok u"
  shows "good N (parse_from u)" "good N (parse_where u)" "good N (parse_opt_int u k)"
  unfolding clause_defs by (intro good_bind budget assms)+

lemma good_select [budget]: "runtime_ok u \<Longrightarrow> good N (parse_select u)"
  unfolding parse_select_def by (intro good_bind budget)

lemma good_at_explain:
  "good (N - 1) m \<Longrightarrow> tok_type t \<noteq> EOF \<Longrightarrow> good_at N t (sbind advance (\<lambda>_. sbind m (\<lambda>s. sret (Explain s))))"
  by (intro good_at_advance_bind good_bind budget)

lemma good_statement: "runtime_ok u \<Longrightarrow> N < n \<Longrightarrow> good N (statement u n)"
proof (induction n arbitrary: N)
  case (Suc n)
  show ?case
  proof (cases N)
    case 0
    then show ?thesis by (auto simp: good_def wf_toks_def)
  next
    case (Suc M)
    have "N - 1 < n" using Suc.prems(2) Suc by simp
    then have rest: "good (N - 1) (statement u n)" by (rule Suc.IH [OF Suc.prems(1)])
    note ok = Suc.prems(1)
    show ?thesis
      unfolding statement.simps Let_def
      by (intro good_peek at_if good_at_explain rest)
        ((rule good_at_intro, intro good_bind budget ok perror_fuel) | simp)+
  qed
qed simp

lemma good_parse_statement: "runtime_ok u \<Longrightarrow> good N (parse_statement u)"
  unfolding parse_statement_def
  by (rule good_own_length [of "\<lambda>n. statement u (n + 1)"]) (simp add: good_statement)

lemma parser_input_wf: "wf_toks (parser_input tokens)"
  by (simp add: wf_toks_def parser_input_def Let_def)

lemma if_fuel: "(b \<Longrightarrow> p \<noteq> Inl e) \<Longrightarrow> (\<not> b \<Longrightarrow> q \<noteq> Inl e) \<Longrightarrow> (if b then p else q) \<noteq> Inl e"
  by simp

lemma rbind_fuel: "r \<noteq> Inl OutOfFuel \<Longrightarrow> (\<And>x. f x \<noteq> Inl OutOfFuel) \<Longrightarrow> rbind r f \<noteq> Inl OutOfFuel"
  by (cases r) auto

lemma match_operator_length: "match_operator s = Some op \<Longrightarrow> Suc 0 \<le> length op"
  by (drule match_operator_Some) (cases op; simp)

lemma lex_fuel: "lex u s line col \<noteq> Inl OutOfFuel"
proof (induction "length s" arbitrary: s line col rule: less_induct)
  case less
  show ?case
  proof (cases s)
    case (Cons c rest)
    have later: "lex u r l k \<noteq> Inl OutOfFuel" if "length r \<le> length rest" for r l k
      using that Cons by (intro less) simp
    show ?thesis
      unfolding Cons lex.simps(2) [of u c rest] Let_def
      by (intro if_fuel)
        (auto intro!: rbind_fuel later simp: length_dropWhile_le le_diff_conv
          split: prod.split option.split dest: lex_string_length match_operator_length)
  qed simp
qed

lemma runs_ok_fuel: "runs_ok d m ts \<Longrightarrow> fst (m ts) \<noteq> Inl OutOfFuel"
  by (auto simp: runs_ok_def split: prod.splits sum.splits)

text \<open>C22: For every text, \<open>parse\<close> ends with a statement or with an exception of the program: none
  of its loops and no nesting of parentheses or EXPLAINs runs past the number of tokens.\<close>

theorem parse_total:
  assumes u: "runtime_ok u"
  shows "parse u sql \<noteq> Inl OutOfFuel"
proof -
  let ?p = "sbind (parse_statement u) (\<lambda>s. sbind (expect EOF None) (\<lambda>_. sret s))"
  have "good N ?p" for N
    by (intro good_bind budget good_parse_statement u)
  then have "runs_ok False ?p (parser_input ts)" for ts
    unfolding good_def using parser_input_wf by blast
  then have "fst (?p (parser_input ts)) \<noteq> Inl OutOfFuel" for ts
    by (rule runs_ok_fuel)
  then show ?thesis
    unfolding parse_def tokenize_def by (rule rbind_fuel [OF lex_fuel])
qed

lemma parse_total_witness: "parse ascii_runtime (str ''EXPLAIN SELECT'') \<noteq> Inl OutOfFuel"
  by (rule parse_total) simp

end
