(* ===== verification/Catalog.thy ===== *)
theory Catalog
  imports Storage Ast Runtime
begin

text \<open>
  tinydb/executor/catalog.py and ddl.py: the table directory. Its state is the dict of table
  metadata in memory and the store whose header page holds the encoded copy behind the 16
  bytes of file metadata. \<open>catalog_ok\<close> is the invariant: the copy read back from the store
  is the dict in memory.
\<close>

section \<open>Operations\<close>

record catalog =
  ct_store :: file_store
  ct_entries :: "(pystr, table_meta) dict"

type_synonym 'a ctx = "(catalog, py_error, 'a) sx"

text \<open>An operation of the store, as an operation on the object that holds it.\<close>

definition in_store :: "'a fsx \<Rightarrow> 'a ctx" where
  "in_store m c = (case m (ct_store c) of (r, st) \<Rightarrow> (r, c\<lparr>ct_store := st\<rparr>))"

definition CATALOG_OFFSET :: nat where
  "CATALOG_OFFSET = 16"

text \<open>What \<open>_load\<close> finds in the store: None where it leaves the dict as it is.\<close>

definition stored_catalog :: "file_store \<Rightarrow> py_error + (pystr, table_meta) dict option" where
  "stored_catalog st =
     (if page_count st < 1 then Inr None
      else
        rbind (read_page 0 st) (\<lambda>pg.
        let body = page_body pg in
        if length body < CATALOG_OFFSET then Inr None
        else
          let cat_len = le_dec (pyslice body CATALOG_OFFSET (CATALOG_OFFSET + 4)) in
          if cat_len = 0 then Inr None
          else
            let cat_raw = pyslice body (CATALOG_OFFSET + 4) (CATALOG_OFFSET + 4 + cat_len) in
            if cat_raw = [] then Inr None
            else rbind (decode_catalog cat_raw) (\<lambda>es.
              Inr (Some (dict_of (map (\<lambda>e. (tm_name e, e)) es))))))"

definition catalog_load :: "unit ctx" where
  "catalog_load =
     sbind (in_store (sread stored_catalog)) (\<lambda>r.
     smodify (\<lambda>c. case r of None \<Rightarrow> c | Some es \<Rightarrow> c\<lparr>ct_entries := es\<rparr>))"

definition open_catalog :: "file_store \<Rightarrow> py_error + catalog" where
  "open_catalog st =
     (case catalog_load \<lparr>ct_store = st, ct_entries = []\<rparr> of
        (Inl e, _) \<Rightarrow> Inl e | (Inr _, c) \<Rightarrow> Inr c)"

definition catalog_flush :: "unit ctx" where
  "catalog_flush =
     sbind sget (\<lambda>c.
     sbind (slift (encode_catalog (map snd (ct_entries c)))) (\<lambda>raw.
     sbind (in_store (sread (read_page 0))) (\<lambda>pg.
     let needed = CATALOG_OFFSET + 4 + length raw;
         body = page_body pg @ replicate (needed - length (page_body pg)) 0 in
     sbind (slift (if length raw < 256 ^ 4 then Inr (le_enc 4 (length raw)) else Inl OverflowError)) (\<lambda>len.
     let body' = slice_assign body CATALOG_OFFSET (CATALOG_OFFSET + 4) len;
         body'' = slice_assign body' (CATALOG_OFFSET + 4) (CATALOG_OFFSET + 4 + length raw) raw in
     sbind (in_store (write_page (pg\<lparr>page_body := body''\<rparr>))) (\<lambda>_.
     in_store fsync)))))"

definition create_table :: "pystr \<Rightarrow> schema \<Rightarrow> unit ctx" where
  "create_table name columns =
     sbind sget (\<lambda>c.
     if dict_has (ct_entries c) name
       then sraise (UniqueViolation (str ''TABLE_NAME'') name (UName name))
     else
       sbind (in_store (alloc_page TABLE)) (\<lambda>root.
       sbind (smodify (\<lambda>c. c\<lparr>ct_entries := dict_set name (mk_meta name root columns) (ct_entries c)\<rparr>)) (\<lambda>_.
       catalog_flush)))"

definition drop_table :: "pystr \<Rightarrow> unit ctx" where
  "drop_table name =
     sbind sget (\<lambda>c.
     case dict_get (ct_entries c) name of
       None \<Rightarrow> sraise (TableNotFound name)
     | Some meta \<Rightarrow>
         sbind (smodify (\<lambda>c. c\<lparr>ct_entries := dict_del name (ct_entries c)\<rparr>)) (\<lambda>_.
         sbind (in_store (free_page (root_page_id meta))) (\<lambda>_.
         catalog_flush)))"

definition get_table :: "pystr \<Rightarrow> (pystr, table_meta) dict \<Rightarrow> py_error + table_meta" where
  "get_table name es = (case dict_get es name of None \<Rightarrow> Inl (TableNotFound name) | Some m \<Rightarrow> Inr m)"

definition list_tables :: "(pystr, table_meta) dict \<Rightarrow> pystr list" where
  "list_tables es = dict_keys es"

definition replace_meta :: "table_meta \<Rightarrow> unit ctx" where
  "replace_meta meta =
     sbind (smodify (\<lambda>c. c\<lparr>ct_entries := dict_set (tm_name meta) meta (ct_entries c)\<rparr>)) (\<lambda>_.
     catalog_flush)"

section \<open>DDL statements\<close>

text \<open>\<open>_TYPE_MAP.get(t.upper())\<close>; an unknown type is reported at line 1, column 1.\<close>

definition column_of :: "runtime \<Rightarrow> column_def \<Rightarrow> py_error + pystr \<times> column_type" where
  "column_of u cd =
     (case column_type_of (py_upper u (cd_type cd)) of
        Inr t \<Rightarrow> Inr (cd_name cd, t)
      | Inl _ \<Rightarrow> Inl (ParseError (UnknownType (cd_type cd)) 1 1))"

definition exec_create_table :: "runtime \<Rightarrow> pystr \<Rightarrow> column_def list \<Rightarrow> unit ctx" where
  "exec_create_table u name cols =
     sbind (slift (rmap (column_of u) cols)) (\<lambda>columns. create_table name columns)"

definition exec_drop_table :: "pystr list \<Rightarrow> unit ctx" where
  "exec_drop_table names = sfor names drop_table"

section \<open>The invariant\<close>

definition keyed :: "(pystr, table_meta) dict \<Rightarrow> bool" where
  "keyed es \<longleftrightarrow> distinct (map fst es) \<and> (\<forall>(n, m) \<in> set es. tm_name m = n \<and> persisted m = m)"

lemma keyed_dict_of:
  assumes "keyed es"
  shows "dict_of (map (\<lambda>e. (tm_name e, e)) (map persisted (map snd es))) = es"
proof -
  have "map (\<lambda>e. (tm_name e, e)) (map persisted (map snd es)) = es"
    using assms by (induction es) (auto simp: keyed_def)
  then show ?thesis using assms by (simp add: keyed_def dict_of_distinct)
qed

text \<open>
  The stored copy of the entries \<open>es\<close> in the body of the header page: the metadata, the
  length of the copy, the copy, and any rest.
\<close>

definition holds_catalog :: "byte list \<Rightarrow> (pystr, table_meta) dict \<Rightarrow> bool" where
  "holds_catalog body es \<longleftrightarrow>
     (\<exists>raw rest. encode_catalog (map snd es) = Inr raw \<and> length raw < 256 ^ 4
        \<and> drop 16 body = le_enc 4 (length raw) @ raw @ rest)"

lemma encode_catalog_nonempty: "encode_catalog es = Inr raw \<Longrightarrow> 2 \<le> length raw"
  by (auto simp: encode_catalog_def)

lemma stored_catalog_holds:
  assumes "wf_store st" and "read_page 0 st = Inr pg" and "holds_catalog (page_body pg) es" and "keyed es"
  shows "stored_catalog st = Inr (Some es)"
proof -
  obtain raw rest where raw: "encode_catalog (map snd es) = Inr raw" "length raw < 256 ^ 4"
    and b: "drop 16 (page_body pg) = le_enc 4 (length raw) @ raw @ rest"
    using assms(3) by (auto simp: holds_catalog_def)
  have n: "2 \<le> length raw" by (rule encode_catalog_nonempty [OF raw(1)])
  have "length (drop 16 (page_body pg)) = 4 + length raw + length rest" by (simp only: b) simp
  then have l: "16 \<le> length (page_body pg)" using n by simp
  define pre where "pre = take 16 (page_body pg)"
  have pb: "page_body pg = pre @ le_enc 4 (length raw) @ raw @ rest" "length pre = 16"
    using b l append_take_drop_id [of 16 "page_body pg"] by (simp_all add: pre_def)
  have "pyslice (page_body pg) 16 20 = le_enc 4 (length raw)"
    and "pyslice (page_body pg) 20 (20 + length raw) = raw"
    by (simp_all add: pb pyslice_def)
  then show ?thesis
    using assms(1,2) n raw decode_encoded_catalog [OF raw(1), of "[]"] keyed_dict_of [OF assms(4)] l
      wf_storeD(4) [OF assms(1)]
    by (auto simp: stored_catalog_def CATALOG_OFFSET_def Let_def)
qed

definition roots :: "(pystr, table_meta) dict \<Rightarrow> nat list" where
  "roots es = map (root_page_id \<circ> snd) es"

text \<open>
  The store is well-formed with the free pages \<open>ps\<close>; names and root pages are distinct, no
  root page is free or the header; and the header page holds the entries, or nothing when no
  table has been created yet.
\<close>

definition catalog_ok :: "catalog \<Rightarrow> nat list \<Rightarrow> bool" where
  "catalog_ok c ps \<longleftrightarrow>
     wf_store (ct_store c) \<and> free_list (ct_store c) ps
     \<and> keyed (ct_entries c) \<and> distinct (roots (ct_entries c))
     \<and> (\<forall>p \<in> set (roots (ct_entries c)). 0 < p \<and> p < page_count (ct_store c) \<and> p \<notin> set ps)
     \<and> (\<exists>pg. read_page 0 (ct_store c) = Inr pg
          \<and> (holds_catalog (page_body pg) (ct_entries c)
             \<or> ct_entries c = [] \<and> drop 16 (page_body pg) = []))"

lemma stored_catalog_ok:
  assumes c: "catalog_ok c ps"
  shows "stored_catalog (ct_store c) = Inr (Some (ct_entries c))
    \<or> ct_entries c = [] \<and> stored_catalog (ct_store c) = Inr None"
proof -
  obtain pg where pg: "read_page 0 (ct_store c) = Inr pg"
    and h: "holds_catalog (page_body pg) (ct_entries c)
      \<or> ct_entries c = [] \<and> drop 16 (page_body pg) = []" and k: "keyed (ct_entries c)"
    and wf: "wf_store (ct_store c)" using c by (auto simp: catalog_ok_def)
  show ?thesis
    using h
  proof
    assume "holds_catalog (page_body pg) (ct_entries c)"
    then show ?thesis using stored_catalog_holds [OF wf pg _ k] by simp
  next
    assume "ct_entries c = [] \<and> drop 16 (page_body pg) = []"
    then show ?thesis using pg wf_storeD(4) [OF wf]
      by (simp add: stored_catalog_def CATALOG_OFFSET_def pyslice_def Let_def)
  qed
qed

lemma catalog_reload: "catalog_ok c ps \<Longrightarrow> open_catalog (ct_store c) = Inr c"
  using stored_catalog_ok [of c ps]
  by (auto simp: open_catalog_def catalog_load_def in_store_def sbind_def)

lemma two_slices:
  "16 \<le> length b \<Longrightarrow> length x = 4 \<Longrightarrow>
   slice_assign (slice_assign b 16 20 x) 20 (20 + length y) y = take 16 b @ x @ y @ drop (20 + length y) b"
  by (simp add: slice_assign_def add.commute)

lemma catalog_flush_ok:
  assumes wf: "wf_store (ct_store c)" and pg: "read_page 0 (ct_store c) = Inr pg"
    and raw: "encode_catalog (map snd (ct_entries c)) = Inr raw"
    and room: "20 + length raw \<le> capacity (ct_store c)"
  obtains st pg' where "catalog_flush c = (Inr (), c\<lparr>ct_store := st\<rparr>)" and "wf_store st"
    and "page_count st = page_count (ct_store c)" and "page_size st = page_size (ct_store c)"
    and "free_head st = free_head (ct_store c)"
    and "read_page 0 st = Inr pg'" and "holds_catalog (page_body pg') (ct_entries c)"
    and "\<And>q. 0 < q \<Longrightarrow> q < page_count (ct_store c) \<Longrightarrow> read_page q st = read_page q (ct_store c)"
proof -
  let ?st = "ct_store c" and ?n = "20 + length raw"
  let ?b = "page_body pg @ replicate (?n - length (page_body pg)) 0"
  let ?b' = "take 16 ?b @ le_enc 4 (length raw) @ raw @ drop ?n ?b"
  let ?pg = "pg\<lparr>page_body := ?b'\<rparr>"
  have id0: "page_id pg = 0" and sp: "storable (capacity ?st) pg"
    using fs.rd_ok [OF wf, of 0] pg wf_storeD(4) [OF wf] by (auto simp: has_page_def)
  have "capacity ?st < 256 ^ 4" using wf_storeD(3) [OF wf] by (simp add: capacity_def)
  then have l: "length raw < 256 ^ 4" using room by linarith
  have "length ?b' = length ?b" by simp
  moreover have "length ?b \<le> capacity ?st"
    using sp room by (cases "length (page_body pg) \<le> ?n") (auto simp: storable_def)
  ultimately have "length ?b' \<le> capacity ?st" by (simp only:)
  then have st: "storable (capacity ?st) ?pg" using sp by (simp add: storable_def)
  have p: "page_id ?pg < page_count ?st" using id0 wf_storeD(4) [OF wf] by simp
  obtain st' where st': "write_page ?pg ?st = (Inr (), st')" "wf_store st'"
      "page_count st' = page_count ?st" "page_size st' = page_size ?st" "free_head st' = free_head ?st"
      "read_page (page_id ?pg) st' = Inr ?pg"
      "\<And>q. q < page_count ?st \<Longrightarrow> q \<noteq> page_id ?pg \<Longrightarrow> read_page q st' = read_page q ?st"
    by (rule write_page_ok [OF wf p st]) blast
  have len16: "length (take 16 ?b) = 16" by simp
  have "slice_assign (slice_assign ?b 16 20 (le_enc 4 (length raw))) 20 ?n raw = ?b'"
    by (rule two_slices) simp_all
  then have "catalog_flush c = (Inr (), c\<lparr>ct_store := st'\<rparr>)"
    using raw pg l st'(1) wf_storeD(1) [OF st'(2)]
    by (simp add: catalog_flush_def in_store_def CATALOG_OFFSET_def Let_def fsync_def)
  moreover have "holds_catalog ?b' (ct_entries c)"
    unfolding holds_catalog_def using raw l len16 by (intro exI [of _ raw] exI [of _ "drop ?n ?b"]) simp
  ultimately show ?thesis using st' id0 by (intro that [of st' ?pg]) auto
qed

section \<open>Creating and dropping tables\<close>

lemma get_table_Inr: "get_table name es = Inr m \<longleftrightarrow> dict_get es name = Some m"
  by (auto simp: get_table_def split: option.splits)

lemma catalog_okD:
  assumes "catalog_ok c ps"
  shows "wf_store (ct_store c)" "free_list (ct_store c) ps" "keyed (ct_entries c)"
    "distinct (roots (ct_entries c))"
    "\<And>p. p \<in> set (roots (ct_entries c)) \<Longrightarrow> 0 < p \<and> p < page_count (ct_store c) \<and> p \<notin> set ps"
    "\<exists>pg. read_page 0 (ct_store c) = Inr pg"
  using assms by (auto simp: catalog_ok_def)

lemma free_list_flush:
  assumes fl: "free_list st ps" and h: "free_head st' = free_head st" "page_count st' = page_count st"
    and r: "\<And>q. 0 < q \<Longrightarrow> q < page_count st \<Longrightarrow> read_page q st' = read_page q st"
  shows "free_list st' ps"
proof -
  have ch: "free_chain st (free_head st) ps" using fl by (simp add: free_list_def)
  show ?thesis
    unfolding free_list_def h(1)
    by (rule free_chain_frame [OF ch]) (use h(2) r free_chain_bound [OF ch] in auto)
qed

lemma create_table_ok:
  assumes c: "catalog_ok c ps" and new: "\<not> dict_has (ct_entries c) name"
    and room: "page_count (ct_store c) + 1 < 256 ^ 4" and r: "alloc_result (ct_store c) ps = (root, ps', pc)"
    and raw: "encode_catalog (map snd (ct_entries c) @ [mk_meta name root columns]) = Inr raw"
    and cap: "20 + length raw \<le> capacity (ct_store c)"
  obtains c' where "create_table name columns c = (Inr (), c')" and "catalog_ok c' ps'"
    and "ct_entries c' = ct_entries c @ [(name, mk_meta name root columns)]"
    and "page_count (ct_store c') = pc"
    and "read_page root (ct_store c') = Inr (new_page root TABLE)"
    and "\<And>q. 0 < q \<Longrightarrow> q < page_count (ct_store c) \<Longrightarrow> q \<noteq> root \<Longrightarrow>
           read_page q (ct_store c') = read_page q (ct_store c)"
    and "capacity (ct_store c') = capacity (ct_store c)"
proof -
  note d = catalog_okD [OF c]
  obtain st where st: "alloc_page TABLE (ct_store c) = (Inr root, st)" "wf_store st" "page_count st = pc"
      "page_size st = page_size (ct_store c)" "free_list st ps'"
      "read_page root st = Inr (new_page root TABLE)"
    and fr: "\<And>q. q < page_count (ct_store c) \<Longrightarrow> q \<noteq> root \<Longrightarrow> read_page q st = read_page q (ct_store c)"
    by (rule alloc_page_ok [OF d(1,2) room r]) blast
  have root: "0 < root" "root < pc" "root \<notin> set (roots (ct_entries c))" "set ps' \<subseteq> set ps" "root \<notin> set ps'"
      "page_count (ct_store c) \<le> pc"
    using r free_chain_bound [of "ct_store c" "free_head (ct_store c)" ps] d(2,5) wf_storeD(4) [OF d(1)]
      free_chain_distinct [of "ct_store c" "free_head (ct_store c)" ps]
    by (fastforce simp: alloc_result_def free_list_def split: list.splits)+
  have fresh: "name \<notin> fst ` set (ct_entries c)" using new by (simp add: dict_has_def)
  let ?m = "mk_meta name root columns"
  let ?c = "c\<lparr>ct_store := st, ct_entries := ct_entries c @ [(name, ?m)]\<rparr>"
  obtain pg where "read_page 0 (ct_store c) = Inr pg" using d(6) by blast
  then have pg: "read_page 0 (ct_store ?c) = Inr pg" using fr [of 0] root(1) wf_storeD(4) [OF d(1)] by simp
  obtain st' pg' where st': "catalog_flush ?c = (Inr (), ?c\<lparr>ct_store := st'\<rparr>)" "wf_store st'"
      "page_count st' = page_count st" "page_size st' = page_size st" "free_head st' = free_head st"
      "read_page 0 st' = Inr pg'" "holds_catalog (page_body pg') (ct_entries ?c)"
    and fr': "\<And>q. 0 < q \<Longrightarrow> q < page_count st \<Longrightarrow> read_page q st' = read_page q st"
    by (rule catalog_flush_ok [of ?c pg raw])
      (use st(2,4) pg raw cap in \<open>simp_all add: capacity_def\<close>)
  let ?c' = "?c\<lparr>ct_store := st'\<rparr>"
  have "create_table name columns c = (Inr (), ?c')"
    using new st(1) st'(1) fresh by (simp add: create_table_def in_store_def dict_set_new)
  moreover have "free_list st' ps'" by (rule free_list_flush [OF st(5) st'(5,3) fr'])
  then have "catalog_ok ?c' ps'"
    using st' st(3) root d(3,4,5) fresh
    by (fastforce simp: catalog_ok_def keyed_def roots_def mk_meta_def persisted_def image_iff)
  moreover have "read_page root st' = Inr (new_page root TABLE)"
    using fr' [OF root(1)] root(2) st(3,6) by simp
  ultimately show ?thesis
    using fr fr' st(3,4) st'(3,4) root(6) by (intro that [of ?c']) (auto simp: capacity_def)
qed

lemma encode_entries_filter:
  "encode_entries es = Inr bs \<Longrightarrow>
   \<exists>bs'. encode_entries (filter P es) = Inr bs' \<and> length bs' \<le> length bs"
  by (induction es arbitrary: bs) fastforce+

lemma encode_catalog_filter:
  assumes "encode_catalog es = Inr bs"
  shows "\<exists>bs'. encode_catalog (filter P es) = Inr bs' \<and> length bs' \<le> length bs"
proof -
  from assms obtain eb where "length es < 256 ^ 2" and eb: "encode_entries es = Inr eb"
    and bs: "bs = le_enc 2 (length es) @ eb" by (auto simp: encode_catalog_def)
  obtain eb' where "encode_entries (filter P es) = Inr eb'" "length eb' \<le> length eb"
    using encode_entries_filter [OF eb] by blast
  moreover have "length (filter P es) < 256 ^ 2" using \<open>length es < 256 ^ 2\<close> length_filter_le le_less_trans by blast
  ultimately show ?thesis using bs by (simp add: encode_catalog_def)
qed

lemma dict_del_filter: "dict_del k d = filter (\<lambda>x. fst x \<noteq> k) d"
  by (induction d) auto

lemma keyed_del_values:
  "keyed es \<Longrightarrow> map snd (dict_del k es) = filter (\<lambda>m. tm_name m \<noteq> k) (map snd es)"
  by (induction es) (auto simp: keyed_def)

lemma roots_del:
  assumes "distinct (roots es)" and "distinct (map fst es)" and "(k, m) \<in> set es"
  shows "distinct (roots (dict_del k es))" and "set (roots (dict_del k es)) \<subseteq> set (roots es) - {root_page_id m}"
proof -
  show "distinct (roots (dict_del k es))"
    using assms(1) by (simp add: roots_def dict_del_filter distinct_map_filter)
  have "root_page_id m' \<noteq> root_page_id m" if "(n, m') \<in> set es" "n \<noteq> k" for n m'
    using assms(1,3) that by (fastforce simp: roots_def distinct_map inj_on_def)
  then show "set (roots (dict_del k es)) \<subseteq> set (roots es) - {root_page_id m}"
    by (fastforce simp: roots_def dict_del_filter)
qed

lemma keyed_del: "keyed es \<Longrightarrow> keyed (dict_del k es)"
  by (auto simp: keyed_def dict_del_filter distinct_map_filter)

lemma drop_table_ok:
  assumes c: "catalog_ok c ps" and m: "dict_get (ct_entries c) name = Some m"
  obtains c' where "drop_table name c = (Inr (), c')" and "catalog_ok c' (root_page_id m # ps)"
    and "ct_entries c' = dict_del name (ct_entries c)"
    and "page_count (ct_store c') = page_count (ct_store c)"
    and "\<And>q. 0 < q \<Longrightarrow> q < page_count (ct_store c) \<Longrightarrow> q \<noteq> root_page_id m \<Longrightarrow>
           read_page q (ct_store c') = read_page q (ct_store c)"
proof -
  note d = catalog_okD [OF c]
  let ?root = "root_page_id m" and ?es = "dict_del name (ct_entries c)"
  have mem: "(name, m) \<in> set (ct_entries c)" using m by (rule map_of_SomeD)
  then have "?root \<in> set (roots (ct_entries c))" by (force simp: roots_def)
  from d(5) [OF this] have root: "0 < ?root" "?root < page_count (ct_store c)" "?root \<notin> set ps" by auto
  obtain st where st: "free_page ?root (ct_store c) = (Inr (), st)" "wf_store st"
      "page_count st = page_count (ct_store c)" "page_size st = page_size (ct_store c)"
      "free_list st (?root # ps)"
    and fr: "\<And>q. q < page_count (ct_store c) \<Longrightarrow> q \<noteq> ?root \<Longrightarrow> read_page q st = read_page q (ct_store c)"
    by (rule free_page_ok [OF d(1) root(1,2) d(2) root(3)]) blast
  let ?c = "c\<lparr>ct_entries := ?es, ct_store := st\<rparr>"
  from c mem obtain pg where pg0: "read_page 0 (ct_store c) = Inr pg"
    and h: "holds_catalog (page_body pg) (ct_entries c)" by (auto simp: catalog_ok_def)
  have pg: "read_page 0 (ct_store ?c) = Inr pg" using fr [of 0] pg0 root wf_storeD(4) [OF d(1)] by simp
  obtain raw rest where raw: "encode_catalog (map snd (ct_entries c)) = Inr raw"
    and b: "drop 16 (page_body pg) = le_enc 4 (length raw) @ raw @ rest"
    using h by (auto simp: holds_catalog_def)
  have "length (drop 16 (page_body pg)) = 4 + length raw + length rest" by (simp only: b) simp
  moreover have "length (page_body pg) \<le> capacity (ct_store c)"
    using read_page_storable [OF pg0] by (simp add: storable_def)
  ultimately have room: "20 + length raw \<le> capacity (ct_store c)"
    using encode_catalog_nonempty [OF raw] by simp
  obtain raw' where raw': "encode_catalog (map snd ?es) = Inr raw'" "length raw' \<le> length raw"
    using encode_catalog_filter [OF raw] keyed_del_values [OF d(3)] by metis
  obtain st' pg' where st': "catalog_flush ?c = (Inr (), ?c\<lparr>ct_store := st'\<rparr>)" "wf_store st'"
      "page_count st' = page_count st" "page_size st' = page_size st" "free_head st' = free_head st"
      "read_page 0 st' = Inr pg'" "holds_catalog (page_body pg') (ct_entries ?c)"
    and fr': "\<And>q. 0 < q \<Longrightarrow> q < page_count st \<Longrightarrow> read_page q st' = read_page q st"
    by (rule catalog_flush_ok [of ?c pg raw'])
      (use st(2,4) pg raw' room in \<open>simp_all add: capacity_def\<close>)
  let ?c' = "?c\<lparr>ct_store := st'\<rparr>"
  have "drop_table name c = (Inr (), ?c')"
    using m st(1) st'(1) by (simp add: drop_table_def in_store_def)
  moreover have "free_list st' (?root # ps)" by (rule free_list_flush [OF st(5) st'(5,3) fr'])
  then have "catalog_ok ?c' (?root # ps)"
    using st' st(3) root d(5) roots_del [OF d(4) _ mem] keyed_del [OF d(3)] d(3)
    by (auto simp: catalog_ok_def keyed_def)
  ultimately show ?thesis
    using fr fr' st(3) st'(3) by (intro that [of ?c']) auto
qed

lemma get_table_other:
  "n \<noteq> k \<Longrightarrow> get_table n (dict_del k es) = get_table n es"
  "get_table k (dict_del k es) = Inl (TableNotFound k)"
  "n \<noteq> k \<Longrightarrow> get_table n (es @ [(k, m)]) = get_table n es"
  "\<not> dict_has es k \<Longrightarrow> get_table k (es @ [(k, m)]) = Inr m"
  by (simp_all add: get_table_def dict_get_del dict_has_iff map_add_def split: option.split)

text \<open>
  C34: Where the catalog in memory is the one that page 0 holds, and the tables have pages of their own that are
  not in the chain of free pages (\<open>catalog_ok\<close>), creating a table under a new name gives it an empty page of its own, leaves
  every other page of data and every other table as it was, and writes a catalog from which a
  database that loads it finds exactly the tables in memory. The catalog with the new table fits
  page 0, which the code does not check, and the number of pages its 32 bits. After a rolled back
  DROP the chain of free pages may hold the page of a table, so that the first condition fails.
\<close>

theorem create_table_persists:
  assumes "catalog_ok c ps" and "\<not> dict_has (ct_entries c) name"
    and "page_count (ct_store c) + 1 < 256 ^ 4" and "alloc_result (ct_store c) ps = (root, ps', pc)"
    and "encode_catalog (map snd (ct_entries c) @ [mk_meta name root columns]) = Inr raw"
    and "20 + length raw \<le> capacity (ct_store c)"
  shows "\<exists>c'. create_table name columns c = (Inr (), c') \<and> catalog_ok c' ps'
    \<and> get_table name (ct_entries c') = Inr (mk_meta name root columns)
    \<and> (\<forall>n. n \<noteq> name \<longrightarrow> get_table n (ct_entries c') = get_table n (ct_entries c))
    \<and> open_catalog (ct_store c') = Inr c'
    \<and> read_page root (ct_store c') = Inr (new_page root TABLE)
    \<and> (\<forall>q. 0 < q \<longrightarrow> q < page_count (ct_store c) \<longrightarrow> q \<noteq> root \<longrightarrow>
         read_page q (ct_store c') = read_page q (ct_store c))"
proof -
  obtain c' where c': "create_table name columns c = (Inr (), c')" "catalog_ok c' ps'"
    "ct_entries c' = ct_entries c @ [(name, mk_meta name root columns)]"
    "read_page root (ct_store c') = Inr (new_page root TABLE)"
    "\<And>q. 0 < q \<Longrightarrow> q < page_count (ct_store c) \<Longrightarrow> q \<noteq> root \<Longrightarrow>
       read_page q (ct_store c') = read_page q (ct_store c)"
    by (rule create_table_ok [OF assms]) blast
  then show ?thesis
    using catalog_reload [OF c'(2)] assms(2) by (auto simp: get_table_other)
qed


lemma catalog_reopen_ok:
  assumes c: "catalog_ok c ps"
  shows "\<exists>st1 st2. close_store (ct_store c) = (Inr (), st1)
    \<and> open_file (fs_file st1) (page_size (ct_store c)) = Inr st2
    \<and> open_catalog st2 = Inr (c\<lparr>ct_store := st2\<rparr>) \<and> wf_store st2
    \<and> (\<forall>q. 0 < q \<longrightarrow> q < page_count (ct_store c) \<longrightarrow> read_page q st2 = read_page q (ct_store c))"
proof -
  note d = catalog_okD [OF c]
  from c obtain pg where pg: "read_page 0 (ct_store c) = Inr pg"
    and h: "holds_catalog (page_body pg) (ct_entries c)
      \<or> ct_entries c = [] \<and> drop 16 (page_body pg) = []" by (auto simp: catalog_ok_def)
  obtain st1 st2 b where st: "close_store (ct_store c) = (Inr (), st1)"
    "open_file (fs_file st1) (page_size (ct_store c)) = Inr st2"
    "wf_store st2" "free_list st2 ps" "page_count st2 = page_count (ct_store c)"
    and fr: "\<forall>q. 0 < q \<longrightarrow> q < page_count (ct_store c) \<longrightarrow> read_page q st2 = read_page q (ct_store c)"
    and z: "read_page 0 st2 = Inr \<lparr>page_id = 0, page_kind = HEADER, page_lsn = 0, page_body = b\<rparr>"
      "drop 16 b = drop 16 (page_body pg)"
    using close_reopen_ok [OF d(1,2) pg] by blast
  have "catalog_ok (c\<lparr>ct_store := st2\<rparr>) ps"
    using c st z h d(5) by (auto simp: catalog_ok_def holds_catalog_def)
  then show ?thesis using st fr catalog_reload by fastforce
qed

text \<open>
  C36: Where the catalog in memory is the one that page 0 holds, and the tables have pages of their own that are
  not in the chain of free pages (\<open>catalog_ok\<close>), a database that is closed and opened again has the same tables, and the same
  pages of data under them. A catalog that was cut off because it did not fit page 0, or that
  still has a table whose creation was rolled back, is not the stored one.
\<close>

theorem catalog_survives_reopen:
  assumes c: "catalog_ok c ps"
  shows "\<exists>st1 st2. close_store (ct_store c) = (Inr (), st1)
    \<and> open_file (fs_file st1) (page_size (ct_store c)) = Inr st2
    \<and> open_catalog st2 = Inr (c\<lparr>ct_store := st2\<rparr>)
    \<and> (\<forall>q. 0 < q \<longrightarrow> q < page_count (ct_store c) \<longrightarrow> read_page q st2 = read_page q (ct_store c))"
  using catalog_reopen_ok [OF c] by blast

section \<open>A concrete catalog\<close>

definition demo_catalog :: catalog where
  "demo_catalog = \<lparr>ct_store = demo_store, ct_entries = []\<rparr>"

lemma demo_catalog_ok: "catalog_ok demo_catalog []"
  using demo_store_facts(1,2,6) by (auto simp: catalog_ok_def demo_catalog_def keyed_def roots_def)

lemma demo_create:
  shows "\<not> dict_has (ct_entries demo_catalog) (str ''t'')"
    and "page_count (ct_store demo_catalog) + 1 < 256 ^ 4"
    and "alloc_result (ct_store demo_catalog) [] = (2, [], 3)"
    and "\<exists>raw. encode_catalog (map snd (ct_entries demo_catalog) @ [mk_meta (str ''t'') 2 [(str ''id'', T_INT)]])
          = Inr raw \<and> 20 + length raw \<le> capacity (ct_store demo_catalog)"
  by (simp_all add: demo_catalog_def demo_store_facts alloc_result_def dict_has_def demo_capacity
      encode_catalog_def mk_meta_def encode_name_def is_scalar_def is_surrogate_def utf8_char_def str_def)

lemma create_table_persists_witness:
  "\<exists>c'. create_table (str ''t'') [(str ''id'', T_INT)] demo_catalog = (Inr (), c')
     \<and> get_table (str ''t'') (ct_entries c') = Inr (mk_meta (str ''t'') 2 [(str ''id'', T_INT)])
     \<and> open_catalog (ct_store c') = Inr c'"
  using create_table_persists [OF demo_catalog_ok demo_create(1-3)] demo_create(4) by blast

lemma catalog_survives_reopen_witness:
  "\<exists>st1 st2. close_store demo_store = (Inr (), st1) \<and> open_file (fs_file st1) 512 = Inr st2
     \<and> open_catalog st2 = Inr (demo_catalog\<lparr>ct_store := st2\<rparr>)"
  using catalog_survives_reopen [OF demo_catalog_ok] by (auto simp: demo_catalog_def demo_store_facts)


end
