(* ===== verification/Heap.thy ===== *)
theory Heap
  imports Storage
begin

text \<open>
  tinydb/heap.py: a table's rows on its single page, \<open>[row_count u16]\<close> and for each row
  \<open>[row_length u32][deleted u8][row data]\<close>. The operations work on the bytes of the page;
  \<open>heap_rel\<close> relates a page to the abstract heap, a list of rows with a rowid, an alive
  flag, values and the room they occupy, on which each operation has a short meaning.
\<close>

section \<open>The operations on the bytes\<close>

record heap =
  hp_root :: nat
  hp_schema :: schema

definition read_count :: "byte list \<Rightarrow> nat \<times> byte list" where
  "read_count body = (if length body < 2 then (0, []) else (le_dec (take 2 body), body))"

definition heap_append :: "heap \<Rightarrow> pyval list \<Rightarrow> nat fsx" where
  "heap_append h values =
     sbind (sread (read_page (hp_root h))) (\<lambda>pg.
     let (count, body) = read_count (page_body pg); rowid = count + 1 in
     sbind (slift (encode_row values (hp_schema h) rowid)) (\<lambda>row_data.
     sbind (slift (pack_H (count + 1))) (\<lambda>c.
     sbind (slift (pack_I (length row_data + 1))) (\<lambda>l.
     sbind (write_page (pg\<lparr>page_body := c @ drop 2 body @ l @ [0] @ row_data\<rparr>)) (\<lambda>_.
     sret rowid)))))"

fun scan_rows ::
  "nat \<Rightarrow> byte list \<Rightarrow> nat \<Rightarrow> schema \<Rightarrow> py_error + (nat \<times> pyval list) list" where
  "scan_rows 0 body offset sch = Inr []"
| "scan_rows (Suc k) body offset sch =
     rbind (unpack_I (pyslice body offset (offset + 4))) (\<lambda>row_len.
     let row_bytes = pyslice body (offset + 4) (offset + 4 + row_len);
         deleted = take 1 row_bytes; row = drop 1 row_bytes in
     if deleted = [0] then
       rbind (decode_rowid row) (\<lambda>rowid.
       rbind (decode_row row sch) (\<lambda>values.
       rbind (scan_rows k body (offset + 4 + row_len) sch) (\<lambda>rows.
       Inr ((rowid, values) # rows))))
     else scan_rows k body (offset + 4 + row_len) sch)"

definition heap_scan :: "heap \<Rightarrow> file_store \<Rightarrow> py_error + (nat \<times> pyval list) list" where
  "heap_scan h st =
     rbind (read_page (hp_root h) st) (\<lambda>pg.
     let (count, body) = read_count (page_body pg) in scan_rows count body 2 (hp_schema h))"

text \<open>
  The loop of \<open>delete\<close> and \<open>update\<close>: the first row with the given rowid, deleted or not,
  as the offset of its length field and its bytes (flag and data).
\<close>

fun find_row ::
  "nat \<Rightarrow> byte list \<Rightarrow> nat \<Rightarrow> nat \<Rightarrow> py_error + (nat \<times> byte list) option" where
  "find_row 0 body offset rowid = Inr None"
| "find_row (Suc k) body offset rowid =
     rbind (unpack_I (pyslice body offset (offset + 4))) (\<lambda>row_len.
     let row_bytes = pyslice body (offset + 4) (offset + 4 + row_len) in
     rbind (decode_rowid (drop 1 row_bytes)) (\<lambda>r.
     if r = rowid then Inr (Some (offset, row_bytes))
     else find_row k body (offset + 4 + row_len) rowid))"

definition heap_delete :: "heap \<Rightarrow> nat \<Rightarrow> unit fsx" where
  "heap_delete h rowid =
     sbind (sread (read_page (hp_root h))) (\<lambda>pg.
     let body = page_body pg in
     sbind (slift (unpack_H (take 2 body))) (\<lambda>count.
     sbind (slift (find_row count body 2 rowid)) (\<lambda>found.
     case found of
       None \<Rightarrow> sret ()
     | Some (offset, row_bytes) \<Rightarrow>
         write_page (pg\<lparr>page_body := body[offset + 4 := 1]\<rparr>))))"

text \<open>
  \<open>update\<close>: in place when the new row data is not longer than the old, with the rest of
  the room zeroed; else the old row is flagged and the new one appended with its rowid.
\<close>

definition update_body :: "byte list \<Rightarrow> nat \<Rightarrow> nat \<Rightarrow> byte list \<Rightarrow> byte list \<Rightarrow> py_error + byte list" where
  "update_body body count offset row_bytes new_row_data =
     (let row_data = drop 1 row_bytes; new_len = length new_row_data; start = offset + 4 in
      if new_len \<le> length row_data then
        rbind (pack_I (length row_bytes)) (\<lambda>l.
        let b1 = slice_assign body offset (offset + 4) l;
            b2 = slice_assign b1 start (start + 1) [0];
            b3 = slice_assign b2 (start + 1) (start + 1 + new_len) new_row_data;
            pad_start = start + 1 + new_len; pad_end = start + length row_bytes in
        Inr (slice_assign b3 pad_start pad_end (replicate (pad_end - pad_start) 0)))
      else
        rbind (pack_I (new_len + 1)) (\<lambda>l.
        rbind (pack_H (count + 1)) (\<lambda>c.
        Inr (slice_assign (body[start := 1] @ l @ [0] @ new_row_data) 0 2 c))))"

definition heap_update :: "heap \<Rightarrow> nat \<Rightarrow> pyval list \<Rightarrow> unit fsx" where
  "heap_update h rowid values =
     sbind (sread (read_page (hp_root h))) (\<lambda>pg.
     let body = page_body pg in
     sbind (slift (unpack_H (take 2 body))) (\<lambda>count.
     sbind (slift (find_row count body 2 rowid)) (\<lambda>found.
     case found of
       None \<Rightarrow> sret ()
     | Some (offset, row_bytes) \<Rightarrow>
         sbind (slift (encode_row values (hp_schema h) rowid)) (\<lambda>new_row_data.
         sbind (slift (update_body body count offset row_bytes new_row_data)) (\<lambda>body'.
         write_page (pg\<lparr>page_body := body'\<rparr>))))))"

text \<open>\<open>Heap.close\<close> is an \<open>fsync\<close>.\<close>

definition heap_close :: "heap \<Rightarrow> unit fsx" where
  "heap_close h = fsync"

section \<open>The entries of a page\<close>

text \<open>An entry is the deletion flag and the row data.\<close>

type_synonym entry = "byte \<times> byte list"

definition enc_entry :: "entry \<Rightarrow> byte list" where
  "enc_entry e = le_enc 4 (length (snd e) + 1) @ fst e # snd e"

definition entries_bytes :: "entry list \<Rightarrow> byte list" where
  "entries_bytes es = concat (map enc_entry es)"

definition heap_bytes :: "entry list \<Rightarrow> byte list" where
  "heap_bytes es = le_enc 2 (length es) @ entries_bytes es"

definition entry_ok :: "entry \<Rightarrow> bool" where
  "entry_ok e \<longleftrightarrow> length (snd e) + 1 < 256 ^ 4 \<and> 8 \<le> length (snd e)"

lemma length_enc_entry [simp]: "length (enc_entry e) = 5 + length (snd e)"
  by (simp add: enc_entry_def)

lemma entries_bytes_simps [simp]:
  "entries_bytes [] = []"
  "entries_bytes (e # es) = enc_entry e @ entries_bytes es"
  "entries_bytes (es @ fs) = entries_bytes es @ entries_bytes fs"
  by (simp_all add: entries_bytes_def)

text \<open>The length field and the bytes of an entry, read at its offset.\<close>

lemma entry_at:
  assumes "length (snd e) + 1 < 256 ^ 4" and "length pre = off"
  shows "unpack_I (pyslice (pre @ enc_entry e @ post) off (off + 4)) = Inr (length (snd e) + 1)"
    and "pyslice (pre @ enc_entry e @ post) (off + 4) (off + 4 + (length (snd e) + 1))
           = fst e # snd e"
proof -
  have "unpack_I (pyslice (pre @ le_enc 4 (length (snd e) + 1) @ (fst e # snd e) @ post) off (off + 4))
      = Inr (length (snd e) + 1)"
    by (rule uint.read_field_at) (use assms in simp_all)
  then show "unpack_I (pyslice (pre @ enc_entry e @ post) off (off + 4)) = Inr (length (snd e) + 1)"
    by (simp add: enc_entry_def)
  show "pyslice (pre @ enc_entry e @ post) (off + 4) (off + 4 + (length (snd e) + 1)) = fst e # snd e"
    using assms(2) by (simp add: enc_entry_def pyslice_def)
qed

text \<open>What a scan of the entries returns, and the position of the first entry with a rowid.\<close>

fun scan_entries :: "schema \<Rightarrow> entry list \<Rightarrow> py_error + (nat \<times> pyval list) list" where
  "scan_entries sch [] = Inr []"
| "scan_entries sch (e # es) =
     (if fst e = 0 then
        rbind (decode_rowid (snd e)) (\<lambda>rowid.
        rbind (decode_row (snd e) sch) (\<lambda>values.
        rbind (scan_entries sch es) (\<lambda>rows. Inr ((rowid, values) # rows))))
      else scan_entries sch es)"

lemma scan_rows_entries:
  "\<forall>e \<in> set es. entry_ok e \<Longrightarrow> length pre = off \<Longrightarrow>
   scan_rows (length es) (pre @ entries_bytes es @ post) off sch = scan_entries sch es"
proof (induction es arbitrary: pre off)
  case (Cons e es)
  from Cons.prems have l: "length (snd e) + 1 < 256 ^ 4" by (simp add: entry_ok_def)
  have IH: "scan_rows (length es) ((pre @ enc_entry e) @ entries_bytes es @ post)
      (off + 4 + (length (snd e) + 1)) sch = scan_entries sch es"
    by (rule Cons.IH) (use Cons.prems in auto)
  show ?case
    using entry_at [OF l Cons.prems(2), of "entries_bytes es @ post"] IH by (simp add: Let_def)
qed simp

definition entry_rowid :: "entry \<Rightarrow> nat" where
  "entry_rowid e = le_dec (take 8 (snd e))"

lemma entry_ok_rowid: "entry_ok e \<Longrightarrow> decode_rowid (snd e) = Inr (entry_rowid e)"
  by (simp add: entry_ok_def decode_rowid_def entry_rowid_def unpack_uint_def)

lemma find_row_step:
  assumes "entry_ok e" and "length pre = off"
  shows "find_row (Suc k) (pre @ enc_entry e @ post) off r =
     (if entry_rowid e = r then Inr (Some (off, fst e # snd e))
      else find_row k (pre @ enc_entry e @ post) (off + length (enc_entry e)) r)"
proof -
  have l: "length (snd e) + 1 < 256 ^ 4" using assms(1) by (simp add: entry_ok_def)
  show ?thesis
    using entry_at [OF l assms(2), of post] entry_ok_rowid [OF assms(1)]
    by (simp add: Let_def ac_simps del: rbind_eq_Inr)
qed

declare find_row.simps(2) [simp del]

lemma find_row_skip:
  "\<forall>x \<in> set as. entry_ok x \<and> entry_rowid x \<noteq> r \<Longrightarrow> length pre = off \<Longrightarrow>
   find_row (length as + k) (pre @ entries_bytes as @ post) off r
     = find_row k (pre @ entries_bytes as @ post) (off + length (entries_bytes as)) r"
proof (induction as arbitrary: pre off)
  case (Cons a as)
  have "find_row (length as + k) ((pre @ enc_entry a) @ entries_bytes as @ post)
      (off + length (enc_entry a)) r
      = find_row k ((pre @ enc_entry a) @ entries_bytes as @ post)
      (off + length (enc_entry a) + length (entries_bytes as)) r"
    by (rule Cons.IH) (use Cons.prems in auto)
  with Cons.prems find_row_step [of a pre off "length as + k" "entries_bytes as @ post" r]
  show ?case by (simp add: add.assoc)
qed simp

lemma find_row_absent:
  assumes "\<forall>e \<in> set es. entry_ok e \<and> entry_rowid e \<noteq> r" and "length pre = off"
  shows "find_row (length es) (pre @ entries_bytes es @ post) off r = Inr None"
  using find_row_skip [OF assms, of 0 post] by simp

lemma find_row_first:
  assumes "\<forall>x \<in> set as. entry_ok x \<and> entry_rowid x \<noteq> r" and "entry_ok e"
    and "entry_rowid e = r" and "length pre = off"
  shows "find_row (length as + Suc n) (pre @ entries_bytes as @ enc_entry e @ post) off r
     = Inr (Some (off + length (entries_bytes as), fst e # snd e))"
proof -
  have "find_row (Suc n) ((pre @ entries_bytes as) @ enc_entry e @ post)
      (off + length (entries_bytes as)) r
      = Inr (Some (off + length (entries_bytes as), fst e # snd e))"
    using find_row_step [OF assms(2), of "pre @ entries_bytes as" "off + length (entries_bytes as)"]
      assms(3,4) by simp
  with find_row_skip [OF assms(1,4), of "Suc n" "enc_entry e @ post"] show ?thesis by simp
qed

section \<open>The abstract heap\<close>

text \<open>
  A row of the abstract heap: rowid, alive flag, the values a scan returns, and the number
  of data bytes its entry occupies.
\<close>

record hrow =
  hr_rowid :: nat
  hr_alive :: bool
  hr_values :: "pyval list"
  hr_room :: nat

definition visible :: "hrow list \<Rightarrow> (nat \<times> pyval list) list" where
  "visible rows = map (\<lambda>r. (hr_rowid r, hr_values r)) (filter hr_alive rows)"

text \<open>The size of a row's data when it is written.\<close>

definition row_size :: "schema \<Rightarrow> pyval list \<Rightarrow> nat" where
  "row_size sch values = (case encode_row values sch 0 of Inl _ \<Rightarrow> 0 | Inr bs \<Rightarrow> length bs)"

definition fresh_row :: "schema \<Rightarrow> nat \<Rightarrow> pyval list \<Rightarrow> hrow" where
  "fresh_row sch rowid values =
     \<lparr>hr_rowid = rowid, hr_alive = True, hr_values = map stored values,
      hr_room = row_size sch values\<rparr>"

definition abs_append :: "schema \<Rightarrow> pyval list \<Rightarrow> hrow list \<Rightarrow> hrow list" where
  "abs_append sch values rows = rows @ [fresh_row sch (length rows + 1) values]"

text \<open>Deletion flags the first row with the rowid, whether it is alive or not.\<close>

fun abs_delete :: "nat \<Rightarrow> hrow list \<Rightarrow> hrow list" where
  "abs_delete rowid [] = []"
| "abs_delete rowid (r # rows) =
     (if hr_rowid r = rowid then r\<lparr>hr_alive := False\<rparr> # rows else r # abs_delete rowid rows)"

text \<open>
  Update overwrites the first row with the rowid, reviving it, if the new data fits its
  room; else it flags that row and returns the new one to be appended.
\<close>

fun abs_update_at :: "schema \<Rightarrow> nat \<Rightarrow> pyval list \<Rightarrow> hrow list \<Rightarrow> hrow list \<times> hrow list" where
  "abs_update_at sch rowid values [] = ([], [])"
| "abs_update_at sch rowid values (r # rows) =
     (if hr_rowid r = rowid then
        (if row_size sch values \<le> hr_room r then
           ((fresh_row sch rowid values)\<lparr>hr_room := hr_room r\<rparr> # rows, [])
         else (r\<lparr>hr_alive := False\<rparr> # rows, [fresh_row sch rowid values]))
      else (case abs_update_at sch rowid values rows of (rs, new) \<Rightarrow> (r # rs, new)))"

definition abs_update :: "schema \<Rightarrow> nat \<Rightarrow> pyval list \<Rightarrow> hrow list \<Rightarrow> hrow list" where
  "abs_update sch rowid values rows =
     (case abs_update_at sch rowid values rows of (rs, new) \<Rightarrow> rs @ new)"

text \<open>The bytes an abstract heap occupies on its page.\<close>

definition heap_room :: "hrow list \<Rightarrow> nat" where
  "heap_room rows = 2 + sum_list (map (\<lambda>r. 5 + hr_room r) rows)"

section \<open>The relation between a page and an abstract heap\<close>

definition entry_rel :: "schema \<Rightarrow> entry \<Rightarrow> hrow \<Rightarrow> bool" where
  "entry_rel sch e r \<longleftrightarrow>
     entry_ok e \<and> entry_rowid e = hr_rowid r \<and> (fst e = 0 \<longleftrightarrow> hr_alive r)
     \<and> decode_row (snd e) sch = Inr (hr_values r) \<and> length (snd e) = hr_room r"

definition body_rel :: "schema \<Rightarrow> byte list \<Rightarrow> hrow list \<Rightarrow> bool" where
  "body_rel sch body rows \<longleftrightarrow>
     length rows < 256 ^ 2
     \<and> (body = [] \<and> rows = []
        \<or> (\<exists>es. body = heap_bytes es \<and> list_all2 (entry_rel sch) es rows))"

definition heap_rel :: "file_store \<Rightarrow> heap \<Rightarrow> hrow list \<Rightarrow> bool" where
  "heap_rel st h rows \<longleftrightarrow>
     wf_store st \<and> hp_root h < page_count st
     \<and> (\<exists>pg. read_page (hp_root h) st = Inr pg \<and> body_rel (hp_schema h) (page_body pg) rows)"

lemma entries_rel_ok: "list_all2 (entry_rel sch) es rows \<Longrightarrow> \<forall>e \<in> set es. entry_ok e"
  by (induction rule: list_all2_induct) (auto simp: entry_rel_def)

lemma entries_rel_length:
  "list_all2 (entry_rel sch) es rows \<Longrightarrow>
   length (entries_bytes es) = sum_list (map (\<lambda>r. 5 + hr_room r) rows)"
  by (induction rule: list_all2_induct) (auto simp: entry_rel_def)

lemma scan_entries_rel:
  "list_all2 (entry_rel sch) es rows \<Longrightarrow> scan_entries sch es = Inr (visible rows)"
  by (induction rule: list_all2_induct)
    (auto simp: entry_rel_def entry_ok_rowid visible_def)

lemma heap_bytes_not_Nil [simp]: "heap_bytes es \<noteq> []" "[] \<noteq> heap_bytes es"
  by (simp_all add: heap_bytes_def)

lemma read_count_heap:
  assumes "length es < 256 ^ 2"
  shows "read_count (heap_bytes es) = (length es, heap_bytes es)"
  using assms by (simp add: read_count_def heap_bytes_def)

lemma body_rel_count:
  "body_rel sch body rows \<Longrightarrow> body \<noteq> [] \<Longrightarrow> unpack_H (take 2 body) = Inr (length rows)"
  by (auto simp: body_rel_def heap_bytes_def dest!: list_all2_lengthD)

lemma body_rel_read:
  assumes "body_rel sch body rows"
  obtains B es where "read_count body = (length rows, B)" and "drop 2 B = entries_bytes es"
    and "list_all2 (entry_rel sch) es rows"
proof (cases "body = []")
  case True
  then show ?thesis using assms by (intro that [of "[]" "[]"]) (auto simp: body_rel_def read_count_def)
next
  case False
  with assms obtain es where "body = heap_bytes es" and l: "list_all2 (entry_rel sch) es rows"
    and "length rows < 256 ^ 2" by (auto simp: body_rel_def)
  then show ?thesis
    using list_all2_lengthD [OF l] read_count_heap [of es]
    by (intro that [of body es]) (simp_all add: heap_bytes_def)
qed

text \<open>A scan returns exactly the alive rows of the abstract heap, in storage order.\<close>

lemma heap_scan_visible:
  assumes "heap_rel st h rows"
  shows "heap_scan h st = Inr (visible rows)"
proof -
  from assms obtain pg where r: "read_page (hp_root h) st = Inr pg"
    and b: "body_rel (hp_schema h) (page_body pg) rows" by (auto simp: heap_rel_def)
  show ?thesis
  proof (cases "page_body pg = []")
    case True
    then have "rows = []" using b by (auto simp: body_rel_def dest: sym)
    then show ?thesis using r True by (simp add: heap_scan_def read_count_def visible_def)
  next
    case False
    with b obtain es where es: "page_body pg = heap_bytes es"
      and rel: "list_all2 (entry_rel (hp_schema h)) es rows" and l: "length rows < 256 ^ 2"
      by (auto simp: body_rel_def)
    have "length es < 256 ^ 2" using l list_all2_lengthD [OF rel] by simp
    then have rc: "read_count (page_body pg) = (length es, heap_bytes es)"
      by (simp add: es read_count_heap)
    have "scan_rows (length es) (le_enc 2 (length es) @ entries_bytes es @ []) 2 (hp_schema h)
        = scan_entries (hp_schema h) es"
      by (rule scan_rows_entries [OF entries_rel_ok [OF rel]]) simp
    then show ?thesis
      using r rc scan_entries_rel [OF rel] by (simp add: heap_scan_def heap_bytes_def)
  qed
qed

section \<open>Every operation implements its abstract counterpart\<close>

text \<open>Two stores that differ in one page at most.\<close>

definition only_page :: "nat \<Rightarrow> file_store \<Rightarrow> file_store \<Rightarrow> bool" where
  "only_page p st st' \<longleftrightarrow>
     wf_store st' \<and> page_count st' = page_count st \<and> page_size st' = page_size st
     \<and> free_head st' = free_head st
     \<and> (\<forall>q < page_count st. q \<noteq> p \<longrightarrow> read_page q st' = read_page q st)"

lemma only_page_refl: "wf_store st \<Longrightarrow> only_page p st st"
  by (simp add: only_page_def)

lemma only_page_trans: "only_page p st st1 \<Longrightarrow> only_page p st1 st2 \<Longrightarrow> only_page p st st2"
  by (simp add: only_page_def)

lemma rewrite_body:
  assumes wf: "wf_store st" and p: "p < page_count st" and r: "read_page p st = Inr pg"
    and l: "length b \<le> capacity st"
  obtains st' where "write_page (pg\<lparr>page_body := b\<rparr>) st = (Inr (), st')"
    and "only_page p st st'" and "read_page p st' = Inr (pg\<lparr>page_body := b\<rparr>)"
proof -
  have i: "page_id pg = p" using wf p r by (auto simp: wf_store_def)
  have "storable (capacity st) (pg\<lparr>page_body := b\<rparr>)"
    using read_page_storable [OF r] l by (simp add: storable_def)
  then obtain st' where "write_page (pg\<lparr>page_body := b\<rparr>) st = (Inr (), st')" "wf_store st'"
    "page_count st' = page_count st" "page_size st' = page_size st" "free_head st' = free_head st"
    "read_page p st' = Inr (pg\<lparr>page_body := b\<rparr>)"
    "\<And>q. q < page_count st \<Longrightarrow> q \<noteq> p \<Longrightarrow> read_page q st' = read_page q st"
    using write_page_ok [OF wf, of "pg\<lparr>page_body := b\<rparr>"] p i by auto
  then show ?thesis by (intro that [of st']) (simp_all add: only_page_def)
qed

text \<open>Sizes: the encoding of a row has the same length under every rowid.\<close>

lemma encode_row_size:
  assumes "encode_row vs sch rowid = Inr bs"
  shows "length bs = row_size sch vs" and "10 \<le> length bs" and "rowid < 256 ^ 8"
proof -
  from assms obtain ps where b: "rowid < 256 ^ 8" "length sch < 256 ^ 2"
      "bs = le_enc 8 rowid @ le_enc 2 (length sch) @ ps"
    and z: "encode_row vs sch 0 = Inr (le_enc 8 0 @ le_enc 2 (length sch) @ ps)"
    by (auto simp: encode_row_def)
  then show "length bs = row_size sch vs" "10 \<le> length bs" "rowid < 256 ^ 8"
    by (simp_all add: row_size_def)
qed

lemma fresh_entry:
  assumes "row_fits sch vs" and "encode_row vs sch rowid = Inr bs"
    and "length (bs @ pad) + 1 < 256 ^ 4"
  shows "entry_rel sch (0, bs @ pad) (fresh_row sch rowid vs\<lparr>hr_room := length (bs @ pad)\<rparr>)"
proof -
  note d = decode_row_encoded [OF assms(1,2), of pad]
  have "8 \<le> length (bs @ pad)" using encode_row_size(2) [OF assms(2)] by simp
  moreover from this have "entry_rowid (0, bs @ pad) = rowid"
    using d(2) by (simp add: entry_rowid_def decode_rowid_def unpack_uint_def split: if_splits)
  ultimately show ?thesis
    using d(1) assms(3) by (simp add: entry_rel_def entry_ok_def fresh_row_def)
qed

lemma fresh_entry_exact:
  assumes "row_fits sch vs" and "encode_row vs sch rowid = Inr bs" and "length bs + 1 < 256 ^ 4"
  shows "entry_rel sch (0, bs) (fresh_row sch rowid vs)"
proof -
  have "fresh_row sch rowid vs\<lparr>hr_room := length bs\<rparr> = fresh_row sch rowid vs"
    using encode_row_size(1) [OF assms(2)] by (simp add: fresh_row_def)
  then show ?thesis using fresh_entry [OF assms(1,2), of "[]"] assms(3) by simp
qed

lemma heap_relE:
  assumes "heap_rel st h rows"
  obtains pg where "wf_store st" and "hp_root h < page_count st"
    and "read_page (hp_root h) st = Inr pg" and "body_rel (hp_schema h) (page_body pg) rows"
    and "length (page_body pg) \<le> capacity st"
  using assms read_page_storable by (force simp: heap_rel_def storable_def)

text \<open>
  Appending a row that fits its schema and the page puts it at the end of the heap, with
  the next rowid, and changes no other page.
\<close>

lemma heap_append_refines:
  assumes rel: "heap_rel st h rows" and f: "row_fits (hp_schema h) vs"
    and n: "length (hp_schema h) < 2 ^ 16" "length rows + 1 < 2 ^ 16"
    and room: "heap_room (abs_append (hp_schema h) vs rows) \<le> capacity st"
  shows "\<exists>st'. heap_append h vs st = (Inr (length rows + 1), st')
           \<and> heap_rel st' h (abs_append (hp_schema h) vs rows) \<and> only_page (hp_root h) st st'"
proof -
  let ?sch = "hp_schema h" and ?id = "length rows + 1"
  obtain pg where wf: "wf_store st" and p: "hp_root h < page_count st"
    and r: "read_page (hp_root h) st = Inr pg" and b: "body_rel ?sch (page_body pg) rows"
    by (rule heap_relE [OF rel])
  obtain B es where rc: "read_count (page_body pg) = (length rows, B)"
    and tl: "drop 2 B = entries_bytes es" and es: "list_all2 (entry_rel ?sch) es rows"
    by (rule body_rel_read [OF b]) 
  have "?id < 256 ^ 8" using n(2) by simp
  then obtain bs where bs: "encode_row vs ?sch ?id = Inr bs"
    using encode_row_total [OF f, of ?id] n(1) by auto
  have sz: "length bs = row_size ?sch vs" by (rule encode_row_size(1) [OF bs])
  let ?es = "es @ [(0, bs)]"
  have lb: "length (heap_bytes ?es) \<le> capacity st"
    using room entries_rel_length [OF es] sz
    by (simp add: heap_bytes_def heap_room_def abs_append_def fresh_row_def)
  then have lbs: "length bs + 1 < 256 ^ 4"
    using capacity_bound [OF wf] by (simp add: heap_bytes_def)
  have rel': "list_all2 (entry_rel ?sch) ?es (abs_append ?sch vs rows)"
    using es fresh_entry_exact [OF f bs lbs] by (simp add: abs_append_def list_all2_appendI)
  have le: "length es = length rows" by (rule list_all2_lengthD [OF es])
  obtain st' where w: "write_page (pg\<lparr>page_body := heap_bytes ?es\<rparr>) st = (Inr (), st')"
    and o: "only_page (hp_root h) st st'"
    and r': "read_page (hp_root h) st' = Inr (pg\<lparr>page_body := heap_bytes ?es\<rparr>)"
    by (rule rewrite_body [OF wf p r lb])
  have "heap_append h vs st = (Inr ?id, st')"
    using r rc tl bs n(2) lbs w le
    by (simp add: heap_append_def pack_uint_def heap_bytes_def enc_entry_def)
  moreover have "heap_rel st' h (abs_append ?sch vs rows)"
    using o r' p rel' n(2) by (auto simp: heap_rel_def only_page_def body_rel_def abs_append_def)
  ultimately show ?thesis using o by blast
qed

section \<open>Deletion and update\<close>

text \<open>Both operations act on the first row with the rowid.\<close>

lemma split_first:
  obtains (absent) "\<forall>x \<in> set rows. hr_rowid x \<noteq> rid"
  | (found) as r bs where "rows = as @ r # bs" and "\<forall>x \<in> set as. hr_rowid x \<noteq> rid"
      and "hr_rowid r = rid"
proof (cases "\<exists>x \<in> set rows. hr_rowid x = rid")
  case True
  then show ?thesis using split_list_first_prop [of rows "\<lambda>x. hr_rowid x = rid"] found by blast
qed (use absent in blast)

lemma abs_delete_absent: "\<forall>x \<in> set rows. hr_rowid x \<noteq> rid \<Longrightarrow> abs_delete rid rows = rows"
  by (induction rows) auto

lemma abs_delete_found:
  "\<forall>x \<in> set as. hr_rowid x \<noteq> rid \<Longrightarrow> hr_rowid r = rid \<Longrightarrow>
   abs_delete rid (as @ r # bs) = as @ r\<lparr>hr_alive := False\<rparr> # bs"
  by (induction as) auto

lemma abs_update_absent:
  "\<forall>x \<in> set rows. hr_rowid x \<noteq> rid \<Longrightarrow> abs_update_at sch rid vs rows = (rows, [])"
  by (induction rows) auto

lemma abs_update_found:
  "\<forall>x \<in> set as. hr_rowid x \<noteq> rid \<Longrightarrow> hr_rowid r = rid \<Longrightarrow>
   abs_update_at sch rid vs (as @ r # bs) =
     (if row_size sch vs \<le> hr_room r
      then (as @ (fresh_row sch rid vs)\<lparr>hr_room := hr_room r\<rparr> # bs, [])
      else (as @ r\<lparr>hr_alive := False\<rparr> # bs, [fresh_row sch rid vs]))"
  by (induction as) auto

lemma entries_rel_absent:
  "list_all2 (entry_rel sch) es rows \<Longrightarrow> \<forall>x \<in> set rows. hr_rowid x \<noteq> rid \<Longrightarrow>
   \<forall>e \<in> set es. entry_ok e \<and> entry_rowid e \<noteq> rid"
  by (induction rule: list_all2_induct) (auto simp: entry_rel_def)

lemma find_row_rel_absent:
  assumes "list_all2 (entry_rel sch) es rows" and "\<forall>x \<in> set rows. hr_rowid x \<noteq> rid"
  shows "find_row (length rows) (heap_bytes es) 2 rid = Inr None"
  using find_row_absent [OF entries_rel_absent [OF assms], of "le_enc 2 (length es)" 2 "[]"]
    list_all2_lengthD [OF assms(1)] by (simp add: heap_bytes_def)

lemma entries_rel_split:
  assumes "list_all2 (entry_rel sch) es (as @ r # bs)"
  obtains eas e ebs where "es = eas @ e # ebs" and "list_all2 (entry_rel sch) eas as"
    and "entry_rel sch e r" and "list_all2 (entry_rel sch) ebs bs"
  using assms by (auto simp: list_all2_append2 list_all2_Cons2)

lemma find_row_rel_found:
  assumes as: "list_all2 (entry_rel sch) eas as" and ebs: "list_all2 (entry_rel sch) ebs bs"
    and e: "entry_rel sch e r" and no: "\<forall>x \<in> set as. hr_rowid x \<noteq> rid" and r: "hr_rowid r = rid"
  shows "find_row (length (as @ r # bs)) (heap_bytes (eas @ e # ebs)) 2 rid
    = Inr (Some (2 + length (entries_bytes eas), fst e # snd e))"
  using find_row_first [OF entries_rel_absent [OF as no], of e "le_enc 2 (length (eas @ e # ebs))" 2
      "length bs" "entries_bytes ebs"] e r list_all2_lengthD [OF as] list_all2_lengthD [OF ebs]
  by (simp add: heap_bytes_def entry_rel_def)

lemma flag_bytes:
  "(heap_bytes (eas @ e # ebs))[2 + length (entries_bytes eas) + 4 := 1]
     = heap_bytes (eas @ (1, snd e) # ebs)"
  by (simp add: heap_bytes_def enc_entry_def list_update_append)

lemma flag_rel: "entry_rel sch e r \<Longrightarrow> entry_rel sch (1, snd e) (r\<lparr>hr_alive := False\<rparr>)"
  by (simp add: entry_rel_def entry_ok_def entry_rowid_def)

lemma heap_page:
  assumes "heap_rel st h rows" and "rows \<noteq> []"
  obtains pg es where "wf_store st" and "hp_root h < page_count st"
    and "read_page (hp_root h) st = Inr pg" and "page_body pg = heap_bytes es"
    and "list_all2 (entry_rel (hp_schema h)) es rows" and "length rows < 256 ^ 2"
    and "length (heap_bytes es) = heap_room rows" and "heap_room rows \<le> capacity st"
    and "unpack_H (take 2 (heap_bytes es)) = Inr (length rows)"
proof -
  obtain pg where wf: "wf_store st" "hp_root h < page_count st"
    "read_page (hp_root h) st = Inr pg" "length (page_body pg) \<le> capacity st"
    and b: "body_rel (hp_schema h) (page_body pg) rows"
    by (rule heap_relE [OF assms(1)])
  from b assms(2) obtain es where es: "page_body pg = heap_bytes es"
    "list_all2 (entry_rel (hp_schema h)) es rows" "length rows < 256 ^ 2" by (auto simp: body_rel_def)
  have "unpack_H (take 2 (heap_bytes es)) = Inr (length rows)"
    using body_rel_count [OF b] es(1) by simp
  then show ?thesis
    using that [OF wf(1-3) es] wf(4) entries_rel_length [OF es(2)] es(1)
    by (simp add: heap_bytes_def heap_room_def)
qed

lemma heap_rel_after:
  assumes "only_page (hp_root h) st st'" and "hp_root h < page_count st"
    and "read_page (hp_root h) st' = Inr (pg\<lparr>page_body := heap_bytes es\<rparr>)"
    and "list_all2 (entry_rel (hp_schema h)) es rows" and "length rows < 256 ^ 2"
  shows "heap_rel st' h rows"
  using assms by (auto simp: heap_rel_def only_page_def body_rel_def)

text \<open>Deleting a rowid flags the first row that has it, and nothing else changes.\<close>

lemma heap_delete_refines:
  assumes rel: "heap_rel st h rows" and ne: "rows \<noteq> []"
  shows "\<exists>st'. heap_delete h rid st = (Inr (), st') \<and> heap_rel st' h (abs_delete rid rows)
           \<and> only_page (hp_root h) st st'"
proof -
  obtain pg es where P: "wf_store st" "hp_root h < page_count st"
    "read_page (hp_root h) st = Inr pg" "page_body pg = heap_bytes es"
    and es: "list_all2 (entry_rel (hp_schema h)) es rows" and len: "length rows < 256 ^ 2"
    and lc: "length (heap_bytes es) = heap_room rows" "heap_room rows \<le> capacity st"
    and cnt: "unpack_H (take 2 (heap_bytes es)) = Inr (length rows)"
    by (rule heap_page [OF assms])
  show ?thesis
  proof (cases rows rid rule: split_first)
    case absent
    then have "heap_delete h rid st = (Inr (), st)"
      using P cnt find_row_rel_absent [OF es] by (simp add: heap_delete_def Let_def)
    then show ?thesis using rel absent P by (simp add: abs_delete_absent only_page_refl)
  next
    case (found as r bs)
    obtain eas e ebs where s: "es = eas @ e # ebs" and R: "list_all2 (entry_rel (hp_schema h)) eas as"
      "entry_rel (hp_schema h) e r" "list_all2 (entry_rel (hp_schema h)) ebs bs"
      using es unfolding found(1) by (rule entries_rel_split)
    let ?es = "eas @ (1, snd e) # ebs"
    have "length (heap_bytes ?es) \<le> capacity st" using lc by (simp add: s heap_bytes_def)
    from rewrite_body [OF P(1-3) this] obtain st' where
      w: "write_page (pg\<lparr>page_body := heap_bytes ?es\<rparr>) st = (Inr (), st')"
      and o: "only_page (hp_root h) st st'"
      and r': "read_page (hp_root h) st' = Inr (pg\<lparr>page_body := heap_bytes ?es\<rparr>)" by blast
    have "heap_delete h rid st = (Inr (), st')"
      using P cnt w find_row_rel_found [OF R(1,3,2) found(2,3)] flag_bytes [of eas e ebs]
      by (simp add: heap_delete_def s found(1) Let_def)
    moreover have "heap_rel st' h (as @ r\<lparr>hr_alive := False\<rparr> # bs)"
      by (rule heap_rel_after [OF o P(2) r'])
        (use R flag_rel [OF R(2)] len found(1) in \<open>auto intro!: list_all2_appendI\<close>)
    ultimately show ?thesis using o found by (auto simp: abs_delete_found)
  qed
qed

text \<open>An update in place, and an update that moves the row to the end.\<close>

lemma update_in_place:
  assumes e: "entry_ok e" and n: "length new \<le> length (snd e)"
  shows "update_body (heap_bytes (eas @ e # ebs)) k (2 + length (entries_bytes eas)) (fst e # snd e) new
    = Inr (heap_bytes (eas @ (0, new @ replicate (length (snd e) - length new) 0) # ebs))"
proof -
  define pre where "pre = le_enc 2 (length (eas @ e # ebs)) @ entries_bytes eas"
  define post where "post = entries_bytes ebs"
  define l where "l = length (snd e)"
  define old where "old = take (length new) (snd e)"
  define rest where "rest = drop (length new) (snd e)"
  have se: "snd e = old @ rest" and lo: "length old = length new"
    and lr: "length rest = l - length new"
    using n by (simp_all add: old_def rest_def l_def)
  have hb: "heap_bytes (eas @ e # ebs) = pre @ le_enc 4 (l + 1) @ (fst e # old @ rest) @ post"
    by (simp add: heap_bytes_def enc_entry_def pre_def post_def l_def se)
  have lp: "2 + length (entries_bytes eas) = length pre" by (simp add: pre_def)
  let ?L = "le_enc 4 (l + 1)" and ?Z = "replicate (l - length new) (0 :: byte)"
  have pk: "pack_I (length (fst e # snd e)) = Inr ?L"
    using e by (simp add: entry_ok_def l_def)
  have "slice_assign (pre @ ?L @ (fst e # old @ rest) @ post) (length pre) (length pre + 4) ?L
      = pre @ ?L @ (fst e # old @ rest) @ post"
    by (rule slice_assign_exact) simp_all
  moreover have "slice_assign (pre @ ?L @ (fst e # old @ rest) @ post) (length pre + 4) (length pre + 4 + 1) [0]
      = pre @ ?L @ 0 # old @ rest @ post"
    using slice_assign_exact [of "pre @ ?L" _ "[fst e]" _ "old @ rest @ post" "[0]"] by simp
  moreover have "slice_assign (pre @ ?L @ 0 # old @ rest @ post) (length pre + 4 + 1)
      (length pre + 4 + 1 + length new) new = pre @ ?L @ 0 # new @ rest @ post"
    using slice_assign_exact [of "pre @ ?L @ [0]" _ old _ "rest @ post" new] lo by simp
  moreover have "slice_assign (pre @ ?L @ 0 # new @ rest @ post) (length pre + 4 + 1 + length new)
      (length pre + 4 + length (fst e # snd e)) ?Z = pre @ ?L @ 0 # new @ ?Z @ post"
    using slice_assign_exact [of "pre @ ?L @ 0 # new" _ rest _ post ?Z] lr n by (simp add: l_def)
  moreover have "heap_bytes (eas @ (0, new @ ?Z) # ebs) = pre @ ?L @ 0 # new @ ?Z @ post"
    using n by (simp add: heap_bytes_def enc_entry_def pre_def post_def l_def)
  ultimately show ?thesis
    unfolding update_body_def lp hb using pk n by (simp add: Let_def l_def)
qed

lemma update_moves:
  assumes n: "length (snd e) < length new" "length new + 1 < 256 ^ 4"
    and k: "length (eas @ e # ebs) + 1 < 256 ^ 2"
  shows "update_body (heap_bytes (eas @ e # ebs)) (length (eas @ e # ebs))
      (2 + length (entries_bytes eas)) (fst e # snd e) new
    = Inr (heap_bytes (eas @ (1, snd e) # ebs @ [(0, new)]))"
proof -
  let ?k = "length (eas @ e # ebs)"
  have f: "(heap_bytes (eas @ e # ebs))[2 + length (entries_bytes eas) + 4 := 1]
      = le_enc 2 ?k @ entries_bytes (eas @ (1, snd e) # ebs)"
    unfolding flag_bytes by (simp add: heap_bytes_def)
  have "slice_assign (le_enc 2 ?k @ entries_bytes (eas @ (1, snd e) # ebs @ [(0, new)])) 0 2
      (le_enc 2 (?k + 1)) = heap_bytes (eas @ (1, snd e) # ebs @ [(0, new)])"
    using slice_assign_exact [of "[]" 0 "le_enc 2 ?k" 2] by (simp add: heap_bytes_def)
  then show ?thesis
    unfolding update_body_def Let_def f using n k by (simp add: enc_entry_def)
qed

text \<open>The new body, in both cases, is that of the updated rows.\<close>

lemma updated_entries:
  assumes R: "list_all2 (entry_rel sch) eas as" "entry_rel sch e r" "list_all2 (entry_rel sch) ebs bs"
    and found: "\<forall>x \<in> set as. hr_rowid x \<noteq> rid" "hr_rowid r = rid"
    and f: "row_fits sch vs" and enc: "encode_row vs sch rid = Inr data"
    and n: "length (as @ r # bs) + 1 < 2 ^ 16"
    and room: "heap_room (abs_update sch rid vs (as @ r # bs)) < 256 ^ 4"
  shows "\<exists>es'. update_body (heap_bytes (eas @ e # ebs)) (length (as @ r # bs)) (2 + length (entries_bytes eas))
        (fst e # snd e) data = Inr (heap_bytes es')
    \<and> list_all2 (entry_rel sch) es' (abs_update sch rid vs (as @ r # bs))"
proof -
  have ok: "entry_ok e" and rm: "length (snd e) = hr_room r" using R(2) by (simp_all add: entry_rel_def)
  have sz: "length data = row_size sch vs" by (rule encode_row_size(1) [OF enc])
  have le: "length (eas @ e # ebs) = length (as @ r # bs)" using R(1,3) by (simp add: list_all2_lengthD)
  have upd: "abs_update sch rid vs (as @ r # bs) =
      (if row_size sch vs \<le> hr_room r then as @ fresh_row sch rid vs\<lparr>hr_room := hr_room r\<rparr> # bs
       else as @ r\<lparr>hr_alive := False\<rparr> # bs @ [fresh_row sch rid vs])"
    using abs_update_found [OF found, of sch vs bs] by (simp add: abs_update_def)
  show ?thesis
  proof (cases "row_size sch vs \<le> hr_room r")
    case True
    let ?pad = "replicate (hr_room r - length data) (0 :: byte)"
    have "length (data @ ?pad) = hr_room r" using True sz by simp
    then have "entry_rel sch (0, data @ ?pad) (fresh_row sch rid vs\<lparr>hr_room := hr_room r\<rparr>)"
      using fresh_entry [OF f enc, of ?pad] ok rm by (simp add: entry_ok_def)
    then have "list_all2 (entry_rel sch) (eas @ (0, data @ ?pad) # ebs) (abs_update sch rid vs (as @ r # bs))"
      using R True by (auto simp: upd intro!: list_all2_appendI)
    moreover have "length data \<le> length (snd e)" using True sz rm by simp
    ultimately show ?thesis using update_in_place [OF ok, of data] rm by metis
  next
    case False
    have lb: "length data + 1 < 256 ^ 4" using room False sz by (simp add: upd heap_room_def fresh_row_def)
    have "list_all2 (entry_rel sch) (eas @ (1, snd e) # ebs @ [(0, data)]) (abs_update sch rid vs (as @ r # bs))"
      using R flag_rel [OF R(2)] fresh_entry_exact [OF f enc lb] False by (auto simp: upd intro!: list_all2_appendI)
    moreover have "length (snd e) < length data" "length (eas @ e # ebs) + 1 < 256 ^ 2"
      unfolding le using False sz rm n by simp_all
    ultimately show ?thesis using update_moves [OF _ lb, of e eas ebs] le by metis
  qed
qed

lemma abs_update_length: "length (abs_update sch rid vs rows) \<le> length rows + 1"
proof (cases rows rid rule: split_first)
  case (found as r bs)
  then show ?thesis by (simp add: abs_update_def abs_update_found [OF found(2,3)])
qed (simp add: abs_update_def abs_update_absent)

text \<open>
  Updating a rowid replaces the values of the first row that has it when the new data
  fits its room, and otherwise flags that row and appends the new one with the same rowid.
\<close>

lemma heap_update_refines:
  assumes rel: "heap_rel st h rows" and ne: "rows \<noteq> []" and f: "row_fits (hp_schema h) vs"
    and n: "length (hp_schema h) < 2 ^ 16" "length rows + 1 < 2 ^ 16"
    and room: "heap_room (abs_update (hp_schema h) rid vs rows) \<le> capacity st"
  shows "\<exists>st'. heap_update h rid vs st = (Inr (), st')
           \<and> heap_rel st' h (abs_update (hp_schema h) rid vs rows) \<and> only_page (hp_root h) st st'"
proof -
  let ?sch = "hp_schema h" and ?rows = "abs_update (hp_schema h) rid vs rows"
  obtain pg es where P: "wf_store st" "hp_root h < page_count st"
    "read_page (hp_root h) st = Inr pg" "page_body pg = heap_bytes es"
    and es: "list_all2 (entry_rel (hp_schema h)) es rows"
    and cnt: "unpack_H (take 2 (heap_bytes es)) = Inr (length rows)"
    by (rule heap_page [OF rel ne])
  show ?thesis
  proof (cases rows rid rule: split_first)
    case absent
    then have "heap_update h rid vs st = (Inr (), st)"
      using P cnt find_row_rel_absent [OF es] by (simp add: heap_update_def Let_def)
    then show ?thesis using rel absent P by (simp add: abs_update_def abs_update_absent only_page_refl)
  next
    case (found as r bs)
    obtain eas e ebs where s: "es = eas @ e # ebs" and R: "list_all2 (entry_rel ?sch) eas as"
      "entry_rel ?sch e r" "list_all2 (entry_rel ?sch) ebs bs"
      using es unfolding found(1) by (rule entries_rel_split)
    have "rid < 256 ^ 8"
      using R(2) found(3) le_dec_bound [of "take 8 (snd e)"]
      by (auto simp: entry_rel_def entry_rowid_def entry_ok_def min_absorb2)
    then obtain data where enc: "encode_row vs ?sch rid = Inr data"
      using encode_row_total [OF f, of rid] n(1) by auto
    have "heap_room ?rows < 256 ^ 4" using room capacity_bound [OF P(1)] by simp
    from updated_entries [OF R found(2,3) f enc n(2) [unfolded found(1)] this [unfolded found(1)], folded found(1) s]
    obtain es' where u: "update_body (heap_bytes es) (length rows) (2 + length (entries_bytes eas)) (fst e # snd e) data
        = Inr (heap_bytes es')" and l: "list_all2 (entry_rel ?sch) es' ?rows" by blast
    have "length (heap_bytes es') \<le> capacity st"
      using room entries_rel_length [OF l] by (simp add: heap_bytes_def heap_room_def)
    from rewrite_body [OF P(1-3) this] obtain st' where
      w: "write_page (pg\<lparr>page_body := heap_bytes es'\<rparr>) st = (Inr (), st')"
      and o: "only_page (hp_root h) st st'"
      and r: "read_page (hp_root h) st' = Inr (pg\<lparr>page_body := heap_bytes es'\<rparr>)" by blast
    have "heap_update h rid vs st = (Inr (), st')"
      using P cnt find_row_rel_found [OF R(1,3,2) found(2,3)] enc u w
      by (simp add: heap_update_def s found(1) Let_def)
    moreover have "length ?rows < 256 ^ 2" using abs_update_length [of ?sch rid vs rows] n(2) by simp
    ultimately show ?thesis using o heap_rel_after [OF o P(2) r l] by blast
  qed
qed

section \<open>Runs of operations\<close>

text \<open>
  The calls the executor makes on a heap. \<open>ops_ok\<close> says that each call is within the
  bounds of the format (the values fit the schema, the rows fit the page, no delete or
  update before the first append), on the abstract heap only.
\<close>

datatype heap_op = Append "pyval list" | Delete nat | Update nat "pyval list"

fun heap_step :: "heap \<Rightarrow> heap_op \<Rightarrow> unit fsx" where
  "heap_step h (Append vs) = sbind (heap_append h vs) (\<lambda>_. sret ())"
| "heap_step h (Delete rid) = heap_delete h rid"
| "heap_step h (Update rid vs) = heap_update h rid vs"

fun abs_step :: "schema \<Rightarrow> heap_op \<Rightarrow> hrow list \<Rightarrow> hrow list" where
  "abs_step sch (Append vs) rows = abs_append sch vs rows"
| "abs_step sch (Delete rid) rows = abs_delete rid rows"
| "abs_step sch (Update rid vs) rows = abs_update sch rid vs rows"

fun op_ok :: "schema \<Rightarrow> hrow list \<Rightarrow> heap_op \<Rightarrow> bool" where
  "op_ok sch rows (Append vs) \<longleftrightarrow> row_fits sch vs \<and> length rows + 1 < 2 ^ 16"
| "op_ok sch rows (Delete rid) \<longleftrightarrow> rows \<noteq> []"
| "op_ok sch rows (Update rid vs) \<longleftrightarrow> rows \<noteq> [] \<and> row_fits sch vs \<and> length rows + 1 < 2 ^ 16"

fun ops_ok :: "nat \<Rightarrow> schema \<Rightarrow> hrow list \<Rightarrow> heap_op list \<Rightarrow> bool" where
  "ops_ok cap sch rows [] \<longleftrightarrow> True"
| "ops_ok cap sch rows (a # ops) \<longleftrightarrow>
     op_ok sch rows a \<and> heap_room (abs_step sch a rows) \<le> cap
     \<and> ops_ok cap sch (abs_step sch a rows) ops"

lemma heap_step_refines:
  assumes rel: "heap_rel st h rows" and n: "length (hp_schema h) < 2 ^ 16"
    and ok: "op_ok (hp_schema h) rows a" "heap_room (abs_step (hp_schema h) a rows) \<le> capacity st"
  shows "\<exists>st'. heap_step h a st = (Inr (), st') \<and> heap_rel st' h (abs_step (hp_schema h) a rows)
           \<and> only_page (hp_root h) st st'"
proof (cases a)
  case (Append vs)
  then show ?thesis using heap_append_refines [OF rel _ n] ok by fastforce
next
  case (Delete rid)
  then show ?thesis using heap_delete_refines [OF rel] ok by simp
next
  case (Update rid vs)
  then show ?thesis using heap_update_refines [OF rel _ _ n] ok by simp
qed

lemma only_page_capacity: "only_page p st st' \<Longrightarrow> capacity st' = capacity st"
  by (simp add: only_page_def capacity_def)

text \<open>
  C12: any sequence of appends, deletes and updates within the bounds succeeds, leaves every
  other page alone, and a scan then returns the alive rows of the same sequence run on the
  abstract heap.
\<close>

theorem heap_run_refines:
  assumes "heap_rel st h rows" and "length (hp_schema h) < 2 ^ 16"
    and "ops_ok (capacity st) (hp_schema h) rows ops"
  shows "\<exists>st'. sfor ops (heap_step h) st = (Inr (), st')
           \<and> heap_rel st' h (fold (abs_step (hp_schema h)) ops rows)
           \<and> heap_scan h st' = Inr (visible (fold (abs_step (hp_schema h)) ops rows))
           \<and> only_page (hp_root h) st st'"
  using assms
proof (induction ops arbitrary: st rows)
  case Nil
  then show ?case
    by (auto simp: heap_scan_visible heap_rel_def intro: only_page_refl)
next
  case (Cons a ops)
  from heap_step_refines [OF Cons.prems(1,2)] Cons.prems(3) obtain st1 where
    s: "heap_step h a st = (Inr (), st1)" and r: "heap_rel st1 h (abs_step (hp_schema h) a rows)"
    and o: "only_page (hp_root h) st st1" by fastforce
  then show ?case
    using Cons.IH [OF r Cons.prems(2)] Cons.prems(3) only_page_capacity [OF o]
      only_page_trans [OF o] by fastforce
qed

section \<open>What a client sees\<close>

lemma visible_simps [simp]:
  "visible [] = []"
  "visible (r # rows) = (if hr_alive r then (hr_rowid r, hr_values r) # visible rows else visible rows)"
  "visible (as @ bs) = visible as @ visible bs"
  by (simp_all add: visible_def)

lemma visible_other:
  "\<forall>x \<in> set rows. hr_rowid x \<noteq> rid \<Longrightarrow> filter (\<lambda>r. fst r \<noteq> rid) (visible rows) = visible rows"
  "\<forall>x \<in> set rows. hr_rowid x \<noteq> rid \<Longrightarrow> filter (\<lambda>r. fst r = rid) (visible rows) = []"
  by (auto simp: visible_def filter_id_conv filter_empty_conv)

lemma visible_delete:
  assumes "distinct (map hr_rowid rows)"
  shows "visible (abs_delete rid rows) = filter (\<lambda>r. fst r \<noteq> rid) (visible rows)"
proof (cases rows rid rule: split_first)
  case absent
  then show ?thesis by (simp add: abs_delete_absent visible_other)
next
  case (found as r bs)
  have "\<forall>x \<in> set bs. hr_rowid x \<noteq> rid"
    using assms found by auto (metis imageI)
  then show ?thesis unfolding found(1) using found(2,3) by (simp add: abs_delete_found visible_other)
qed

lemma visible_update:
  assumes "distinct (map hr_rowid rows)" and "rid \<in> set (map fst (visible rows))"
  shows "filter (\<lambda>r. fst r \<noteq> rid) (visible (abs_update sch rid vs rows))
           = filter (\<lambda>r. fst r \<noteq> rid) (visible rows)"
    and "filter (\<lambda>r. fst r = rid) (visible (abs_update sch rid vs rows)) = [(rid, map stored vs)]"
proof -
  from assms(2) have "\<not> (\<forall>x \<in> set rows. hr_rowid x \<noteq> rid)" by (auto simp: visible_def)
  then obtain as r bs where f: "rows = as @ r # bs" "\<forall>x \<in> set as. hr_rowid x \<noteq> rid" "hr_rowid r = rid"
    by (cases rows rid rule: split_first) blast+
  have "\<forall>x \<in> set bs. hr_rowid x \<noteq> rid"
    using assms(1) f by auto (metis imageI)
  with f show "filter (\<lambda>r. fst r \<noteq> rid) (visible (abs_update sch rid vs rows))
           = filter (\<lambda>r. fst r \<noteq> rid) (visible rows)"
    and "filter (\<lambda>r. fst r = rid) (visible (abs_update sch rid vs rows)) = [(rid, map stored vs)]"
    by (simp_all add: abs_update_def abs_update_found visible_other fresh_row_def)
qed

lemma visible_delete_shadowed:
  assumes "\<forall>x \<in> set as. hr_rowid x \<noteq> rid" and "hr_rowid r = rid" and "hr_room r < row_size sch vs"
  shows "abs_delete rid (abs_update sch rid vs (as @ r # bs)) = abs_update sch rid vs (as @ r # bs)"
    and "(rid, map stored vs) \<in> set (visible (abs_update sch rid vs (as @ r # bs)))"
  using assms by (simp_all add: abs_update_def abs_update_found abs_delete_found fresh_row_def)

text \<open>
  When the rowids of a heap are distinct, a delete removes exactly the row with the
  rowid from what a scan returns, and keeps every other row, in its order.
\<close>

theorem delete_then_scan:
  assumes "heap_rel st h rows" and "rows \<noteq> []" and "distinct (map hr_rowid rows)"
    and "heap_scan h st = Inr before"
  shows "\<exists>st'. heap_delete h rid st = (Inr (), st')
           \<and> heap_scan h st' = Inr (filter (\<lambda>r. fst r \<noteq> rid) before)"
proof -
  obtain st' where "heap_delete h rid st = (Inr (), st')"
    and r: "heap_rel st' h (abs_delete rid rows)"
    using heap_delete_refines [OF assms(1,2), of rid] by blast
  then show ?thesis
    using heap_scan_visible [OF r] heap_scan_visible [OF assms(1)] assms(4) visible_delete [OF assms(3)]
    by simp
qed

text \<open>
  When the rowids of a heap are distinct, an update of a row a scan returns keeps every
  other row, in its order, and leaves one row with the rowid, holding the new values.
\<close>

theorem update_then_scan:
  assumes rel: "heap_rel st h rows" and d: "distinct (map hr_rowid rows)"
    and before: "heap_scan h st = Inr before" "rid \<in> set (map fst before)"
    and f: "row_fits (hp_schema h) vs"
    and n: "length (hp_schema h) < 2 ^ 16" "length rows + 1 < 2 ^ 16"
    and room: "heap_room (abs_update (hp_schema h) rid vs rows) \<le> capacity st"
  shows "\<exists>st' after. heap_update h rid vs st = (Inr (), st') \<and> heap_scan h st' = Inr after
           \<and> filter (\<lambda>r. fst r \<noteq> rid) after = filter (\<lambda>r. fst r \<noteq> rid) before
           \<and> filter (\<lambda>r. fst r = rid) after = [(rid, map stored vs)]"
proof -
  have b: "before = visible rows" using heap_scan_visible [OF rel] before(1) by simp
  then have "rows \<noteq> []" using before(2) by auto
  from heap_update_refines [OF rel this f n room] obtain st' where
    "heap_update h rid vs st = (Inr (), st')"
    and r: "heap_rel st' h (abs_update (hp_schema h) rid vs rows)" by blast
  then show ?thesis
    using heap_scan_visible [OF r] visible_update [OF d before(2) [unfolded b]] b by blast
qed

text \<open>
  An update that moves a row leaves a flagged row with the same rowid in front of it, so
  that a later delete of the rowid finds the flagged row: the live row stays and is still
  returned by a scan.
\<close>

theorem delete_after_growing_update:
  assumes rel: "heap_rel st h (as @ r # bs)" and f: "row_fits (hp_schema h) vs"
    and n: "length (hp_schema h) < 2 ^ 16" "length (as @ r # bs) + 1 < 2 ^ 16"
    and r: "\<forall>x \<in> set as. hr_rowid x \<noteq> rid" "hr_rowid r = rid"
    and grows: "hr_room r < row_size (hp_schema h) vs"
    and room: "heap_room (abs_update (hp_schema h) rid vs (as @ r # bs)) \<le> capacity st"
  shows "\<exists>st1 st2 rows. heap_update h rid vs st = (Inr (), st1)
           \<and> heap_delete h rid st1 = (Inr (), st2)
           \<and> heap_scan h st2 = Inr rows \<and> (rid, map stored vs) \<in> set rows"
proof -
  let ?rows = "abs_update (hp_schema h) rid vs (as @ r # bs)"
  note s = visible_delete_shadowed [OF r grows, of bs]
  have ne: "as @ r # bs \<noteq> []" "?rows \<noteq> []" using s(2) by auto
  obtain st1 where st1: "heap_update h rid vs st = (Inr (), st1)" and r1: "heap_rel st1 h ?rows"
    using heap_update_refines [OF rel ne(1) f n room] by blast
  obtain st2 where "heap_delete h rid st1 = (Inr (), st2)" and r2: "heap_rel st2 h ?rows"
    using heap_delete_refines [OF r1 ne(2), of rid] s(1) by auto
  then show ?thesis using st1 s(2) heap_scan_visible [OF r2] by blast
qed

section \<open>A concrete heap\<close>

text \<open>A table on the table page of a new database file.\<close>

definition demo_heap :: heap where
  "demo_heap = \<lparr>hp_root = 1, hp_schema = [(str ''id'', T_INT), (str ''name'', T_TEXT)]\<rparr>"

lemma demo_store_rel: "heap_rel demo_store demo_heap []"
  by (simp add: heap_rel_def demo_store_facts demo_store_read demo_heap_def body_rel_def new_page_def)

text \<open>The same table with one row.\<close>

definition demo_store1 :: file_store where
  "demo_store1 = snd (heap_append demo_heap [PInt 7, PText (str ''a'')] demo_store)"

lemma demo_values:
  shows "row_fits (hp_schema demo_heap) [PInt 7, PText (str ''a'')]"
    and "row_fits (hp_schema demo_heap) [PInt 7, PText (str ''abcd'')]"
    and "row_size (hp_schema demo_heap) [PInt 7, PText (str ''a'')] = 31"
    and "row_size (hp_schema demo_heap) [PInt 7, PText (str ''abcd'')] = 34"
  by (simp_all add: demo_heap_def row_size_def encode_row_def encode_def to_bytes_signed_def str_def
      int64_min_def int64_max_def utf8_char_def is_scalar_def is_surrogate_def pack_uint_def)

lemma demo_schema: "length (hp_schema demo_heap) < 2 ^ 16"
  by (simp add: demo_heap_def)

definition demo_row :: hrow where
  "demo_row = fresh_row (hp_schema demo_heap) 1 [PInt 7, PText (str ''a'')]"

lemma demo_row_simps [simp]:
  "hr_rowid demo_row = 1" "hr_alive demo_row" "hr_room demo_row = 31"
  "hr_values demo_row = [PInt 7, PText (str ''a'')]"
  by (simp_all add: demo_row_def fresh_row_def demo_values stored_def)

lemma demo_append: "abs_append (hp_schema demo_heap) [PInt 7, PText (str ''a'')] [] = [demo_row]"
  by (simp add: abs_append_def demo_row_def)

lemma demo_store1_rel:
  shows "heap_rel demo_store1 demo_heap [demo_row]" and "capacity demo_store1 = 501"
proof -
  have "\<exists>st'. heap_append demo_heap [PInt 7, PText (str ''a'')] demo_store = (Inr (length ([] :: hrow list) + 1), st')
      \<and> heap_rel st' demo_heap (abs_append (hp_schema demo_heap) [PInt 7, PText (str ''a'')] [])
      \<and> only_page (hp_root demo_heap) demo_store st'"
    by (rule heap_append_refines [OF demo_store_rel demo_values(1) demo_schema])
      (simp_all add: demo_capacity heap_room_def demo_append)
  then show "heap_rel demo_store1 demo_heap [demo_row]" "capacity demo_store1 = 501"
    using only_page_capacity demo_capacity by (auto simp: demo_store1_def demo_append)
qed

theorem heap_run_refines_witness:
  "\<exists>st'. sfor [Append [PInt 7, PText (str ''a'')], Update 1 [PInt 7, PText (str ''abcd'')], Delete 1]
        (heap_step demo_heap) demo_store = (Inr (), st')
      \<and> heap_scan demo_heap st' = Inr [(1, [PInt 7, PText (str ''abcd'')])]"
proof -
  let ?ops = "[Append [PInt 7, PText (str ''a'')], Update 1 [PInt 7, PText (str ''abcd'')], Delete 1]"
  have "ops_ok (capacity demo_store) (hp_schema demo_heap) [] ?ops"
    by (simp add: demo_capacity demo_append demo_values heap_room_def abs_update_def fresh_row_def)
  from heap_run_refines [OF demo_store_rel demo_schema this] show ?thesis
    by (auto simp: demo_append demo_values abs_update_def fresh_row_def stored_def)
qed

theorem delete_then_scan_witness:
  "\<exists>st'. heap_delete demo_heap 1 demo_store1 = (Inr (), st') \<and> heap_scan demo_heap st' = Inr []"
  using delete_then_scan [OF demo_store1_rel(1), of "[(1, [PInt 7, PText (str ''a'')])]" 1]
    heap_scan_visible [OF demo_store1_rel(1)] by simp

theorem update_then_scan_witness:
  "\<exists>st' after. heap_update demo_heap 1 [PInt 7, PText (str ''abcd'')] demo_store1 = (Inr (), st')
      \<and> heap_scan demo_heap st' = Inr after
      \<and> filter (\<lambda>r. fst r = 1) after = [(1, [PInt 7, PText (str ''abcd'')])]"
  using update_then_scan [OF demo_store1_rel(1) _ _ _ demo_values(2) demo_schema,
      of "[(1, [PInt 7, PText (str ''a'')])]" 1] heap_scan_visible [OF demo_store1_rel(1)]
  by (force simp: demo_store1_rel demo_values heap_room_def abs_update_def fresh_row_def stored_def)

theorem delete_after_growing_update_witness:
  "\<exists>st1 st2 rows. heap_update demo_heap 1 [PInt 7, PText (str ''abcd'')] demo_store1 = (Inr (), st1)
      \<and> heap_delete demo_heap 1 st1 = (Inr (), st2)
      \<and> heap_scan demo_heap st2 = Inr rows \<and> (1, [PInt 7, PText (str ''abcd'')]) \<in> set rows"
  using delete_after_growing_update [of demo_store1 demo_heap "[]" demo_row "[]"
      "[PInt 7, PText (str ''abcd'')]" 1] demo_store1_rel demo_schema
  by (simp add: demo_values heap_room_def abs_update_def fresh_row_def stored_def)

end
