(* ===== verification/PyOrder.thy ===== *)
theory PyOrder
  imports Runtime "HOL-Library.Multiset"
begin

text \<open>
  Python's \<open><\<close> and \<open>==\<close> on SQL values as an order, and \<open>list.sort\<close>. Numbers of different
  types compare by value, so that ints, bools and the floats except NaN embed into one
  linear order; texts compare by code points. A sort that only compares keys of one kind is
  the stable sort; a comparison of keys of different kinds, or of None, is a \<open>TypeError\<close>.
\<close>

section \<open>The values of numbers\<close>

text \<open>The exact value times \<open>2 ^ 1074\<close>, or an infinity.\<close>

datatype num_value = Neg_Inf | Finite int | Pos_Inf

fun num_less :: "num_value \<Rightarrow> num_value \<Rightarrow> bool" where
  "num_less Neg_Inf y = (y \<noteq> Neg_Inf)"
| "num_less (Finite a) (Finite b) = (a < b)"
| "num_less (Finite a) Pos_Inf = True"
| "num_less _ _ = False"

instantiation num_value :: linorder
begin

definition less_num_value :: "num_value \<Rightarrow> num_value \<Rightarrow> bool" where
  "less_num_value = num_less"

definition less_eq_num_value :: "num_value \<Rightarrow> num_value \<Rightarrow> bool" where
  "less_eq_num_value x y = (x = y \<or> num_less x y)"

instance
proof
  fix x y z :: num_value
  show "x < y \<longleftrightarrow> x \<le> y \<and> \<not> y \<le> x"
    by (cases x; cases y) (auto simp: less_num_value_def less_eq_num_value_def)
  show "x \<le> x" by (simp add: less_eq_num_value_def)
  show "x \<le> y \<Longrightarrow> y \<le> z \<Longrightarrow> x \<le> z"
    by (cases x; cases y; cases z) (auto simp: less_eq_num_value_def)
  show "x \<le> y \<Longrightarrow> y \<le> x \<Longrightarrow> x = y"
    by (cases x; cases y) (auto simp: less_eq_num_value_def)
  show "x \<le> y \<or> y \<le> x"
    by (cases x; cases y) (auto simp: less_eq_num_value_def)
qed

end

definition f_value :: "float64 \<Rightarrow> num_value" where
  "f_value b =
     (if f_is_inf b then (if f_neg b then Neg_Inf else Pos_Inf) else Finite (f_scaled b))"

definition i_value :: "int \<Rightarrow> num_value" where
  "i_value i = Finite (i * 2 ^ 1074)"

lemma f_scaled_inf: "f_is_inf b \<Longrightarrow> f_scaled b = (if f_neg b then - 1 else 1) * 2 ^ 2098"
proof -
  assume "f_is_inf b"
  then have "f_exp b = 2047" "f_man b = 0" by (simp_all add: f_is_inf_def)
  moreover have "(2::int) ^ 52 * 2 ^ 2046 = 2 ^ 2098" by (simp flip: power_add)
  ultimately show ?thesis by (simp add: f_scaled_def)
qed

lemma f_scaled_finite:
  assumes "\<not> f_is_inf b" and "\<not> f_is_nan b"
  shows "\<bar>f_scaled b\<bar> < 2 ^ 2098"
proof -
  have e: "f_exp b < 2047"
  proof -
    have "f_exp b < 2 ^ 11" unfolding f_exp_def by (rule mod_less_divisor) simp
    then show ?thesis using assms by (auto simp: f_is_inf_def f_is_nan_def)
  qed
  have m: "int (f_man b) < 2 ^ 52"
  proof -
    have "f_man b < 2 ^ 52" unfolding f_man_def by (rule mod_less_divisor) simp
    then have "int (f_man b) < int (2 ^ 52)" by (simp only: of_nat_less_iff)
    then show ?thesis by simp
  qed
  have "(2 ^ 52 + int (f_man b)) * 2 ^ (f_exp b - 1) < 2 ^ 53 * 2 ^ 2045"
  proof -
    have "(2::int) ^ (f_exp b - 1) \<le> 2 ^ 2045" by (rule power_increasing) (use e in auto)
    moreover have "2 ^ 52 + int (f_man b) < 2 ^ 53" using m by simp
    ultimately show ?thesis by (intro mult_less_le_imp_less) auto
  qed
  moreover have "(2::int) ^ 53 * 2 ^ 2045 = 2 ^ 2098" by (simp flip: power_add)
  moreover have "int (f_man b) < 2 ^ 2098"
  proof -
    have "(2::int) ^ 52 \<le> 2 ^ 2098" by (rule power_increasing) auto
    then show ?thesis using m by linarith
  qed
  ultimately show ?thesis by (simp add: f_scaled_def Let_def)
qed

lemma f_lt_value: "\<not> f_is_nan a \<Longrightarrow> \<not> f_is_nan b \<Longrightarrow> f_lt a b \<longleftrightarrow> f_value a < f_value b"
  using f_scaled_inf [of a] f_scaled_inf [of b] f_scaled_finite [of a] f_scaled_finite [of b]
  by (auto simp: f_lt_def f_value_def less_num_value_def)

lemma f_eq_value: "\<not> f_is_nan a \<Longrightarrow> \<not> f_is_nan b \<Longrightarrow> f_eq a b \<longleftrightarrow> f_value a = f_value b"
  using f_scaled_inf [of a] f_scaled_inf [of b] f_scaled_finite [of a] f_scaled_finite [of b]
  by (auto simp: f_eq_def f_value_def)

lemma int_f_value:
  assumes "\<not> f_is_nan b"
  shows "int_f_lt i b \<longleftrightarrow> i_value i < f_value b" and "f_int_lt b i \<longleftrightarrow> f_value b < i_value i"
    and "int_f_eq i b \<longleftrightarrow> i_value i = f_value b"
  using assms by (auto simp: int_f_lt_def f_int_lt_def int_f_eq_def f_value_def i_value_def less_num_value_def)

lemma i_value_less [simp]: "i_value i < i_value j \<longleftrightarrow> i < j" "i_value i = i_value j \<longleftrightarrow> i = j"
  by (simp_all add: i_value_def less_num_value_def)

section \<open>Values of one kind\<close>

fun is_nan :: "pyval \<Rightarrow> bool" where
  "is_nan (PFloat b) = f_is_nan b"
| "is_nan _ = False"

fun is_number :: "pyval \<Rightarrow> bool" where
  "is_number (PInt _) = True"
| "is_number (PFloat b) = (\<not> f_is_nan b)"
| "is_number (PBool _) = True"
| "is_number _ = False"

fun is_text :: "pyval \<Rightarrow> bool" where
  "is_text (PText _) = True"
| "is_text _ = False"

fun num_of :: "pyval \<Rightarrow> num_value" where
  "num_of (PInt i) = i_value i"
| "num_of (PFloat b) = f_value b"
| "num_of (PBool b) = i_value (int_of_bool b)"
| "num_of _ = Neg_Inf"

fun text_of :: "pyval \<Rightarrow> pystr" where
  "text_of (PText s) = s"
| "text_of _ = []"

lemma int_of_bool_eq [simp]: "int_of_bool a = int_of_bool b \<longleftrightarrow> a = b"
  by (simp add: int_of_bool_def)

lemma py_lt_number: "is_number x \<Longrightarrow> is_number y \<Longrightarrow> py_lt x y = Inr (num_of x < num_of y)"
  by (cases x; cases y) (simp_all add: f_lt_value int_f_value)

lemma py_eq_number: "is_number x \<Longrightarrow> is_number y \<Longrightarrow> py_eq x y \<longleftrightarrow> num_of x = num_of y"
  by (cases x; cases y) (auto simp: f_eq_value int_f_value)

lemma py_lt_text: "is_text x \<Longrightarrow> is_text y \<Longrightarrow> py_lt x y = Inr (lex_lt (text_of x) (text_of y))"
  by (cases x; cases y) simp_all

lemma py_lt_kinds:
  "(\<exists>b. py_lt x y = Inr b) \<longleftrightarrow>
     (is_number x \<or> is_nan x) \<and> (is_number y \<or> is_nan y) \<or> is_text x \<and> is_text y"
  by (cases x; cases y) auto

lemma py_lt_error: "py_lt x y = Inl e \<Longrightarrow> e = PyTypeError"
  by (cases x; cases y) auto

lemma py_eq_refl: "\<not> is_nan x \<Longrightarrow> py_eq x x"
  by (cases x) (auto simp: f_eq_value)

lemma py_eq_sym: "py_eq x y = py_eq y x"
proof (cases x; cases y)
  fix a b
  assume "x = PFloat a" "y = PFloat b"
  then show ?thesis by (auto simp: f_eq_def)
qed auto

lemma py_eq_kinds: "py_eq x y \<Longrightarrow> is_number x \<and> is_number y \<or> is_text x \<and> is_text y \<or> x = PNone \<and> y = PNone"
  by (cases x; cases y) (auto simp: f_eq_def int_f_eq_def)

lemma py_eq_trans:
  assumes "py_eq x y" and "py_eq y z"
  shows "py_eq x z"
proof -
  from py_eq_kinds [OF assms(1)] consider "is_number x" "is_number y" | "is_text x" "is_text y" | "y = PNone" by blast
  then show ?thesis
  proof cases
    case 1
    moreover from this have "is_number z" using py_eq_kinds [OF assms(2)] by (cases y) auto
    ultimately show ?thesis using assms by (simp add: py_eq_number)
  qed (use assms in \<open>(cases x; cases y; cases z; simp)\<close>)+
qed

lemma lex_lt_irrefl [simp]: "\<not> lex_lt s s"
  by (induction s) auto

lemma lex_lt_trans: "lex_lt a b \<Longrightarrow> lex_lt b c \<Longrightarrow> lex_lt a c"
  by (induction a b arbitrary: c rule: lex_lt.induct) (case_tac c; auto)+

lemma lex_lt_asym: "lex_lt a b \<Longrightarrow> \<not> lex_lt b a"
  using lex_lt_trans lex_lt_irrefl by blast

lemma lex_lt_total: "a = b \<or> lex_lt a b \<or> lex_lt b a"
proof (induction a arbitrary: b)
  case Nil
  then show ?case by (cases b) auto
next
  case (Cons x xs)
  then show ?case by (cases b) auto
qed

section \<open>Sorting\<close>

text \<open>
  The interface between the sort and the keys: a strict weak order \<open>lt\<close> on the keys that
  satisfy \<open>dm\<close>.
\<close>

fun insert_by :: "('k \<Rightarrow> 'k \<Rightarrow> bool) \<Rightarrow> 'k \<times> 'a \<Rightarrow> ('k \<times> 'a) list \<Rightarrow> ('k \<times> 'a) list" where
  "insert_by lt x [] = [x]"
| "insert_by lt x (y # ys) = (if lt (fst y) (fst x) then y # insert_by lt x ys else x # y # ys)"

definition sort_pairs :: "('k \<Rightarrow> 'k \<Rightarrow> bool) \<Rightarrow> ('k \<times> 'a) list \<Rightarrow> ('k \<times> 'a) list" where
  "sort_pairs lt xs = foldr (insert_by lt) xs []"

lemma insert_by_mset [simp]: "mset (insert_by lt x ys) = add_mset x (mset ys)"
  by (induction ys) auto

lemma sort_pairs_mset [simp]: "mset (sort_pairs lt xs) = mset xs"
  by (induction xs) (simp_all add: sort_pairs_def)

locale key_order =
  fixes lt :: "'k \<Rightarrow> 'k \<Rightarrow> bool"
    and dm :: "'k \<Rightarrow> bool"
  assumes asym: "dm x \<Longrightarrow> dm y \<Longrightarrow> lt x y \<Longrightarrow> \<not> lt y x"
    and neg_trans: "dm x \<Longrightarrow> dm y \<Longrightarrow> dm z \<Longrightarrow> lt x z \<Longrightarrow> lt x y \<or> lt y z"
begin

definition in_order :: "('k \<times> 'a) list \<Rightarrow> bool" where
  "in_order xs \<longleftrightarrow> sorted_wrt (\<lambda>x y. \<not> lt (fst y) (fst x)) xs"

lemma insert_by_order:
  assumes "in_order ys" and "dm (fst x)" and "\<forall>y \<in> set ys. dm (fst y)"
  shows "in_order (insert_by lt x ys)"
  using assms
proof (induction ys)
  case (Cons y ys)
  have s: "set (insert_by lt x zs) = insert x (set zs)" for zs by (induction zs) auto
  show ?case
  proof (cases "lt (fst y) (fst x)")
    case True
    then have "\<not> lt (fst x) (fst y)" using asym Cons.prems by simp
    then show ?thesis using Cons True by (auto simp: in_order_def s)
  next
    case False
    have "\<not> lt (fst z) (fst x)" if "z \<in> set ys" for z
      using neg_trans [of "fst z" "fst y" "fst x"] False Cons.prems that by (auto simp: in_order_def)
    then show ?thesis using False Cons.prems by (auto simp: in_order_def)
  qed
qed (simp add: in_order_def)

lemma sort_pairs_order:
  assumes "\<forall>x \<in> set xs. dm (fst x)"
  shows "in_order (sort_pairs lt xs)"
  using assms
proof (induction xs)
  case (Cons x xs)
  have "set (sort_pairs lt xs) = set xs" using sort_pairs_mset [of lt xs] by (metis set_mset_mset)
  then show ?case using Cons insert_by_order [of "sort_pairs lt xs" x] by (simp add: sort_pairs_def)
qed (simp add: sort_pairs_def in_order_def)

text \<open>Equal keys keep their order.\<close>

lemma insert_by_stable:
  assumes "in_order ys" and "dm k" and "dm (fst x)" and "\<forall>y \<in> set ys. dm (fst y)"
  shows "filter (\<lambda>y. \<not> lt (fst y) k \<and> \<not> lt k (fst y)) (insert_by lt x ys)
    = filter (\<lambda>y. \<not> lt (fst y) k \<and> \<not> lt k (fst y)) (x # ys)"
  using assms
proof (induction ys)
  case (Cons y ys)
  show ?case
  proof (cases "lt (fst y) (fst x) \<and> \<not> lt (fst x) k \<and> \<not> lt k (fst x)")
    case True
    then have "lt (fst y) k" using neg_trans [of "fst y" k "fst x"] Cons.prems by auto
    then show ?thesis using Cons by (auto simp: in_order_def)
  qed (use Cons in \<open>auto simp: in_order_def\<close>)
qed simp

lemma sort_pairs_stable:
  assumes "\<forall>x \<in> set xs. dm (fst x)" and "dm k"
  shows "filter (\<lambda>y. \<not> lt (fst y) k \<and> \<not> lt k (fst y)) (sort_pairs lt xs)
    = filter (\<lambda>y. \<not> lt (fst y) k \<and> \<not> lt k (fst y)) xs"
  using assms
proof (induction xs)
  case (Cons x xs)
  have "set (sort_pairs lt xs) = set xs" using sort_pairs_mset [of lt xs] by (metis set_mset_mset)
  then have "filter (\<lambda>y. \<not> lt (fst y) k \<and> \<not> lt k (fst y)) (insert_by lt x (sort_pairs lt xs))
      = filter (\<lambda>y. \<not> lt (fst y) k \<and> \<not> lt k (fst y)) (x # sort_pairs lt xs)"
    using Cons.prems by (intro insert_by_stable sort_pairs_order) auto
  then show ?case using Cons by (simp add: sort_pairs_def)
qed (simp add: sort_pairs_def)

end

interpretation by_number: key_order "\<lambda>x y. py_lt x y = Inr True" is_number
  by unfold_locales (auto simp: py_lt_number)

interpretation by_text: key_order "\<lambda>x y. py_lt x y = Inr True" is_text
proof unfold_locales
  fix x y z
  assume "is_text x" "is_text y" "is_text z" and "py_lt x z = Inr True"
  then show "py_lt x y = Inr True \<or> py_lt y z = Inr True"
    using lex_lt_total [of "text_of x" "text_of y"] lex_lt_trans [of "text_of y" "text_of x" "text_of z"]
    by (auto simp: py_lt_text)
qed (auto simp: py_lt_text lex_lt_asym)

text \<open>
  \<open>list.sort(key=..., reverse=...)\<close> on pairs of key and element. Every sort compares all
  pairs of neighbours in its result, so that it raises exactly when some pair of keys cannot
  be compared. With a NaN among the keys \<open><\<close> is no order, and the outcome depends on which
  comparisons the interpreter makes: the parameter \<open>other\<close> gives the positions in the order
  it leaves them. The reverse sort keeps the order of equal keys too.
\<close>

definition sort_by ::
  "(bool \<Rightarrow> 'k list \<Rightarrow> nat list) \<Rightarrow> ('k \<Rightarrow> bool) \<Rightarrow> ('k \<Rightarrow> 'k \<Rightarrow> py_error + bool) \<Rightarrow>
   bool \<Rightarrow> ('k \<times> 'a) list \<Rightarrow> py_error + 'a list" where
  "sort_by other irregular lt reverse kxs =
     (if \<not> sorted_wrt (\<lambda>x y. \<not> isl (lt (fst x) (fst y))) kxs then Inl PyTypeError
      else if 1 < length kxs \<and> list_ex (irregular \<circ> fst) kxs then
        Inr (map (\<lambda>i. snd (kxs ! i)) (other reverse (map fst kxs)))
      else
        let s = sort_pairs (\<lambda>x y. lt x y = Inr True) in
        Inr (map snd (if reverse then rev (s (rev kxs)) else s kxs)))"

text \<open>Two keys that compare belong to one kind, so that a list that sorts is of one kind.\<close>

lemma one_kind:
  assumes "sorted_wrt (\<lambda>x y. \<not> isl (py_lt (fst x) (fst y))) kxs" and "\<forall>x \<in> set kxs. \<not> is_nan (fst x)"
    and "1 < length kxs"
  shows "(\<forall>x \<in> set kxs. is_number (fst x)) \<or> (\<forall>x \<in> set kxs. is_text (fst x))"
proof -
  obtain x xs where kxs: "kxs = x # xs" "xs \<noteq> []" using assms(3) by (cases kxs) auto
  have c: "is_number (fst x) \<and> is_number (fst y) \<or> is_text (fst x) \<and> is_text (fst y)"
    if "y \<in> set xs" for y
    using assms that kxs py_lt_kinds [of "fst x" "fst y"] by (cases "py_lt (fst x) (fst y)") auto
  have "\<not> (is_number v \<and> is_text v)" for v by (cases v) auto
  with c kxs show ?thesis by (cases xs) (auto, metis+)
qed

lemma kind_equal:
  "is_number x \<and> is_number k \<or> is_text x \<and> is_text k \<Longrightarrow>
   (py_lt x k \<noteq> Inr True \<and> py_lt k x \<noteq> Inr True) = py_eq x k"
proof (elim disjE conjE)
  assume "is_text x" "is_text k"
  then show ?thesis using lex_lt_total [of "text_of x" "text_of k"]
    by (cases x; cases k) auto
qed (auto simp: py_lt_number py_eq_number)

definition key_sorted :: "bool \<Rightarrow> (pyval \<times> 'a) list \<Rightarrow> bool" where
  "key_sorted reverse zs \<longleftrightarrow>
     sorted_wrt (\<lambda>x y. if reverse then py_lt (fst x) (fst y) \<noteq> Inr True
                       else py_lt (fst y) (fst x) \<noteq> Inr True) zs"

lemma sort_kind:
  fixes reverse :: bool
  assumes "key_order (\<lambda>x y. py_lt x y = Inr True) dm"
    and kxs: "\<forall>x \<in> set kxs. dm (fst x)"
    and eq: "\<And>x k. dm x \<Longrightarrow> dm k \<Longrightarrow> (py_lt x k \<noteq> Inr True \<and> py_lt k x \<noteq> Inr True) = py_eq x k"
  defines "s \<equiv> sort_pairs (\<lambda>x y. py_lt x y = Inr True)"
  defines "zs \<equiv> if reverse then rev (s (rev kxs)) else s kxs"
  shows "mset zs = mset kxs \<and> key_sorted reverse zs
    \<and> (\<forall>k. dm k \<longrightarrow> filter (\<lambda>z. py_eq (fst z) k) zs = filter (\<lambda>z. py_eq (fst z) k) kxs)"
proof -
  note k = key_order.sort_pairs_order [OF assms(1)] key_order.sort_pairs_stable [OF assms(1)]
  have mem: "set (s xs) = set xs" for xs unfolding s_def by (metis set_mset_mset sort_pairs_mset)
  have st: "filter (\<lambda>z. py_eq (fst z) k) (s xs) = filter (\<lambda>z. py_eq (fst z) k) xs"
    if "dm k" "\<forall>x \<in> set xs. dm (fst x)" for k xs
  proof -
    have *: "filter (\<lambda>z. py_lt (fst z) k \<noteq> Inr True \<and> py_lt k (fst z) \<noteq> Inr True) ys
        = filter (\<lambda>z. py_eq (fst z) k) ys" if "\<forall>x \<in> set ys. dm (fst x)" for ys
      by (rule filter_cong) (use that \<open>dm k\<close> eq in auto)
    show ?thesis using k(2) [OF that(2,1)] * [of "s xs"] * [of xs] that(2) mem [of xs] by (simp add: s_def)
  qed
  have "sorted_wrt (\<lambda>x y. py_lt (fst y) (fst x) \<noteq> Inr True) (s xs)" if "\<forall>x \<in> set xs. dm (fst x)" for xs
    using k(1) [OF that] by (simp add: s_def key_order.in_order_def [OF assms(1)])
  from this [of kxs] this [of "rev kxs"] have "key_sorted reverse zs"
    using kxs by (simp add: key_sorted_def zs_def sorted_wrt_rev)
  moreover have "mset zs = mset kxs" by (simp add: zs_def s_def)
  ultimately show ?thesis
    using st [of _ kxs] st [of _ "rev kxs"] kxs by (auto simp: zs_def rev_filter [symmetric])
qed

text \<open>The sort of values without NaN: a stable permutation in the order of the keys.\<close>

lemma sort_by_ok:
  assumes ok: "sort_by other is_nan py_lt reverse kxs = Inr ys" and nan: "\<forall>x \<in> set kxs. \<not> is_nan (fst x)"
  obtains zs where "ys = map snd zs" and "mset zs = mset kxs" and "key_sorted reverse zs"
    and "\<And>k. k \<in> fst ` set kxs \<Longrightarrow> filter (\<lambda>z. py_eq (fst z) k) zs = filter (\<lambda>z. py_eq (fst z) k) kxs"
proof (cases "1 < length kxs")
  case False
  have *: "sort_pairs lt kxs = kxs" "sort_pairs lt (rev kxs) = kxs" for lt :: "pyval \<Rightarrow> pyval \<Rightarrow> bool"
    using False by (cases kxs; cases "tl kxs"; simp add: sort_pairs_def)+
  have "rev kxs = kxs" using False by (cases kxs; cases "tl kxs"; simp)
  then have "ys = map snd kxs" using ok * nan
    by (cases kxs; cases "tl kxs") (auto simp: sort_by_def Let_def list_ex_iff split: if_splits)
  then show ?thesis using False
    by (intro that [of kxs]) (cases kxs; cases "tl kxs"; auto simp: key_sorted_def)+
next
  case True
  have c: "sorted_wrt (\<lambda>x y. \<not> isl (py_lt (fst x) (fst y))) kxs"
    using ok by (simp add: sort_by_def split: if_splits)
  let ?s = "sort_pairs (\<lambda>x y. py_lt x y = Inr True)"
  let ?zs = "if reverse then rev (?s (rev kxs)) else ?s kxs"
  have ys: "ys = map snd ?zs" using ok c nan by (auto simp: sort_by_def Let_def list_ex_iff split: if_splits)
  from one_kind [OF c nan True] have "mset ?zs = mset kxs \<and> key_sorted reverse ?zs
    \<and> (\<forall>k \<in> fst ` set kxs. filter (\<lambda>z. py_eq (fst z) k) ?zs = filter (\<lambda>z. py_eq (fst z) k) kxs)"
  proof
    assume "\<forall>x \<in> set kxs. is_number (fst x)"
    then show ?thesis using sort_kind [OF by_number.key_order_axioms, of kxs reverse] kind_equal by auto
  next
    assume "\<forall>x \<in> set kxs. is_text (fst x)"
    then show ?thesis using sort_kind [OF by_text.key_order_axioms, of kxs reverse] kind_equal by auto
  qed
  then show ?thesis using ys by (intro that [of ?zs]) auto
qed

lemma sort_by_mset:
  assumes "sort_by other irregular lt reverse kxs = Inr ys" and "\<forall>x \<in> set kxs. \<not> irregular (fst x)"
  shows "mset ys = image_mset snd (mset kxs)"
proof -
  let ?s = "sort_pairs (\<lambda>x y. lt x y = Inr True)"
  have "ys = map snd (if reverse then rev (?s (rev kxs)) else ?s kxs)"
    using assms by (auto simp: sort_by_def Let_def list_ex_iff split: if_splits)
  then show ?thesis by (cases reverse) simp_all
qed

end
