(* ===== verification/Eval.thy ===== *)
theory Eval
  imports PyOrder CatalogCodec
begin

text \<open>
  The evaluators of tinydb/executor/select.py: a row as a dict from column names (and
  \<open>rowid\<close>) to values, expressions and predicates over it, and the projection of a row.
\<close>

section \<open>Rows\<close>

type_synonym row = "(pystr, pyval) dict"

text \<open>\<open>row.get(k)\<close> and \<open>row.get(k, default)\<close>.\<close>

definition row_get :: "row \<Rightarrow> pystr \<Rightarrow> pyval" where
  "row_get r k = (case dict_get r k of None \<Rightarrow> PNone | Some v \<Rightarrow> v)"

definition row_get_or :: "row \<Rightarrow> pystr \<Rightarrow> pyval \<Rightarrow> pyval" where
  "row_get_or r k d = (case dict_get r k of None \<Rightarrow> d | Some v \<Rightarrow> v)"

text \<open>\<open>_row_to_dict\<close>: of two columns with the same name the last one counts.\<close>

definition row_dict :: "table_meta \<Rightarrow> pyval list \<Rightarrow> row" where
  "row_dict meta vs = dict_of (zip (map fst (tm_schema meta)) vs)"

definition row_to_dict :: "table_meta \<Rightarrow> nat \<times> pyval list \<Rightarrow> row" where
  "row_to_dict meta r = dict_set (str ''rowid'') (PInt (int (fst r))) (row_dict meta (snd r))"

section \<open>Expressions\<close>

text \<open>\<open>f"{table}.{name}"\<close>, the key of a column that a join has prefixed.\<close>

definition qualified_key :: "pystr \<Rightarrow> pystr \<Rightarrow> pystr" where
  "qualified_key table name = table @ 46 # name"

definition compare_op :: "pystr \<Rightarrow> pyval \<Rightarrow> pyval \<Rightarrow> py_error + bool" where
  "compare_op op left right =
     (if left = PNone \<or> right = PNone then Inr False
      else if op = str ''='' then Inr (py_eq left right)
      else if op = str ''<>'' then Inr (\<not> py_eq left right)
      else if op = str ''<'' then py_lt left right
      else if op = str ''<='' then py_le left right
      else if op = str ''>'' then py_lt right left
      else if op = str ''>='' then py_le right left
      else Inr False)"

function eval_expr :: "row \<Rightarrow> expr \<Rightarrow> py_error + pyval"
  and eval_comparison :: "row \<Rightarrow> pystr \<Rightarrow> expr \<Rightarrow> expr \<Rightarrow> py_error + bool" where
  "eval_expr row (Column n) = Inr (row_get row n)"
| "eval_expr row (QualifiedColumn (Some t) n) =
     Inr (row_get_or row (qualified_key t n) (row_get row n))"
| "eval_expr row (QualifiedColumn None n) = Inr (row_get row n)"
| "eval_expr row (SqlLiteral v raw) = Inr v"
| "eval_expr row (BinaryOp op l r) = rbind (eval_comparison row op l r) (\<lambda>b. Inr (PBool b))"
| "eval_expr row Star = Inr PNone"
| "eval_expr row (LogicalOp op l r) = Inr PNone"
| "eval_expr row (UnaryOp op e) = Inr PNone"
| "eval_expr row (InPredicate e vs neg) = Inr PNone"
| "eval_comparison row op l r =
     rbind (eval_expr row l) (\<lambda>left.
     if op = str ''IS NULL'' then Inr (left = PNone)
     else if op = str ''IS NOT NULL'' then Inr (left \<noteq> PNone)
     else rbind (eval_expr row r) (\<lambda>right. compare_op op left right))"
  by pat_completeness auto

termination
  by (relation "measure (case_sum (\<lambda>(row, e). 2 * size e) (\<lambda>(row, op, l, r). 2 * (size l + size r) + 1))") auto

text \<open>\<open>v in values\<close>: by identity or equality; the values of a statement contain no NaN.\<close>

definition py_in :: "pyval \<Rightarrow> pyval list \<Rightarrow> bool" where
  "py_in v vs = list_ex (py_eq v) vs"

fun eval_predicate :: "row \<Rightarrow> expr \<Rightarrow> py_error + bool" where
  "eval_predicate row (LogicalOp op l r) =
     rbind (eval_predicate row l) (\<lambda>left.
     if op = str ''AND'' then (if left then eval_predicate row r else Inr False)
     else (if left then Inr True else eval_predicate row r))"
| "eval_predicate row (BinaryOp op l r) = eval_comparison row op l r"
| "eval_predicate row (InPredicate e vs negated) =
     rbind (eval_expr row e) (\<lambda>v. Inr (if negated then \<not> py_in v vs else py_in v vs))"
| "eval_predicate row (UnaryOp op e) =
     rbind (eval_expr row e) (\<lambda>v. Inr (if op = str ''NOT'' then \<not> truthy v else False))"
| "eval_predicate row e = rbind (eval_expr row e) (\<lambda>v. Inr (truthy v))"

text \<open>A missing predicate (None) holds.\<close>

definition eval_where :: "row \<Rightarrow> expr option \<Rightarrow> py_error + bool" where
  "eval_where row w = (case w of None \<Rightarrow> Inr True | Some e \<Rightarrow> eval_predicate row e)"

section \<open>Projection\<close>

text \<open>\<open>s.replace(p, r)\<close> for a non-empty \<open>p\<close>.\<close>

fun replace_sub :: "pystr \<Rightarrow> pystr \<Rightarrow> pystr \<Rightarrow> pystr" where
  "replace_sub p r [] = []"
| "replace_sub p r (c # s) =
     (if starts_with (c # s) p then r @ replace_sub p r (drop (length p - 1) s)
      else c # replace_sub p r s)"

text \<open>\<open>s.split("(")[1].rstrip(")")\<close> of a text with a parenthesis.\<close>

definition argument_name :: "pystr \<Rightarrow> pystr" where
  "argument_name s =
     rev (dropWhile (\<lambda>c. c = 41) (rev (takeWhile (\<lambda>c. c \<noteq> 40) (drop 1 (dropWhile (\<lambda>c. c \<noteq> 40) s)))))"

definition col_key :: "nat \<Rightarrow> pystr" where
  "col_key i = str ''col_'' @ nat_digits i"

definition proj_key :: "runtime \<Rightarrow> nat \<Rightarrow> expr \<Rightarrow> pystr" where
  "proj_key u i proj =
     (case proj of
        Column n \<Rightarrow> n
      | SqlLiteral v raw \<Rightarrow>
          replace_sub (str '')'') [] (replace_sub (str ''('') (str ''_'')
            (replace_sub (str ''(*)'') [] (py_lower u (py_str u v))))
      | _ \<Rightarrow> col_key i)"

text \<open>A text literal that starts with a letter names a column; \<open>''[0]\<close> of the empty text raises.\<close>

definition literal_value :: "runtime \<Rightarrow> row \<Rightarrow> pyval \<Rightarrow> py_error + pyval" where
  "literal_value u row v =
     (case v of
        PText s \<Rightarrow>
          if s = [] then Inl IndexError
          else if ch_isalpha u (hd s) then Inr (row_get row (if 40 \<in> set s then argument_name s else s))
          else Inr v
      | _ \<Rightarrow> Inr v)"

definition project_item :: "runtime \<Rightarrow> row \<Rightarrow> nat \<Rightarrow> expr \<Rightarrow> py_error + pystr \<times> pyval" where
  "project_item u row i proj =
     (case proj of
        Column n \<Rightarrow> Inr (n, row_get row n)
      | QualifiedColumn t n \<Rightarrow>
          Inr (n, row_get_or row (qualified_key (case t of Some t' \<Rightarrow> t' | None \<Rightarrow> str ''None'') n) (row_get row n))
      | SqlLiteral v raw \<Rightarrow> rbind (literal_value u row v) (\<lambda>x. Inr (proj_key u i proj, x))
      | _ \<Rightarrow> rbind (eval_expr row proj) (\<lambda>x. Inr (proj_key u i proj, x)))"

fun project_items :: "runtime \<Rightarrow> row \<Rightarrow> nat \<Rightarrow> expr list \<Rightarrow> row \<Rightarrow> py_error + row" where
  "project_items u row i [] out = Inr out"
| "project_items u row i (p # ps) out =
     rbind (project_item u row i p) (\<lambda>(k, v). project_items u row (i + 1) ps (dict_set k v out))"

definition project_row :: "runtime \<Rightarrow> expr list \<Rightarrow> row \<Rightarrow> py_error + row" where
  "project_row u projections row = project_items u row 0 projections []"

section \<open>Filtering, ordering and cutting\<close>

text \<open>\<open>xs[n:]\<close> and \<open>xs[:n]\<close>; a negative index counts from the end.\<close>

definition py_from :: "int \<Rightarrow> 'a list \<Rightarrow> 'a list" where
  "py_from n xs = drop (if n < 0 then length xs - nat (- n) else nat n) xs"

definition py_upto :: "int \<Rightarrow> 'a list \<Rightarrow> 'a list" where
  "py_upto n xs = take (if n < 0 then length xs - nat (- n) else nat n) xs"

definition cut_rows :: "int option \<Rightarrow> int option \<Rightarrow> 'a list \<Rightarrow> 'a list" where
  "cut_rows limit offset rows =
     (let rows' = (case offset of None \<Rightarrow> rows | Some n \<Rightarrow> if n = 0 then rows else py_from n rows) in
      case limit of None \<Rightarrow> rows' | Some n \<Rightarrow> py_upto n rows')"

definition filter_rows :: "('a \<Rightarrow> row) \<Rightarrow> expr option \<Rightarrow> 'a list \<Rightarrow> py_error + 'a list" where
  "filter_rows view wh rows =
     (case wh of None \<Rightarrow> Inr rows | Some w \<Rightarrow> rfilter (\<lambda>r. eval_predicate (view r) w) rows)"

text \<open>Only the first ORDER BY item counts.\<close>

definition order_rows :: "runtime \<Rightarrow> ('a \<Rightarrow> row) \<Rightarrow> order_item list \<Rightarrow> 'a list \<Rightarrow> py_error + 'a list" where
  "order_rows u view order_by rows =
     (case order_by of
        [] \<Rightarrow> Inr rows
      | (e, desc) # _ \<Rightarrow>
          rbind (rmap (\<lambda>r. rbind (eval_expr (view r) e) (\<lambda>k. Inr (k, r))) rows) (\<lambda>keyed.
          sort_by (\<lambda>b ks. rt_sort_nan u b (map (\<lambda>k. [k]) ks)) is_nan py_lt desc keyed))"

section \<open>What filtering and ordering return\<close>

lemma filter_rows_ok:
  "filter_rows view wh rows = Inr ys \<Longrightarrow> ys = filter (\<lambda>r. eval_where (view r) wh = Inr True) rows"
  by (auto simp: filter_rows_def eval_where_def rfilter_selected split: option.splits)

definition sort_key :: "('a \<Rightarrow> row) \<Rightarrow> expr \<Rightarrow> 'a \<Rightarrow> pyval" where
  "sort_key view e r = (case eval_expr (view r) e of Inr k \<Rightarrow> k | Inl _ \<Rightarrow> PNone)"

lemma keyed_rows:
  "rmap (\<lambda>r. rbind (eval_expr (view r) e) (\<lambda>k. Inr (k, r))) rows = Inr keyed \<Longrightarrow>
   keyed = map (\<lambda>r. (sort_key view e r, r)) rows"
  by (induction rows arbitrary: keyed) (auto simp: sort_key_def)

text \<open>
  \<open>in_key_order\<close>: no row is followed by a row whose key comes before its own.
\<close>

definition in_key_order :: "bool \<Rightarrow> ('a \<Rightarrow> pyval) \<Rightarrow> 'a list \<Rightarrow> bool" where
  "in_key_order desc key rs \<longleftrightarrow>
     sorted_wrt (\<lambda>x y. (if desc then py_lt (key x) (key y) else py_lt (key y) (key x)) \<noteq> Inr True) rs"

lemma order_rows_ok:
  assumes ok: "order_rows u view ((e, desc) # os) rows = Inr ys"
    and nan: "\<forall>r \<in> set rows. \<not> is_nan (sort_key view e r)"
  shows "mset ys = mset rows" and "in_key_order desc (sort_key view e) ys"
    and "\<And>r. r \<in> set rows \<Longrightarrow>
      filter (\<lambda>x. py_eq (sort_key view e x) (sort_key view e r)) ys
      = filter (\<lambda>x. py_eq (sort_key view e x) (sort_key view e r)) rows"
proof -
  let ?key = "sort_key view e"
  from ok have s: "sort_by (\<lambda>b ks. rt_sort_nan u b (map (\<lambda>k. [k]) ks)) is_nan py_lt desc
      (map (\<lambda>r. (?key r, r)) rows) = Inr ys"
    by (auto simp: order_rows_def dest: keyed_rows)
  have "\<forall>x \<in> set (map (\<lambda>r. (?key r, r)) rows). \<not> is_nan (fst x)" using nan by simp
  from sort_by_ok [OF s this] obtain zs where z: "ys = map snd zs" "mset zs = mset (map (\<lambda>r. (?key r, r)) rows)"
    "key_sorted desc zs" and st: "\<And>k. k \<in> ?key ` set rows \<Longrightarrow>
      filter (\<lambda>z. py_eq (fst z) k) zs = filter (\<lambda>z. py_eq (fst z) k) (map (\<lambda>r. (?key r, r)) rows)"
    by (auto simp: image_image)
  have "set zs = set (map (\<lambda>r. (?key r, r)) rows)" using z(2) by (rule mset_eq_setD)
  then have "(?key (snd x), snd x) = x" if "x \<in> set zs" for x using that by auto
  then have "map (\<lambda>x. (?key (snd x), snd x)) zs = zs" by (rule map_idI)
  then have zs: "zs = map (\<lambda>r. (?key r, r)) ys" by (simp add: z(1) comp_def)
  show "mset ys = mset rows"
    using arg_cong [OF z(2), of "image_mset snd"] z(1) by (simp add: mset_map [symmetric] comp_def del: mset_map)
  show "in_key_order desc ?key ys"
    using z(3) unfolding zs key_sorted_def in_key_order_def sorted_wrt_map
    by (rule sorted_wrt_mono_rel [rotated]) (auto split: if_splits)
  show "filter (\<lambda>x. py_eq (?key x) (?key r)) ys = filter (\<lambda>x. py_eq (?key x) (?key r)) rows"
    if "r \<in> set rows" for r
    using arg_cong [OF st [of "?key r"], of "map snd"] that
    by (simp add: zs filter_map comp_def)
qed

section \<open>Predicates that cannot raise\<close>

text \<open>
  The kinds of values that compare with each other, and what a table's columns say about a
  row: every name the environment types is in the row, with a value of its kind or NULL, and
  the row has no other name.
\<close>

datatype kind = K_Num | K_Text

type_synonym kenv = "pystr \<Rightarrow> kind option"

fun has_kind :: "pyval \<Rightarrow> kind \<Rightarrow> bool" where
  "has_kind PNone k = True"
| "has_kind (PText s) k = (k = K_Text)"
| "has_kind _ k = (k = K_Num)"

definition row_typed :: "kenv \<Rightarrow> row \<Rightarrow> bool" where
  "row_typed \<Gamma> row \<longleftrightarrow>
     (\<forall>n. case \<Gamma> n of None \<Rightarrow> dict_get row n = None | Some k \<Rightarrow> \<exists>v. dict_get row n = Some v \<and> has_kind v k)"

definition is_null_test :: "pystr \<Rightarrow> bool" where
  "is_null_test op \<longleftrightarrow> op = str ''IS NULL'' \<or> op = str ''IS NOT NULL''"

text \<open>
  \<open>expr_kind \<Gamma> e k\<close>: evaluating \<open>e\<close> does not raise and yields NULL or a value of kind \<open>k\<close>.
  A comparison other than a test for NULL needs two operands of one kind.
\<close>

fun expr_kind :: "kenv \<Rightarrow> expr \<Rightarrow> kind \<Rightarrow> bool" where
  "expr_kind \<Gamma> (Column n) k = (\<Gamma> n = None \<or> \<Gamma> n = Some k)"
| "expr_kind \<Gamma> (QualifiedColumn (Some t) n) k =
     (case \<Gamma> (qualified_key t n) of Some k' \<Rightarrow> k' = k | None \<Rightarrow> \<Gamma> n = None \<or> \<Gamma> n = Some k)"
| "expr_kind \<Gamma> (QualifiedColumn None n) k = (\<Gamma> n = None \<or> \<Gamma> n = Some k)"
| "expr_kind \<Gamma> (SqlLiteral v raw) k = has_kind v k"
| "expr_kind \<Gamma> (BinaryOp op l r) k =
     (k = K_Num
      \<and> (if is_null_test op then expr_kind \<Gamma> l K_Num \<or> expr_kind \<Gamma> l K_Text
         else expr_kind \<Gamma> l K_Num \<and> expr_kind \<Gamma> r K_Num \<or> expr_kind \<Gamma> l K_Text \<and> expr_kind \<Gamma> r K_Text))"
| "expr_kind \<Gamma> _ k = True"

fun well_kinded :: "kenv \<Rightarrow> expr \<Rightarrow> bool" where
  "well_kinded \<Gamma> (LogicalOp op l r) = (well_kinded \<Gamma> l \<and> well_kinded \<Gamma> r)"
| "well_kinded \<Gamma> (InPredicate e vs negated) = (expr_kind \<Gamma> e K_Num \<or> expr_kind \<Gamma> e K_Text)"
| "well_kinded \<Gamma> (UnaryOp op e) = (expr_kind \<Gamma> e K_Num \<or> expr_kind \<Gamma> e K_Text)"
| "well_kinded \<Gamma> e = (expr_kind \<Gamma> e K_Num \<or> expr_kind \<Gamma> e K_Text)"

lemma row_typed_get:
  assumes "row_typed \<Gamma> row"
  shows "\<Gamma> n = None \<Longrightarrow> dict_get row n = None"
    and "\<Gamma> n = Some k \<Longrightarrow> \<exists>v. dict_get row n = Some v \<and> has_kind v k"
  using assms by (auto simp: row_typed_def split: option.splits dest: spec [of _ n])

lemma row_get_kind: "row_typed \<Gamma> row \<Longrightarrow> \<Gamma> n = None \<or> \<Gamma> n = Some k \<Longrightarrow> has_kind (row_get row n) k"
  using row_typed_get [of \<Gamma> row n] by (auto simp: row_get_def)

lemma compare_op_total:
  assumes "has_kind a k" and "has_kind b k"
  shows "\<exists>t. compare_op op a b = Inr t"
proof (cases "a = PNone \<or> b = PNone")
  case False
  have "\<exists>t. py_lt x y = Inr t" if "has_kind x k" "has_kind y k" "x \<noteq> PNone" "y \<noteq> PNone" for x y
    using that by (cases x; cases y; cases k) auto
  then show ?thesis using assms False by (auto simp: compare_op_def py_le_def)
next
  case True
  then have "compare_op op a b = Inr False" by (simp add: compare_op_def)
  then show ?thesis by blast
qed

lemma eval_expr_total:
  assumes row: "row_typed \<Gamma> row"
  shows "expr_kind \<Gamma> e k \<Longrightarrow> \<exists>v. eval_expr row e = Inr v \<and> has_kind v k"
proof (induction e arbitrary: k)
  case (QualifiedColumn t n)
  show ?case
  proof (cases t)
    case None
    then show ?thesis using QualifiedColumn row_get_kind [OF row] by auto
  next
    case (Some t')
    show ?thesis
    proof (cases "\<Gamma> (qualified_key t' n)")
      case None
      then show ?thesis using QualifiedColumn Some row_get_kind [OF row, of n k] row_typed_get(1) [OF row None]
        by (auto simp: row_get_or_def)
    next
      case (Some k')
      then show ?thesis using QualifiedColumn \<open>t = Some t'\<close> row_typed_get(2) [OF row Some]
        by (auto simp: row_get_or_def)
    qed
  qed
next
  case (BinaryOp op l r)
  show ?case
  proof (cases "is_null_test op")
    case True
    then obtain v where "eval_expr row l = Inr v" using BinaryOp by (auto split: if_splits)
    then show ?thesis using True BinaryOp.prems by (auto simp: is_null_test_def)
  next
    case False
    then obtain k' where "expr_kind \<Gamma> l k'" "expr_kind \<Gamma> r k'" using BinaryOp.prems by auto
    then obtain a b where "eval_expr row l = Inr a" "eval_expr row r = Inr b" "has_kind a k'" "has_kind b k'"
      using BinaryOp.IH by blast
    then show ?thesis using False compare_op_total [of a k' b op] BinaryOp.prems by (auto simp: is_null_test_def)
  qed
qed (use row_get_kind [OF row] in auto)

lemma eval_predicate_total:
  assumes row: "row_typed \<Gamma> row"
  shows "well_kinded \<Gamma> e \<Longrightarrow> \<exists>b. eval_predicate row e = Inr b"
proof (induction e)
  case (LogicalOp op l r)
  then obtain a b where "eval_predicate row l = Inr a" "eval_predicate row r = Inr b" by auto
  then show ?case by (auto intro: exI [of _ True] exI [of _ False])
next
  case (BinaryOp op l r)
  then obtain k where "expr_kind \<Gamma> (BinaryOp op l r) k" unfolding well_kinded.simps by blast
  from eval_expr_total [OF row this] show ?case by (auto simp del: eval_comparison.simps)
next
  case (InPredicate e vs negated)
  then obtain k where "expr_kind \<Gamma> e k" unfolding well_kinded.simps by blast
  from eval_expr_total [OF row this] show ?case by auto
next
  case (UnaryOp op e)
  then obtain k where "expr_kind \<Gamma> e k" unfolding well_kinded.simps by blast
  from eval_expr_total [OF row this] show ?case by auto
next
  case (QualifiedColumn t n)
  then obtain k where "expr_kind \<Gamma> (QualifiedColumn t n) k" unfolding well_kinded.simps by blast
  from eval_expr_total [OF row this] show ?case by (cases t) auto
qed auto

section \<open>The kinds of a table's columns\<close>

fun column_kind :: "column_type \<Rightarrow> kind" where
  "column_kind T_TEXT = K_Text"
| "column_kind _ = K_Num"

definition kinds_ok :: "schema \<Rightarrow> pyval list \<Rightarrow> bool" where
  "kinds_ok sch vs \<longleftrightarrow> list_all2 (\<lambda>(_, t) v. has_kind v (column_kind t)) sch vs"

text \<open>What a stored row decodes to is of its columns' kinds, whatever the bytes are.\<close>

lemma decode_kind: "decode raw t = Inr v \<Longrightarrow> has_kind v (column_kind t)"
  by (cases t) (auto simp: decode_def split: if_splits)

lemma decode_row_kinds: "decode_row raw sch = Inr vs \<Longrightarrow> kinds_ok sch vs"
proof -
  have "decode_cells raw off sch = Inr vs \<Longrightarrow> kinds_ok sch vs" for off
  proof (induction sch arbitrary: off vs)
    case (Cons c sch)
    obtain n t where c: "c = (n, t)" by (cases c)
    from Cons.prems obtain v ws off' where "vs = v # ws" "has_kind v (column_kind t)"
      "decode_cells raw off' sch = Inr ws"
      by (auto simp: c dest: decode_kind split: if_splits)
    then show ?case using Cons.IH [of off' ws] by (simp add: kinds_ok_def c)
  qed (simp add: kinds_ok_def)
  then show "decode_row raw sch = Inr vs \<Longrightarrow> kinds_ok sch vs" by (auto simp: decode_row_def)
qed

definition table_kinds :: "table_meta \<Rightarrow> kenv" where
  "table_kinds meta n =
     (if n = str ''rowid'' then Some K_Num else map_option column_kind (map_of (rev (tm_schema meta)) n))"

lemma row_to_dict_typed:
  assumes "kinds_ok (tm_schema meta) (snd r)"
  shows "row_typed (table_kinds meta) (row_to_dict meta r)"
proof -
  have key: "case map_of (rev sch) n of
      None \<Rightarrow> map_of (rev (zip (map fst sch) vs)) n = None
    | Some t \<Rightarrow> \<exists>v. map_of (rev (zip (map fst sch) vs)) n = Some v \<and> has_kind v (column_kind t)"
    if "list_all2 (\<lambda>(_, t) v. has_kind v (column_kind t)) sch vs" for sch :: schema and vs n
    using that by (induction rule: list_all2_induct) (auto simp: map_add_def split: option.splits)
  have "case table_kinds meta n of None \<Rightarrow> dict_get (row_to_dict meta r) n = None
      | Some k \<Rightarrow> \<exists>v. dict_get (row_to_dict meta r) n = Some v \<and> has_kind v k" for n
    using key [OF assms [unfolded kinds_ok_def], of n]
    by (cases "map_of (rev (tm_schema meta)) n")
      (simp_all add: table_kinds_def row_to_dict_def row_dict_def dict_get_set dict_get_of)
  then show ?thesis by (simp add: row_typed_def)
qed

end
