(* ===== verification/Select.thy ===== *)
theory Select
  imports Heap Eval
begin

text \<open>
  The single-table path of tinydb/executor/select.py and tinydb/executor/aggregate.py. A
  SELECT reads the heap of its table, keeps the rows its WHERE accepts, orders and cuts them,
  and projects each; a SELECT with aggregates takes the rows unprojected and folds them,
  group by group.
\<close>

section \<open>The single-table path\<close>

definition table_heap :: "table_meta \<Rightarrow> heap" where
  "table_heap meta = \<lparr>hp_root = root_page_id meta, hp_schema = tm_schema meta\<rparr>"

definition has_star :: "expr list \<Rightarrow> bool" where
  "has_star projections = list_ex (\<lambda>p. p = Star) projections"

definition exec_single_table ::
  "runtime \<Rightarrow> file_store \<Rightarrow> table_meta \<Rightarrow> expr list \<Rightarrow> expr option \<Rightarrow> order_item list \<Rightarrow>
   int option \<Rightarrow> int option \<Rightarrow> bool \<Rightarrow> py_error + row list" where
  "exec_single_table u st meta projections wh order_by limit offset project =
     rbind (heap_scan (table_heap meta) st) (\<lambda>rows.
     rbind (filter_rows (row_to_dict meta) wh rows) (\<lambda>rows.
     rbind (order_rows u (row_to_dict meta) order_by rows) (\<lambda>rows.
     let rows = cut_rows limit offset rows in
     if \<not> project then Inr (map (row_to_dict meta) rows)
     else if has_star projections
       then Inr (map (\<lambda>r. dict_del (str ''rowid'') (row_to_dict meta r)) rows)
     else rmap (\<lambda>r. project_row u projections (row_to_dict meta r)) rows)))"

section \<open>Aggregates\<close>

definition py_num :: "runtime \<Rightarrow> pyval \<Rightarrow> py_error + pyval" where
  "py_num u v = (if v = PNone then Inr (PInt 0) else rbind (to_float u v) (\<lambda>b. Inr (PFloat b)))"

text \<open>\<open>sum(vals) / len(vals)\<close>; the sum is a float or, of NULLs only, the int 0.\<close>

definition mean :: "runtime \<Rightarrow> pyval list \<Rightarrow> pyval" where
  "mean u vals =
     (if vals = [] then PInt 0
      else case rt_sum u vals of
          PFloat b \<Rightarrow> PFloat (f_div_nat b (length vals))
        | PInt i \<Rightarrow> PFloat (round_ratio (i < 0) (nat \<bar>i\<bar>) (length vals))
        | v \<Rightarrow> v)"

text \<open>\<open>text[4:-1]\<close>.\<close>

definition aggregate_column :: "pystr \<Rightarrow> pystr" where
  "aggregate_column s = drop 4 (take (length s - 1) s)"

definition aggregate_item :: "runtime \<Rightarrow> row list \<Rightarrow> nat \<Rightarrow> expr \<Rightarrow> py_error + pystr \<times> pyval" where
  "aggregate_item u rows i proj =
     (case proj of
        SqlLiteral (PText s) raw \<Rightarrow>
          if starts_with s (str ''COUNT'') then Inr (str ''count'', PInt (int (length rows)))
          else if starts_with s (str ''SUM'') then
            rbind (rmap (\<lambda>r. py_num u (row_get r (aggregate_column s))) rows) (\<lambda>vals.
            Inr (str ''sum'', rt_sum u vals))
          else if starts_with s (str ''AVG'') then
            rbind (rmap (\<lambda>r. py_num u (row_get r (aggregate_column s))) rows) (\<lambda>vals.
            Inr (str ''avg'', mean u vals))
          else Inr (col_key i, PText s)
      | Column n \<Rightarrow> Inr (n, case rows of [] \<Rightarrow> PNone | r # _ \<Rightarrow> row_get r n)
      | _ \<Rightarrow> Inr (col_key i, PNone))"

fun aggregate_items :: "runtime \<Rightarrow> row list \<Rightarrow> nat \<Rightarrow> expr list \<Rightarrow> row \<Rightarrow> py_error + row" where
  "aggregate_items u rows i [] out = Inr out"
| "aggregate_items u rows i (p # ps) out =
     rbind (aggregate_item u rows i p) (\<lambda>(k, v). aggregate_items u rows (i + 1) ps (dict_set k v out))"

definition aggregate_group :: "runtime \<Rightarrow> row list \<Rightarrow> expr list \<Rightarrow> py_error + row" where
  "aggregate_group u rows projections = aggregate_items u rows 0 projections []"

text \<open>
  The groups are a dict keyed by the tuples of key values. Two tuples are one key when their
  values are equal; the key kept is the first one. The key objects of two rows are different
  objects, so that a NaN is no other row's key.
\<close>

definition group_key :: "expr list \<Rightarrow> row \<Rightarrow> pyval list" where
  "group_key group_by row = map (\<lambda>e. case e of Column n \<Rightarrow> row_get row n | _ \<Rightarrow> PNone) group_by"

definition tuple_eq :: "pyval list \<Rightarrow> pyval list \<Rightarrow> bool" where
  "tuple_eq = list_all2 py_eq"

fun add_to_group ::
  "pyval list \<Rightarrow> row \<Rightarrow> (pyval list \<times> row list) list \<Rightarrow> (pyval list \<times> row list) list" where
  "add_to_group k r [] = [(k, [r])]"
| "add_to_group k r ((k', rs) # gs) =
     (if tuple_eq k' k then (k', rs @ [r]) # gs else (k', rs) # add_to_group k r gs)"

definition group_rows :: "expr list \<Rightarrow> row list \<Rightarrow> (pyval list \<times> row list) list" where
  "group_rows group_by rows = fold (\<lambda>r gs. add_to_group (group_key group_by r) r gs) rows []"

text \<open>Tuples compare at the first position where they differ.\<close>

fun tuple_lt :: "pyval list \<Rightarrow> pyval list \<Rightarrow> py_error + bool" where
  "tuple_lt (a # as) (b # bs) = (if py_eq a b then tuple_lt as bs else py_lt a b)"
| "tuple_lt [] (_ # _) = Inr True"
| "tuple_lt _ _ = Inr False"

fun put_keys :: "expr list \<Rightarrow> pyval list \<Rightarrow> row \<Rightarrow> row" where
  "put_keys (e # es) (v # vs) out =
     put_keys es vs (case e of Column n \<Rightarrow> dict_set n v out | _ \<Rightarrow> out)"
| "put_keys _ _ out = out"

definition exec_aggregate :: "runtime \<Rightarrow> row list \<Rightarrow> expr list \<Rightarrow> expr list \<Rightarrow> py_error + row list" where
  "exec_aggregate u rows projections group_by =
     (if group_by = [] then rbind (aggregate_group u rows projections) (\<lambda>r. Inr [r])
      else
        rbind (sort_by (rt_sort_nan u) (list_ex is_nan) tuple_lt False
                 (map (\<lambda>g. (fst g, g)) (group_rows group_by rows))) (\<lambda>groups.
        rmap (\<lambda>(k, rs). rbind (aggregate_group u rs projections) (\<lambda>out.
          Inr (put_keys group_by k out))) groups))"

section \<open>What a SELECT returns\<close>

text \<open>
  C31: When all rows of the heap can be decoded and none has a NaN as its first ORDER BY key, a
  SELECT without projection that returns, returns the rows of the heap that its WHERE accepts, as
  a permutation in the order of that key that keeps rows with equal keys in the order of the
  heap, cut by OFFSET and then by LIMIT.
\<close>

theorem select_where_order_limit:
  assumes "heap_scan (table_heap meta) st = Inr rows"
    and "exec_single_table u st meta projections wh ((e, desc) # others) limit offset False = Inr out"
    and "\<forall>r \<in> set rows. \<not> is_nan (sort_key (row_to_dict meta) e r)"
  shows "\<exists>ordered. out = map (row_to_dict meta) (cut_rows limit offset ordered)
    \<and> mset ordered = mset (filter (\<lambda>r. eval_where (row_to_dict meta r) wh = Inr True) rows)
    \<and> in_key_order desc (sort_key (row_to_dict meta) e) ordered
    \<and> (\<forall>r \<in> set ordered. filter (\<lambda>x. py_eq (sort_key (row_to_dict meta) e x) (sort_key (row_to_dict meta) e r)) ordered
         = filter (\<lambda>x. py_eq (sort_key (row_to_dict meta) e x) (sort_key (row_to_dict meta) e r))
             (filter (\<lambda>r. eval_where (row_to_dict meta r) wh = Inr True) rows))"
proof -
  from assms(1,2) obtain kept ordered where k: "filter_rows (row_to_dict meta) wh rows = Inr kept"
    and o: "order_rows u (row_to_dict meta) ((e, desc) # others) kept = Inr ordered"
    and out: "out = map (row_to_dict meta) (cut_rows limit offset ordered)"
    by (auto simp: exec_single_table_def Let_def)
  have kept: "kept = filter (\<lambda>r. eval_where (row_to_dict meta r) wh = Inr True) rows"
    by (rule filter_rows_ok [OF k])
  have "\<forall>r \<in> set kept. \<not> is_nan (sort_key (row_to_dict meta) e r)" using kept assms(3) by simp
  note ok = order_rows_ok [OF o this]
  have "set ordered = set kept" using ok(1) by (rule mset_eq_setD)
  then show ?thesis using ok out kept by (intro exI [of _ ordered]) auto
qed

lemma scan_kinds:
  assumes "heap_scan h st = Inr rows" and "r \<in> set rows"
  shows "kinds_ok (hp_schema h) (snd r)"
proof -
  have "list_all (\<lambda>r. kinds_ok sch (snd r)) rows" if "scan_rows k body off sch = Inr rows" for k body off sch
    using that
    by (induction k arbitrary: off rows) (auto simp: Let_def decode_row_kinds split: if_splits)
  moreover obtain k body where "scan_rows k body 2 (hp_schema h) = Inr rows"
    using assms(1) by (auto simp: heap_scan_def case_prod_beta)
  ultimately show ?thesis using assms(2) by (auto simp: list_all_iff)
qed

lemma well_kinded_filter:
  assumes "\<forall>r \<in> set rows. row_typed \<Gamma> (view r)" and "\<forall>w. wh = Some w \<longrightarrow> well_kinded \<Gamma> w"
  shows "\<exists>kept. filter_rows view wh rows = Inr kept"
proof (cases wh)
  case (Some w)
  have "\<exists>b. eval_predicate (view r) w = Inr b" if "r \<in> set rows" for r
    using eval_predicate_total assms that Some by blast
  then have "rfilter (\<lambda>r. eval_predicate (view r) w) rows
      = Inr (filter (\<lambda>r. eval_predicate (view r) w = Inr True) rows)"
    by (intro rfilter_total) (metis (full_types))
  then show ?thesis using Some by (simp add: filter_rows_def)
qed (simp add: filter_rows_def)

text \<open>
  C32: When all rows of the heap can be decoded, a SELECT * without ORDER BY whose WHERE is well
  kinded for its table's columns does not raise, whatever values the rows hold: it returns exactly
  the rows the WHERE accepts, each without its rowid, in the order of the heap.
\<close>

theorem well_kinded_select:
  assumes "heap_scan (table_heap meta) st = Inr rows"
    and "\<forall>w. wh = Some w \<longrightarrow> well_kinded (table_kinds meta) w" and "has_star projections"
  shows "exec_single_table u st meta projections wh [] None None True
    = Inr (map (\<lambda>r. dict_del (str ''rowid'') (row_to_dict meta r))
        (filter (\<lambda>r. eval_where (row_to_dict meta r) wh = Inr True) rows))"
proof -
  have "\<forall>r \<in> set rows. row_typed (table_kinds meta) (row_to_dict meta r)"
    using scan_kinds [OF assms(1)] row_to_dict_typed by (simp add: table_heap_def)
  then obtain kept where k: "filter_rows (row_to_dict meta) wh rows = Inr kept"
    using well_kinded_filter assms(2) by blast
  then show ?thesis
    using assms(1,3) filter_rows_ok [OF k]
    by (simp add: exec_single_table_def order_rows_def cut_rows_def)
qed

lemma sort_null_raises:
  assumes "1 < length kxs" and "\<exists>x \<in> set kxs. fst x = PNone"
  shows "sort_by other irregular py_lt reverse kxs = Inl PyTypeError"
proof -
  have none: "isl (py_lt PNone v)" "isl (py_lt v PNone)" for v by (cases v; simp)+
  have "\<not> sorted_wrt (\<lambda>x y. \<not> isl (py_lt (fst x) (fst y))) kxs"
    using assms
  proof (induction kxs)
    case (Cons x kxs)
    then obtain y ys where ys: "kxs = y # ys" by (cases kxs) auto
    show ?case
    proof (cases "fst x = PNone \<or> length kxs = 1")
      case True
      then show ?thesis using Cons.prems ys none by auto
    next
      case False
      then show ?thesis using Cons ys by auto
    qed
  qed simp
  then show ?thesis by (simp add: sort_by_def)
qed

text \<open>
  Ordering by a column that is NULL in one of two or more accepted rows raises TypeError:
  NULL has no place in the order.
\<close>

theorem order_by_null_raises:
  assumes "heap_scan (table_heap meta) st = Inr rows"
    and "filter_rows (row_to_dict meta) wh rows = Inr kept" and "1 < length kept"
    and "\<exists>r \<in> set kept. row_get (row_to_dict meta r) n = PNone"
  shows "exec_single_table u st meta projections wh ((Column n, desc) # others) limit offset project
    = Inl PyTypeError"
proof -
  let ?keyed = "map (\<lambda>r. (row_get (row_to_dict meta r) n, r)) kept"
  have "rmap (\<lambda>r. rbind (eval_expr (row_to_dict meta r) (Column n)) (\<lambda>k. Inr (k, r))) kept = Inr ?keyed"
    by (rule rmap_total) simp
  moreover have "sort_by (\<lambda>b ks. rt_sort_nan u b (map (\<lambda>k. [k]) ks)) is_nan py_lt desc ?keyed = Inl PyTypeError"
    by (rule sort_null_raises) (use assms(3,4) in auto)
  ultimately show ?thesis
    using assms(1,2) by (simp add: exec_single_table_def order_rows_def)
qed

section \<open>Groups\<close>

lemma tuple_eq_laws:
  shows "list_all (\<lambda>v. \<not> is_nan v) k \<Longrightarrow> tuple_eq k k"
    and "tuple_eq k l = tuple_eq l k"
    and "tuple_eq k l \<Longrightarrow> tuple_eq l m \<Longrightarrow> tuple_eq k m"
proof -
  show "list_all (\<lambda>v. \<not> is_nan v) k \<Longrightarrow> tuple_eq k k"
    by (induction k) (auto simp: tuple_eq_def py_eq_refl)
  show "tuple_eq k l = tuple_eq l k"
    unfolding tuple_eq_def using list_all2_conv_all_nth py_eq_sym by (metis (no_types, lifting))
  show "tuple_eq k l \<Longrightarrow> tuple_eq l m \<Longrightarrow> tuple_eq k m"
    unfolding tuple_eq_def by (rule list_all2_trans [of py_eq py_eq py_eq]) (auto intro: py_eq_trans)
qed

text \<open>
  The groups of the rows seen so far: the keys differ, and the rows of a group are the rows
  with its key, in their order.
\<close>

definition groups_of :: "('r \<Rightarrow> pyval list) \<Rightarrow> 'r list \<Rightarrow> (pyval list \<times> 'r list) list \<Rightarrow> bool" where
  "groups_of key rows gs \<longleftrightarrow>
     sorted_wrt (\<lambda>g h. \<not> tuple_eq (fst g) (fst h)) gs
     \<and> (\<forall>(k, rs) \<in> set gs. rs \<noteq> [] \<and> rs = filter (\<lambda>r. tuple_eq k (key r)) rows)
     \<and> (\<forall>r \<in> set rows. \<exists>(k, rs) \<in> set gs. tuple_eq k (key r))"

lemma add_to_group_cases:
  assumes "sorted_wrt (\<lambda>g h. \<not> tuple_eq (fst g) (fst h)) gs"
  shows "(\<forall>g \<in> set gs. \<not> tuple_eq (fst g) k) \<Longrightarrow> add_to_group k r gs = gs @ [(k, [r])]"
    and "g \<in> set gs \<Longrightarrow> tuple_eq (fst g) k \<Longrightarrow>
      add_to_group k r gs = map (\<lambda>(k', rs). (k', if tuple_eq k' k then rs @ [r] else rs)) gs"
proof -
  show "(\<forall>g \<in> set gs. \<not> tuple_eq (fst g) k) \<Longrightarrow> add_to_group k r gs = gs @ [(k, [r])]"
    by (induction gs) auto
  have same: "map (\<lambda>(k', rs). (k', if tuple_eq k' k then rs @ [r] else rs)) hs = hs"
    if "\<forall>h \<in> set hs. \<not> tuple_eq (fst h) k" for hs
    by (rule map_idI) (use that in auto)
  show "g \<in> set gs \<Longrightarrow> tuple_eq (fst g) k \<Longrightarrow>
      add_to_group k r gs = map (\<lambda>(k', rs). (k', if tuple_eq k' k then rs @ [r] else rs)) gs"
    using assms
  proof (induction gs)
    case (Cons h hs)
    obtain k' rs where h: "h = (k', rs)" by (cases h)
    show ?case
    proof (cases "tuple_eq k' k")
      case True
      have "\<forall>h \<in> set hs. \<not> tuple_eq (fst h) k"
        using Cons.prems(3) True tuple_eq_laws(2,3) h by fastforce
      then show ?thesis using True by (simp add: h same)
    next
      case False
      then show ?thesis using Cons h by auto
    qed
  qed simp
qed

lemma group_step:
  assumes g: "groups_of key rows gs" and nan: "tuple_eq (key r) (key r)"
  shows "groups_of key (rows @ [r]) (add_to_group (key r) r gs)"
proof -
  have s: "sorted_wrt (\<lambda>g h. \<not> tuple_eq (fst g) (fst h)) gs"
    and mem: "\<And>k rs. (k, rs) \<in> set gs \<Longrightarrow> rs \<noteq> [] \<and> rs = filter (\<lambda>r. tuple_eq k (key r)) rows"
    and cov: "\<And>r. r \<in> set rows \<Longrightarrow> \<exists>(k, rs) \<in> set gs. tuple_eq k (key r)"
    using g by (auto simp: groups_of_def)
  show ?thesis
  proof (cases "\<exists>g \<in> set gs. tuple_eq (fst g) (key r)")
    case True
    then obtain g0 where g0: "g0 \<in> set gs" "tuple_eq (fst g0) (key r)" by blast
    let ?f = "\<lambda>(k', rs). (k', if tuple_eq k' (key r) then rs @ [r] else rs)"
    have e: "add_to_group (key r) r gs = map ?f gs"
      by (rule add_to_group_cases(2) [OF s g0])
    have "sorted_wrt (\<lambda>g h. \<not> tuple_eq (fst g) (fst h)) (map ?f gs)"
      using s unfolding sorted_wrt_map by (simp add: case_prod_beta)
    moreover have "rs \<noteq> [] \<and> rs = filter (\<lambda>r. tuple_eq k (key r)) (rows @ [r])" if "(k, rs) \<in> set (map ?f gs)" for k rs
      using that mem by auto
    moreover have "\<exists>(k, rs) \<in> set (map ?f gs). tuple_eq k (key x)" if "x \<in> set (rows @ [r])" for x
    proof -
      have "\<exists>k rs. (k, rs) \<in> set gs \<and> tuple_eq k (key x)"
        using that cov [of x] g0 by (cases g0) auto
      then obtain k rs where "(k, rs) \<in> set gs" "tuple_eq k (key x)" by blast
      then show ?thesis using imageI [of "(k, rs)" "set gs" ?f]
        by (intro bexI [of _ "?f (k, rs)"]) (simp_all split: if_splits)
    qed
    ultimately show ?thesis unfolding e groups_of_def by blast
  next
    case False
    have e: "add_to_group (key r) r gs = gs @ [(key r, [r])]"
      by (rule add_to_group_cases(1) [OF s]) (use False in blast)
    have "\<not> tuple_eq (key r) (key x)" if x: "x \<in> set rows" for x
    proof
      assume "tuple_eq (key r) (key x)"
      moreover obtain k rs where "(k, rs) \<in> set gs" "tuple_eq k (key x)" using cov [OF x] by blast
      ultimately show False using False tuple_eq_laws(2,3) by (metis fst_conv)
    qed
    then have none: "filter (\<lambda>x. tuple_eq (key r) (key x)) rows = []" by (simp add: filter_empty_conv)
    have "sorted_wrt (\<lambda>g h. \<not> tuple_eq (fst g) (fst h)) (gs @ [(key r, [r])])"
      using s False by (auto simp: sorted_wrt_append)
    moreover have "rs \<noteq> [] \<and> rs = filter (\<lambda>r. tuple_eq k (key r)) (rows @ [r])"
      if "(k, rs) \<in> set (gs @ [(key r, [r])])" for k rs
      using that mem none nan False by auto
    moreover have "\<exists>(k, rs) \<in> set (gs @ [(key r, [r])]). tuple_eq k (key x)" if "x \<in> set (rows @ [r])" for x
      using that cov nan by auto
    ultimately show ?thesis unfolding e groups_of_def by blast
  qed
qed

lemma groups_of_fold:
  assumes "groups_of key done gs" and "\<forall>r \<in> set rows. tuple_eq (key r) (key r)"
  shows "groups_of key (done @ rows) (fold (\<lambda>r gs. add_to_group (key r) r gs) rows gs)"
  using assms
proof (induction rows arbitrary: "done" gs)
  case (Cons r rows)
  have "groups_of key (done @ [r]) (add_to_group (key r) r gs)"
    by (rule group_step) (use Cons.prems in simp_all)
  from Cons.IH [OF this] show ?case using Cons.prems(2) by simp
qed simp

lemma group_rows_ok:
  assumes "\<forall>r \<in> set rows. \<forall>v \<in> set (group_key group_by r). \<not> is_nan v"
  shows "groups_of (group_key group_by) rows (group_rows group_by rows)"
proof -
  have "groups_of (group_key group_by) [] []" by (simp add: groups_of_def)
  moreover have "\<forall>r \<in> set rows. tuple_eq (group_key group_by r) (group_key group_by r)"
    using assms tuple_eq_laws(1) by (auto simp: list_all_iff)
  ultimately show ?thesis
    using groups_of_fold [of "group_key group_by" "[]" "[]" rows] by (simp add: group_rows_def)
qed

lemma group_rows_total: "sum_list (map (\<lambda>g. length (snd g)) (group_rows group_by rows)) = length rows"
proof -
  have step: "sum_list (map (\<lambda>g. length (snd g)) (add_to_group k r gs)) = Suc (sum_list (map (\<lambda>g. length (snd g)) gs))"
    for k r gs by (induction gs) auto
  have "sum_list (map (\<lambda>g. length (snd g)) (fold (\<lambda>r. add_to_group (group_key group_by r) r) rows gs))
      = length rows + sum_list (map (\<lambda>g. length (snd g)) gs)" for gs
    by (induction rows arbitrary: gs) (simp_all add: step)
  from this [of "[]"] show ?thesis by (simp add: group_rows_def)
qed

lemma pairwise_groups:
  assumes "sorted_wrt (\<lambda>g h. \<not> tuple_eq (fst g) (fst h)) gs" and "\<forall>g \<in> set gs. tuple_eq (fst g) (fst g)"
  shows "distinct gs \<and> (\<forall>g \<in> set gs. \<forall>h \<in> set gs. tuple_eq (fst g) (fst h) \<longrightarrow> g = h)"
  using assms by (induction gs) (auto simp: tuple_eq_laws(2))

lemma rmap_list_all2: "rmap f xs = Inr ys \<Longrightarrow> list_all2 (\<lambda>x y. f x = Inr y) xs ys"
  by (induction xs arbitrary: ys) auto

text \<open>
  C33: with a GROUP BY (and no NaN among its keys) the output has one row for each group, and
  the groups are a partition of the rows: their keys differ, the rows of a group are exactly
  the rows with its key, in their order, and every row is in one of them. The output row holds
  the aggregates of its group's rows, with the columns of the GROUP BY set to the key.
\<close>

theorem group_by_partition:
  assumes "exec_aggregate u rows projections group_by = Inr out" and "group_by \<noteq> []"
    and nan: "\<forall>r \<in> set rows. \<forall>v \<in> set (group_key group_by r). \<not> is_nan v"
  shows "\<exists>groups. distinct groups
    \<and> (\<forall>g \<in> set groups. \<forall>h \<in> set groups. tuple_eq (fst g) (fst h) \<longrightarrow> g = h)
    \<and> (\<forall>(k, rs) \<in> set groups. rs \<noteq> [] \<and> rs = filter (\<lambda>r. tuple_eq k (group_key group_by r)) rows)
    \<and> (\<Sum>g\<leftarrow>groups. length (snd g)) = length rows
    \<and> list_all2 (\<lambda>(k, rs) o'. \<exists>a. aggregate_group u rs projections = Inr a \<and> o' = put_keys group_by k a)
        groups out"
proof -
  let ?gs = "group_rows group_by rows"
  have g: "groups_of (group_key group_by) rows ?gs" by (rule group_rows_ok [OF nan])
  have mem: "rs \<noteq> [] \<and> rs = filter (\<lambda>r. tuple_eq k (group_key group_by r)) rows" if "(k, rs) \<in> set ?gs" for k rs
    using g that by (auto simp: groups_of_def)
  have key: "tuple_eq k k \<and> list_all (\<lambda>v. \<not> is_nan v) k" if m: "(k, rs) \<in> set ?gs" for k rs
  proof -
    obtain r where r: "r \<in> set rows" "tuple_eq k (group_key group_by r)" using mem [OF m] by (auto simp: filter_empty_conv)
    have "\<not> is_nan v" if "py_eq v w" for v w using py_eq_kinds [OF that] by (cases v) auto
    then have "list_all (\<lambda>v. \<not> is_nan v) k"
      using r(2) unfolding tuple_eq_def by (auto simp: list_all2_conv_all_nth list_all_length)
    then show ?thesis using tuple_eq_laws(1) by blast
  qed
  obtain groups where s: "sort_by (rt_sort_nan u) (list_ex is_nan) tuple_lt False (map (\<lambda>g. (fst g, g)) ?gs) = Inr groups"
    and out: "rmap (\<lambda>(k, rs). rbind (aggregate_group u rs projections) (\<lambda>out. Inr (put_keys group_by k out))) groups = Inr out"
    using assms(1,2) by (auto simp: exec_aggregate_def)
  have "\<forall>x \<in> set (map (\<lambda>g. (fst g, g)) ?gs). \<not> list_ex is_nan (fst x)"
    using key by (fastforce simp: list_ex_iff list_all_iff)
  from sort_by_mset [OF s this] have "mset groups = mset ?gs"
    by (simp add: image_mset.compositionality comp_def)
  then have perm: "set groups = set ?gs" "distinct groups = distinct ?gs"
    "(\<Sum>g\<leftarrow>groups. length (snd g)) = (\<Sum>g\<leftarrow>?gs. length (snd g))"
    by (auto dest: mset_eq_setD mset_eq_imp_distinct_iff simp flip: sum_mset_sum_list)
  have "distinct ?gs \<and> (\<forall>g \<in> set ?gs. \<forall>h \<in> set ?gs. tuple_eq (fst g) (fst h) \<longrightarrow> g = h)"
    by (rule pairwise_groups) (use g key in \<open>auto simp: groups_of_def\<close>)
  moreover have "list_all2 (\<lambda>(k, rs) o'. \<exists>a. aggregate_group u rs projections = Inr a \<and> o' = put_keys group_by k a) groups out"
    using rmap_list_all2 [OF out] by (rule list_all2_mono) auto
  ultimately show ?thesis using perm mem group_rows_total by (intro exI [of _ groups]) auto
qed

section \<open>A concrete table\<close>

text \<open>The table of the theory Heap with a second row, whose \<open>id\<close> is NULL.\<close>

definition demo_meta :: table_meta where
  "demo_meta = mk_meta (str ''t'') 1 [(str ''id'', T_INT), (str ''name'', T_TEXT)]"

definition demo_store2 :: file_store where
  "demo_store2 = snd (heap_append demo_heap [PNone, PText (str ''b'')] demo_store1)"

definition demo_rows :: "(nat \<times> pyval list) list" where
  "demo_rows = [(1, [PInt 7, PText (str ''a'')]), (2, [PNone, PText (str ''b'')])]"

lemma demo_table_heap: "table_heap demo_meta = demo_heap"
  by (simp add: table_heap_def demo_meta_def mk_meta_def demo_heap_def)

lemma demo_values2:
  shows "row_fits (hp_schema demo_heap) [PNone, PText (str ''b'')]"
    and "row_size (hp_schema demo_heap) [PNone, PText (str ''b'')] = 23"
  by (simp_all add: demo_heap_def row_size_def encode_row_def encode_def str_def
      utf8_char_def is_scalar_def is_surrogate_def pack_uint_def)

lemma demo_store2_rel:
  shows "heap_rel demo_store2 demo_heap [demo_row, fresh_row (hp_schema demo_heap) 2 [PNone, PText (str ''b'')]]"
    and "capacity demo_store2 = 501"
proof -
  have app: "abs_append (hp_schema demo_heap) [PNone, PText (str ''b'')] [demo_row]
      = [demo_row, fresh_row (hp_schema demo_heap) 2 [PNone, PText (str ''b'')]]"
    by (simp add: abs_append_def numeral_2_eq_2)
  have "\<exists>st'. heap_append demo_heap [PNone, PText (str ''b'')] demo_store1 = (Inr (length [demo_row] + 1), st')
      \<and> heap_rel st' demo_heap (abs_append (hp_schema demo_heap) [PNone, PText (str ''b'')] [demo_row])
      \<and> only_page (hp_root demo_heap) demo_store1 st'"
    by (rule heap_append_refines [OF demo_store1_rel(1) demo_values2(1) demo_schema])
      (simp_all add: demo_store1_rel heap_room_def app fresh_row_def demo_values2)
  then show "heap_rel demo_store2 demo_heap [demo_row, fresh_row (hp_schema demo_heap) 2 [PNone, PText (str ''b'')]]"
    and "capacity demo_store2 = 501"
    using only_page_capacity demo_store1_rel(2) by (auto simp: demo_store2_def app)
qed

lemma demo_scan: "heap_scan (table_heap demo_meta) demo_store2 = Inr demo_rows"
  using heap_scan_visible [OF demo_store2_rel(1)]
  by (simp add: demo_table_heap demo_rows_def visible_def fresh_row_def stored_def)

lemma demo_rows_eq: "demo_rows = [(Suc 0, [PInt 7, PText (str ''a'')]), (2, [PNone, PText (str ''b'')])]"
  by (simp add: demo_rows_def)

lemma demo_row_dicts:
  "row_to_dict demo_meta (Suc 0, [PInt 7, PText (str ''a'')])
     = [(str ''id'', PInt 7), (str ''name'', PText (str ''a'')), (str ''rowid'', PInt 1)]"
  "row_to_dict demo_meta (2, [PNone, PText (str ''b'')])
     = [(str ''id'', PNone), (str ''name'', PText (str ''b'')), (str ''rowid'', PInt 2)]"
  by (simp_all add: row_to_dict_def row_dict_def dict_of_def demo_meta_def mk_meta_def)

lemma order_by_null_raises_witness:
  "exec_single_table ascii_runtime demo_store2 demo_meta [Star] None [(Column (str ''id''), False)] None None True
     = Inl PyTypeError"
  by (rule order_by_null_raises [OF demo_scan, where kept = demo_rows])
    (simp_all add: filter_rows_def demo_rows_eq demo_row_dicts row_get_def)

lemma well_kinded_select_witness:
  "exec_single_table ascii_runtime demo_store2 demo_meta [Star]
     (Some (BinaryOp (str ''>'') (Column (str ''id'')) (SqlLiteral (PInt 5) (str ''5'')))) [] None None True
   = Inr [[(str ''id'', PInt 7), (str ''name'', PText (str ''a''))]]"
proof -
  let ?w = "BinaryOp (str ''>'') (Column (str ''id'')) (SqlLiteral (PInt 5) (str ''5''))"
  have "well_kinded (table_kinds demo_meta) ?w"
    by (simp add: table_kinds_def demo_meta_def mk_meta_def is_null_test_def)
  then have "exec_single_table ascii_runtime demo_store2 demo_meta [Star] (Some ?w) [] None None True
      = Inr (map (\<lambda>r. dict_del (str ''rowid'') (row_to_dict demo_meta r))
        (filter (\<lambda>r. eval_where (row_to_dict demo_meta r) (Some ?w) = Inr True) demo_rows))"
    by (intro well_kinded_select [OF demo_scan]) (simp_all add: has_star_def)
  then show ?thesis
    by (simp add: demo_rows_eq demo_row_dicts eval_where_def row_get_def compare_op_def)
qed

lemma select_where_order_limit_witness:
  "\<exists>out. exec_single_table ascii_runtime demo_store2 demo_meta [Star] None [(Column (str ''name''), True)]
       (Some 1) None False = Inr out
     \<and> (\<exists>ordered. out = map (row_to_dict demo_meta) (take 1 ordered) \<and> mset ordered = mset demo_rows)"
proof -
  let ?e = "exec_single_table ascii_runtime demo_store2 demo_meta [Star] None [(Column (str ''name''), True)]
       (Some 1) None False"
  have lt: "py_lt (PText (str ''a'')) (PText (str ''b'')) = Inr True" "py_lt (PText (str ''b'')) (PText (str ''a'')) = Inr False"
    by (simp_all add: str_def)
  obtain out where out: "?e = Inr out"
    by (simp add: exec_single_table_def demo_scan filter_rows_def order_rows_def demo_rows_eq demo_row_dicts
        row_get_def sort_by_def lt)
  have "\<forall>r \<in> set demo_rows. \<not> is_nan (sort_key (row_to_dict demo_meta) (Column (str ''name'')) r)"
    by (simp add: demo_rows_eq sort_key_def demo_row_dicts row_get_def)
  from select_where_order_limit [OF demo_scan out this] show ?thesis
    using out by (auto simp: cut_rows_def py_upto_def eval_where_def)
qed

lemma group_by_partition_witness:
  "\<exists>out. exec_aggregate ascii_runtime [[(str ''k'', PInt 1)], [(str ''k'', PInt 2)], [(str ''k'', PInt 1)]]
      [SqlLiteral (PText (str ''COUNT(*)'')) []] [Column (str ''k'')] = Inr out \<and> length out = 2"
proof -
  let ?rows = "[[(str ''k'', PInt 1)], [(str ''k'', PInt 2)], [(str ''k'', PInt 1)]]"
  have keys: "group_rows [Column (str ''k'')] ?rows
      = [([PInt 1], [[(str ''k'', PInt 1)], [(str ''k'', PInt 1)]]), ([PInt 2], [[(str ''k'', PInt 2)]])]"
    by (simp add: group_rows_def group_key_def row_get_def tuple_eq_def)
  have count: "starts_with (str ''COUNT(*)'') (str ''COUNT'')" by (simp add: starts_with_def str_def)
  obtain out where out: "exec_aggregate ascii_runtime ?rows [SqlLiteral (PText (str ''COUNT(*)'')) []] [Column (str ''k'')] = Inr out"
    by (simp add: exec_aggregate_def keys sort_by_def sort_pairs_def Let_def aggregate_group_def
        aggregate_item_def count)
  have "\<exists>groups :: (pyval list \<times> row list) list. (\<Sum>g\<leftarrow>groups. length (snd g)) = length ?rows \<and> length groups = length out"
  proof -
    have "\<forall>r \<in> set ?rows. \<forall>v \<in> set (group_key [Column (str ''k'')] r). \<not> is_nan v"
      by (simp add: group_key_def row_get_def)
    from group_by_partition [OF out list.distinct(2) this]
    show ?thesis by (elim exE conjE) (rule exI, rule conjI [OF _ list_all2_lengthD], assumption+)
  qed
  moreover have "length out = 2"
    using out by (auto simp: exec_aggregate_def keys sort_by_def sort_pairs_def Let_def aggregate_group_def
        aggregate_item_def count)
  ultimately show ?thesis using out by blast
qed

end
