(* ===== verification/Join.thy ===== *)
theory Join
  imports Select Catalog
begin

text \<open>
  tinydb/executor/join.py and the join path of select.py: rows of two tables merged into one
  dict, the nested-loop join (INNER and LEFT), the hash join, the checks of column references
  and column types, and the SELECT over joined rows. The catalog is the dict of table
  metadata that \<open>get_table\<close> reads.
\<close>

section \<open>Merging rows\<close>

type_synonym tables = "(pystr, table_meta) dict"

text \<open>The alias counts when it is not empty.\<close>

definition resolve_table_name :: "join_clause \<Rightarrow> pystr" where
  "resolve_table_name join =
     (case jc_alias join of None \<Rightarrow> jc_table join | Some a \<Rightarrow> if a = [] then jc_table join else a)"

definition scan_table :: "file_store \<Rightarrow> table_meta \<Rightarrow> py_error + row list" where
  "scan_table st meta = rbind (heap_scan (table_heap meta) st) (\<lambda>rows. Inr (map (row_to_dict meta) rows))"

definition merge_step :: "pystr \<Rightarrow> pystr \<times> pyval \<Rightarrow> row \<Rightarrow> row" where
  "merge_step prefix kv merged =
     (if dict_has merged (fst kv) then dict_set (qualified_key prefix (fst kv)) (snd kv) merged
      else dict_set (fst kv) (snd kv) merged)"

definition merge_rows :: "row \<Rightarrow> row \<Rightarrow> join_clause \<Rightarrow> row" where
  "merge_rows left right join = fold (merge_step (resolve_table_name join)) right left"

definition match_join_condition :: "expr option \<Rightarrow> row \<Rightarrow> py_error + bool" where
  "match_join_condition on row = eval_where row on"

text \<open>\<open>{**left_row, **null_right}\<close>.\<close>

definition null_right :: "pystr \<Rightarrow> table_meta \<Rightarrow> row" where
  "null_right table meta =
     dict_set (str ''rowid'') PNone (dict_of (map (\<lambda>(col, _). (qualified_key table col, PNone)) (tm_schema meta)))"

definition dict_merge :: "('k, 'v) dict \<Rightarrow> ('k, 'v) dict \<Rightarrow> ('k, 'v) dict" where
  "dict_merge d e = fold (\<lambda>(k, v) d. dict_set k v d) e d"

section \<open>The joins\<close>

definition join_left_row ::
  "table_meta \<Rightarrow> row list \<Rightarrow> join_clause \<Rightarrow> row \<Rightarrow> py_error + row list" where
  "join_left_row right_meta right_rows join left_row =
     rbind (rfilter (match_join_condition (jc_on join)) (map (\<lambda>r. merge_rows left_row r join) right_rows))
       (\<lambda>matched.
     Inr (if jc_kind join = LEFT \<and> matched = []
       then [dict_merge left_row (null_right (resolve_table_name join) right_meta)]
       else matched))"

definition exec_nested_loop_join ::
  "file_store \<Rightarrow> tables \<Rightarrow> row list \<Rightarrow> join_clause \<Rightarrow> py_error + row list" where
  "exec_nested_loop_join st es left_rows join =
     rbind (get_table (resolve_table_name join) es) (\<lambda>right_meta.
     rbind (scan_table st right_meta) (\<lambda>right_rows.
     rbind (rmap (join_left_row right_meta right_rows join) left_rows) (\<lambda>results.
     Inr (concat results))))"

text \<open>join.py has an \<open>_eval_expr\<close> of its own, which knows columns and literals only.\<close>

definition join_eval_expr :: "expr \<Rightarrow> row \<Rightarrow> pyval" where
  "join_eval_expr node row =
     (case node of
        Column n \<Rightarrow> row_get row n
      | QualifiedColumn (Some t) n \<Rightarrow> row_get_or row (qualified_key t n) (row_get row n)
      | QualifiedColumn None n \<Rightarrow> row_get row n
      | SqlLiteral v raw \<Rightarrow> v
      | _ \<Rightarrow> PNone)"

definition extract_join_key :: "expr option \<Rightarrow> row \<Rightarrow> pystr option \<Rightarrow> pyval" where
  "extract_join_key on row target_table =
     (case on of
        Some (BinaryOp op l r) \<Rightarrow>
          if op = str ''='' then
            (case target_table of None \<Rightarrow> join_eval_expr l row | Some _ \<Rightarrow> join_eval_expr r row)
          else PNone
      | _ \<Rightarrow> PNone)"

text \<open>
  The hash table is a dict from key values to lists of rows; two keys are one when they are
  equal, and the key objects of two rows are different objects, so that a NaN finds no entry.
\<close>

fun add_to_bucket :: "pyval \<Rightarrow> row \<Rightarrow> (pyval \<times> row list) list \<Rightarrow> (pyval \<times> row list) list" where
  "add_to_bucket k r [] = [(k, [r])]"
| "add_to_bucket k r ((k', rs) # bs) =
     (if py_eq k' k then (k', rs @ [r]) # bs else (k', rs) # add_to_bucket k r bs)"

definition build_hash_table :: "(row \<Rightarrow> pyval) \<Rightarrow> row list \<Rightarrow> (pyval \<times> row list) list" where
  "build_hash_table key rows =
     fold (\<lambda>r bs. if key r = PNone then bs else add_to_bucket (key r) r bs) rows []"

definition bucket :: "pyval \<Rightarrow> (pyval \<times> row list) list \<Rightarrow> row list" where
  "bucket k bs = (case find (\<lambda>b. py_eq (fst b) k) bs of None \<Rightarrow> [] | Some b \<Rightarrow> snd b)"

definition probe_row ::
  "(pyval \<times> row list) list \<Rightarrow> join_clause \<Rightarrow> row \<Rightarrow> py_error + row list" where
  "probe_row hash_table join left_row =
     (let key = extract_join_key (jc_on join) left_row None in
      rfilter (match_join_condition (jc_on join))
        (map (\<lambda>r. merge_rows left_row r join) (if key = PNone then [] else bucket key hash_table)))"

definition exec_hash_join ::
  "file_store \<Rightarrow> tables \<Rightarrow> row list \<Rightarrow> join_clause \<Rightarrow> py_error + row list" where
  "exec_hash_join st es left_rows join =
     (if jc_kind join = LEFT then exec_nested_loop_join st es left_rows join
      else
        let right_table = resolve_table_name join in
        rbind (get_table right_table es) (\<lambda>right_meta.
        rbind (scan_table st right_meta) (\<lambda>right_rows.
        let hash_table = build_hash_table (\<lambda>r. extract_join_key (jc_on join) r (Some right_table)) right_rows in
        rbind (rmap (probe_row hash_table join) left_rows) (\<lambda>results. Inr (concat results)))))"

section \<open>Column references and types\<close>

text \<open>
  The columns of all tables, each with the first table that has it, and the names that a
  second column has; a table that the catalog does not know is passed over.
\<close>

definition add_column ::
  "pystr \<Rightarrow> pystr \<Rightarrow> (pystr, pystr) dict \<times> pystr set \<Rightarrow> (pystr, pystr) dict \<times> pystr set" where
  "add_column table col s =
     (if dict_has (fst s) col then (fst s, insert col (snd s)) else (dict_set col table (fst s), snd s))"

definition collect_columns ::
  "tables \<Rightarrow> pystr list \<Rightarrow> (pystr, pystr) dict \<times> pystr set" where
  "collect_columns es names =
     fold (\<lambda>t s. case get_table t es of
         Inl e \<Rightarrow> s
       | Inr meta \<Rightarrow> fold (add_column t) (map fst (tm_schema meta)) s) names ([], {})"

definition resolve_qualified_columns ::
  "expr list \<Rightarrow> pystr \<Rightarrow> join_clause list \<Rightarrow> tables \<Rightarrow> py_error + expr list \<times> (pystr, pystr list) dict" where
  "resolve_qualified_columns projections table joins es =
     (let names = table # map resolve_table_name joins;
          (all_columns, ambiguous) = collect_columns es names in
      rbind (rmap (\<lambda>p. case p of
            Column n \<Rightarrow> if n \<in> ambiguous then Inl (AmbiguousColumn n) else Inr p
          | _ \<Rightarrow> Inr p) projections) (\<lambda>resolved.
      Inr (resolved, dict_of (map (\<lambda>t. (t, map fst (filter (\<lambda>c. snd c = t) all_columns))) names))))"

definition find_column_type :: "pystr \<Rightarrow> tables \<Rightarrow> pystr option \<Rightarrow> pystr option" where
  "find_column_type name es table =
     (case table of
        None \<Rightarrow> None
      | Some t \<Rightarrow>
          (case get_table t es of
             Inl e \<Rightarrow> None
           | Inr meta \<Rightarrow> map_option (\<lambda>c. type_value (snd c)) (find (\<lambda>c. fst c = name) (tm_schema meta))))"

definition column_type_at :: "expr \<Rightarrow> tables \<Rightarrow> pystr option" where
  "column_type_at node es =
     (case node of
        Column n \<Rightarrow> find_column_type n es None
      | QualifiedColumn (Some t) n \<Rightarrow> find_column_type n es (Some t)
      | _ \<Rightarrow> None)"

definition types_compatible :: "pystr \<Rightarrow> pystr \<Rightarrow> bool" where
  "types_compatible l r =
     (let numeric = {str ''INT'', str ''FLOAT'', str ''INTEGER'', str ''REAL''} in
      l = r \<or> l \<in> numeric \<and> r \<in> numeric)"

fun column_name :: "expr \<Rightarrow> pystr" where
  "column_name (Column n) = n"
| "column_name (QualifiedColumn t n) = n"
| "column_name _ = str ''?''"

definition check_join_type_compatibility :: "join_clause \<Rightarrow> tables \<Rightarrow> py_error + unit" where
  "check_join_type_compatibility join es =
     (case jc_on join of
        Some (BinaryOp op l r) \<Rightarrow>
          (case (column_type_at l es, column_type_at r es) of
             (Some lt, Some rt) \<Rightarrow>
               if types_compatible lt rt then Inr () else Inl (TypeMismatch (column_name l) lt rt)
           | _ \<Rightarrow> Inr ())
      | _ \<Rightarrow> Inr ())"

section \<open>SELECT over joined rows\<close>

fun join_all :: "file_store \<Rightarrow> tables \<Rightarrow> row list \<Rightarrow> join_clause list \<Rightarrow> py_error + row list" where
  "join_all st es rows [] = Inr rows"
| "join_all st es rows (j # js) =
     rbind (check_join_type_compatibility j es) (\<lambda>_.
     rbind (exec_nested_loop_join st es rows j) (\<lambda>rows. join_all st es rows js))"

definition exec_join_path ::
  "runtime \<Rightarrow> file_store \<Rightarrow> table_meta \<Rightarrow> expr list \<Rightarrow> expr option \<Rightarrow> order_item list \<Rightarrow>
   int option \<Rightarrow> int option \<Rightarrow> join_clause list \<Rightarrow> tables option \<Rightarrow> py_error + row list" where
  "exec_join_path u st meta projections wh order_by limit offset joins catalog =
     (case catalog of
        None \<Rightarrow> Inl RuntimeError
      | Some es \<Rightarrow>
          rbind (scan_table st meta) (\<lambda>left.
          rbind (join_all st es left joins) (\<lambda>rows.
          rbind (filter_rows id wh rows) (\<lambda>rows.
          rbind (order_rows u id order_by rows) (\<lambda>rows.
          let rows = cut_rows limit offset rows in
          if has_star projections then Inr (map (dict_del (str ''rowid'')) rows)
          else rmap (project_row u projections) rows)))))"

definition exec_select ::
  "runtime \<Rightarrow> file_store \<Rightarrow> table_meta \<Rightarrow> expr list \<Rightarrow> expr option \<Rightarrow> order_item list \<Rightarrow>
   int option \<Rightarrow> int option \<Rightarrow> bool \<Rightarrow> join_clause list \<Rightarrow> tables option \<Rightarrow> py_error + row list" where
  "exec_select u st meta projections wh order_by limit offset project joins catalog =
     (if joins = [] then exec_single_table u st meta projections wh order_by limit offset project
      else
        rbind (case catalog of
            None \<Rightarrow> Inr projections
          | Some es \<Rightarrow>
              rbind (resolve_qualified_columns projections (tm_name meta) joins es) (\<lambda>r. Inr (fst r)))
          (\<lambda>projections.
        exec_join_path u st meta projections wh order_by limit offset joins catalog))"

section \<open>What a merged row holds\<close>

text \<open>Names without a dot cannot be taken for a prefixed key.\<close>

definition dotless :: "pystr \<Rightarrow> bool" where
  "dotless n \<longleftrightarrow> 46 \<notin> set n"

lemma qualified_key_dotted [simp]: "\<not> dotless (qualified_key t n)"
  by (simp add: dotless_def qualified_key_def)

lemma qualified_key_eq [simp]: "qualified_key t n = qualified_key t m \<longleftrightarrow> n = m"
  by (simp add: qualified_key_def)

lemma append_sep_eq:
  "x \<notin> set s \<Longrightarrow> x \<notin> set t \<Longrightarrow> s @ x # n = t @ x # m \<longleftrightarrow> s = t \<and> n = m"
  by (induction s arbitrary: t) (case_tac t; auto)+

lemma qualified_key_table: "dotless s \<Longrightarrow> dotless t \<Longrightarrow> qualified_key s n = qualified_key t m \<longleftrightarrow> s = t \<and> n = m"
  unfolding dotless_def qualified_key_def by (rule append_sep_eq)

lemma dict_get_merge_step:
  "dict_get (merge_step p (k, v) m) x =
     (if dict_get m k \<noteq> None then if x = qualified_key p k then Some v else dict_get m x
      else if x = k then Some v else dict_get m x)"
  by (simp add: merge_step_def dict_has_iff dict_get_set)

lemma fold_merge_plain:
  assumes "distinct (map fst r)" and "\<forall>k \<in> fst ` set r. dotless k" and "dotless x"
  shows "dict_get (fold (merge_step p) r l) x
    = (case dict_get l x of None \<Rightarrow> dict_get r x | Some v \<Rightarrow> Some v)"
  using assms
proof (induction r arbitrary: l)
  case (Cons kv r)
  obtain k v where kv: "kv = (k, v)" by (cases kv)
  have nq: "x \<noteq> qualified_key p k" using Cons.prems(3) qualified_key_dotted by metis
  have nr: "dict_get r k = None" using Cons.prems(1) kv by (simp add: map_of_eq_None_iff)
  have "dict_get (fold (merge_step p) r (merge_step p (k, v) l)) x
      = (case dict_get (merge_step p (k, v) l) x of None \<Rightarrow> dict_get r x | Some v \<Rightarrow> Some v)"
    using Cons by simp
  then show ?case using kv nq nr by (auto simp: dict_get_merge_step split: option.splits)
qed (simp split: option.splits)

lemma fold_merge_other:
  assumes "\<forall>k \<in> fst ` set r. x \<noteq> k \<and> x \<noteq> qualified_key p k"
  shows "dict_get (fold (merge_step p) r l) x = dict_get l x"
  using assms by (induction r arbitrary: l) (auto simp: dict_get_merge_step)

lemma fold_merge_prefixed:
  assumes "distinct (map fst r)" and "\<forall>k \<in> fst ` set r. dotless k" and "dict_get r k = Some v"
  shows "dict_get (fold (merge_step p) r l) (qualified_key p k)
    = (if dict_get l k = None then dict_get l (qualified_key p k) else Some v)"
  using assms
proof (induction r arbitrary: l)
  case (Cons kv r)
  obtain k' v' where kv: "kv = (k', v')" by (cases kv)
  have nd: "dotless k'" and nk: "qualified_key p k \<noteq> k'" "k' \<noteq> qualified_key p k"
    using Cons.prems(2) kv qualified_key_dotted by auto
  let ?m = "merge_step p (k', v') l"
  show ?case
  proof (cases "k' = k")
    case True
    then have "v' = v" and out: "k \<notin> fst ` set r" using Cons.prems(1,3) kv by auto
    have "\<forall>x \<in> fst ` set r. qualified_key p k \<noteq> x \<and> qualified_key p k \<noteq> qualified_key p x"
      using out Cons.prems(2) qualified_key_dotted by (metis image_insert insertCI list.simps(15) qualified_key_eq)
    then have "dict_get (fold (merge_step p) r ?m) (qualified_key p k) = dict_get ?m (qualified_key p k)"
      by (rule fold_merge_other)
    then show ?thesis using kv True \<open>v' = v\<close> nk by (simp add: dict_get_merge_step)
  next
    case False
    have "dict_get (fold (merge_step p) r ?m) (qualified_key p k)
        = (if dict_get ?m k = None then dict_get ?m (qualified_key p k) else Some v)"
      by (rule Cons.IH) (use Cons.prems kv False in \<open>auto split: if_splits\<close>)
    moreover have "k \<noteq> qualified_key p k'"
    proof -
      have "k \<in> fst ` set (kv # r)" by (metis Cons.prems(3) map_of_eq_None_iff option.simps(3))
      then show ?thesis using Cons.prems(2) qualified_key_dotted by blast
    qed
    then have "dict_get ?m k = dict_get l k" "dict_get ?m (qualified_key p k) = dict_get l (qualified_key p k)"
      using False nk by (simp_all add: dict_get_merge_step)
    ultimately show ?thesis using kv by simp
  qed
qed simp

lemma distinct_dict_of: "distinct (map fst (dict_of kvs))"
proof -
  have "distinct (map fst (fold (\<lambda>(k, v) d. dict_set k v d) kvs d))" if "distinct (map fst d)" for d
    using that by (induction kvs arbitrary: d) (auto simp: distinct_update)
  then show ?thesis by (simp add: dict_of_def)
qed

lemma row_to_dict_keys:
  assumes "length (snd r) = length (tm_schema meta)"
  shows "distinct (map fst (row_to_dict meta r))"
    and "fst ` set (row_to_dict meta r) = insert (str ''rowid'') (fst ` set (tm_schema meta))"
proof -
  show "distinct (map fst (row_to_dict meta r))"
    unfolding row_to_dict_def row_dict_def by (intro distinct_update distinct_dict_of)
  have "k \<in> fst ` set (row_to_dict meta r) \<longleftrightarrow> k = str ''rowid'' \<or> k \<in> fst ` set (tm_schema meta)" for k
  proof -
    have "k \<in> fst ` set (row_to_dict meta r) \<longleftrightarrow> dict_get (row_to_dict meta r) k \<noteq> None"
      by (metis map_of_eq_None_iff)
    also have "\<dots> \<longleftrightarrow> k = str ''rowid'' \<or> k \<in> fst ` set (zip (map fst (tm_schema meta)) (snd r))"
      using map_of_eq_None_iff [of "rev (zip (map fst (tm_schema meta)) (snd r))" k]
      by (auto simp: row_to_dict_def row_dict_def dict_get_set dict_get_of)
    also have "fst ` set (zip (map fst (tm_schema meta)) (snd r)) = set (map fst (zip (map fst (tm_schema meta)) (snd r)))"
      by simp
    also have "\<dots> = fst ` set (tm_schema meta)" using assms by (simp del: set_map) simp
    finally show ?thesis .
  qed
  then show "fst ` set (row_to_dict meta r) = insert (str ''rowid'') (fst ` set (tm_schema meta))"
    by blast
qed

lemma scan_table_keys:
  assumes "scan_table st meta = Inr rows" and "r \<in> set rows"
  shows "distinct (map fst r)" and "fst ` set r = insert (str ''rowid'') (fst ` set (tm_schema meta))"
proof -
  obtain xs x where x: "heap_scan (table_heap meta) st = Inr xs" "x \<in> set xs" "r = row_to_dict meta x"
    using assms by (auto simp: scan_table_def)
  then have "kinds_ok (tm_schema meta) (snd x)" using scan_kinds [OF x(1,2)] by (simp add: table_heap_def)
  then have "length (snd x) = length (tm_schema meta)" by (auto simp: kinds_ok_def dest: list_all2_lengthD)
  then show "distinct (map fst r)" and "fst ` set r = insert (str ''rowid'') (fst ` set (tm_schema meta))"
    using row_to_dict_keys x(3) by blast+
qed

section \<open>The hash join is the nested-loop join\<close>

lemma bucket_add:
  "bucket k (add_to_bucket k0 r bs) = (if py_eq k0 k then bucket k bs @ [r] else bucket k bs)"
proof (induction bs)
  case (Cons b bs)
  obtain k' rs where b: "b = (k', rs)" by (cases b)
  show ?case
  proof (cases "py_eq k' k0")
    case True
    then have "py_eq k' k \<longleftrightarrow> py_eq k0 k" using py_eq_trans py_eq_sym by blast
    then show ?thesis using True by (simp add: b bucket_def)
  next
    case False
    then have "py_eq k' k \<Longrightarrow> \<not> py_eq k0 k" using py_eq_trans py_eq_sym by blast
    then show ?thesis using False Cons.IH by (cases "py_eq k' k") (simp_all add: b bucket_def)
  qed
qed (simp add: bucket_def)

lemma bucket_build:
  "bucket k (build_hash_table key rows) = filter (\<lambda>r. key r \<noteq> PNone \<and> py_eq (key r) k) rows"
proof -
  have "bucket k (fold (\<lambda>r bs. if key r = PNone then bs else add_to_bucket (key r) r bs) rows bs)
      = bucket k bs @ filter (\<lambda>r. key r \<noteq> PNone \<and> py_eq (key r) k) rows" for bs
    by (induction rows arbitrary: bs) (simp_all add: bucket_add)
  from this [of "[]"] show ?thesis by (simp add: build_hash_table_def bucket_def)
qed

text \<open>
  \<open>keys_stable\<close>: the columns an equality compares have in the merged row the values they have
  in the rows that are merged.
\<close>

definition keys_stable :: "expr \<Rightarrow> expr \<Rightarrow> join_clause \<Rightarrow> row list \<Rightarrow> row \<Rightarrow> bool" where
  "keys_stable l r join right_rows left_row \<longleftrightarrow>
     (\<forall>x \<in> set right_rows.
        eval_expr (merge_rows left_row x join) l = Inr (join_eval_expr l left_row)
      \<and> eval_expr (merge_rows left_row x join) r = Inr (join_eval_expr r x))"

lemma match_equality:
  assumes "keys_stable l r join right_rows left_row" and "x \<in> set right_rows"
  shows "match_join_condition (Some (BinaryOp (str ''='') l r)) (merge_rows left_row x join)
    = Inr (join_eval_expr l left_row \<noteq> PNone \<and> join_eval_expr r x \<noteq> PNone
        \<and> py_eq (join_eval_expr l left_row) (join_eval_expr r x))"
  using assms by (auto simp: match_join_condition_def eval_where_def keys_stable_def compare_op_def)

lemma probe_is_nested_loop:
  assumes on: "jc_on join = Some (BinaryOp (str ''='') l r)" and inner: "jc_kind join \<noteq> LEFT"
    and st: "keys_stable l r join right_rows left_row"
  shows "probe_row (build_hash_table (\<lambda>x. extract_join_key (jc_on join) x (Some t)) right_rows) join left_row
    = join_left_row meta right_rows join left_row"
proof -
  let ?kl = "join_eval_expr l left_row" and ?kr = "join_eval_expr r"
  let ?ht = "build_hash_table (\<lambda>x. extract_join_key (jc_on join) x (Some t)) right_rows"
  let ?rs = "if ?kl = PNone then [] else bucket ?kl ?ht"
  let ?Q = "\<lambda>x. ?kl \<noteq> PNone \<and> ?kr x \<noteq> PNone \<and> py_eq ?kl (?kr x)"
  have ht: "bucket ?kl ?ht = filter (\<lambda>x. ?kr x \<noteq> PNone \<and> py_eq ?kl (?kr x)) right_rows"
    by (simp add: bucket_build on extract_join_key_def py_eq_sym [of ?kl])
  have "rfilter (match_join_condition (jc_on join)) (map (\<lambda>x. merge_rows left_row x join) xs)
      = Inr (map (\<lambda>x. merge_rows left_row x join) (filter ?Q xs))" if "set xs \<subseteq> set right_rows" for xs
    using that by (induction xs) (simp_all add: on match_equality [OF st])
  note matched = this
  have "set ?rs \<subseteq> set right_rows" by (simp add: ht)
  moreover have "filter ?Q ?rs = filter ?Q right_rows" by (simp add: ht conj_commute)
  moreover have "probe_row ?ht join left_row
      = rfilter (match_join_condition (jc_on join)) (map (\<lambda>x. merge_rows left_row x join) ?rs)"
    by (simp add: probe_row_def on extract_join_key_def)
  ultimately show ?thesis
    using inner matched [of ?rs] matched [of right_rows] by (simp only: join_left_row_def) simp
qed

text \<open>
  The reference \<open>left\<close> of the equality names a column of the left rows; its table is not the
  joined one.
\<close>

definition left_column :: "pystr \<Rightarrow> expr \<Rightarrow> pystr \<Rightarrow> bool" where
  "left_column joined l n \<longleftrightarrow>
     dotless n \<and> (l = Column n \<or> (\<exists>t. l = QualifiedColumn (Some t) n \<and> dotless t \<and> t \<noteq> joined))"

lemma merged_plain:
  assumes "distinct (map fst r)" and "\<forall>k \<in> fst ` set r. dotless k" and "dotless x"
  shows "dict_get (merge_rows l r join) x = (case dict_get l x of None \<Rightarrow> dict_get r x | Some v \<Rightarrow> Some v)"
  unfolding merge_rows_def by (rule fold_merge_plain [OF assms])

lemma left_key_stable:
  assumes r: "distinct (map fst r)" "\<forall>k \<in> fst ` set r. dotless k" and rt: "dotless (resolve_table_name join)"
    and l: "left_column (resolve_table_name join) e n" and n: "dict_get l n \<noteq> None"
  shows "eval_expr (merge_rows l r join) e = Inr (join_eval_expr e l)"
proof -
  have d: "dotless n" and e: "e = Column n \<or> (\<exists>t. e = QualifiedColumn (Some t) n \<and> dotless t
      \<and> t \<noteq> resolve_table_name join)" using l by (simp_all add: left_column_def)
  have plain: "dict_get (merge_rows l r join) n = dict_get l n"
    using merged_plain [OF r d] n by (auto split: option.splits)
  have "dict_get (merge_rows l r join) (qualified_key t n) = dict_get l (qualified_key t n)"
    if "dotless t" "t \<noteq> resolve_table_name join" for t
    unfolding merge_rows_def
    by (rule fold_merge_other) (use that rt r(2) qualified_key_table qualified_key_dotted in metis)
  with e plain show ?thesis
    by (auto simp: join_eval_expr_def row_get_def row_get_or_def)
qed

lemma right_key_stable:
  assumes r: "distinct (map fst r)" "\<forall>k \<in> fst ` set r. dotless k"
    and m: "m \<in> fst ` set r" and l: "dict_get l (qualified_key (resolve_table_name join) m) = None"
  shows "eval_expr (merge_rows l r join) (QualifiedColumn (Some (resolve_table_name join)) m)
    = Inr (join_eval_expr (QualifiedColumn (Some (resolve_table_name join)) m) r)"
proof -
  let ?p = "resolve_table_name join"
  obtain v where v: "dict_get r m = Some v" using m by (metis map_of_eq_None_iff option.exhaust)
  have dm: "dotless m" using m r(2) by blast
  have q: "dict_get (merge_rows l r join) (qualified_key ?p m) = (if dict_get l m = None then None else Some v)"
    unfolding merge_rows_def fold_merge_prefixed [OF r v] by (simp add: l)
  have "dict_get r (qualified_key ?p m) = None"
    using r(2) qualified_key_dotted by (metis map_of_eq_None_iff)
  then show ?thesis using q merged_plain [OF r dm] v
    by (auto simp: join_eval_expr_def row_get_def row_get_or_def split: option.splits)
qed


text \<open>
  With the joined table's column on the left of the equality, the keys of the hash table are
  taken from a column that the joined table does not have, and no row is found.
\<close>

theorem reversed_hash_join_is_empty:
  assumes on: "jc_on join = Some (BinaryOp (str ''='') e (QualifiedColumn (Some t) n))" and inner: "jc_kind join \<noteq> LEFT"
    and right: "get_table (resolve_table_name join) es = Inr meta" "scan_table st meta = Inr rows"
    and n: "n \<noteq> str ''rowid''" "n \<notin> fst ` set (tm_schema meta)" and d: "\<forall>c \<in> fst ` set (tm_schema meta). dotless c"
  shows "exec_hash_join st es left_rows join = Inr []"
proof -
  have "dict_get r n = None \<and> dict_get r (qualified_key t n) = None" if r: "r \<in> set rows" for r
  proof -
    have k: "fst ` set r = insert (str ''rowid'') (fst ` set (tm_schema meta))" by (rule scan_table_keys(2) [OF right(2) r])
    have "dotless (str ''rowid'')" by (simp add: dotless_def str_def)
    then have "qualified_key t n \<notin> fst ` set r" unfolding k using d qualified_key_dotted [of t n] by (metis insert_iff)
    moreover have "n \<notin> fst ` set r" unfolding k using n by simp
    ultimately show ?thesis by (simp add: map_of_eq_None_iff)
  qed
  then have "\<forall>r \<in> set rows. extract_join_key (jc_on join) r (Some (resolve_table_name join)) = PNone"
    by (simp add: on extract_join_key_def join_eval_expr_def row_get_def row_get_or_def)
  then have "build_hash_table (\<lambda>r. extract_join_key (jc_on join) r (Some (resolve_table_name join))) rows = []"
    unfolding build_hash_table_def by (induction rows) simp_all
  moreover have "probe_row [] join row = Inr []" for row by (simp add: probe_row_def bucket_def Let_def)
  then have "rmap (probe_row [] join) left_rows = Inr (map (\<lambda>_. []) left_rows)" by (intro rmap_total)
  ultimately show ?thesis using inner right by (simp add: exec_hash_join_def Let_def)
qed

lemma dict_merge_other: "k \<notin> fst ` set e \<Longrightarrow> dict_get (dict_merge d e) k = dict_get d k"
  unfolding dict_merge_def by (induction e arbitrary: d) (auto simp: dict_get_set)

text \<open>
  C37: a LEFT JOIN loses no left row: its result is one block of rows per left row, in order,
  none of them empty, and every row of a block has the left row's value in each of its columns
  without a dot other than \<open>rowid\<close>.
\<close>

theorem left_join_keeps_left_rows:
  assumes "exec_nested_loop_join st es left_rows join = Inr out" and "jc_kind join = LEFT"
    and "get_table (resolve_table_name join) es = Inr meta" and "\<forall>c \<in> fst ` set (tm_schema meta). dotless c"
  shows "\<exists>blocks. out = concat blocks \<and> list_all2 (\<lambda>row block. block \<noteq> []
      \<and> (\<forall>x \<in> set block. \<forall>k v. dict_get row k = Some v \<longrightarrow> dotless k \<longrightarrow> k \<noteq> str ''rowid'' \<longrightarrow>
          dict_get x k = Some v)) left_rows blocks"
proof -
  obtain right_rows blocks where right: "scan_table st meta = Inr right_rows"
    and blocks: "rmap (join_left_row meta right_rows join) left_rows = Inr blocks" and out: "out = concat blocks"
    using assms(1,3) by (auto simp: exec_nested_loop_join_def)
  have rowid: "dotless (str ''rowid'')" by (simp add: dotless_def str_def)
  have merged: "dict_get (merge_rows row r join) k = Some v"
    if "r \<in> set right_rows" "dict_get row k = Some v" "dotless k" for row r k v
  proof -
    have "\<forall>c \<in> fst ` set r. dotless c" using scan_table_keys(2) [OF right that(1)] assms(4) rowid by simp
    from merged_plain [OF scan_table_keys(1) [OF right that(1)] this that(3)] show ?thesis using that(2) by simp
  qed
  have padded: "dict_get (dict_merge row (null_right t meta)) k = Some v"
    if "dict_get row k = Some v" "dotless k" "k \<noteq> str ''rowid''" for row t k v
  proof -
    have "dict_get (null_right t meta) k = None"
      using that(2,3) qualified_key_dotted
      by (fastforce simp: null_right_def dict_get_set dict_get_of map_of_eq_None_iff)
    then have "k \<notin> fst ` set (null_right t meta)" by (simp add: map_of_eq_None_iff)
    then show ?thesis using that(1) by (simp add: dict_merge_other)
  qed
  have "block \<noteq> [] \<and> (\<forall>x \<in> set block. \<forall>k v. dict_get row k = Some v \<longrightarrow> dotless k \<longrightarrow> k \<noteq> str ''rowid'' \<longrightarrow>
      dict_get x k = Some v)" if b: "join_left_row meta right_rows join row = Inr block" for row block
  proof -
    obtain ms where ms: "rfilter (match_join_condition (jc_on join)) (map (\<lambda>r. merge_rows row r join) right_rows) = Inr ms"
      and block: "block = (if ms = [] then [dict_merge row (null_right (resolve_table_name join) meta)] else ms)"
      using b assms(2) by (auto simp: join_left_row_def)
    show ?thesis using rfilter_subset [OF ms] merged padded by (auto simp: block)
  qed
  note kept = this
  show ?thesis
    by (intro exI conjI, rule out, rule list_all2_mono [OF rmap_list_all2 [OF blocks]], erule kept)
qed

section \<open>Two joins of a concrete table\<close>

definition demo_tables :: tables where
  "demo_tables = [(str ''t'', demo_meta)]"

definition demo_join :: "join_type \<Rightarrow> join_clause" where
  "demo_join kind = \<lparr>jc_kind = kind, jc_table = str ''t'', jc_alias = None,
     jc_on = Some (BinaryOp (str ''='') (Column (str ''id'')) (QualifiedColumn (Some (str ''t'')) (str ''id'')))\<rparr>"

lemma demo_join_simps:
  "resolve_table_name (demo_join kind) = str ''t''" "jc_kind (demo_join kind) = kind"
  "get_table (str ''t'') demo_tables = Inr demo_meta"
  by (simp_all add: demo_join_def resolve_table_name_def get_table_def demo_tables_def)

lemma demo_join_on:
  "jc_on (demo_join kind)
   = Some (BinaryOp (str ''='') (Column (str ''id'')) (QualifiedColumn (Some (str ''t'')) (str ''id'')))"
  by (simp add: demo_join_def)

lemma demo_scan_table:
  "scan_table demo_store2 demo_meta
     = Inr [[(str ''id'', PInt 7), (str ''name'', PText (str ''a'')), (str ''rowid'', PInt 1)],
            [(str ''id'', PNone), (str ''name'', PText (str ''b'')), (str ''rowid'', PInt 2)]]"
  "tm_schema demo_meta = [(str ''id'', T_INT), (str ''name'', T_TEXT)]"
  by (simp_all add: scan_table_def demo_scan demo_rows_eq demo_row_dicts) (simp add: demo_meta_def mk_meta_def)

lemma demo_dotless: "dotless (str ''t'')" "dotless (str ''id'')" "dotless (str ''name'')"
  by (simp_all add: dotless_def str_def)

lemma demo_merge:
  "merge_rows [(str ''id'', PInt i)]
     [(str ''id'', v), (str ''name'', w), (str ''rowid'', x)] (demo_join kind)
   = [(str ''id'', PInt i), (str ''t.id'', v), (str ''name'', w), (str ''rowid'', x)]"
proof -
  have "qualified_key (str ''t'') (str ''id'') = str ''t.id''" by (simp add: qualified_key_def str_def)
  then show ?thesis by (simp add: merge_rows_def demo_join_simps merge_step_def dict_has_def)
qed

lemma demo_match:
  "match_join_condition (jc_on (demo_join kind))
     [(str ''id'', PInt i), (str ''t.id'', v), (str ''name'', w), (str ''rowid'', x)]
   = (if v = PNone then Inr False else Inr (py_eq (PInt i) v))"
proof -
  have "qualified_key (str ''t'') (str ''id'') = str ''t.id''" by (simp add: qualified_key_def str_def)
  then show ?thesis
    by (simp add: match_join_condition_def eval_where_def demo_join_def row_get_def row_get_or_def compare_op_def)
qed


lemma left_join_keeps_left_rows_witness:
  "\<exists>out. exec_nested_loop_join demo_store2 demo_tables [[(str ''id'', PInt 9)]] (demo_join LEFT) = Inr out
     \<and> (\<exists>x \<in> set out. dict_get x (str ''id'') = Some (PInt 9))"
proof -
  obtain out where out: "exec_nested_loop_join demo_store2 demo_tables [[(str ''id'', PInt 9)]] (demo_join LEFT) = Inr out"
    by (simp add: exec_nested_loop_join_def demo_join_simps demo_scan_table join_left_row_def demo_merge demo_match)
  obtain blocks where b: "out = concat blocks" "list_all2 (\<lambda>row block. block \<noteq> []
      \<and> (\<forall>x \<in> set block. \<forall>k v. dict_get row k = Some v \<longrightarrow> dotless k \<longrightarrow> k \<noteq> str ''rowid'' \<longrightarrow>
          dict_get x k = Some v)) [[(str ''id'', PInt 9)]] blocks"
    using left_join_keeps_left_rows [OF out, of demo_meta] by (auto simp: demo_join_simps demo_scan_table demo_dotless)
  then obtain block where "blocks = [block]" "block \<noteq> []" "\<forall>x \<in> set block. dict_get x (str ''id'') = Some (PInt 9)"
    by (auto simp: list_all2_Cons1 demo_dotless)
  then show ?thesis using out b(1) by (cases block) auto
qed

end
