(* ===== verification/Dml.thy ===== *)
theory Dml
  imports Select
begin

text \<open>
  tinydb/executor/dml.py: INSERT with its type, NOT NULL and primary key checks, UPDATE and
  DELETE over the heap of a table. Each statement is a state computation on the store; an
  exception in the middle of a statement leaves the rows written before it.
\<close>

section \<open>INSERT\<close>

text \<open>The constraints of a table: for each column the texts of its constraints.\<close>

type_synonym constraints = "(pystr, pystr list) dict"

definition pk_columns :: "constraints \<Rightarrow> pystr list" where
  "pk_columns cs = map fst (filter (\<lambda>c. str ''PRIMARY KEY'' \<in> set (snd c)) cs)"

text \<open>\<open>columns or [name for name, _typ in meta.schema]\<close>.\<close>

definition insert_columns :: "table_meta \<Rightarrow> pystr list option \<Rightarrow> pystr list" where
  "insert_columns meta columns =
     (case columns of None \<Rightarrow> map fst (tm_schema meta)
      | Some cs \<Rightarrow> if cs = [] then map fst (tm_schema meta) else cs)"

text \<open>One column of \<open>_validate_row\<close>; the schema as a dict, so that the last type counts.\<close>

definition validate_cell :: "table_meta \<Rightarrow> constraints \<Rightarrow> pystr \<Rightarrow> pyval \<Rightarrow> py_error + unit" where
  "validate_cell meta cs col value =
     (case dict_get (dict_of (tm_schema meta)) col of
        None \<Rightarrow> Inl KeyError
      | Some t \<Rightarrow>
          if value = PNone then
            (if str ''NOT NULL'' \<in> set (case dict_get cs col of None \<Rightarrow> [] | Some c \<Rightarrow> c)
             then Inl (NotNullViolation col (tm_name meta)) else Inr ())
          else
            let got = python_type_name value; expected = type_value t in
            if got \<noteq> expected \<and> \<not> (got = str ''BOOL'' \<and> expected = str ''INT'')
              then Inl (TypeMismatch col expected got)
            else Inr ())"

definition validate_row ::
  "table_meta \<Rightarrow> pystr list \<Rightarrow> pyval list \<Rightarrow> constraints \<Rightarrow> py_error + unit list" where
  "validate_row meta columns values cs =
     rmap (\<lambda>cv. validate_cell meta cs (fst cv) (snd cv)) (zip columns values)"

definition coerce :: "pyval \<Rightarrow> column_type \<Rightarrow> py_error + pyval" where
  "coerce value t = (if value = PNone then Inr PNone else coerce_in value t (str ''?''))"

definition ordered_row :: "table_meta \<Rightarrow> pystr list \<Rightarrow> pyval list \<Rightarrow> py_error + pyval list" where
  "ordered_row meta col_names values =
     (let d = dict_of (zip col_names values) in
      rmap (\<lambda>c. coerce (row_get d (fst c)) (snd c)) (tm_schema meta))"

definition pk_indices :: "table_meta \<Rightarrow> constraints \<Rightarrow> nat list" where
  "pk_indices meta cs =
     filter (\<lambda>i. fst (tm_schema meta ! i) \<in> set (pk_columns cs)) [0..<length (tm_schema meta)]"

definition pk_values :: "table_meta \<Rightarrow> constraints \<Rightarrow> pyval list \<Rightarrow> pyval list" where
  "pk_values meta cs vs = map (\<lambda>i. vs ! i) (pk_indices meta cs)"

text \<open>\<open>",".join(names)\<close>.\<close>

fun comma_join :: "pystr list \<Rightarrow> pystr" where
  "comma_join [] = []"
| "comma_join [n] = n"
| "comma_join (n # ns) = n @ 44 # comma_join ns"

definition check_unique :: "heap \<Rightarrow> table_meta \<Rightarrow> pyval list \<Rightarrow> constraints \<Rightarrow> unit fsx" where
  "check_unique h meta ordered cs =
     sbind (sread (heap_scan h)) (\<lambda>rows.
     if list_ex (\<lambda>r. tuple_eq (pk_values meta cs (snd r)) (pk_values meta cs ordered)) rows
       then sraise (UniqueViolation
              (comma_join (map fst (sort_pairs lex_lt (map (\<lambda>c. (c, ())) (pk_columns cs)))))
              (tm_name meta) (UTuple (pk_values meta cs ordered)))
     else sret ())"

definition insert_row :: "table_meta \<Rightarrow> pystr list \<Rightarrow> constraints \<Rightarrow> pyval list \<Rightarrow> unit fsx" where
  "insert_row meta col_names cs values =
     sbind (slift (validate_row meta col_names values cs)) (\<lambda>_.
     sbind (slift (ordered_row meta col_names values)) (\<lambda>ordered.
     sbind (if pk_columns cs \<noteq> [] then check_unique (table_heap meta) meta ordered cs else sret ()) (\<lambda>_.
     sbind (heap_append (table_heap meta) ordered) (\<lambda>_. sret ()))))"

definition exec_insert ::
  "table_meta \<Rightarrow> pystr list option \<Rightarrow> pyval list list \<Rightarrow> constraints \<Rightarrow> unit fsx" where
  "exec_insert meta columns values_list cs =
     sbind (sfor values_list (insert_row meta (insert_columns meta columns) cs)) (\<lambda>_.
     heap_close (table_heap meta))"

section \<open>UPDATE and DELETE\<close>

definition new_values :: "table_meta \<Rightarrow> (pystr, pyval) dict \<Rightarrow> row \<Rightarrow> py_error + pyval list" where
  "new_values meta assign_dict old =
     rmap (\<lambda>c. case dict_get assign_dict (fst c) of
           Some v \<Rightarrow> coerce v (snd c)
         | None \<Rightarrow> Inr (row_get old (fst c))) (tm_schema meta)"

text \<open>The loops over the rows scanned at the start; the result is the number of rows changed.\<close>

fun update_rows ::
  "table_meta \<Rightarrow> (pystr, pyval) dict \<Rightarrow> expr option \<Rightarrow> (nat \<times> pyval list) list \<Rightarrow> nat \<Rightarrow> nat fsx" where
  "update_rows meta assign_dict wh [] n = sret n"
| "update_rows meta assign_dict wh (r # rows) n =
     sbind (slift (eval_where (row_to_dict meta r) wh)) (\<lambda>b.
     if b then
       sbind (slift (new_values meta assign_dict (row_to_dict meta r))) (\<lambda>vs.
       sbind (heap_update (table_heap meta) (fst r) vs) (\<lambda>_.
       update_rows meta assign_dict wh rows (n + 1)))
     else update_rows meta assign_dict wh rows n)"

definition exec_update ::
  "table_meta \<Rightarrow> (pystr \<times> pyval) list \<Rightarrow> expr option \<Rightarrow> nat fsx" where
  "exec_update meta assignments wh =
     sbind (sread (heap_scan (table_heap meta))) (\<lambda>rows.
     sbind (update_rows meta (dict_of assignments) wh rows 0) (\<lambda>n.
     sbind (heap_close (table_heap meta)) (\<lambda>_. sret n)))"

fun delete_rows :: "table_meta \<Rightarrow> expr \<Rightarrow> (nat \<times> pyval list) list \<Rightarrow> nat \<Rightarrow> nat fsx" where
  "delete_rows meta w [] n = sret n"
| "delete_rows meta w (r # rows) n =
     sbind (slift (eval_predicate (row_to_dict meta r) w)) (\<lambda>b.
     if b then
       sbind (heap_delete (table_heap meta) (fst r)) (\<lambda>_. delete_rows meta w rows (n + 1))
     else delete_rows meta w rows n)"

definition exec_delete :: "table_meta \<Rightarrow> expr option \<Rightarrow> nat fsx" where
  "exec_delete meta wh =
     (case wh of
        None \<Rightarrow> sraise UnsafeDeleteWithoutWhere
      | Some w \<Rightarrow>
          sbind (sread (heap_scan (table_heap meta))) (\<lambda>rows.
          sbind (delete_rows meta w rows 0) (\<lambda>n.
          sbind (heap_close (table_heap meta)) (\<lambda>_. sret n))))"

section \<open>DELETE\<close>

lemma heap_close_ok: "wf_store st \<Longrightarrow> heap_close h st = (Inr (), st)"
  using wf_storeD(1) [of st] by (simp add: heap_close_def fsync_def)

lemma heap_rel_wf: "heap_rel st h rows \<Longrightarrow> wf_store st"
  by (simp add: heap_rel_def)

lemma hr_rowid_abs_delete [simp]: "map hr_rowid (abs_delete rid rows) = map hr_rowid rows"
  by (induction rows) auto

lemma abs_delete_Nil [simp]: "abs_delete rid rows = [] \<longleftrightarrow> rows = []"
  by (cases rows) auto

lemma delete_rows_ok:
  assumes "heap_rel st (table_heap meta) rows" and "rows \<noteq> []" and "distinct (map hr_rowid rows)"
    and "\<forall>r \<in> set rs. \<exists>b. eval_predicate (row_to_dict meta r) w = Inr b"
  shows "\<exists>st' rows'. delete_rows meta w rs n st
      = (Inr (n + length (filter (\<lambda>r. eval_predicate (row_to_dict meta r) w = Inr True) rs)), st')
    \<and> heap_rel st' (table_heap meta) rows'
    \<and> visible rows' = filter (\<lambda>r. fst r \<notin> fst ` set (filter (\<lambda>r. eval_predicate (row_to_dict meta r) w = Inr True) rs))
        (visible rows)
    \<and> only_page (root_page_id meta) st st'"
  using assms
proof (induction rs arbitrary: st rows n)
  case Nil
  then show ?case by (auto intro: only_page_refl heap_rel_wf)
next
  case (Cons r rs)
  let ?acc = "\<lambda>r. eval_predicate (row_to_dict meta r) w = Inr True"
  show ?case
  proof (cases "?acc r")
    case True
    obtain st1 where d: "heap_delete (table_heap meta) (fst r) st = (Inr (), st1)"
      and r1: "heap_rel st1 (table_heap meta) (abs_delete (fst r) rows)"
      and o1: "only_page (hp_root (table_heap meta)) st st1"
      using heap_delete_refines [OF Cons.prems(1,2)] by blast
    have "abs_delete (fst r) rows \<noteq> []" "distinct (map hr_rowid (abs_delete (fst r) rows))"
      using Cons.prems(2,3) by simp_all
    from Cons.IH [OF r1 this, of "n + 1"] Cons.prems(4) obtain st' rows' where
      "delete_rows meta w rs (n + 1) st1 = (Inr (n + 1 + length (filter ?acc rs)), st')"
      "heap_rel st' (table_heap meta) rows'"
      "visible rows' = filter (\<lambda>r. fst r \<notin> fst ` set (filter ?acc rs)) (visible (abs_delete (fst r) rows))"
      "only_page (root_page_id meta) st1 st'" by auto
    then show ?thesis
      using True d o1 only_page_trans visible_delete [OF Cons.prems(3)]
      by (intro exI [of _ st'] exI [of _ rows']) (auto simp: table_heap_def intro: filter_cong)
  next
    case False
    then have "eval_predicate (row_to_dict meta r) w = Inr False" using Cons.prems(4) by auto
    then show ?thesis using Cons by simp
  qed
qed

text \<open>
  C9: a DELETE whose predicate raises for no row returns the number of rows the predicate
  accepts; a scan then returns exactly the other rows, in their order, and no other page of the
  store has changed. The rowids of the heap are distinct.
\<close>

theorem delete_removes_accepted:
  assumes "heap_rel st (table_heap meta) rows" and "distinct (map hr_rowid rows)"
    and "\<forall>r \<in> set (visible rows). \<exists>b. eval_predicate (row_to_dict meta r) w = Inr b"
  shows "\<exists>st'. exec_delete meta (Some w) st
      = (Inr (length (filter (\<lambda>r. eval_predicate (row_to_dict meta r) w = Inr True) (visible rows))), st')
    \<and> heap_scan (table_heap meta) st'
      = Inr (filter (\<lambda>r. eval_predicate (row_to_dict meta r) w \<noteq> Inr True) (visible rows))
    \<and> only_page (root_page_id meta) st st'"
proof (cases "rows = []")
  case True
  then show ?thesis
    using heap_scan_visible [OF assms(1)] heap_rel_wf [OF assms(1)]
    by (auto simp: exec_delete_def heap_close_ok only_page_refl)
next
  case False
  let ?acc = "\<lambda>r. eval_predicate (row_to_dict meta r) w = Inr True"
  obtain st' rows' where d: "delete_rows meta w (visible rows) 0 st = (Inr (length (filter ?acc (visible rows))), st')"
    and rel: "heap_rel st' (table_heap meta) rows'"
    and v: "visible rows' = filter (\<lambda>r. fst r \<notin> fst ` set (filter ?acc (visible rows))) (visible rows)"
    and o: "only_page (root_page_id meta) st st'"
    using delete_rows_ok [OF assms(1) False assms(2,3), of 0] by auto
  have "inj_on fst (set (visible rows))"
    using assms(2) by (auto simp: visible_def distinct_map inj_on_def)
  then have "visible rows' = filter (\<lambda>r. \<not> ?acc r) (visible rows)"
    unfolding v by (intro filter_cong) (auto dest: inj_onD)
  then show ?thesis
    using d o heap_scan_visible [OF assms(1)] heap_scan_visible [OF rel] heap_rel_wf [OF rel]
    by (simp add: exec_delete_def heap_close_ok)
qed

section \<open>INSERT keeps the primary key\<close>

lemma encode_fits: "encode v t = Inr e \<Longrightarrow> length e < 256 ^ 4 \<Longrightarrow> fits t v"
  by (cases t; cases v) (auto simp: encode_def split: if_splits)

lemma encode_cells_fits:
  "encode_cells (zip vs sch) = Inr bs \<Longrightarrow> length vs = length sch \<Longrightarrow> row_fits sch vs"
proof (induction sch arbitrary: vs bs)
  case (Cons c sch)
  obtain n t where c: "c = (n, t)" by (cases c)
  obtain v ws where vs: "vs = v # ws" using Cons.prems(2) by (cases vs) auto
  have "fits t v" "\<exists>ps. encode_cells (zip ws sch) = Inr ps"
    using Cons.prems(1) encode_fits [of v t] by (auto simp: c vs split: if_splits)
  then show ?case using Cons.IH Cons.prems(2) by (auto simp: c vs)
qed simp

lemma ordered_row_length: "ordered_row meta cols values = Inr vs \<Longrightarrow> length vs = length (tm_schema meta)"
  unfolding ordered_row_def Let_def by (rule rmap_length)

lemma heap_room_length: "2 + 5 * length rows \<le> heap_room rows"
  by (induction rows) (auto simp: heap_room_def)

lemma heap_append_fits:
  assumes "heap_append h vs st = (Inr n, st')" and "length vs = length (hp_schema h)"
  shows "row_fits (hp_schema h) vs"
proof -
  obtain rid bs where "encode_row vs (hp_schema h) rid = Inr bs"
    using assms(1) by (auto simp: heap_append_def Let_def case_prod_beta sbind_def split: prod.splits sum.splits)
  then show ?thesis using encode_cells_fits assms(2) by (auto simp: encode_row_def)
qed

lemma heap_append_room:
  assumes "heap_rel st h rows" and "heap_append h vs st = (Inr n, st')" and "length vs = length (hp_schema h)"
    and "length (hp_schema h) < 2 ^ 16" and "heap_room (abs_append (hp_schema h) vs rows) \<le> capacity st"
  shows "heap_rel st' h (abs_append (hp_schema h) vs rows)" and "only_page (hp_root h) st st'"
proof -
  have "2 + 5 * (length rows + 1) \<le> heap_room (abs_append (hp_schema h) vs rows)"
    using heap_room_length [of "abs_append (hp_schema h) vs rows"] by (simp add: abs_append_def)
  then have "length rows + 1 < 2 ^ 16" using assms(5) capacity_bound [OF heap_rel_wf [OF assms(1)]] by simp
  from heap_append_refines [OF assms(1) heap_append_fits [OF assms(2,3)] assms(4) this assms(5)] assms(2)
  show "heap_rel st' h (abs_append (hp_schema h) vs rows)" and "only_page (hp_root h) st st'" by auto
qed

text \<open>
  \<open>keys_distinct\<close>: no two rows have equal key values.
\<close>

definition keys_distinct :: "table_meta \<Rightarrow> constraints \<Rightarrow> pyval list list \<Rightarrow> bool" where
  "keys_distinct meta cs = sorted_wrt (\<lambda>x y. \<not> tuple_eq (pk_values meta cs x) (pk_values meta cs y))"

lemma insert_row_ok:
  assumes rel: "heap_rel st (table_heap meta) rows" and ok: "insert_row meta cols cs values st = (Inr (), st')"
    and ord: "ordered_row meta cols values = Inr vs" and n: "length (tm_schema meta) < 2 ^ 16"
    and room: "heap_room (abs_append (tm_schema meta) vs rows) \<le> capacity st"
  shows "heap_rel st' (table_heap meta) (abs_append (tm_schema meta) vs rows)"
    and "only_page (root_page_id meta) st st'"
    and "pk_columns cs \<noteq> [] \<Longrightarrow>
      \<forall>r \<in> set (visible rows). \<not> tuple_eq (pk_values meta cs (snd r)) (pk_values meta cs vs)"
proof -
  let ?unique = "if pk_columns cs \<noteq> [] then check_unique (table_heap meta) meta vs cs else sret ()"
  obtain us where "validate_row meta cols values cs = Inr us"
    using ok by (cases "validate_row meta cols values cs") (simp_all add: insert_row_def)
  then have run: "sbind ?unique (\<lambda>_. sbind (heap_append (table_heap meta) vs) (\<lambda>_. sret ())) st = (Inr (), st')"
    using ok ord by (simp add: insert_row_def)
  have u: "?unique st = (if pk_columns cs \<noteq> [] \<and> list_ex (\<lambda>r. tuple_eq (pk_values meta cs (snd r)) (pk_values meta cs vs))
      (visible rows) then (Inl (UniqueViolation (comma_join (map fst (sort_pairs lex_lt (map (\<lambda>c. (c, ())) (pk_columns cs)))))
              (tm_name meta) (UTuple (pk_values meta cs vs))), st) else (Inr (), st))"
    using heap_scan_visible [OF rel] by (simp add: check_unique_def)
  have nodup: "\<not> (pk_columns cs \<noteq> [] \<and> list_ex (\<lambda>r. tuple_eq (pk_values meta cs (snd r)) (pk_values meta cs vs)) (visible rows))"
    using run u by (auto simp: sbind_def split: if_splits)
  then have "sbind (heap_append (table_heap meta) vs) (\<lambda>_. sret ()) st = (Inr (), st')"
    using run u by (auto simp: sbind_def split: if_splits)
  then obtain k where "heap_append (table_heap meta) vs st = (Inr k, st')"
    by (auto elim: sbind_InrE)
  from heap_append_room [OF rel this] ordered_row_length [OF ord] n room
  show "heap_rel st' (table_heap meta) (abs_append (tm_schema meta) vs rows)"
    and "only_page (root_page_id meta) st st'" by (simp_all add: table_heap_def)
  show "pk_columns cs \<noteq> [] \<Longrightarrow>
      \<forall>r \<in> set (visible rows). \<not> tuple_eq (pk_values meta cs (snd r)) (pk_values meta cs vs)"
    using nodup by (auto simp: list_ex_iff)
qed

text \<open>The rows an INSERT appends, and the key they are compared by once they are stored.\<close>

definition appended :: "table_meta \<Rightarrow> pyval list list \<Rightarrow> hrow list \<Rightarrow> hrow list" where
  "appended meta new rows = fold (abs_append (tm_schema meta)) new rows"

definition plain_key :: "table_meta \<Rightarrow> constraints \<Rightarrow> pyval list \<Rightarrow> bool" where
  "plain_key meta cs vs \<longleftrightarrow> pk_values meta cs (map stored vs) = pk_values meta cs vs"

lemma heap_room_appended: "heap_room rows \<le> heap_room (appended meta new rows)"
proof (induction new arbitrary: rows)
  case (Cons vs new)
  have "heap_room rows \<le> heap_room (abs_append (tm_schema meta) vs rows)"
    by (simp add: abs_append_def heap_room_def)
  also have "\<dots> \<le> heap_room (appended meta new (abs_append (tm_schema meta) vs rows))" by (rule Cons.IH)
  finally show ?case by (simp add: appended_def)
qed (simp add: appended_def)

lemma insert_rows_ok:
  assumes "heap_rel st (table_heap meta) rows" and "sfor values_list (insert_row meta cols cs) st = (Inr (), st')"
    and "rmap (ordered_row meta cols) values_list = Inr new" and "length (tm_schema meta) < 2 ^ 16"
    and "heap_room (appended meta new rows) \<le> capacity st"
    and "pk_columns cs \<noteq> []" and "\<forall>vs \<in> set new. plain_key meta cs vs"
    and "keys_distinct meta cs (map snd (visible rows))"
  shows "heap_rel st' (table_heap meta) (appended meta new rows) \<and> only_page (root_page_id meta) st st'
    \<and> keys_distinct meta cs (map snd (visible (appended meta new rows)))"
  using assms
proof (induction values_list arbitrary: st rows new)
  case Nil
  then show ?case by (auto simp: appended_def intro: only_page_refl heap_rel_wf)
next
  case (Cons vals rest)
  from Cons.prems(3) obtain vs more' where o: "ordered_row meta cols vals = Inr vs"
    and m: "rmap (ordered_row meta cols) rest = Inr more'" and new: "new = vs # more'" by auto
  from Cons.prems(2) obtain st1 where i: "insert_row meta cols cs vals st = (Inr (), st1)"
    and r: "sfor rest (insert_row meta cols cs) st1 = (Inr (), st')" by (auto elim: sbind_InrE)
  let ?rows = "abs_append (tm_schema meta) vs rows"
  have app: "appended meta new rows = appended meta more' ?rows" by (simp add: new appended_def)
  have room: "heap_room ?rows \<le> capacity st"
    using heap_room_appended [of ?rows meta more'] Cons.prems(5) by (simp add: app)
  note ok = insert_row_ok [OF Cons.prems(1) i o Cons.prems(4) room]
  have "map snd (visible ?rows) = map snd (visible rows) @ [map stored vs]"
    by (simp add: abs_append_def fresh_row_def)
  then have k: "keys_distinct meta cs (map snd (visible ?rows))"
    using Cons.prems(7,8) ok(3) [OF Cons.prems(6)]
    by (auto simp: keys_distinct_def sorted_wrt_append new plain_key_def)
  have cap: "capacity st1 = capacity st" by (rule only_page_capacity [OF ok(2)])
  from Cons.IH [OF ok(1) r m Cons.prems(4) _ Cons.prems(6) _ k] Cons.prems(5,7) cap app new
  show ?case using only_page_trans [OF ok(2)] by auto
qed

lemma visible_appended:
  "map snd (visible (appended meta new rows)) = map snd (visible rows) @ map (map stored) new"
  by (induction new arbitrary: rows) (simp_all add: appended_def abs_append_def fresh_row_def)

text \<open>
  C2: an INSERT into a table with a primary key that succeeds appends its rows to what a scan
  returns and keeps the key values of all rows pairwise different, the new rows' among
  themselves included. It holds for rows whose key columns do not contain the 0 that is stored
  as NULL, and that fit the page, of which no other page is changed.
\<close>

theorem insert_keeps_primary_key:
  assumes "heap_rel st (table_heap meta) rows" and "exec_insert meta columns values_list cs st = (Inr (), st')"
    and "rmap (ordered_row meta (insert_columns meta columns)) values_list = Inr new"
    and "length (tm_schema meta) < 2 ^ 16" and "heap_room (appended meta new rows) \<le> capacity st"
    and "pk_columns cs \<noteq> []" and "\<forall>vs \<in> set new. plain_key meta cs vs"
    and "keys_distinct meta cs (map snd (visible rows))"
  shows "\<exists>after. heap_scan (table_heap meta) st' = Inr after
    \<and> map snd after = map snd (visible rows) @ map (map stored) new
    \<and> keys_distinct meta cs (map snd after) \<and> only_page (root_page_id meta) st st'"
proof -
  obtain st1 where i: "sfor values_list (insert_row meta (insert_columns meta columns) cs) st = (Inr (), st1)"
    and c: "heap_close (table_heap meta) st1 = (Inr (), st')"
    using assms(2) by (auto simp: exec_insert_def elim: sbind_InrE)
  note ok = insert_rows_ok [OF assms(1) i assms(3-8)]
  then have "st' = st1" using c heap_close_ok heap_rel_wf by auto
  then show ?thesis using ok heap_scan_visible visible_appended by blast
qed

lemma insert_row_succeeds:
  assumes rel: "heap_rel st (table_heap meta) rows" and v: "validate_row meta cols values cs = Inr us"
    and o: "ordered_row meta cols values = Inr vs" and f: "row_fits (tm_schema meta) vs"
    and n: "length (tm_schema meta) < 2 ^ 16" "heap_room (abs_append (tm_schema meta) vs rows) \<le> capacity st"
    and k: "\<forall>r \<in> set (visible rows). \<not> tuple_eq (pk_values meta cs (snd r)) (pk_values meta cs vs)"
  obtains st' where "insert_row meta cols cs values st = (Inr (), st')"
    and "heap_rel st' (table_heap meta) (abs_append (tm_schema meta) vs rows)"
    and "only_page (root_page_id meta) st st'"
proof -
  have "2 + 5 * (length rows + 1) \<le> heap_room (abs_append (tm_schema meta) vs rows)"
    using heap_room_length [of "abs_append (tm_schema meta) vs rows"] by (simp add: abs_append_def)
  then have l: "length rows + 1 < 2 ^ 16" using n(2) capacity_bound [OF heap_rel_wf [OF rel]] by simp
  obtain st' where a: "heap_append (table_heap meta) vs st = (Inr (length rows + 1), st')"
    and r: "heap_rel st' (table_heap meta) (abs_append (tm_schema meta) vs rows)"
    and p: "only_page (root_page_id meta) st st'"
    using heap_append_refines [OF rel, of vs] f n l by (auto simp: table_heap_def)
  have "check_unique (table_heap meta) meta vs cs st = (Inr (), st)"
    using heap_scan_visible [OF rel] k by (auto simp: check_unique_def list_ex_iff)
  then have "insert_row meta cols cs values st = (Inr (), st')"
    using v o a by (simp add: insert_row_def)
  then show ?thesis using r p that by blast
qed

text \<open>
  The key 0 of an INT primary key is stored as NULL and therefore never found again: two
  rows with that key are both inserted, and both come back with a NULL key.
\<close>

theorem zero_key_inserted_twice:
  assumes rel: "heap_rel st (table_heap meta) []" and n: "length (tm_schema meta) < 2 ^ 16"
    and v: "validate_row meta (insert_columns meta columns) vals1 cs = Inr us1"
      "validate_row meta (insert_columns meta columns) vals2 cs = Inr us2"
    and o: "ordered_row meta (insert_columns meta columns) vals1 = Inr vs1"
      "ordered_row meta (insert_columns meta columns) vals2 = Inr vs2"
    and f: "row_fits (tm_schema meta) vs1" "row_fits (tm_schema meta) vs2"
    and room: "heap_room (appended meta [vs1, vs2] []) \<le> capacity st"
    and key: "pk_values meta cs vs1 = [PInt 0]" "pk_values meta cs vs2 = [PInt 0]"
  shows "\<exists>st'. exec_insert meta columns [vals1, vals2] cs st = (Inr (), st')
    \<and> heap_scan (table_heap meta) st' = Inr [(1, map stored vs1), (2, map stored vs2)]
    \<and> pk_values meta cs (map stored vs1) = [PNone] \<and> pk_values meta cs (map stored vs2) = [PNone]"
proof -
  let ?rows = "abs_append (tm_schema meta) vs1 []"
  have stored_key: "pk_values meta cs (map stored vs) = map stored (pk_values meta cs vs)"
    if "length vs = length (tm_schema meta)" for vs
    using that by (auto simp: pk_values_def pk_indices_def)
  have keys: "pk_values meta cs (map stored vs1) = [PNone]" "pk_values meta cs (map stored vs2) = [PNone]"
    using stored_key [OF ordered_row_length [OF o(1)]] stored_key [OF ordered_row_length [OF o(2)]] key
    by (simp_all add: stored_def)
  have "heap_room ?rows \<le> capacity st"
    using heap_room_appended [of ?rows meta "[vs2]"] room by (simp add: appended_def)
  then obtain st1 where i1: "insert_row meta (insert_columns meta columns) cs vals1 st = (Inr (), st1)"
    and r1: "heap_rel st1 (table_heap meta) ?rows" and p: "only_page (root_page_id meta) st st1"
    by (rule insert_row_succeeds [OF rel v(1) o(1) f(1) n]) simp
  have "heap_room (abs_append (tm_schema meta) vs2 ?rows) \<le> capacity st1"
    using room only_page_capacity [OF p] by (simp add: appended_def)
  then obtain st2 where i2: "insert_row meta (insert_columns meta columns) cs vals2 st1 = (Inr (), st2)"
    and r2: "heap_rel st2 (table_heap meta) (abs_append (tm_schema meta) vs2 ?rows)"
    by (rule insert_row_succeeds [OF r1 v(2) o(2) f(2) n])
      (simp add: abs_append_def fresh_row_def keys key tuple_eq_def)
  have "heap_scan (table_heap meta) st2 = Inr [(1, map stored vs1), (2, map stored vs2)]"
    using heap_scan_visible [OF r2] by (simp add: abs_append_def fresh_row_def numeral_2_eq_2)
  then show ?thesis
    using i1 i2 keys heap_close_ok [OF heap_rel_wf [OF r2]] by (intro exI [of _ st2]) (simp add: exec_insert_def)
qed

section \<open>Statements on a concrete table\<close>

lemma delete_removes_accepted_witness:
  "\<exists>st'. exec_delete demo_meta (Some (BinaryOp (str ''='') (Column (str ''id'')) (SqlLiteral (PInt 7) (str ''7'')))) demo_store2
      = (Inr 1, st')
    \<and> heap_scan (table_heap demo_meta) st' = Inr [(2, [PNone, PText (str ''b'')])]"
proof -
  let ?w = "BinaryOp (str ''='') (Column (str ''id'')) (SqlLiteral (PInt 7) (str ''7''))"
  let ?rows = "[demo_row, fresh_row (hp_schema demo_heap) 2 [PNone, PText (str ''b'')]]"
  have rel: "heap_rel demo_store2 (table_heap demo_meta) ?rows"
    using demo_store2_rel(1) by (simp add: demo_table_heap)
  have vis: "visible ?rows = demo_rows" using heap_scan_visible [OF rel] demo_scan by simp
  have ev: "eval_predicate (row_to_dict demo_meta (Suc 0, [PInt 7, PText (str ''a'')])) ?w = Inr True"
    "eval_predicate (row_to_dict demo_meta (2, [PNone, PText (str ''b'')])) ?w = Inr False"
    by (simp_all add: demo_row_dicts row_get_def compare_op_def)
  have "distinct (map hr_rowid ?rows)" by (simp add: fresh_row_def)
  from delete_removes_accepted [OF rel this, of ?w] show ?thesis
    unfolding vis demo_rows_eq using ev by auto
qed

text \<open>The constraints of \<open>CREATE TABLE t (id INT PRIMARY KEY, name TEXT)\<close>.\<close>

definition demo_key :: constraints where
  "demo_key = [(str ''id'', [str ''PRIMARY KEY'']), (str ''name'', [])]"

lemma demo_key_facts:
  "pk_columns demo_key = [str ''id'']" "pk_values demo_meta demo_key (v # vs) = [v]"
  "insert_columns demo_meta None = [str ''id'', str ''name'']"
  by (simp_all add: demo_key_def pk_columns_def pk_values_def pk_indices_def demo_meta_def mk_meta_def
      insert_columns_def)

lemma demo_insert_facts:
  "validate_row demo_meta [str ''id'', str ''name''] [PInt i, PText s] demo_key = Inr [(), ()]"
  "ordered_row demo_meta [str ''id'', str ''name''] [PInt i, PText s] = Inr [PInt i, PText s]"
  "hp_schema demo_heap = tm_schema demo_meta"
  by (simp_all add: validate_row_def validate_cell_def ordered_row_def demo_meta_def mk_meta_def dict_of_def
      demo_heap_def row_get_def coerce_def coerce_in_def)

lemma demo_values3:
  shows "row_fits (tm_schema demo_meta) [PInt 8, PText (str ''b'')]"
    and "row_fits (tm_schema demo_meta) [PInt 0, PText (str ''b'')]"
    and "row_size (tm_schema demo_meta) [PInt 8, PText (str ''b'')] = 31"
    and "row_size (tm_schema demo_meta) [PInt 0, PText (str ''b'')] = 31"
  by (simp_all add: demo_meta_def mk_meta_def row_size_def encode_row_def encode_def to_bytes_signed_def str_def
      int64_min_def int64_max_def utf8_char_def is_scalar_def is_surrogate_def pack_uint_def)

lemma insert_keeps_primary_key_witness:
  "\<exists>st' after. exec_insert demo_meta None [[PInt 8, PText (str ''b'')]] demo_key demo_store1 = (Inr (), st')
    \<and> heap_scan (table_heap demo_meta) st' = Inr after
    \<and> map snd after = [[PInt 7, PText (str ''a'')], [PInt 8, PText (str ''b'')]]
    \<and> keys_distinct demo_meta demo_key (map snd after)"
proof -
  let ?vs = "[PInt 8, PText (str ''b'')]"
  have rel: "heap_rel demo_store1 (table_heap demo_meta) [demo_row]"
    using demo_store1_rel(1) by (simp add: demo_table_heap)
  have n: "length (tm_schema demo_meta) < 2 ^ 16" using demo_schema by (simp add: demo_insert_facts)
  have room: "heap_room (abs_append (tm_schema demo_meta) ?vs [demo_row]) \<le> capacity demo_store1"
    by (simp add: demo_store1_rel heap_room_def abs_append_def fresh_row_def demo_values3)
  obtain st' where i: "insert_row demo_meta [str ''id'', str ''name''] demo_key ?vs demo_store1 = (Inr (), st')"
    and r: "heap_rel st' (table_heap demo_meta) (abs_append (tm_schema demo_meta) ?vs [demo_row])"
    by (rule insert_row_succeeds [OF rel demo_insert_facts(1,2) demo_values3(1) n room])
      (simp add: demo_key_facts tuple_eq_def)
  have e: "exec_insert demo_meta None [?vs] demo_key demo_store1 = (Inr (), st')"
    using i heap_close_ok [OF heap_rel_wf [OF r]] by (simp add: exec_insert_def demo_key_facts)
  have "rmap (ordered_row demo_meta (insert_columns demo_meta None)) [?vs] = Inr [?vs]"
    by (simp add: demo_key_facts demo_insert_facts)
  from insert_keeps_primary_key [OF rel e this n] room
  obtain after where "heap_scan (table_heap demo_meta) st' = Inr after"
    "map snd after = map snd (visible [demo_row]) @ map (map stored) [?vs]"
    "keys_distinct demo_meta demo_key (map snd after)"
    by (auto simp: appended_def demo_key_facts plain_key_def stored_def keys_distinct_def)
  then show ?thesis using e by (intro exI [of _ st'] exI [of _ after]) (simp add: stored_def)
qed

lemma zero_key_inserted_twice_witness:
  "\<exists>st'. exec_insert demo_meta None [[PInt 0, PText (str ''b'')], [PInt 0, PText (str ''b'')]] demo_key demo_store
      = (Inr (), st')
    \<and> heap_scan (table_heap demo_meta) st'
      = Inr [(1, [PNone, PText (str ''b'')]), (2, [PNone, PText (str ''b'')])]"
proof -
  let ?vs = "[PInt 0, PText (str ''b'')]"
  have rel: "heap_rel demo_store (table_heap demo_meta) []"
    using demo_store_rel by (simp add: demo_table_heap)
  have n: "length (tm_schema demo_meta) < 2 ^ 16" using demo_schema by (simp add: demo_insert_facts)
  have "heap_room (appended demo_meta [?vs, ?vs] []) \<le> capacity demo_store"
    by (simp add: demo_capacity heap_room_def appended_def abs_append_def fresh_row_def demo_values3)
  from zero_key_inserted_twice [OF rel n demo_insert_facts(1,1,2,2) [folded demo_key_facts(3)]
      demo_values3(2,2) this demo_key_facts(2,2)]
  show ?thesis by (auto simp: stored_def)
qed

end
