(* ===== verification/UpdateFacts.thy ===== *)
theory UpdateFacts
  imports Dml
begin

text \<open>
  What an UPDATE statement (\<open>exec_update\<close> of tinydb/executor/dml.py) does to the rows of a
  table. An update that does not fit the room of its row moves the row to the end of the heap
  and leaves a flagged row with the same rowid behind, so the loop over the rows scanned at the
  start keeps the rowids it has still to visit unique, not those of the whole heap.
\<close>

section \<open>One row\<close>

text \<open>The heap has one row with the rowid of \<open>r\<close>, and it is the row \<open>r\<close> a scan returns.\<close>

definition sole_row :: "nat \<times> pyval list \<Rightarrow> hrow list \<Rightarrow> bool" where
  "sole_row r rows \<longleftrightarrow>
     r \<in> set (visible rows) \<and> length (filter (\<lambda>x. hr_rowid x = fst r) rows) = 1"

lemma sole_row_split:
  assumes "sole_row r rows"
  obtains as x bs where "rows = as @ x # bs" and "\<forall>y \<in> set as. hr_rowid y \<noteq> fst r"
    and "\<forall>y \<in> set bs. hr_rowid y \<noteq> fst r" and "hr_alive x" and "(hr_rowid x, hr_values x) = r"
proof -
  from assms obtain x where x: "x \<in> set rows" "hr_alive x" "(hr_rowid x, hr_values x) = r"
    by (auto simp: sole_row_def visible_def)
  from split_list [OF x(1)] obtain as bs where s: "rows = as @ x # bs" by blast
  then have "filter (\<lambda>y. hr_rowid y = fst r) as = []" "filter (\<lambda>y. hr_rowid y = fst r) bs = []"
    using assms x(3) by (auto simp: sole_row_def)
  then show ?thesis using that s x by (auto simp: filter_empty_conv)
qed

lemma sole_row_distinct: "distinct (map hr_rowid rows) \<Longrightarrow> r \<in> set (visible rows) \<Longrightarrow> sole_row r rows"
proof -
  assume d: "distinct (map hr_rowid rows)" and r: "r \<in> set (visible rows)"
  then obtain x where x: "x \<in> set rows" "hr_rowid x = fst r" by (auto simp: visible_def)
  from split_list [OF x(1)] obtain as bs where s: "rows = as @ x # bs" by blast
  then have "filter (\<lambda>y. hr_rowid y = fst r) as = []" "filter (\<lambda>y. hr_rowid y = fst r) bs = []"
    using d x(2) by (auto simp: filter_empty_conv) (metis imageI)+
  then show ?thesis using r x s by (simp add: sole_row_def)
qed

text \<open>The update of a sole row, on what a scan returns and on the other rows.\<close>

lemma update_sole_row:
  assumes "sole_row r rows" and rows': "rows' = abs_update sch (fst r) vs rows"
  shows "add_mset r (mset (visible rows')) = add_mset (fst r, map stored vs) (mset (visible rows))"
    and "fst r \<in> A \<Longrightarrow> filter (\<lambda>x. fst x \<notin> A) (visible rows') = filter (\<lambda>x. fst x \<notin> A) (visible rows)"
    and "sole_row q rows \<Longrightarrow> fst q \<noteq> fst r \<Longrightarrow> sole_row q rows'"
    and "heap_room rows \<le> heap_room rows'"
    and "rows' \<noteq> []"
proof -
  obtain as x bs where s: "rows = as @ x # bs" "\<forall>y \<in> set as. hr_rowid y \<noteq> fst r"
    "\<forall>y \<in> set bs. hr_rowid y \<noteq> fst r" "hr_alive x" "(hr_rowid x, hr_values x) = r"
    using assms(1) by (rule sole_row_split)
  then have id: "hr_rowid x = fst r" and v: "hr_values x = snd r" by auto
  note u = rows' [unfolded s(1) abs_update_def abs_update_found [OF s(2) id]]
  show "add_mset r (mset (visible rows')) = add_mset (fst r, map stored vs) (mset (visible rows))"
    unfolding u s(1) using s(4,5) by (simp add: fresh_row_def)
  show "fst r \<in> A \<Longrightarrow> filter (\<lambda>x. fst x \<notin> A) (visible rows') = filter (\<lambda>x. fst x \<notin> A) (visible rows)"
    unfolding u s(1) using id by (simp add: fresh_row_def)
  show "sole_row q rows \<Longrightarrow> fst q \<noteq> fst r \<Longrightarrow> sole_row q rows'"
    unfolding u s(1) using s(5) id by (auto simp: sole_row_def fresh_row_def split: if_splits)
  show "heap_room rows \<le> heap_room rows'" unfolding u s(1) by (simp add: heap_room_def fresh_row_def)
  show "rows' \<noteq> []" unfolding u by simp
qed

lemma sole_rows_rest:
  assumes "\<forall>q \<in> set (r # rs). sole_row q rows" and "distinct (map fst (r # rs))"
  shows "\<forall>q \<in> set rs. sole_row q (abs_update sch (fst r) vs rows)"
proof
  fix q assume "q \<in> set rs"
  moreover from this have "fst q \<noteq> fst r" using assms(2) by (metis distinct.simps(2) image_eqI list.simps(9) set_map)
  ultimately show "sole_row q (abs_update sch (fst r) vs rows)"
    using assms(1) by (intro update_sole_row(3) [OF _ refl, of r]) simp_all
qed

section \<open>The statement\<close>

text \<open>
  The rows a statement with this WHERE accepts, and what becomes of the values of a row: each
  column with an assignment holds the coerced value of the last one, each other column its old
  value. \<open>row_updatable\<close>: the WHERE of the row succeeds, and if it is accepted its new values fit
  their columns.
\<close>

definition accepts :: "table_meta \<Rightarrow> expr option \<Rightarrow> nat \<times> pyval list \<Rightarrow> bool" where
  "accepts meta wh r \<longleftrightarrow> eval_where (row_to_dict meta r) wh = Inr True"

definition assigned :: "table_meta \<Rightarrow> (pystr \<times> pyval) list \<Rightarrow> nat \<times> pyval list \<Rightarrow> pyval list" where
  "assigned meta assignments r =
     map (\<lambda>((name, t), old).
         case map_of (rev assignments) name of
           None \<Rightarrow> old
         | Some v \<Rightarrow> (case coerce v t of Inl _ \<Rightarrow> old | Inr w \<Rightarrow> w))
       (zip (tm_schema meta) (snd r))"

definition assignments_ok :: "table_meta \<Rightarrow> (pystr \<times> pyval) list \<Rightarrow> bool" where
  "assignments_ok meta assignments \<longleftrightarrow>
     (\<forall>(name, t) \<in> set (tm_schema meta). \<forall>v. map_of (rev assignments) name = Some v \<longrightarrow> (\<exists>w. coerce v t = Inr w))"

definition row_updatable ::
  "table_meta \<Rightarrow> (pystr \<times> pyval) list \<Rightarrow> expr option \<Rightarrow> nat \<times> pyval list \<Rightarrow> bool" where
  "row_updatable meta assignments wh r \<longleftrightarrow>
     (case eval_where (row_to_dict meta r) wh of
        Inl _ \<Rightarrow> False
      | Inr b \<Rightarrow> b \<longrightarrow> row_fits (tm_schema meta) (assigned meta assignments r))"

text \<open>A table whose columns have names of their own, none of them that of the row id.\<close>

definition plain_columns :: "table_meta \<Rightarrow> bool" where
  "plain_columns meta \<longleftrightarrow>
     distinct (map fst (tm_schema meta)) \<and> str ''rowid'' \<notin> set (map fst (tm_schema meta))"

lemma row_get_column:
  assumes "plain_columns meta" and "length (snd r) = length (tm_schema meta)" and "i < length (tm_schema meta)"
  shows "row_get (row_to_dict meta r) (fst (tm_schema meta ! i)) = snd r ! i"
proof -
  have "fst (tm_schema meta ! i) \<in> set (map fst (tm_schema meta))" using assms(3) by simp
  then have d: "distinct (map fst (tm_schema meta))" and n: "fst (tm_schema meta ! i) \<noteq> str ''rowid''"
    using assms(1) unfolding plain_columns_def by metis+
  have "map_of (zip (map fst (tm_schema meta)) (snd r)) (map fst (tm_schema meta) ! i) = Some (snd r ! i)"
    using assms(2,3) d by (intro map_of_zip_nth) simp_all
  then show ?thesis
    using assms(2,3) d n by (simp add: row_get_def row_to_dict_def row_dict_def dict_get_set dict_of_distinct)
qed

text \<open>
  A column called rowid that is not assigned gets the number of the row, whatever the row held
  there.
\<close>

theorem rowid_column_overwritten:
  assumes "new_values meta assign_dict (row_to_dict meta r) = Inr vs" and "dict_get assign_dict (str ''rowid'') = None"
    and "i < length (tm_schema meta)" and "fst (tm_schema meta ! i) = str ''rowid''"
  shows "vs ! i = PInt (int (fst r))"
proof -
  have nth: "rmap f xs = Inr ys \<Longrightarrow> i < length xs \<Longrightarrow> f (xs ! i) = Inr (ys ! i)" for f :: "pystr \<times> column_type \<Rightarrow> py_error + pyval" and xs ys i
    by (induction xs arbitrary: ys i) (auto simp: nth_Cons split: nat.splits)
  show ?thesis
    using nth [OF assms(1) [unfolded new_values_def] assms(3)] assms(2,4)
    by (simp add: row_get_def row_to_dict_def dict_get_set)
qed

lemma new_values_assigned:
  assumes "plain_columns meta" and "length (snd r) = length (tm_schema meta)" and "assignments_ok meta assignments"
  shows "new_values meta (dict_of assignments) (row_to_dict meta r) = Inr (assigned meta assignments r)"
proof -
  let ?g = "\<lambda>c. case map_of (rev assignments) (fst c) of
      None \<Rightarrow> row_get (row_to_dict meta r) (fst c)
    | Some v \<Rightarrow> (case coerce v (snd c) of Inl _ \<Rightarrow> row_get (row_to_dict meta r) (fst c) | Inr w \<Rightarrow> w)"
  have "new_values meta (dict_of assignments) (row_to_dict meta r) = Inr (map ?g (tm_schema meta))"
    unfolding new_values_def
    by (rule rmap_total) (use assms(3) in \<open>fastforce simp: dict_get_of assignments_ok_def split: option.splits sum.splits\<close>)
  moreover have "map ?g (tm_schema meta) = assigned meta assignments r"
    by (rule nth_equalityI)
      (use assms(2) row_get_column [OF assms(1,2)] in
        \<open>auto simp: assigned_def case_prod_beta split: option.split sum.split\<close>)
  ultimately show ?thesis by simp
qed

lemma decode_cells_length: "decode_cells raw off sch = Inr vs \<Longrightarrow> length vs = length sch"
proof (induction sch arbitrary: off vs)
  case (Cons c sch)
  then show ?case by (cases c) (auto split: if_splits)
qed simp

lemma scan_rows_lengths:
  "scan_rows k body offset sch = Inr rows \<Longrightarrow> r \<in> set rows \<Longrightarrow> length (snd r) = length sch"
proof (induction k body offset sch arbitrary: rows rule: scan_rows.induct)
  case (2 k body offset sch)
  then show ?case by (auto simp: decode_row_def Let_def decode_cells_length split: if_splits)
qed simp

lemma visible_lengths:
  assumes "heap_rel st (table_heap meta) rows" and "r \<in> set (visible rows)"
  shows "length (snd r) = length (tm_schema meta)"
  using heap_scan_visible [OF assms(1)] assms(2)
  by (auto simp: heap_scan_def case_prod_beta table_heap_def dest: scan_rows_lengths)

definition abs_updates ::
  "table_meta \<Rightarrow> (pystr \<times> pyval) list \<Rightarrow> expr option \<Rightarrow> (nat \<times> pyval list) list \<Rightarrow> hrow list \<Rightarrow> hrow list" where
  "abs_updates meta assignments wh rs rows =
     fold (\<lambda>r. abs_update (tm_schema meta) (fst r) (assigned meta assignments r)) (filter (accepts meta wh) rs) rows"

lemma abs_updates_simps:
  "abs_updates meta assignments wh [] rows = rows"
  "accepts meta wh r \<Longrightarrow> abs_updates meta assignments wh (r # rs) rows
     = abs_updates meta assignments wh rs (abs_update (tm_schema meta) (fst r) (assigned meta assignments r) rows)"
  "\<not> accepts meta wh r \<Longrightarrow> abs_updates meta assignments wh (r # rs) rows = abs_updates meta assignments wh rs rows"
  by (simp_all add: abs_updates_def)

lemma abs_updates_room:
  "\<forall>r \<in> set rs. sole_row r rows \<Longrightarrow> distinct (map fst rs) \<Longrightarrow>
   heap_room rows \<le> heap_room (abs_updates meta assignments wh rs rows)"
proof (induction rs arbitrary: rows)
  case (Cons r rs)
  show ?case
  proof (cases "accepts meta wh r")
    case True
    let ?rows = "abs_update (tm_schema meta) (fst r) (assigned meta assignments r) rows"
    have r: "sole_row r rows" using Cons.prems by simp
    have "\<forall>q \<in> set rs. sole_row q ?rows" by (rule sole_rows_rest) (use Cons.prems in auto)
    from Cons.IH [OF this] update_sole_row(4) [OF r refl] Cons.prems show ?thesis
      by (simp add: abs_updates_simps True) (rule le_trans)
  qed (use Cons in \<open>simp add: abs_updates_simps\<close>)
qed (simp add: abs_updates_simps)

lemma update_rows_ok:
  assumes "heap_rel st (table_heap meta) rows" and "rows \<noteq> []"
    and "\<forall>r \<in> set rs. sole_row r rows" and "distinct (map fst rs)"
    and "\<forall>r \<in> set rs. row_updatable meta assignments wh r"
    and "\<forall>r \<in> set rs. new_values meta (dict_of assignments) (row_to_dict meta r) = Inr (assigned meta assignments r)"
    and "length (tm_schema meta) < 2 ^ 16" and "heap_room (abs_updates meta assignments wh rs rows) \<le> capacity st"
  shows "\<exists>st'. update_rows meta (dict_of assignments) wh rs n st = (Inr (n + length (filter (accepts meta wh) rs)), st')
    \<and> heap_rel st' (table_heap meta) (abs_updates meta assignments wh rs rows)
    \<and> only_page (root_page_id meta) st st'"
  using assms
proof (induction rs arbitrary: st rows n)
  case Nil
  then show ?case by (auto simp: abs_updates_simps intro: only_page_refl heap_rel_wf)
next
  case (Cons r rs)
  show ?case
  proof (cases "accepts meta wh r")
    case True
    let ?vs = "assigned meta assignments r"
    let ?rows = "abs_update (tm_schema meta) (fst r) ?vs rows"
    have r: "sole_row r rows" using Cons.prems by simp
    have u: "row_updatable meta assignments wh r" using Cons.prems by simp
    then have fit: "row_fits (tm_schema meta) ?vs" using True by (auto simp: row_updatable_def accepts_def)
    have nv: "new_values meta (dict_of assignments) (row_to_dict meta r) = Inr ?vs" using Cons.prems by simp
    have rest: "\<forall>q \<in> set rs. sole_row q ?rows"
      by (rule sole_rows_rest) (use Cons.prems in auto)
    have room: "heap_room ?rows \<le> capacity st"
      using abs_updates_room [OF rest, of meta assignments wh] Cons.prems by (simp add: abs_updates_simps True)
    have "2 + 5 * length rows \<le> heap_room ?rows"
      using heap_room_length [of rows] update_sole_row(4) [OF r refl] le_trans by blast
    then have len: "length rows + 1 < 2 ^ 16"
      using room capacity_bound [OF heap_rel_wf [OF Cons.prems(1)]] by simp
    obtain st1 where d: "heap_update (table_heap meta) (fst r) ?vs st = (Inr (), st1)"
      and r1: "heap_rel st1 (table_heap meta) ?rows" and o1: "only_page (root_page_id meta) st st1"
      using heap_update_refines [OF Cons.prems(1,2), of ?vs "fst r"] fit Cons.prems(7) len room
      by (auto simp: table_heap_def)
    have cap: "capacity st1 = capacity st" by (rule only_page_capacity [OF o1])
    from Cons.IH [OF r1 update_sole_row(5) [OF r refl] rest, of "n + 1"] Cons.prems cap
    show ?thesis using True d nv only_page_trans [OF o1]
      by (auto simp: abs_updates_simps accepts_def)
  next
    case False
    then have "eval_where (row_to_dict meta r) wh = Inr False"
      using Cons.prems(5) by (auto simp: accepts_def row_updatable_def split: sum.splits)
    then show ?thesis using Cons False by (simp add: abs_updates_simps)
  qed
qed

lemma replaced_mset:
  assumes "mset ys + mset (filter P xs) = mset xs + mset (map f (filter P xs))"
  shows "mset ys = image_mset (\<lambda>x. if P x then f x else x) (mset xs)"
proof -
  have "image_mset (\<lambda>x. if P x then f x else x) (mset xs) + mset (filter P xs)
      = mset xs + mset (map f (filter P xs))"
    by (induction xs) auto
  then show ?thesis using assms by (metis add_right_cancel)
qed

text \<open>What a scan returns after the updates.\<close>

lemma visible_updates:
  assumes "\<forall>r \<in> set rs. sole_row r rows" and "distinct (map fst rs)"
  shows "mset (visible (abs_updates meta assignments wh rs rows)) + mset (filter (accepts meta wh) rs)
      = mset (visible rows) + mset (map (\<lambda>r. (fst r, map stored (assigned meta assignments r))) (filter (accepts meta wh) rs))"
    and "fst ` set (filter (accepts meta wh) rs) \<subseteq> A \<Longrightarrow>
      filter (\<lambda>x. fst x \<notin> A) (visible (abs_updates meta assignments wh rs rows)) = filter (\<lambda>x. fst x \<notin> A) (visible rows)"
  using assms
proof (induction rs arbitrary: rows)
  case (Cons r rs)
  {
    case 1
    show ?case
    proof (cases "accepts meta wh r")
      case True
      let ?rows = "abs_update (tm_schema meta) (fst r) (assigned meta assignments r) rows"
      have r: "sole_row r rows" using 1 by simp
      have rest: "\<forall>q \<in> set rs. sole_row q ?rows"
      by (rule sole_rows_rest) (use 1 in auto)
      show ?thesis
        using Cons.IH(1) [OF rest] 1(2) update_sole_row(1) [OF r refl, of "tm_schema meta" "assigned meta assignments r"]
        by (simp add: abs_updates_simps True)
    qed (use Cons.IH(1) [of rows] 1 in \<open>simp add: abs_updates_simps\<close>)
  next
    case 2
    show ?case
    proof (cases "accepts meta wh r")
      case True
      let ?rows = "abs_update (tm_schema meta) (fst r) (assigned meta assignments r) rows"
      have r: "sole_row r rows" using 2 by simp
      have rest: "\<forall>q \<in> set rs. sole_row q ?rows"
      by (rule sole_rows_rest) (use 2 in auto)
      show ?thesis
        using Cons.IH(2) [OF _ rest] 2 True update_sole_row(2) [OF r refl, of A] by (simp add: abs_updates_simps)
    qed (use Cons.IH(2) [of rows] 2 in \<open>simp add: abs_updates_simps\<close>)
  }
qed (simp_all add: abs_updates_simps)

text \<open>
  C10: An UPDATE for whose rows the WHERE and the coercions of the assigned values succeed
  returns the number of rows the WHERE accepts. A scan then returns, up to their order, the rows
  of before with the values of the accepted ones replaced, under the same rowids, and those not
  accepted in their old order; no other page has changed. The columns of the table have different
  names, and none is called rowid (such a column is overwritten: \<open>rowid_column_overwritten\<close>). The
  rowids of the heap are distinct and the updated rows fit the page, the moved ones beside their
  old places.
\<close>

theorem update_changes_accepted:
  assumes rel: "heap_rel st (table_heap meta) rows" and d: "distinct (map hr_rowid rows)"
    and c: "plain_columns meta" and a: "assignments_ok meta assignments"
    and ok: "\<forall>r \<in> set (visible rows). row_updatable meta assignments wh r"
    and n: "length (tm_schema meta) < 2 ^ 16"
    and room: "heap_room (abs_updates meta assignments wh (visible rows) rows) \<le> capacity st"
  shows "\<exists>st' after. exec_update meta assignments wh st
      = (Inr (length (filter (accepts meta wh) (visible rows))), st')
    \<and> heap_scan (table_heap meta) st' = Inr after
    \<and> mset after = image_mset (\<lambda>r. if accepts meta wh r
        then (fst r, map stored (assigned meta assignments r)) else r) (mset (visible rows))
    \<and> filter (\<lambda>r. fst r \<notin> fst ` set (filter (accepts meta wh) (visible rows))) after
      = filter (\<lambda>r. \<not> accepts meta wh r) (visible rows)
    \<and> only_page (root_page_id meta) st st'"
proof (cases "rows = []")
  case True
  then show ?thesis
    using heap_scan_visible [OF rel] heap_rel_wf [OF rel]
    by (auto simp: exec_update_def heap_close_ok only_page_refl)
next
  case False
  let ?acc = "filter (accepts meta wh) (visible rows)"
  let ?new = "\<lambda>r. (fst r, map stored (assigned meta assignments r))"
  have sole: "\<forall>r \<in> set (visible rows). sole_row r rows" using sole_row_distinct [OF d] by blast
  have df: "distinct (map fst (visible rows))"
    using d by (simp add: visible_def comp_def) (rule distinct_map_filter)
  obtain st' where u: "update_rows meta (dict_of assignments) wh (visible rows) 0 st = (Inr (length ?acc), st')"
    and rel': "heap_rel st' (table_heap meta) (abs_updates meta assignments wh (visible rows) rows)"
    and o: "only_page (root_page_id meta) st st'"
    using update_rows_ok [OF rel False sole df ok _ n room, of 0] new_values_assigned [OF c _ a] visible_lengths [OF rel]
    by auto
  let ?after = "visible (abs_updates meta assignments wh (visible rows) rows)"
  have e: "exec_update meta assignments wh st = (Inr (length ?acc), st')"
    using u heap_scan_visible [OF rel] heap_close_ok [OF heap_rel_wf [OF rel']] by (simp add: exec_update_def)
  have m: "mset ?after = image_mset (\<lambda>r. if accepts meta wh r then ?new r else r) (mset (visible rows))"
    using visible_updates(1) [OF sole df, of meta assignments wh] by (rule replaced_mset)
  have "inj_on fst (set (visible rows))" using df by (simp add: distinct_map)
  then have f: "filter (\<lambda>r. fst r \<notin> fst ` set ?acc) (visible rows) = filter (\<lambda>r. \<not> accepts meta wh r) (visible rows)"
    by (intro filter_cong) (auto dest: inj_onD)
  show ?thesis
    using e m f o heap_scan_visible [OF rel'] visible_updates(2) [OF sole df subset_refl, of meta wh assignments]
    by (intro exI [of _ st'] exI [of _ ?after]) simp
qed

text \<open>
  A moved row leaves its old entry behind, and an update looks for the first entry with the
  rowid, flagged or not. A later update that fits the old entry therefore revives it, and the
  row is there twice.
\<close>

theorem second_update_duplicates_row:
  assumes rel: "heap_rel st h (as @ r # bs)" and f: "row_fits (hp_schema h) vs" "row_fits (hp_schema h) ws"
    and n: "length (hp_schema h) < 2 ^ 16" "length (as @ r # bs) + 2 < 2 ^ 16"
    and r: "\<forall>x \<in> set as. hr_rowid x \<noteq> rid" "hr_rowid r = rid"
    and grows: "hr_room r < row_size (hp_schema h) vs" and fits_old: "row_size (hp_schema h) ws \<le> hr_room r"
    and room: "heap_room (abs_update (hp_schema h) rid vs (as @ r # bs)) \<le> capacity st"
  shows "\<exists>st1 st2 rows. heap_update h rid vs st = (Inr (), st1) \<and> heap_update h rid ws st1 = (Inr (), st2)
    \<and> heap_scan h st2 = Inr rows \<and> (rid, map stored vs) \<in> set rows \<and> (rid, map stored ws) \<in> set rows"
proof -
  let ?rows = "abs_update (hp_schema h) rid vs (as @ r # bs)"
  let ?rows2 = "abs_update (hp_schema h) rid ws ?rows"
  have u: "?rows = as @ r\<lparr>hr_alive := False\<rparr> # bs @ [fresh_row (hp_schema h) rid vs]"
    using grows by (simp add: abs_update_def abs_update_found [OF r])
  have u2: "?rows2 = as @ (fresh_row (hp_schema h) rid ws)\<lparr>hr_room := hr_room r\<rparr> # bs @ [fresh_row (hp_schema h) rid vs]"
    unfolding u using fits_old r by (simp add: abs_update_def abs_update_found)
  obtain st1 where st1: "heap_update h rid vs st = (Inr (), st1)" "heap_rel st1 h ?rows"
    "only_page (hp_root h) st st1"
    using heap_update_refines [OF rel _ f(1) n(1) _ room] n(2) by auto
  have "heap_room ?rows2 = heap_room ?rows" unfolding u2 by (simp add: u heap_room_def fresh_row_def)
  then have "heap_room ?rows2 \<le> capacity st1" using room only_page_capacity [OF st1(3)] by simp
  then obtain st2 where "heap_update h rid ws st1 = (Inr (), st2)" and r2: "heap_rel st2 h ?rows2"
    using heap_update_refines [OF st1(2) _ f(2) n(1)] n(2) by (auto simp: u)
  then show ?thesis
    using st1(1) heap_scan_visible [OF r2] by (auto simp: u2 fresh_row_def)
qed

section \<open>Statements on a concrete table\<close>

lemma update_changes_accepted_witness:
  "\<exists>st' after. exec_update demo_meta [(str ''name'', PText (str ''abcd''))]
      (Some (BinaryOp (str ''='') (Column (str ''id'')) (SqlLiteral (PInt 7) (str ''7'')))) demo_store2 = (Inr 1, st')
    \<and> heap_scan (table_heap demo_meta) st' = Inr after
    \<and> mset after = {#(1, [PInt 7, PText (str ''abcd'')]), (2, [PNone, PText (str ''b'')])#}"
proof -
  let ?w = "Some (BinaryOp (str ''='') (Column (str ''id'')) (SqlLiteral (PInt 7) (str ''7'')))"
  let ?a = "[(str ''name'', PText (str ''abcd''))]"
  let ?r1 = "(Suc 0, [PInt 7, PText (str ''a'')])" and ?r2 = "(2 :: nat, [PNone, PText (str ''b'')])"
  let ?rows = "[demo_row, fresh_row (hp_schema demo_heap) 2 [PNone, PText (str ''b'')]]"
  have rel: "heap_rel demo_store2 (table_heap demo_meta) ?rows"
    using demo_store2_rel(1) by (simp add: demo_table_heap)
  have vis: "visible ?rows = [?r1, ?r2]" using heap_scan_visible [OF rel] demo_scan by (simp add: demo_rows_eq)
  have sch: "tm_schema demo_meta = hp_schema demo_heap" by (simp add: demo_insert_facts)
  have ev: "eval_where (row_to_dict demo_meta ?r1) ?w = Inr True" "eval_where (row_to_dict demo_meta ?r2) ?w = Inr False"
    by (simp_all add: demo_row_dicts row_get_def compare_op_def eval_where_def)
  have asg: "assigned demo_meta ?a ?r1 = [PInt 7, PText (str ''abcd'')]" and cols: "plain_columns demo_meta"
    and ok: "assignments_ok demo_meta ?a"
    by (simp_all add: assigned_def plain_columns_def assignments_ok_def demo_meta_def mk_meta_def coerce_def
        coerce_in_def str_def)
  have acc: "accepts demo_meta ?w ?r1" "\<not> accepts demo_meta ?w ?r2" using ev by (simp_all add: accepts_def)
  have "\<forall>r \<in> set (visible ?rows). row_updatable demo_meta ?a ?w r"
    unfolding vis using ev asg demo_values(2) by (simp add: row_updatable_def sch)
  moreover have "heap_room (abs_updates demo_meta ?a ?w (visible ?rows) ?rows) \<le> capacity demo_store2"
    unfolding vis using acc asg
    by (simp add: abs_updates_def sch abs_update_def heap_room_def fresh_row_def demo_values demo_values2 demo_store2_rel)
  ultimately obtain st' after where
    "exec_update demo_meta ?a ?w demo_store2 = (Inr (length (filter (accepts demo_meta ?w) (visible ?rows))), st')"
    "heap_scan (table_heap demo_meta) st' = Inr after"
    "mset after = image_mset (\<lambda>r. if accepts demo_meta ?w r
        then (fst r, map stored (assigned demo_meta ?a r)) else r) (mset (visible ?rows))"
    using update_changes_accepted [OF rel _ cols ok, of ?w] demo_schema by (auto simp: sch fresh_row_def)
  then show ?thesis unfolding vis using acc asg by (intro exI [of _ st'] exI [of _ after]) (simp add: stored_def)
qed

lemma second_update_duplicates_row_witness:
  "\<exists>st1 st2 rows. heap_update demo_heap 1 [PInt 7, PText (str ''abcd'')] demo_store1 = (Inr (), st1)
    \<and> heap_update demo_heap 1 [PInt 7, PText (str ''a'')] st1 = (Inr (), st2)
    \<and> heap_scan demo_heap st2 = Inr rows
    \<and> (1, [PInt 7, PText (str ''abcd'')]) \<in> set rows \<and> (1, [PInt 7, PText (str ''a'')]) \<in> set rows"
  using second_update_duplicates_row [of demo_store1 demo_heap "[]" demo_row "[]" "[PInt 7, PText (str ''abcd'')]"
      "[PInt 7, PText (str ''a'')]" 1] demo_store1_rel demo_schema
  by (simp add: demo_values heap_room_def abs_update_def fresh_row_def stored_def)

end
