(* ===== verification/Plan.thy ===== *)
theory Plan
  imports Catalog Eval
begin

text \<open>
  tinydb/executor/plan_nodes.py and index_plan.py: the nodes of an execution plan, the plan of
  a SELECT with its estimates, and the dict EXPLAIN returns. Costs are floats; the model adds
  and multiplies them by rounding the exact result.
\<close>

section \<open>Float arithmetic\<close>

definition f_inf :: "bool \<Rightarrow> float64" where
  "f_inf neg = of_nat ((if neg then 2 ^ 63 else 0) + 2047 * 2 ^ 52)"

definition f_nan :: float64 where
  "f_nan = of_nat (2047 * 2 ^ 52 + 2 ^ 51)"

definition f_add :: "float64 \<Rightarrow> float64 \<Rightarrow> float64" where
  "f_add a b =
     (if f_is_nan a \<or> f_is_nan b then f_nan
      else if f_is_inf a \<and> f_is_inf b then (if f_neg a = f_neg b then a else f_nan)
      else if f_is_inf a then a
      else if f_is_inf b then b
      else
        let s = f_scaled a + f_scaled b in
        round_ratio (if s = 0 then f_neg a \<and> f_neg b else s < 0) (nat \<bar>s\<bar>) (2 ^ 1074))"

definition f_mul :: "float64 \<Rightarrow> float64 \<Rightarrow> float64" where
  "f_mul a b =
     (let neg = (f_neg a \<noteq> f_neg b) in
      if f_is_nan a \<or> f_is_nan b then f_nan
      else if f_is_inf a \<or> f_is_inf b
        then (if f_scaled a = 0 \<or> f_scaled b = 0 then f_nan else f_inf neg)
      else round_ratio neg (nat \<bar>f_scaled a * f_scaled b\<bar>) (2 ^ 2148))"

text \<open>A non-negative int times a float: the int is made a float first.\<close>

definition f_of_nat :: "nat \<Rightarrow> py_error + float64" where
  "f_of_nat n = (let b = round_ratio False n 1 in if f_is_inf b then Inl OverflowError else Inr b)"

definition mul_nat :: "nat \<Rightarrow> float64 \<Rightarrow> py_error + float64" where
  "mul_nat n b = rbind (f_of_nat n) (\<lambda>a. Inr (f_mul a b))"

section \<open>Plan nodes\<close>

text \<open>
  The nodes in the order of plan_nodes.py; \<open>rows\<close> and \<open>cost\<close> are the last two fields. A
  child that may be None is an option.
\<close>

datatype plan =
    TableScan pystr nat float64
  | IndexScan pystr pystr pyval nat float64
  | Filter "expr option" "plan option" nat float64
  | NestedLoopJoin "plan option" "plan option" "expr option" nat float64
  | HashJoin "plan option" "plan option" "expr option" nat float64
  | Project "expr list" "plan option" nat float64
  | Sort "order_item list" "plan option" nat float64
  | Limit "int option" "int option" "plan option" nat float64
  | Aggregate "expr list" "expr list" "plan option" nat float64

fun estimated_rows :: "plan \<Rightarrow> nat" where
  "estimated_rows (TableScan _ n _) = n"
| "estimated_rows (IndexScan _ _ _ n _) = n"
| "estimated_rows (Filter _ _ n _) = n"
| "estimated_rows (NestedLoopJoin _ _ _ n _) = n"
| "estimated_rows (HashJoin _ _ _ n _) = n"
| "estimated_rows (Project _ _ n _) = n"
| "estimated_rows (Sort _ _ n _) = n"
| "estimated_rows (Limit _ _ _ n _) = n"
| "estimated_rows (Aggregate _ _ _ n _) = n"

fun estimated_cost :: "plan \<Rightarrow> float64" where
  "estimated_cost (TableScan _ _ c) = c"
| "estimated_cost (IndexScan _ _ _ _ c) = c"
| "estimated_cost (Filter _ _ _ c) = c"
| "estimated_cost (NestedLoopJoin _ _ _ _ c) = c"
| "estimated_cost (HashJoin _ _ _ _ c) = c"
| "estimated_cost (Project _ _ _ c) = c"
| "estimated_cost (Sort _ _ _ c) = c"
| "estimated_cost (Limit _ _ _ _ c) = c"
| "estimated_cost (Aggregate _ _ _ _ c) = c"

section \<open>The planner\<close>

definition SEQ_PAGE_COST :: float64 where "SEQ_PAGE_COST = round_ratio False 1 1"
definition RANDOM_PAGE_COST :: float64 where "RANDOM_PAGE_COST = round_ratio False 2 1"
definition INDEX_HEIGHT_DEFAULT :: float64 where "INDEX_HEIGHT_DEFAULT = round_ratio False 2 1"
definition DEFAULT_ROW_COUNT :: nat where "DEFAULT_ROW_COUNT = 1000"

definition eval_literal :: "expr \<Rightarrow> pyval" where
  "eval_literal node = (case node of SqlLiteral v raw \<Rightarrow> v | Column n \<Rightarrow> PText n | _ \<Rightarrow> PNone)"

definition match_index_column :: "expr option \<Rightarrow> table_meta \<Rightarrow> (pystr \<times> pyval) option" where
  "match_index_column wh meta =
     (case wh of
        Some (BinaryOp op (Column c) r) \<Rightarrow>
          if op = str ''='' \<and> c \<in> fst ` set (indexes meta) then Some (c, eval_literal r) else None
      | _ \<Rightarrow> None)"

definition rows_of :: "table_meta \<Rightarrow> nat" where
  "rows_of meta = (if row_count meta > 0 then row_count meta else DEFAULT_ROW_COUNT)"

definition plan_scan :: "pystr \<Rightarrow> expr option \<Rightarrow> (pystr, table_meta) dict \<Rightarrow> py_error + plan" where
  "plan_scan table wh es =
     rbind (get_table table es) (\<lambda>meta.
     let n = rows_of meta; pages = max 1 (n div 50) in
     case match_index_column wh meta of
       Some (column, seek_key) \<Rightarrow>
         Inr (IndexScan table column seek_key (max 1 (n div 10)) (f_add INDEX_HEIGHT_DEFAULT RANDOM_PAGE_COST))
     | None \<Rightarrow> rbind (mul_nat pages SEQ_PAGE_COST) (\<lambda>cost. Inr (TableScan table n cost)))"

definition plan_join :: "plan \<Rightarrow> join_clause \<Rightarrow> (pystr, table_meta) dict \<Rightarrow> py_error + plan" where
  "plan_join left join es =
     rbind (get_table (jc_table join) es) (\<lambda>join_meta.
     rbind (plan_scan (jc_table join) None es) (\<lambda>right_scan.
     rbind (mul_nat (estimated_rows left) (estimated_cost right_scan)) (\<lambda>c.
     Inr (NestedLoopJoin (Some left) (Some right_scan) (jc_on join)
       (estimated_rows left * max 1 (rows_of join_meta div 10)) (f_add (estimated_cost left) c)))))"

definition post_scan_predicate :: "expr option \<Rightarrow> expr option" where
  "post_scan_predicate wh =
     (case wh of
        Some (BinaryOp op (Column c) r) \<Rightarrow> if op = str ''='' then None else wh
      | _ \<Rightarrow> wh)"

fun plan_joins :: "plan \<Rightarrow> join_clause list \<Rightarrow> (pystr, table_meta) dict \<Rightarrow> py_error + plan" where
  "plan_joins root [] es = Inr root"
| "plan_joins root (j # js) es = rbind (plan_join root j es) (\<lambda>root. plan_joins root js es)"

text \<open>ORDER BY, LIMIT, OFFSET and GROUP BY do not enter the plan.\<close>

definition plan_select ::
  "pystr \<Rightarrow> join_clause list \<Rightarrow> expr option \<Rightarrow> order_item list \<Rightarrow> int option \<Rightarrow> int option \<Rightarrow>
   expr list \<Rightarrow> (pystr, table_meta) dict \<Rightarrow> py_error + plan" where
  "plan_select table joins wh order_by limit offset group_by es =
     rbind (plan_scan table wh es) (\<lambda>scan.
     let root = (case post_scan_predicate wh of
         None \<Rightarrow> scan
       | Some p \<Rightarrow> Filter (Some p) (Some scan) (max 1 (estimated_rows scan div 2))
                     (f_add (estimated_cost scan) (round_ratio False 1 1))) in
     plan_joins root joins es)"

definition estimate_table_rows :: "pystr \<Rightarrow> (pystr, table_meta) dict \<Rightarrow> py_error + nat" where
  "estimate_table_rows table es = rbind (get_table table es) (\<lambda>meta. Inr (rows_of meta))"

section \<open>The dict of a plan\<close>

text \<open>The values that occur in such a dict.\<close>

datatype pobj =
    OVal pyval
  | OExpr expr
  | OExprs "expr list"
  | OKeys "order_item list"
  | ODict "(pystr \<times> pobj) list"
  | OList "pobj list"

definition o_int :: "int option \<Rightarrow> pobj" where
  "o_int n = OVal (case n of None \<Rightarrow> PNone | Some i \<Rightarrow> PInt i)"

text \<open>The fields of a node apart from its estimates, its children and its condition.\<close>

fun node_fields :: "plan \<Rightarrow> (pystr \<times> pobj) list" where
  "node_fields (TableScan t _ _) = [(str ''node'', OVal (PText (str ''TableScan''))), (str ''table'', OVal (PText t))]"
| "node_fields (IndexScan t c k _ _) = [(str ''node'', OVal (PText (str ''IndexScan''))),
     (str ''table'', OVal (PText t)), (str ''column'', OVal (PText c)), (str ''seek_key'', OVal k)]"
| "node_fields (Filter p _ _ _) = [(str ''node'', OVal (PText (str ''Filter''))),
     (str ''predicate'', case p of None \<Rightarrow> OVal PNone | Some e \<Rightarrow> OExpr e)]"
| "node_fields (NestedLoopJoin _ _ _ _ _) = [(str ''node'', OVal (PText (str ''NestedLoopJoin'')))]"
| "node_fields (HashJoin _ _ _ _ _) = [(str ''node'', OVal (PText (str ''HashJoin'')))]"
| "node_fields (Project cs _ _ _) = [(str ''node'', OVal (PText (str ''Project''))), (str ''columns'', OExprs cs)]"
| "node_fields (Sort ks _ _ _) = [(str ''node'', OVal (PText (str ''Sort''))), (str ''keys'', OKeys ks)]"
| "node_fields (Limit l f _ _ _) = [(str ''node'', OVal (PText (str ''Limit''))),
     (str ''limit'', o_int l), (str ''offset'', o_int f)]"
| "node_fields (Aggregate gs as _ _ _) = [(str ''node'', OVal (PText (str ''Aggregate''))),
     (str ''group_by'', OExprs gs), (str ''aggregates'', OExprs as)]"

fun opt_list :: "'a option \<Rightarrow> 'a list" where
  "opt_list None = []"
| "opt_list (Some x) = [x]"

lemma opt_list_set [simp]: "set (opt_list x) = set_option x"
  by (cases x) auto

text \<open>The child, then the left and the right one.\<close>

fun plan_children :: "plan \<Rightarrow> plan list" where
  "plan_children (TableScan _ _ _) = []"
| "plan_children (IndexScan _ _ _ _ _) = []"
| "plan_children (Filter _ c _ _) = opt_list c"
| "plan_children (NestedLoopJoin l r _ _ _) = opt_list l @ opt_list r"
| "plan_children (HashJoin l r _ _ _) = opt_list l @ opt_list r"
| "plan_children (Project _ c _ _) = opt_list c"
| "plan_children (Sort _ c _ _) = opt_list c"
| "plan_children (Limit _ _ c _ _) = opt_list c"
| "plan_children (Aggregate _ _ c _ _) = opt_list c"

lemma plan_children_size: "c \<in> set (plan_children p) \<Longrightarrow> size c < size p"
  by (cases p) (auto split: option.splits)

function plan_to_dict :: "plan \<Rightarrow> (pystr \<times> pobj) list" where
  "plan_to_dict p =
     node_fields p
     @ [(str ''estimated_rows'', OVal (PInt (int (estimated_rows p)))),
        (str ''estimated_cost'', OVal (PFloat (estimated_cost p)))]
     @ (if plan_children p = [] then []
        else [(str ''children'', OList (map (\<lambda>c. ODict (plan_to_dict c)) (plan_children p)))])"
  by pat_completeness auto

termination by (relation "measure size") (auto simp: plan_children_size)

declare plan_to_dict.simps [simp del]

section \<open>What the plan says\<close>

lemma rows_of_pos [simp]: "Suc 0 \<le> rows_of meta"
  by (simp add: rows_of_def DEFAULT_ROW_COUNT_def)

text \<open>The known number of rows of a table, or the default.\<close>

definition table_rows :: "(pystr, table_meta) dict \<Rightarrow> pystr \<Rightarrow> nat" where
  "table_rows es t = (case get_table t es of Inl _ \<Rightarrow> DEFAULT_ROW_COUNT | Inr meta \<Rightarrow> rows_of meta)"

lemma uncounted_rows: "\<forall>meta \<in> snd ` set es. row_count meta = 0 \<Longrightarrow> table_rows es t = 1000"
  by (auto simp: table_rows_def get_table_def rows_of_def DEFAULT_ROW_COUNT_def split: option.splits dest!: map_of_SomeD)

lemma div_bounds: "1 \<le> (n::nat) \<Longrightarrow> 1 \<le> max 1 (n div k) \<and> max 1 (n div k) \<le> n"
  by simp

lemma plan_scan_rows:
  "plan_scan t wh es = Inr p \<Longrightarrow> 1 \<le> estimated_rows p \<and> estimated_rows p \<le> table_rows es t"
  by (auto simp: plan_scan_def Let_def table_rows_def split: option.splits)

lemma plan_join_rows:
  assumes "plan_join l j es = Inr p"
  shows "estimated_rows l \<le> estimated_rows p \<and> estimated_rows p \<le> estimated_rows l * table_rows es (jc_table j)"
proof -
  obtain meta where m: "get_table (jc_table j) es = Inr meta"
    and p: "estimated_rows p = estimated_rows l * max 1 (rows_of meta div 10)"
    using assms by (auto simp: plan_join_def)
  show ?thesis using div_bounds [of "rows_of meta" 10] m p by (simp add: table_rows_def)
qed

lemma plan_joins_rows:
  "plan_joins l js es = Inr p \<Longrightarrow>
   estimated_rows l \<le> estimated_rows p
   \<and> estimated_rows p \<le> estimated_rows l * prod_list (map (\<lambda>j. table_rows es (jc_table j)) js)"
proof (induction js arbitrary: l)
  case (Cons j js)
  then obtain q where q: "plan_join l j es = Inr q" "plan_joins q js es = Inr p" by auto
  note b = plan_join_rows [OF q(1)] Cons.IH [OF q(2)]
  have "estimated_rows p \<le> estimated_rows q * prod_list (map (\<lambda>j. table_rows es (jc_table j)) js)" using b by simp
  also have "\<dots> \<le> (estimated_rows l * table_rows es (jc_table j)) * prod_list (map (\<lambda>j. table_rows es (jc_table j)) js)"
    using b by (intro mult_right_mono) auto
  finally show ?case using b by (simp add: mult.assoc)
qed simp

text \<open>
  C38: The row estimate at the root of a plan is at least 1 and at most the product of the numbers
  of rows the planner takes for the tables it joins: the number in the metadata of the table, or
  1000 where that is 0. As no operation ever counts the rows, it is 0 in every table, and the
  bound for a plan over n tables is 1000 to the power of n.
\<close>

theorem plan_rows_bounds:
  assumes "plan_select t joins wh order_by limit offset group_by es = Inr p"
  shows "1 \<le> estimated_rows p
    \<and> estimated_rows p \<le> prod_list (map (table_rows es) (t # map jc_table joins))
    \<and> ((\<forall>meta \<in> snd ` set es. row_count meta = 0) \<longrightarrow> estimated_rows p \<le> 1000 ^ (1 + length joins))"
proof -
  from assms obtain scan root where scan: "plan_scan t wh es = Inr scan" and root: "plan_joins root joins es = Inr p"
    and r: "estimated_rows root = estimated_rows scan \<or> estimated_rows root = max 1 (estimated_rows scan div 2)"
    by (auto simp: plan_select_def Let_def split: option.splits)
  have "1 \<le> estimated_rows root \<and> estimated_rows root \<le> table_rows es t"
    using r plan_scan_rows [OF scan] by auto
  moreover have "estimated_rows root \<le> estimated_rows p"
    and "estimated_rows p \<le> estimated_rows root * prod_list (map (\<lambda>j. table_rows es (jc_table j)) joins)"
    using plan_joins_rows [OF root] by simp_all
  moreover have "estimated_rows root * prod_list (map (\<lambda>j. table_rows es (jc_table j)) joins)
      \<le> table_rows es t * prod_list (map (\<lambda>j. table_rows es (jc_table j)) joins)"
    using calculation(1) by (intro mult_right_mono) auto
  ultimately have p: "1 \<le> estimated_rows p"
    and "estimated_rows p \<le> table_rows es t * prod_list (map (\<lambda>j. table_rows es (jc_table j)) joins)"
    by linarith+
  then have b: "estimated_rows p \<le> prod_list (map (table_rows es) (t # map jc_table joins))" by (simp add: comp_def)
  show ?thesis
  proof (intro conjI impI p b)
    assume "\<forall>meta \<in> snd ` set es. row_count meta = 0"
    then have "prod_list (map (table_rows es) ts) = 1000 ^ length ts" for ts
      using uncounted_rows by (induction ts) simp_all
    from this [of "t # map jc_table joins"] show "estimated_rows p \<le> 1000 ^ (1 + length joins)" using b by simp
  qed
qed

text \<open>
  An equality on a column without an index does not appear in the plan: the plan of the
  query is the plan of the query without its WHERE, a full scan without a filter.
\<close>

theorem plan_drops_equality:
  assumes "get_table t es = Inr meta" and "c \<notin> fst ` set (indexes meta)"
  shows "plan_select t joins (Some (BinaryOp (str ''='') (Column c) e)) order_by limit offset group_by es
    = plan_select t joins None order_by limit offset group_by es"
  using assms by (simp add: plan_select_def plan_scan_def match_index_column_def post_scan_predicate_def)

lemma f_is_inf_1000: "\<not> f_is_inf (round_ratio False 20 1)"
  by (simp add: round_ratio_def floor_log_ratio_def scale2_def bit_len.simps Let_def f_is_inf_def f_exp_def f_man_def)

lemma plan_rows_bounds_witness:
  "\<exists>p. plan_select (str ''t'') [] None [] None None [] [(str ''t'', mk_meta (str ''t'') 1 [(str ''id'', T_INT)])] = Inr p
     \<and> estimated_rows p \<le> 1000"
proof -
  let ?es = "[(str ''t'', mk_meta (str ''t'') 1 [(str ''id'', T_INT)])]"
  have n: "rows_of (mk_meta (str ''t'') 1 [(str ''id'', T_INT)]) = 1000"
    by (simp add: rows_of_def DEFAULT_ROW_COUNT_def mk_meta_def)
  obtain p where p: "plan_select (str ''t'') [] None [] None None [] ?es = Inr p"
    using n f_is_inf_1000 by (simp add: plan_select_def plan_scan_def get_table_def match_index_column_def
        post_scan_predicate_def mul_nat_def f_of_nat_def Let_def)
  show ?thesis using plan_rows_bounds [OF p] p n by (simp add: table_rows_def get_table_def)
qed

lemma plan_drops_equality_witness:
  "plan_select (str ''t'') [] (Some (BinaryOp (str ''='') (Column (str ''id'')) (SqlLiteral (PInt 1) (str ''1'')))) [] None None []
     [(str ''t'', mk_meta (str ''t'') 1 [(str ''id'', T_INT)])]
   = plan_select (str ''t'') [] None [] None None [] [(str ''t'', mk_meta (str ''t'') 1 [(str ''id'', T_INT)])]"
  by (rule plan_drops_equality [of _ _ "mk_meta (str ''t'') 1 [(str ''id'', T_INT)]"])
    (simp_all add: get_table_def mk_meta_def)

end
