(* ===== verification/Render.thy ===== *)
theory Render
  imports Plan
begin

text \<open>
  tinydb/cli_renderers.py and the function \<open>format\<close> of tinydb/errors.py: the texts the shell
  prints. \<open>terminal\<close> holds what the surroundings of the shell decide: which characters beyond
  ASCII are printable, the texts of exceptions of the interpreter, whether the optional
  packages are there, and the times it measures.
\<close>

section \<open>The surroundings\<close>

record terminal =
  tm_rt :: runtime
  tm_printable :: "nat \<Rightarrow> bool"
  tm_error_text :: "py_error \<Rightarrow> pystr"
  tm_class_name :: "py_error \<Rightarrow> pystr"
  tm_pygments :: bool
  tm_readline :: bool
  tm_tty :: bool
  tm_elapsed :: "nat \<Rightarrow> pystr"

section \<open>Texts of values\<close>

text \<open>\<open>sep.join(parts)\<close>.\<close>

fun join :: "pystr \<Rightarrow> pystr list \<Rightarrow> pystr" where
  "join sep [] = []"
| "join sep [s] = s"
| "join sep (s # ss) = s @ sep @ join sep ss"

definition hex_digit :: "nat \<Rightarrow> nat" where
  "hex_digit d = (if d < 10 then 48 + d else 87 + d)"

text \<open>\<open>n\<close> hexadecimal digits of a code point.\<close>

fun hex_digits :: "nat \<Rightarrow> nat \<Rightarrow> pystr" where
  "hex_digits 0 c = []"
| "hex_digits (Suc n) c = hex_digits n (c div 16) @ [hex_digit (c mod 16)]"

text \<open>\<open>repr(s)\<close>: double quotes when the text has single quotes only.\<close>

definition repr_char :: "terminal \<Rightarrow> nat \<Rightarrow> nat \<Rightarrow> pystr" where
  "repr_char tm q c =
     (if c = q \<or> c = 92 then [92, c]
      else if c = 9 then [92, 116] else if c = 10 then [92, 110] else if c = 13 then [92, 114]
      else if c < 32 \<or> c = 127 then [92, 120] @ hex_digits 2 c
      else if c < 127 \<or> tm_printable tm c then [c]
      else if c < 256 then [92, 120] @ hex_digits 2 c
      else if c < 65536 then [92, 117] @ hex_digits 4 c
      else [92, 85] @ hex_digits 8 c)"

definition repr_str :: "terminal \<Rightarrow> pystr \<Rightarrow> pystr" where
  "repr_str tm s =
     (let q = (if 39 \<in> set s \<and> 34 \<notin> set s then 34 else 39) in
      [q] @ concat (map (repr_char tm q) s) @ [q])"

definition repr_val :: "terminal \<Rightarrow> pyval \<Rightarrow> pystr" where
  "repr_val tm v = (case v of PText s \<Rightarrow> repr_str tm s | _ \<Rightarrow> py_str (tm_rt tm) v)"

text \<open>\<open>repr\<close> of a tuple, which has a comma after a single component.\<close>

definition repr_tuple :: "pystr list \<Rightarrow> pystr" where
  "repr_tuple xs =
     str ''('' @ join (str '', '') xs @ (case xs of [x] \<Rightarrow> str '','' | _ \<Rightarrow> []) @ str '')''"

definition repr_order_item :: "terminal \<Rightarrow> order_item \<Rightarrow> pystr" where
  "repr_order_item tm k =
     str ''OrderItem(expr='' @ rt_str_expr (tm_rt tm) (fst k) @ str '', direction='' @ repr_str tm (if snd k then str ''DESC'' else str ''ASC'') @ str '')''"

fun repr_obj :: "terminal \<Rightarrow> pobj \<Rightarrow> pystr" where
  "repr_obj tm (OVal v) = repr_val tm v"
| "repr_obj tm (OExpr e) = rt_str_expr (tm_rt tm) e"
| "repr_obj tm (OExprs es) = repr_tuple (map (rt_str_expr (tm_rt tm)) es)"
| "repr_obj tm (OKeys ks) = repr_tuple (map (repr_order_item tm) ks)"
| "repr_obj tm (ODict kvs) =
     str ''{'' @ join (str '', '') (map (\<lambda>(k, v). repr_str tm k @ str '': '' @ repr_obj tm v) kvs) @ str ''}''"
| "repr_obj tm (OList xs) = str ''['' @ join (str '', '') (map (repr_obj tm) xs) @ str '']''"

definition str_obj :: "terminal \<Rightarrow> pobj \<Rightarrow> pystr" where
  "str_obj tm x = (case x of OVal v \<Rightarrow> py_str (tm_rt tm) v | _ \<Rightarrow> repr_obj tm x)"

definition obj_truthy :: "pobj \<Rightarrow> bool" where
  "obj_truthy x =
     (case x of OVal v \<Rightarrow> truthy v | OExpr e \<Rightarrow> True | OExprs es \<Rightarrow> es \<noteq> [] | OKeys ks \<Rightarrow> ks \<noteq> []
      | ODict kvs \<Rightarrow> kvs \<noteq> [] | OList xs \<Rightarrow> xs \<noteq> [])"

section \<open>Messages of exceptions\<close>

fun parse_message :: "terminal \<Rightarrow> parse_msg \<Rightarrow> pystr" where
  "parse_message tm (UnexpectedCharacter c) = str ''unexpected character '' @ repr_str tm [c]"
| "parse_message tm (UnexpectedStatement v) = str ''unexpected token: '' @ repr_str tm v"
| "parse_message tm (UnexpectedToken v) = str ''unexpected token '' @ repr_str tm v"
| "parse_message tm (UnexpectedValue v) = str ''unexpected value '' @ repr_str tm v"
| "parse_message tm (UnexpectedTxKeyword v) = str ''unexpected transaction keyword '' @ repr_str tm v"
| "parse_message tm (ExpectedType ty v) = str ''expected TokenType.'' @ str ty @ str '', got '' @ repr_str tm v"
| "parse_message tm (ExpectedValue w v) = str ''expected '' @ repr_str tm w @ str '', got '' @ repr_str tm v"
| "parse_message tm (ExpectedKeyword k v) = str ''expected keyword '' @ k @ str '', got '' @ repr_str tm v"
| "parse_message tm (UnknownType t) = str ''unknown type '' @ repr_str tm t"

fun repr_uniq :: "terminal \<Rightarrow> uniq_value \<Rightarrow> pystr" where
  "repr_uniq tm (UName s) = repr_str tm s"
| "repr_uniq tm (UTuple vs) = repr_tuple (map (repr_val tm) vs)"

definition int_text :: "int \<Rightarrow> pystr" where
  "int_text i = (if i < 0 then 45 # nat_digits (nat (- i)) else nat_digits (nat i))"

text \<open>\<open>isinstance(exc, TinyDBError)\<close>.\<close>

fun is_tinydb_error :: "py_error \<Rightarrow> bool" where
  "is_tinydb_error (ParseError _ _ _) = True"
| "is_tinydb_error (TypeMismatch _ _ _) = True"
| "is_tinydb_error (UniqueViolation _ _ _) = True"
| "is_tinydb_error (NotNullViolation _ _) = True"
| "is_tinydb_error (TableNotFound _) = True"
| "is_tinydb_error UnsafeDeleteWithoutWhere = True"
| "is_tinydb_error (IntegerOverflow _ _) = True"
| "is_tinydb_error TransactionAlreadyActive = True"
| "is_tinydb_error (PageCorrupt _) = True"
| "is_tinydb_error (TransactionLogCorrupt _) = True"
| "is_tinydb_error (DatabaseBusy _) = True"
| "is_tinydb_error (AmbiguousColumn _) = True"
| "is_tinydb_error _ = False"

fun format :: "terminal \<Rightarrow> py_error \<Rightarrow> pystr" where
  "format tm (ParseError m l c) =
     str ''parse error at line '' @ nat_digits l @ str '' column '' @ nat_digits c @ str '': '' @ parse_message tm m"
| "format tm (TypeMismatch col exp got) =
     str ''type mismatch: column '' @ [39] @ col @ [39] @ str '' expected '' @ exp @ str '', got '' @ got"
| "format tm (UniqueViolation col tbl val) =
     str ''unique violation: column '' @ [39] @ col @ [39] @ str '' in table '' @ [39] @ tbl @ [39]
     @ str '' value '' @ repr_uniq tm val @ str '' already exists''"
| "format tm (NotNullViolation col tbl) =
     str ''not null violation: column '' @ [39] @ col @ [39] @ str '' in table '' @ [39] @ tbl @ [39]"
| "format tm (TableNotFound tbl) = str ''table not found: '' @ [39] @ tbl @ [39]"
| "format tm UnsafeDeleteWithoutWhere = str ''unsafe delete/update without WHERE clause refused''"
| "format tm (IntegerOverflow val mx) = str ''integer overflow: '' @ int_text val @ str '' exceeds max '' @ int_text mx"
| "format tm TransactionAlreadyActive = str ''transaction already active''"
| "format tm (PageCorrupt pid) = str ''page corrupt: page_id='' @ nat_digits pid"
| "format tm (TransactionLogCorrupt off) = str ''transaction log corrupt: offset='' @ nat_digits off"
| "format tm (DatabaseBusy msg) = msg"
| "format tm (AmbiguousColumn col) = str ''ambiguous column: '' @ [39] @ col @ [39]"
| "format tm e = tm_class_name tm e @ str '': '' @ tm_error_text tm e"

text \<open>\<open>str(exc)\<close> of an exception of the engine: its argument, or the tuple of them.\<close>

fun exc_text :: "terminal \<Rightarrow> py_error \<Rightarrow> pystr" where
  "exc_text tm (ParseError m l c) = parse_message tm m"
| "exc_text tm (TypeMismatch col exp got) = repr_tuple (map (repr_str tm) [col, exp, got])"
| "exc_text tm (UniqueViolation col tbl val) = repr_tuple [repr_str tm col, repr_str tm tbl, repr_uniq tm val]"
| "exc_text tm (NotNullViolation col tbl) = repr_tuple (map (repr_str tm) [col, tbl])"
| "exc_text tm (TableNotFound tbl) = tbl"
| "exc_text tm UnsafeDeleteWithoutWhere = []"
| "exc_text tm (IntegerOverflow val mx) = repr_tuple [int_text val, int_text mx]"
| "exc_text tm TransactionAlreadyActive = []"
| "exc_text tm (PageCorrupt pid) = nat_digits pid"
| "exc_text tm (TransactionLogCorrupt off) = nat_digits off"
| "exc_text tm (DatabaseBusy msg) = msg"
| "exc_text tm (AmbiguousColumn col) = col"
| "exc_text tm e = tm_error_text tm e"

section \<open>Tables and CSV\<close>

type_synonym orow = "(pystr \<times> pobj) list"

definition truncate :: "pystr \<Rightarrow> nat \<Rightarrow> pystr" where
  "truncate value width =
     (if width = 0 then value else if length value \<le> width then value
      else take width value @ str ''...'')"

definition ljust :: "pystr \<Rightarrow> nat \<Rightarrow> pystr" where
  "ljust s w = s @ replicate (w - length s) 32"

text \<open>\<open>str(r.get(c, "") or nullvalue)\<close>.\<close>

definition table_cell :: "terminal \<Rightarrow> pystr \<Rightarrow> orow \<Rightarrow> pystr \<Rightarrow> pystr" where
  "table_cell tm nullvalue r c =
     (case dict_get r c of
        None \<Rightarrow> nullvalue
      | Some x \<Rightarrow> if obj_truthy x then str_obj tm x else nullvalue)"

definition column_width :: "terminal \<Rightarrow> nat \<Rightarrow> pystr \<Rightarrow> orow list \<Rightarrow> pystr \<Rightarrow> nat" where
  "column_width tm width nullvalue rows c =
     (let w = fold (\<lambda>r n. max n (length (table_cell tm nullvalue r c))) rows (length c) in
      if 0 < width then min w width else w)"

definition table_line :: "nat list \<Rightarrow> pystr list \<Rightarrow> pystr" where
  "table_line widths cells = join (str '' | '') (map (\<lambda>(s, w). ljust (truncate s w) w) (zip cells widths))"

definition table_lines :: "terminal \<Rightarrow> orow list \<Rightarrow> nat \<Rightarrow> pystr \<Rightarrow> pystr list" where
  "table_lines tm rows width nullvalue =
     (case rows of
        [] \<Rightarrow> []
      | first # _ \<Rightarrow>
          let columns = map fst first;
              widths = map (column_width tm width nullvalue rows) columns in
          table_line widths columns
          # join (str ''-+-'') (map (\<lambda>w. replicate w 45) widths)
          # map (\<lambda>row. table_line widths (map (table_cell tm nullvalue row) columns)) rows)"

definition csv_cell :: "terminal \<Rightarrow> nat \<Rightarrow> pystr \<Rightarrow> orow \<Rightarrow> pystr \<Rightarrow> pystr" where
  "csv_cell tm width nullvalue row c =
     (let cell = (case dict_get row c of
            None \<Rightarrow> []
          | Some x \<Rightarrow> if x = OVal PNone then nullvalue else str_obj tm x) in
      if 0 < width then truncate cell width else cell)"

definition csv_quote :: "pystr \<Rightarrow> pystr" where
  "csv_quote cell =
     (if 44 \<in> set cell \<or> 34 \<in> set cell \<or> 10 \<in> set cell
      then [34] @ concat (map (\<lambda>c. if c = 34 then [34, 34] else [c]) cell) @ [34] else cell)"

definition csv_lines :: "terminal \<Rightarrow> orow list \<Rightarrow> nat \<Rightarrow> pystr \<Rightarrow> pystr list" where
  "csv_lines tm rows width nullvalue =
     (case rows of
        [] \<Rightarrow> []
      | first # _ \<Rightarrow>
          let columns = map fst first in
          join (str '','') columns
          # map (\<lambda>row. join (str '','') (map (\<lambda>c. csv_quote (csv_cell tm width nullvalue row c)) columns)) rows)"

section \<open>JSON lines\<close>

text \<open>\<open>json.dumps(row, ensure_ascii=False)\<close>; the fields of a syntax tree cannot be written.\<close>

definition json_char :: "nat \<Rightarrow> pystr" where
  "json_char c =
     (if c = 34 \<or> c = 92 then [92, c]
      else if c = 10 then [92, 110] else if c = 13 then [92, 114] else if c = 9 then [92, 116]
      else if c = 12 then [92, 102] else if c = 8 then [92, 98]
      else if c < 32 then [92, 117] @ hex_digits 4 c
      else [c])"

definition json_str :: "pystr \<Rightarrow> pystr" where
  "json_str s = [34] @ concat (map json_char s) @ [34]"

fun json_val :: "terminal \<Rightarrow> pyval \<Rightarrow> pystr" where
  "json_val tm PNone = str ''null''"
| "json_val tm (PBool b) = (if b then str ''true'' else str ''false'')"
| "json_val tm (PInt i) = int_text i"
| "json_val tm (PFloat b) =
     (if f_is_nan b then str ''NaN''
      else if f_is_inf b then (if f_neg b then str ''-Infinity'' else str ''Infinity'')
      else rt_str_float (tm_rt tm) b)"
| "json_val tm (PText s) = json_str s"

fun json_obj :: "terminal \<Rightarrow> pobj \<Rightarrow> py_error + pystr" where
  "json_obj tm (OVal v) = Inr (json_val tm v)"
| "json_obj tm (OExpr e) = Inl PyTypeError"
| "json_obj tm (OExprs es) = (if es = [] then Inr (str ''[]'') else Inl PyTypeError)"
| "json_obj tm (OKeys ks) = (if ks = [] then Inr (str ''[]'') else Inl PyTypeError)"
| "json_obj tm (ODict kvs) =
     rbind (rmap (\<lambda>(k, v). rbind (json_obj tm v) (\<lambda>t. Inr (json_str k @ str '': '' @ t))) kvs) (\<lambda>ts.
     Inr (str ''{'' @ join (str '', '') ts @ str ''}''))"
| "json_obj tm (OList xs) =
     rbind (rmap (json_obj tm) xs) (\<lambda>ts. Inr (str ''['' @ join (str '', '') ts @ str '']''))"

section \<open>Plans\<close>

definition get_obj :: "orow \<Rightarrow> string \<Rightarrow> pobj" where
  "get_obj d k = (case dict_get d (str k) of None \<Rightarrow> OVal PNone | Some x \<Rightarrow> x)"

definition plan_line :: "terminal \<Rightarrow> nat \<Rightarrow> orow \<Rightarrow> pystr" where
  "plan_line tm indent d =
     (let node_type = (case dict_get d (str ''node'') of None \<Rightarrow> str ''?'' | Some x \<Rightarrow> str_obj tm x);
          table = get_obj d ''table''; column = get_obj d ''column'';
          rows = get_obj d ''estimated_rows''; cost = get_obj d ''estimated_cost'' in
      replicate (2 * indent) 32 @ join (str '' '')
        ([node_type]
         @ (if obj_truthy table then [str ''('' @ str_obj tm table @ str '')''] else [])
         @ (if obj_truthy column then [str ''['' @ str_obj tm column @ str '']''] else [])
         @ (if rows \<noteq> OVal PNone then [str ''rows='' @ str_obj tm rows] else [])
         @ (if cost \<noteq> OVal PNone then [str ''cost='' @ str_obj tm cost] else [])))"

lemma size_dict_entry: "(k, x) \<in> set kvs \<Longrightarrow> size x < size (ODict kvs)"
  by (induction kvs) (auto simp: less_Suc_eq_le)

lemma size_list_entry: "x \<in> set xs \<Longrightarrow> size x < size (OList xs)"
  by (induction xs) (auto simp: less_Suc_eq_le)

function plan_lines :: "terminal \<Rightarrow> nat \<Rightarrow> orow \<Rightarrow> pystr list" where
  "plan_lines tm indent d =
     plan_line tm indent d
     # (case get_obj d ''children'' of
          OList xs \<Rightarrow> concat (map (\<lambda>c. case c of ODict d' \<Rightarrow> plan_lines tm (indent + 1) d' | _ \<Rightarrow> []) xs)
        | _ \<Rightarrow> [])"
  by pat_completeness auto

termination
proof (relation "measure (\<lambda>(tm, n, d). size (ODict d))", simp_all)
  fix d :: orow and xs d'
  assume "get_obj d ''children'' = OList xs" and d': "ODict d' \<in> set xs"
  then have "(str ''children'', OList xs) \<in> set d"
    by (auto simp: get_obj_def map_of_SomeD split: option.splits)
  then show "size_list (size_prod (\<lambda>x. 0) size) d' < size_list (size_prod (\<lambda>x. 0) size) d"
    using size_dict_entry size_list_entry [OF d'] by fastforce
qed

declare plan_lines.simps [simp del]

end
