(* ===== verification/PlanText.thy ===== *)
theory PlanText
  imports Render
begin

text \<open>
  \<open>render_plan\<close> of tinydb/executor/plan_nodes.py: a plan as indented lines, one for each node,
  with the cost rounded to one decimal.
\<close>

section \<open>The rendering\<close>

text \<open>\<open>f"{x:.1f}"\<close>: the exact value rounded to tenths, ties to even, with the sign of a zero.\<close>

definition round_half_even :: "nat \<Rightarrow> nat \<Rightarrow> nat" where
  "round_half_even n d =
     (let q = n div d; r = n mod d in
      if d < 2 * r \<or> (2 * r = d \<and> odd q) then q + 1 else q)"

lemma round_half_even_nearest:
  "0 < d \<Longrightarrow> \<bar>2 * (int n - int (round_half_even n d * d))\<bar> \<le> int d"
proof -
  have "int n = int (n div d * d) + int (n mod d)" by (metis div_mult_mod_eq of_nat_add)
  moreover assume "0 < d"
  then have "n mod d < d" by simp
  ultimately show ?thesis by (auto simp: round_half_even_def Let_def algebra_simps)
qed

definition format_tenths :: "float64 \<Rightarrow> pystr" where
  "format_tenths x =
     (if f_is_nan x then str ''nan''
      else
        (if f_neg x then str ''-'' else []) @
        (if f_is_inf x then str ''inf''
         else let t = round_half_even (10 * nat \<bar>f_scaled x\<bar>) (2 ^ 1074) in
              nat_digits (t div 10) @ str ''.'' @ nat_digits (t mod 10)))"

definition node_type :: "plan \<Rightarrow> pystr" where
  "node_type p =
     (case p of
        TableScan _ _ _ \<Rightarrow> str ''TableScan''
      | IndexScan _ _ _ _ _ \<Rightarrow> str ''IndexScan''
      | Filter _ _ _ _ \<Rightarrow> str ''Filter''
      | NestedLoopJoin _ _ _ _ _ \<Rightarrow> str ''NestedLoopJoin''
      | HashJoin _ _ _ _ _ \<Rightarrow> str ''HashJoin''
      | Project _ _ _ _ \<Rightarrow> str ''Project''
      | Sort _ _ _ _ \<Rightarrow> str ''Sort''
      | Limit _ _ _ _ _ \<Rightarrow> str ''Limit''
      | Aggregate _ _ _ _ _ \<Rightarrow> str ''Aggregate'')"

text \<open>The line of a node: its parts behind two blanks for each level.\<close>

definition render_line :: "terminal \<Rightarrow> nat \<Rightarrow> plan \<Rightarrow> pystr" where
  "render_line tm indent p =
     concat (replicate indent (str ''  '')) @
     join (str '' '')
       ((node_type p @ str '' [estimated_rows: '' @ nat_digits (estimated_rows p) @ str '', cost: ''
           @ format_tenths (estimated_cost p) @ str '']'')
        # (case p of
             IndexScan table column seek_key _ _ \<Rightarrow>
               (if column \<noteq> [] then [str ''  '' @ table @ str ''.'' @ column @ str '' = '' @ repr_val tm seek_key]
                else [])
           | _ \<Rightarrow> []))"

function render_plan :: "terminal \<Rightarrow> nat \<Rightarrow> plan \<Rightarrow> pystr" where
  "render_plan tm indent p =
     (let line = render_line tm indent p; children = map (render_plan tm (indent + 1)) (plan_children p) in
      if children \<noteq> [] then line @ [10] @ join [10] (filter (\<lambda>c. c \<noteq> []) children) else line)"
  by pat_completeness auto

termination by (relation "measure (\<lambda>(tm, n, p). size p)") (auto simp: plan_children_size)

declare render_plan.simps [simp del]

definition render_root :: "terminal \<Rightarrow> plan option \<Rightarrow> nat \<Rightarrow> pystr" where
  "render_root tm node indent = (case node of None \<Rightarrow> [] | Some p \<Rightarrow> render_plan tm indent p)"

section \<open>The lines are the nodes\<close>

text \<open>The nodes of a plan in preorder, each with its depth.\<close>

function plan_preorder :: "nat \<Rightarrow> plan \<Rightarrow> (nat \<times> plan) list" where
  "plan_preorder d p = (d, p) # concat (map (plan_preorder (d + 1)) (plan_children p))"
  by pat_completeness auto

termination by (relation "measure (\<lambda>(d, p). size p)") (auto simp: plan_children_size)

declare plan_preorder.simps [simp del]

lemma join_append:
  "xs \<noteq> [] \<Longrightarrow> ys \<noteq> [] \<Longrightarrow> join sep (xs @ ys) = join sep xs @ sep @ join sep ys"
proof (induction sep xs rule: join.induct)
  case (2 sep s)
  then show ?case by (cases ys) simp_all
qed simp_all

lemma join_concat:
  "\<forall>xs \<in> set xss. xs \<noteq> [] \<Longrightarrow> join sep (map (join sep) xss) = join sep (concat xss)"
proof (induction xss)
  case (Cons xs xss)
  then show ?case by (cases xss) (simp_all add: join_append)
qed simp

lemma render_line_nonempty: "render_line tm d p \<noteq> []"
proof -
  have "node_type p \<noteq> []" by (simp add: node_type_def str_def split: plan.split)
  then show ?thesis by (cases p) (simp_all add: render_line_def)
qed

lemma render_plan_nonempty: "render_plan tm d p \<noteq> []"
  by (simp add: render_plan.simps [of tm d p] Let_def render_line_nonempty)

text \<open>
  A rendered plan is the lines of its nodes in preorder, each indented by its depth.
\<close>

theorem render_plan_preorder:
  "render_plan tm d p = join [10] (map (\<lambda>(k, q). render_line tm k q) (plan_preorder d p))"
proof (induction tm d p rule: render_plan.induct)
  case (1 tm d p)
  let ?cs = "plan_children p" and ?lines = "\<lambda>q. map (\<lambda>(k, q). render_line tm k q) (plan_preorder (d + 1) q)"
  have ne: "\<forall>xs \<in> set (map ?lines ?cs). xs \<noteq> []" by (auto simp: plan_preorder.simps [of "Suc d"])
  have cs: "map (render_plan tm (d + 1)) ?cs = map (join [10]) (map ?lines ?cs)"
    using 1 by (simp add: Let_def)
  have f: "filter (\<lambda>c. c \<noteq> []) (map (render_plan tm (d + 1)) ?cs) = map (render_plan tm (d + 1)) ?cs"
    by (simp add: filter_id_conv render_plan_nonempty)
  have all: "map (\<lambda>(k, q). render_line tm k q) (plan_preorder d p) = render_line tm d p # concat (map ?lines ?cs)"
    by (simp add: plan_preorder.simps [of d] map_concat comp_def)
  show ?case
  proof (cases "?cs = []")
    case True
    then show ?thesis unfolding all by (simp add: render_plan.simps [of tm d p])
  next
    case False
    then have "concat (map ?lines ?cs) \<noteq> []" using ne by (cases ?cs) auto
    then have ja: "join [10] ([render_line tm d p] @ concat (map ?lines ?cs))
        = render_line tm d p @ [10] @ join [10] (concat (map ?lines ?cs))"
      by (subst join_append) simp_all
    have "render_plan tm d p = render_line tm d p @ [10]
        @ join [10] (filter (\<lambda>c. c \<noteq> []) (map (render_plan tm (d + 1)) ?cs))"
      using False by (simp add: render_plan.simps [of tm d p] Let_def)
    also have "\<dots> = render_line tm d p @ [10] @ join [10] (concat (map ?lines ?cs))"
      by (subst f, subst cs, subst join_concat [OF ne]) (rule refl)
    finally show ?thesis using ja by (simp add: all)
  qed
qed

end
