(* ===== verification/Executor.thy ===== *)
theory Executor
  imports Join Dml Plan Tx Parser
begin

text \<open>
  tinydb/executor/__init__.py: the executor, which holds the catalog with its store, the
  transaction manager and the constraints of the tables created in this session, and runs one
  statement after the other.
\<close>

section \<open>The executor\<close>

record executor =
  ex_cat :: catalog
  ex_tx :: "unit tx_manager"
  ex_constraints :: "(pystr, constraints) dict"

type_synonym 'a exx = "(executor, py_error, 'a) sx"

definition in_catalog :: "'a ctx \<Rightarrow> 'a exx" where
  "in_catalog m e = (case m (ex_cat e) of (r, c) \<Rightarrow> (r, e\<lparr>ex_cat := c\<rparr>))"

definition in_tx :: "(unit, 'a) txx \<Rightarrow> 'a exx" where
  "in_tx m e = (case m (ex_tx e) of (r, tm) \<Rightarrow> (r, e\<lparr>ex_tx := tm\<rparr>))"

text \<open>\<open>Executor(store)\<close>, with the content of the log file it opens.\<close>

definition open_executor :: "file_store \<Rightarrow> byte list \<Rightarrow> py_error + executor" where
  "open_executor st log =
     (let tm = new_tx_manager () (open_wal log) in
      rbind (open_catalog st) (\<lambda>c. Inr \<lparr>ex_cat = c, ex_tx = tm, ex_constraints = []\<rparr>))"

text \<open>\<open>wal.close()\<close>, and the store's \<open>close\<close> whatever happens.\<close>

definition close_executor :: "unit exx" where
  "close_executor =
     sbind (smodify (\<lambda>e. e\<lparr>ex_tx := (ex_tx e)\<lparr>tx_wal := close_wal (tx_wal (ex_tx e))\<rparr>\<rparr>)) (\<lambda>_.
     in_catalog (in_store close_store))"

definition has_aggregate :: "expr list \<Rightarrow> bool" where
  "has_aggregate projections =
     list_ex (\<lambda>p. case p of
         SqlLiteral (PText s) raw \<Rightarrow>
           starts_with s (str ''COUNT'') \<or> starts_with s (str ''SUM'') \<or> starts_with s (str ''AVG'')
       | _ \<Rightarrow> False) projections"

text \<open>What a statement returns: \<open>[]\<close>, rows, plans, an int, or None.\<close>

datatype exec_result =
    ENothing
  | ERows "row list"
  | EPlans "(pystr \<times> pobj) list list"
  | EInt nat
  | ENone

text \<open>COMMIT and ROLLBACK do nothing.\<close>

definition exec_tx_control :: "stmt \<Rightarrow> exec_result exx" where
  "exec_tx_control stmt =
     (if stmt = Begin then sbind (in_tx tx_begin) (\<lambda>t. sret (EInt t)) else sret ENone)"

fun stmt_name :: "stmt \<Rightarrow> pystr" where
  "stmt_name (CreateTable _ _ _) = str ''CreateTable''"
| "stmt_name (DropTable _ _) = str ''DropTable''"
| "stmt_name (Insert _ _ _) = str ''Insert''"
| "stmt_name (SelectStmt _) = str ''Select''"
| "stmt_name (UpdateStmt _ _ _) = str ''Update''"
| "stmt_name (DeleteStmt _ _) = str ''Delete''"
| "stmt_name Begin = str ''Begin''"
| "stmt_name Commit = str ''Commit''"
| "stmt_name Rollback = str ''Rollback''"
| "stmt_name Checkpoint = str ''Checkpoint''"
| "stmt_name (Explain _) = str ''Explain''"

definition exec_explain :: "(pystr, table_meta) dict \<Rightarrow> stmt \<Rightarrow> py_error + (pystr \<times> pobj) list list" where
  "exec_explain es inner =
     (case inner of
        SelectStmt q \<Rightarrow>
          rbind (plan_select (sel_table q) (sel_joins q) (sel_where q) (sel_order_by q) (sel_limit q)
                  (sel_offset q) (sel_group_by q) es) (\<lambda>plan. Inr [plan_to_dict plan])
      | _ \<Rightarrow> Inr [[(str ''node'', OVal (PText (str ''Explain''))),
                   (str ''statement'', OVal (PText (stmt_name inner)))]])"

definition exec_select_stmt :: "runtime \<Rightarrow> catalog \<Rightarrow> select \<Rightarrow> py_error + row list" where
  "exec_select_stmt u c q =
     rbind (get_table (sel_table q) (ct_entries c)) (\<lambda>meta.
     let has_agg = sel_group_by q \<noteq> [] \<or> has_aggregate (sel_projections q) in
     rbind (exec_select u (ct_store c) meta (sel_projections q) (sel_where q) (sel_order_by q)
             (sel_limit q) (sel_offset q) (\<not> has_agg) (sel_joins q) (Some (ct_entries c))) (\<lambda>rows.
     if has_agg then exec_aggregate u rows (sel_projections q) (sel_group_by q) else Inr rows))"

definition table_constraints :: "column_def list \<Rightarrow> constraints" where
  "table_constraints cols = dict_of (map (\<lambda>c. (cd_name c, cd_constraints c)) cols)"

text \<open>\<open>self._catalog.get_table(name)\<close> as a step of the executor.\<close>

definition meta_of :: "pystr \<Rightarrow> table_meta exx" where
  "meta_of name = in_catalog (sread (\<lambda>c. get_table name (ct_entries c)))"

definition dispatch :: "runtime \<Rightarrow> stmt \<Rightarrow> exec_result exx" where
  "dispatch u stmt =
     (case stmt of
        CreateTable name cols if_not_exists \<Rightarrow>
          sbind (in_catalog (exec_create_table u name cols)) (\<lambda>_.
          sbind (smodify (\<lambda>e. e\<lparr>ex_constraints := dict_set name (table_constraints cols) (ex_constraints e)\<rparr>)) (\<lambda>_.
          sret ENothing))
      | DropTable names if_exists \<Rightarrow> sbind (in_catalog (exec_drop_table names)) (\<lambda>_. sret ENothing)
      | Checkpoint \<Rightarrow> sbind (in_tx (exec_checkpoint None)) (\<lambda>_. sret ENothing)
      | Insert name columns values_list \<Rightarrow>
          sbind (meta_of name) (\<lambda>meta.
          sbind sget (\<lambda>e.
          let cs = (case dict_get (ex_constraints e) name of None \<Rightarrow> [] | Some cs \<Rightarrow> cs) in
          sbind (in_catalog (in_store (exec_insert meta columns values_list cs))) (\<lambda>_.
          sret ENothing)))
      | SelectStmt q \<Rightarrow>
          sbind (sread (\<lambda>e. exec_select_stmt u (ex_cat e) q)) (\<lambda>rows. sret (ERows rows))
      | Explain inner \<Rightarrow>
          sbind (sread (\<lambda>e. exec_explain (ct_entries (ex_cat e)) inner)) (\<lambda>ps. sret (EPlans ps))
      | UpdateStmt name assignments wh \<Rightarrow>
          sbind (meta_of name) (\<lambda>meta.
          sbind (in_catalog (in_store (exec_update meta assignments wh))) (\<lambda>n. sret (EInt n)))
      | DeleteStmt name wh \<Rightarrow>
          sbind (meta_of name) (\<lambda>meta.
          sbind (in_catalog (in_store (exec_delete meta wh))) (\<lambda>n. sret (EInt n)))
      | _ \<Rightarrow> exec_tx_control stmt)"

definition execute_sql :: "runtime \<Rightarrow> pystr \<Rightarrow> exec_result exx" where
  "execute_sql u sql = sbind (slift (parse u sql)) (dispatch u)"

section \<open>Queries change nothing\<close>

text \<open>
  SELECT and EXPLAIN leave the executor as it is: the catalog, every byte of the store, the
  log and the open transaction, whether they return or raise.
\<close>

theorem queries_change_nothing:
  "snd (dispatch u (SelectStmt q) e) = e \<and> snd (dispatch u (Explain s) e) = e"
  by (auto simp: dispatch_def sbind_def split: sum.splits)

section \<open>From CREATE TABLE to SELECT\<close>

lemma new_table_rel:
  assumes "wf_store st" and "root < page_count st" and "read_page root st = Inr (new_page root TABLE)"
  shows "heap_rel st (table_heap (mk_meta name root columns)) []"
  using assms by (simp add: heap_rel_def table_heap_def mk_meta_def body_rel_def new_page_def)

definition star_query :: "pystr \<Rightarrow> select" where
  "star_query t = \<lparr>sel_projections = [Star], sel_table = t, sel_joins = [], sel_alias = None,
     sel_where = None, sel_order_by = [], sel_limit = None, sel_offset = None, sel_group_by = []\<rparr>"

text \<open>
  From any consistent catalog, CREATE TABLE followed by an INSERT of a valid row and a
  SELECT * returns that row, its values as they are stored under the names of the columns.
\<close>

theorem create_insert_select:
  assumes c: "catalog_ok (ex_cat e) ps" "\<not> dict_has (ct_entries (ex_cat e)) name"
    and cols: "rmap (column_of u) cols = Inr columns"
    and room: "page_count (ct_store (ex_cat e)) + 1 < 256 ^ 4"
      "alloc_result (ct_store (ex_cat e)) ps = (root, ps', pc)"
    and raw: "encode_catalog (map snd (ct_entries (ex_cat e)) @ [mk_meta name root columns]) = Inr raw"
      "20 + length raw \<le> capacity (ct_store (ex_cat e))"
    and v: "validate_row (mk_meta name root columns) (map fst columns) vals (table_constraints cols) = Inr us"
      "ordered_row (mk_meta name root columns) (map fst columns) vals = Inr vs" "row_fits columns vs"
    and n: "length columns < 2 ^ 16" "7 + row_size columns vs \<le> capacity (ct_store (ex_cat e))"
  shows "\<exists>e1 e2. dispatch u (CreateTable name cols b) e = (Inr ENothing, e1)
    \<and> dispatch u (Insert name None [vals]) e1 = (Inr ENothing, e2)
    \<and> fst (dispatch u (SelectStmt (star_query name)) e2)
      = Inr (ERows [dict_del (str ''rowid'') (row_to_dict (mk_meta name root columns) (1, map stored vs))])"
proof -
  let ?m = "mk_meta name root columns" and ?c = "ex_cat e"
  obtain c1 where c1: "create_table name columns ?c = (Inr (), c1)" "catalog_ok c1 ps'"
      "ct_entries c1 = ct_entries ?c @ [(name, ?m)]" "page_count (ct_store c1) = pc"
      "read_page root (ct_store c1) = Inr (new_page root TABLE)" "capacity (ct_store c1) = capacity (ct_store ?c)"
    by (rule create_table_ok [OF c room raw]) blast
  let ?cs = "table_constraints cols"
  let ?e1 = "e\<lparr>ex_cat := c1, ex_constraints := dict_set name ?cs (ex_constraints e)\<rparr>"
  have create: "dispatch u (CreateTable name cols b) e = (Inr ENothing, ?e1)"
    using c1(1) cols by (simp add: dispatch_def exec_create_table_def in_catalog_def)
  have "dict_get (ct_entries ?c) name = None" using c(2) by (simp add: dict_has_iff)
  then have meta: "get_table name (ct_entries c1) = Inr ?m" by (simp add: get_table_Inr c1(3) map_add_def)
  have root: "root < page_count (ct_store c1)"
    using catalog_okD(5) [OF c1(2), of root] c1(3) by (simp add: roots_def mk_meta_def)
  have rel: "heap_rel (ct_store c1) (table_heap ?m) []"
    by (rule new_table_rel [OF catalog_okD(1) [OF c1(2)] root c1(5)])
  have m: "tm_schema ?m = columns" "insert_columns ?m None = map fst columns"
    by (simp_all add: mk_meta_def insert_columns_def)
  have cap: "heap_room (abs_append (tm_schema ?m) vs []) \<le> capacity (ct_store c1)"
    using n(2) by (simp add: heap_room_def abs_append_def fresh_row_def m c1(6))
  obtain st2 where i: "insert_row ?m (map fst columns) ?cs vals (ct_store c1) = (Inr (), st2)"
    and r2: "heap_rel st2 (table_heap ?m) (abs_append (tm_schema ?m) vs [])"
    by (rule insert_row_succeeds [OF rel v(1,2) _ _ cap]) (use v(3) n(1) in \<open>simp_all add: m\<close>)
  have ins: "exec_insert ?m None [vals] ?cs (ct_store c1) = (Inr (), st2)"
    using i heap_close_ok [OF heap_rel_wf [OF r2]] by (simp add: exec_insert_def m)
  let ?e2 = "?e1\<lparr>ex_cat := c1\<lparr>ct_store := st2\<rparr>\<rparr>"
  have insert: "dispatch u (Insert name None [vals]) ?e1 = (Inr ENothing, ?e2)"
    using meta ins by (simp add: dispatch_def meta_of_def in_catalog_def in_store_def dict_get_set)
  have "heap_scan (table_heap ?m) st2 = Inr [(1, map stored vs)]"
    using heap_scan_visible [OF r2] by (simp add: abs_append_def fresh_row_def)
  then have "fst (dispatch u (SelectStmt (star_query name)) ?e2)
      = Inr (ERows [dict_del (str ''rowid'') (row_to_dict ?m (1, map stored vs))])"
    using meta by (simp add: dispatch_def exec_select_stmt_def star_query_def has_aggregate_def exec_select_def
        exec_single_table_def filter_rows_def order_rows_def cut_rows_def has_star_def sbind_def)
  then show ?thesis using create insert by blast
qed

section \<open>A concrete session\<close>

definition demo_executor :: executor where
  "demo_executor = \<lparr>ex_cat = demo_catalog, ex_tx = new_tx_manager () (open_wal []), ex_constraints = []\<rparr>"

definition demo_cols :: "column_def list" where
  "demo_cols = [\<lparr>cd_name = str ''id'', cd_type = str ''INT'', cd_constraints = [str ''PRIMARY KEY'']\<rparr>]"

lemma demo_statement:
  shows "rmap (column_of ascii_runtime) demo_cols = Inr [(str ''id'', T_INT)]"
    and "validate_row (mk_meta (str ''t'') 2 [(str ''id'', T_INT)]) (map fst [(str ''id'', T_INT)]) [PInt 8]
        (table_constraints demo_cols) = Inr [()]"
    and "ordered_row (mk_meta (str ''t'') 2 [(str ''id'', T_INT)]) (map fst [(str ''id'', T_INT)]) [PInt 8] = Inr [PInt 8]"
    and "row_fits [(str ''id'', T_INT)] [PInt 8]" and "row_size [(str ''id'', T_INT)] [PInt 8] = 22"
proof -
  have "py_upper ascii_runtime (str ''INT'') = type_value T_INT"
    by (simp add: py_upper_def str_def ch_upper_def ascii_lower_def)
  then show "rmap (column_of ascii_runtime) demo_cols = Inr [(str ''id'', T_INT)]"
    by (simp add: demo_cols_def column_of_def column_type_of_value [of T_INT, simplified])
qed (simp_all add: validate_row_def validate_cell_def ordered_row_def mk_meta_def dict_of_def
    row_get_def coerce_def coerce_in_def row_size_def encode_row_def encode_def to_bytes_signed_def
    int64_min_def int64_max_def pack_uint_def)

lemma create_insert_select_witness:
  "\<exists>e1 e2. dispatch ascii_runtime (CreateTable (str ''t'') demo_cols False) demo_executor = (Inr ENothing, e1)
    \<and> dispatch ascii_runtime (Insert (str ''t'') None [[PInt 8]]) e1 = (Inr ENothing, e2)
    \<and> fst (dispatch ascii_runtime (SelectStmt (star_query (str ''t''))) e2) = Inr (ERows [[(str ''id'', PInt 8)]])"
proof -
  obtain raw where raw: "encode_catalog (map snd (ct_entries (ex_cat demo_executor)) @ [mk_meta (str ''t'') 2 [(str ''id'', T_INT)]]) = Inr raw"
    "20 + length raw \<le> capacity (ct_store (ex_cat demo_executor))"
    using demo_create(4) by (auto simp: demo_executor_def)
  have cat: "ex_cat demo_executor = demo_catalog" by (simp add: demo_executor_def)
  have cap: "capacity (ct_store (ex_cat demo_executor)) = 501"
    by (simp add: cat demo_catalog_def demo_capacity)
  from create_insert_select [of demo_executor "[]", unfolded cat, OF demo_catalog_ok demo_create(1)
      demo_statement(1) demo_create(2,3) raw [unfolded cat] demo_statement(2-4), unfolded cap [unfolded cat] demo_statement(5)]
  show ?thesis
    by (simp add: row_to_dict_def row_dict_def mk_meta_def dict_of_def stored_def)
qed

end
