(* ===== verification/Database.thy ===== *)
theory Database
  imports Executor
begin

text \<open>
  tinydb/database.py: the public entry, which owns the executor until it is closed, the result
  of a statement as a list of dicts, and the transaction context manager that restores the
  bodies of the pages from a snapshot when its block raises. The file lock is the theory Lock;
  the read-write lock the class creates is not used by it.
\<close>

section \<open>The database object\<close>

text \<open>
  The executor with its store, None after \<open>_cleanup\<close>; and what a closed database has left on
  the disk: the content of its file and of its log.
\<close>

record database =
  db_executor :: "executor option"
  db_closed :: bool
  db_file :: "byte list"
  db_log :: "byte list"

type_synonym 'a dbx = "(database, py_error, 'a) sx"

text \<open>An attribute of the executor: None has none.\<close>

definition in_executor :: "'a exx \<Rightarrow> 'a dbx" where
  "in_executor m db =
     (case db_executor db of
        None \<Rightarrow> (Inl AttributeError, db)
      | Some e \<Rightarrow> (case m e of (r, e') \<Rightarrow> (r, db\<lparr>db_executor := Some e'\<rparr>)))"

definition check_open :: "unit dbx" where
  "check_open db = (if db_closed db \<or> db_executor db = None then Inl RuntimeError else Inr (), db)"

definition open_database :: "byte list \<Rightarrow> byte list option \<Rightarrow> nat \<Rightarrow> py_error + database" where
  "open_database file log psize =
     rbind (open_store file log psize) (\<lambda>st.
     rbind (open_executor st (case log of None \<Rightarrow> [] | Some l \<Rightarrow> l)) (\<lambda>e.
     Inr \<lparr>db_executor = Some e, db_closed = False, db_file = file, db_log = (case log of None \<Rightarrow> [] | Some l \<Rightarrow> l)\<rparr>))"

text \<open>
  \<open>_cleanup\<close>: the store is closed, and an error of that is passed over; the log file keeps what
  has been written to it. \<open>close\<close> is idempotent.
\<close>

definition cleanup :: "database \<Rightarrow> database" where
  "cleanup db =
     (case db_executor db of
        None \<Rightarrow> db
      | Some e \<Rightarrow> db\<lparr>db_executor := None, db_file := fs_file (snd (close_store (ct_store (ex_cat e)))),
          db_log := wal_bytes (tx_wal (ex_tx e))\<rparr>)"

definition close_database :: "unit dbx" where
  "close_database db = (Inr (), if db_closed db then db else (cleanup db)\<lparr>db_closed := True\<rparr>)"

section \<open>Statements\<close>

definition rows_affected :: "nat \<Rightarrow> (pystr \<times> pobj) list list" where
  "rows_affected n = [[(str ''rows_affected'', OVal (PInt (int n)))]]"

definition normalize_result :: "stmt \<Rightarrow> exec_result \<Rightarrow> (pystr \<times> pobj) list list" where
  "normalize_result stmt result =
     (case stmt of
        SelectStmt q \<Rightarrow> (case result of ERows rows \<Rightarrow> map (map (\<lambda>(k, v). (k, OVal v))) rows | EPlans ps \<Rightarrow> ps | _ \<Rightarrow> [])
      | Explain s \<Rightarrow> (case result of ERows rows \<Rightarrow> map (map (\<lambda>(k, v). (k, OVal v))) rows | EPlans ps \<Rightarrow> ps | _ \<Rightarrow> [])
      | Insert t cs vs \<Rightarrow> rows_affected 1
      | UpdateStmt t a w \<Rightarrow> (case result of EInt n \<Rightarrow> rows_affected n | _ \<Rightarrow> rows_affected 0)
      | DeleteStmt t w \<Rightarrow> (case result of EInt n \<Rightarrow> rows_affected n | _ \<Rightarrow> rows_affected 0)
      | _ \<Rightarrow> [[(str ''status'', OVal (PText (str ''ok'')))]])"

text \<open>The statement is parsed twice, here and in the executor.\<close>

definition execute :: "runtime \<Rightarrow> pystr \<Rightarrow> (pystr \<times> pobj) list list dbx" where
  "execute u sql =
     sbind check_open (\<lambda>_.
     sbind (slift (parse u sql)) (\<lambda>stmt.
     sbind (in_executor (execute_sql u sql)) (\<lambda>result.
     sret (normalize_result stmt result))))"

section \<open>Transactions\<close>

definition snapshot_pages :: "executor \<Rightarrow> py_error + (nat \<times> byte list) list" where
  "snapshot_pages e =
     (let st = ct_store (ex_cat e) in
      rmap (\<lambda>pid. rbind (read_page pid st) (\<lambda>pg. Inr (pid, page_body pg))) [0..<page_count st])"

definition restore_pages :: "(nat \<times> byte list) list \<Rightarrow> unit exx" where
  "restore_pages snapshot =
     in_catalog (
       sbind (in_store (sfor snapshot (\<lambda>(pid, body). put_body read_page write_page pid body))) (\<lambda>_.
       sbind catalog_load (\<lambda>_. in_store fsync)))"

text \<open>\<open>_restore_pages\<close> returns at once when the store is gone.\<close>

definition restore_db :: "(nat \<times> byte list) list \<Rightarrow> unit dbx" where
  "restore_db snapshot db =
     (case db_executor db of None \<Rightarrow> (Inr (), db) | Some e \<Rightarrow> in_executor (restore_pages snapshot) db)"

text \<open>
  \<open>with db.transaction(): body\<close>. Any exception of the body or of the commit rolls back; an
  exception of the rollback itself takes its place.
\<close>

definition transaction :: "'a dbx \<Rightarrow> 'a dbx" where
  "transaction body =
     sbind check_open (\<lambda>_.
     sbind (in_executor (sread snapshot_pages)) (\<lambda>snapshot.
     sbind (in_executor (in_tx tx_begin)) (\<lambda>tx_id. \<lambda>db.
     case sbind body (\<lambda>x. sbind (in_executor (in_tx (tx_commit tx_id))) (\<lambda>_. sret x)) db of
       (Inr x, db') \<Rightarrow> (Inr x, db')
     | (Inl err, db') \<Rightarrow>
         sbind (in_executor (in_tx (tx_rollback tx_id))) (\<lambda>_.
         sbind (restore_db snapshot) (\<lambda>_. sraise err)) db')))"

section \<open>A closed database\<close>

text \<open>
  A closed database stays closed: every statement and every transaction raises
  RuntimeError and changes nothing, and closing it again has no effect.
\<close>

theorem closed_database_raises:
  assumes "snd (close_database db) = db'"
  shows "execute u sql db' = (Inl RuntimeError, db') \<and> transaction body db' = (Inl RuntimeError, db')
    \<and> close_database db' = (Inr (), db')"
proof -
  have "db_closed db'" using assms by (auto simp: close_database_def split: if_splits)
  then show ?thesis
    by (simp_all add: execute_def transaction_def check_open_def close_database_def)
qed

section \<open>A failed transaction\<close>

lemma in_executor_Some: "db_executor db = Some e \<Longrightarrow> m e = (r, e') \<Longrightarrow>
   in_executor m db = (r, db\<lparr>db_executor := Some e'\<rparr>)"
  by (simp add: in_executor_def)

text \<open>
  A transaction that is open, as after a BEGIN executed as a statement, lets no block be run.
\<close>

theorem open_transaction_blocks:
  assumes "db_executor db = Some e" "\<not> db_closed db" and "filter snd (tx_txs (ex_tx e)) \<noteq> []"
    and "snapshot_pages e = Inr snapshot"
  shows "transaction body db = (Inl TransactionAlreadyActive, db)"
proof -
  have "in_executor (sread snapshot_pages) db = (Inr snapshot, db)"
    using assms(1,4) by (simp add: in_executor_def)
  moreover have "in_executor (in_tx tx_begin) db = (Inl TransactionAlreadyActive, db)"
    using assms(1,3) by (simp add: in_executor_def in_tx_def tx_begin_def)
  ultimately show ?thesis using assms(1,2) by (simp add: transaction_def check_open_def sbind_def)
qed

text \<open>A snapshot of a well-formed store: the body of every page.\<close>

definition page_bodies :: "file_store \<Rightarrow> (nat \<times> byte list) list" where
  "page_bodies st =
     map (\<lambda>p. (p, case read_page p st of Inl _ \<Rightarrow> [] | Inr pg \<Rightarrow> page_body pg)) [0..<page_count st]"

lemma page_read:
  assumes "wf_store st" and "p < page_count st"
  obtains pg where "read_page p st = Inr pg" and "length (page_body pg) \<le> capacity st"
  using fs.rd_ok [OF assms(1), of p] assms(2) by (auto simp: has_page_def storable_def)

lemma snapshot_ok:
  assumes "wf_store (ct_store (ex_cat e))"
  shows "snapshot_pages e = Inr (page_bodies (ct_store (ex_cat e)))"
  unfolding snapshot_pages_def page_bodies_def Let_def
proof (rule rmap_total)
  fix p assume "p \<in> set [0..<page_count (ct_store (ex_cat e))]"
  then obtain pg where "read_page p (ct_store (ex_cat e)) = Inr pg" using page_read [OF assms] by auto
  then show "rbind (read_page p (ct_store (ex_cat e))) (\<lambda>pg. Inr (p, page_body pg))
      = Inr (p, case read_page p (ct_store (ex_cat e)) of Inl _ \<Rightarrow> [] | Inr pg \<Rightarrow> page_body pg)" by simp
qed

lemma last_body_snapshot:
  assumes "p < page_count st" and "read_page p st = Inr pg"
  shows "last_body (page_bodies st) p b = page_body pg"
proof (rule last_body_distinct)
  show "distinct (map fst (page_bodies st))" by (simp add: page_bodies_def comp_def)
  show "(p, page_body pg) \<in> set (page_bodies st)" using assms by (force simp: page_bodies_def)
qed

text \<open>Writing a snapshot into a store that has grown since.\<close>

lemma put_snapshot_ok:
  assumes st: "wf_store st" and st1: "wf_store st1" "page_count st \<le> page_count st1" "capacity st1 = capacity st"
  obtains st2 where "sfor (page_bodies st) (\<lambda>(p, b). put_body read_page write_page p b) st1 = (Inr (), st2)"
    and "wf_store st2" and "page_count st2 = page_count st1"
    and "\<And>p pg pg1. p < page_count st \<Longrightarrow> read_page p st = Inr pg \<Longrightarrow> read_page p st1 = Inr pg1 \<Longrightarrow>
      read_page p st2 = Inr (pg1\<lparr>page_body := page_body pg\<rparr>)"
proof -
  have u: "has_page st1 p \<and> length b \<le> capacity st1" if m: "(p, b) \<in> set (page_bodies st)" for p b
  proof -
    have p: "p < page_count st" using m by (auto simp: page_bodies_def)
    from page_read [OF st p] obtain pg where pg: "read_page p st = Inr pg" "length (page_body pg) \<le> capacity st" .
    then show ?thesis using m p st1(2,3) by (auto simp: page_bodies_def has_page_def)
  qed
  obtain st2 where s2: "sfor (page_bodies st) (\<lambda>(p, b). put_body read_page write_page p b) st1 = (Inr (), st2)"
      "wf_store st2" "has_page st2 = has_page st1"
    and r2: "\<And>q pg. has_page st1 q \<Longrightarrow> read_page q st1 = Inr pg \<Longrightarrow>
       read_page q st2 = Inr (pg\<lparr>page_body := last_body (page_bodies st) q (page_body pg)\<rparr>)"
    using fs.put_bodies_ok [OF st1(1) u] by metis
  have "page_count st2 = page_count st1"
    using s2(3) by (simp add: has_page_def fun_eq_iff) (metis linorder_neqE_nat less_irrefl)
  then show ?thesis
    using that [OF s2(1,2)] r2 last_body_snapshot st1(2) by (fastforce simp: has_page_def)
qed

lemma stored_catalog_body:
  assumes "read_page 0 st = Inr pg" and "read_page 0 st2 = Inr pg2" and "page_body pg2 = page_body pg"
    and "0 < page_count st" and "0 < page_count st2"
  shows "stored_catalog st2 = stored_catalog st"
  using assms by (simp add: stored_catalog_def)

lemma restore_pages_ok:
  assumes c: "catalog_ok (ex_cat e) ps" and e1: "wf_store (ct_store (ex_cat e1))"
    "page_count (ct_store (ex_cat e)) \<le> page_count (ct_store (ex_cat e1))"
    "capacity (ct_store (ex_cat e1)) = capacity (ct_store (ex_cat e))"
  obtains e2 where "restore_pages (page_bodies (ct_store (ex_cat e))) e1 = (Inr (), e2)"
    and "\<And>p pg pg1. p < page_count (ct_store (ex_cat e)) \<Longrightarrow> read_page p (ct_store (ex_cat e)) = Inr pg \<Longrightarrow>
      read_page p (ct_store (ex_cat e1)) = Inr pg1 \<Longrightarrow>
      read_page p (ct_store (ex_cat e2)) = Inr (pg1\<lparr>page_body := page_body pg\<rparr>)"
    and "ct_entries (ex_cat e) \<noteq> [] \<Longrightarrow> ct_entries (ex_cat e2) = ct_entries (ex_cat e)"
proof -
  let ?st = "ct_store (ex_cat e)" and ?c1 = "ex_cat e1"
  note wf = catalog_okD(1) [OF c]
  obtain st2 where st2: "sfor (page_bodies ?st) (\<lambda>(p, b). put_body read_page write_page p b) (ct_store ?c1) = (Inr (), st2)"
      "wf_store st2" "page_count st2 = page_count (ct_store ?c1)"
    and r: "\<And>p pg pg1. p < page_count ?st \<Longrightarrow> read_page p ?st = Inr pg \<Longrightarrow> read_page p (ct_store ?c1) = Inr pg1 \<Longrightarrow>
      read_page p st2 = Inr (pg1\<lparr>page_body := page_body pg\<rparr>)"
    by (rule put_snapshot_ok [OF wf e1]) blast
  note pos = wf_storeD(4) [OF wf]
  obtain pg where pg: "read_page 0 ?st = Inr pg" using page_read [OF wf pos] by blast
  obtain pg1 where pg1: "read_page 0 (ct_store ?c1) = Inr pg1"
    using page_read [OF e1(1), of 0] e1(2) pos by fastforce
  have sc: "stored_catalog st2 = stored_catalog ?st"
    by (rule stored_catalog_body [OF pg r [OF pos pg pg1]]) (use pos wf_storeD(4) [OF st2(2)] in simp_all)
  let ?es = "case stored_catalog ?st of Inr (Some es) \<Rightarrow> es | _ \<Rightarrow> ct_entries ?c1"
  let ?c2 = "?c1\<lparr>ct_store := st2, ct_entries := ?es\<rparr>"
  have load: "catalog_load (?c1\<lparr>ct_store := st2\<rparr>) = (Inr (), ?c2)"
    using stored_catalog_ok [OF c] sc by (auto simp: catalog_load_def in_store_def sbind_def)
  have "fsync st2 = (Inr (), st2)" using wf_storeD(1) [OF st2(2)] by (simp add: fsync_def)
  then have "restore_pages (page_bodies ?st) e1 = (Inr (), e1\<lparr>ex_cat := ?c2\<rparr>)"
    using st2(1) load by (simp add: restore_pages_def in_catalog_def in_store_def)
  moreover have "ct_entries (ex_cat e) \<noteq> [] \<Longrightarrow> ?es = ct_entries (ex_cat e)"
    using stored_catalog_ok [OF c] by auto
  ultimately show ?thesis using r that by fastforce
qed

lemma tx_rollback_ok:
  assumes "dict_get (tx_txs tm) t = Some True" and "t < 256 ^ 4"
    and "wal_open (tx_wal tm)" and "next_lsn (tx_wal tm) < 256 ^ 4"
  obtains tm1 where "tx_rollback t tm = (Inr (), tm1)"
proof -
  let ?r = "\<lparr>wr_lsn = next_lsn (tx_wal tm), wr_tx = t, wr_kind = TX_ROLLBACK, wr_page = 0, wr_before = [], wr_after = []\<rparr>"
  have "record_ok ?r" using assms(2,4) by (simp add: record_ok_def)
  then obtain raw where "encode_record ?r = Inr raw" by (rule encode_record_total)
  then show ?thesis using assms(1,3) that
    by (simp add: tx_rollback_def check_tx_def on_wal_def wal_append_def append_rec_def)
qed

text \<open>
  When the block of a transaction raises, the transaction raises the same exception, every
  page the store had before has its body back (under the kind and the LSN the block gave it),
  and the tables are those from before, provided there were any. The block keeps the pages
  well-formed and the transaction open, and the log is open.
\<close>

lemma failed_transaction_restores:
  assumes db: "db_executor db = Some e" "\<not> db_closed db" and c: "catalog_ok (ex_cat e) ps"
    and idle: "tx_begin (ex_tx e) = (Inr t, tm)"
    and body: "body (db\<lparr>db_executor := Some (e\<lparr>ex_tx := tm\<rparr>)\<rparr>) = (Inl err, db1)" "db_executor db1 = Some e1"
    and e1: "wf_store (ct_store (ex_cat e1))"
      "page_count (ct_store (ex_cat e)) \<le> page_count (ct_store (ex_cat e1))"
      "capacity (ct_store (ex_cat e1)) = capacity (ct_store (ex_cat e))"
    and log: "dict_get (tx_txs (ex_tx e1)) t = Some True" "t < 256 ^ 4" "wal_open (tx_wal (ex_tx e1))"
      "next_lsn (tx_wal (ex_tx e1)) < 256 ^ 4"
  shows "\<exists>e2. transaction body db = (Inl err, db1\<lparr>db_executor := Some e2\<rparr>)
    \<and> (\<forall>p pg pg1. p < page_count (ct_store (ex_cat e)) \<longrightarrow> read_page p (ct_store (ex_cat e)) = Inr pg \<longrightarrow>
        read_page p (ct_store (ex_cat e1)) = Inr pg1 \<longrightarrow>
        read_page p (ct_store (ex_cat e2)) = Inr (pg1\<lparr>page_body := page_body pg\<rparr>))
    \<and> (ct_entries (ex_cat e) \<noteq> [] \<longrightarrow> ct_entries (ex_cat e2) = ct_entries (ex_cat e))"
proof -
  let ?snap = "page_bodies (ct_store (ex_cat e))"
  obtain tm1 where rollback: "tx_rollback t (ex_tx e1) = (Inr (), tm1)" by (rule tx_rollback_ok [OF log])
  let ?e1 = "e1\<lparr>ex_tx := tm1\<rparr>"
  have open': "check_open db = (Inr (), db)" using db by (simp add: check_open_def)
  have snap: "in_executor (sread snapshot_pages) db = (Inr ?snap, db)"
    using db snapshot_ok [OF catalog_okD(1) [OF c]] by (simp add: in_executor_def)
  have begin': "in_executor (in_tx tx_begin) db = (Inr t, db\<lparr>db_executor := Some (e\<lparr>ex_tx := tm\<rparr>)\<rparr>)"
    using db idle by (simp add: in_executor_def in_tx_def)
  have rb: "in_executor (in_tx (tx_rollback t)) db1 = (Inr (), db1\<lparr>db_executor := Some ?e1\<rparr>)"
    using body(2) rollback by (simp add: in_executor_def in_tx_def)
  obtain e2 where e2: "restore_pages ?snap ?e1 = (Inr (), e2)"
    and r: "\<And>p pg pg1. p < page_count (ct_store (ex_cat e)) \<Longrightarrow> read_page p (ct_store (ex_cat e)) = Inr pg \<Longrightarrow>
        read_page p (ct_store (ex_cat ?e1)) = Inr pg1 \<Longrightarrow>
        read_page p (ct_store (ex_cat e2)) = Inr (pg1\<lparr>page_body := page_body pg\<rparr>)"
      "ct_entries (ex_cat e) \<noteq> [] \<Longrightarrow> ct_entries (ex_cat e2) = ct_entries (ex_cat e)"
    by (rule restore_pages_ok [OF c, of ?e1]) (use e1 in auto)
  have "restore_db ?snap (db1\<lparr>db_executor := Some ?e1\<rparr>) = (Inr (), db1\<lparr>db_executor := Some e2\<rparr>)"
    using e2 by (simp add: restore_db_def in_executor_def)
  then have "transaction body db = (Inl err, db1\<lparr>db_executor := Some e2\<rparr>)"
    using open' snap begin' body(1) rb by (simp add: transaction_def)
  then show ?thesis using r by auto
qed

section \<open>Closing and opening\<close>

lemma replay_without_updates:
  assumes "list_all record_ok rs" and "list_all (\<lambda>r. wr_kind r \<noteq> MUTATE) rs" and "wf_store st"
  shows "replay_wal read_page write_page (Some (encode_log rs)) st = (Inr (), st)"
proof -
  have "filter (\<lambda>r. wr_kind r = MUTATE) rs = []" using assms(2) by (auto simp: filter_empty_conv list_all_iff)
  then have "replay_updates rs = []" by (simp add: replay_updates_def)
  then show ?thesis
    using scan_log_whole [OF assms(1)] by (simp add: replay_wal_def replay_records_updates)
qed

text \<open>
  C11: A database whose log holds only commits and rollbacks and whose catalog in memory is the one
  that page 0 holds, with tables on pages of their own that are not in the chain of free pages
  (\<open>catalog_ok\<close>), is, after it has been closed and opened again, a database with the same tables
  over the same pages; the constraints of its tables are gone. A catalog that was cut off, or
  that kept in memory a table whose creation was rolled back, is none of these.
\<close>

theorem database_reopens:
  assumes db: "db_executor db = Some e" "\<not> db_closed db" and c: "catalog_ok (ex_cat e) ps"
    and log: "wal_bytes (tx_wal (ex_tx e)) = encode_log rs" "list_all record_ok rs"
      "list_all (\<lambda>r. wr_kind r \<noteq> MUTATE) rs"
  shows "\<exists>db1 db2 e2. close_database db = (Inr (), db1)
    \<and> open_database (db_file db1) (Some (db_log db1)) (page_size (ct_store (ex_cat e))) = Inr db2
    \<and> db_executor db2 = Some e2 \<and> ct_entries (ex_cat e2) = ct_entries (ex_cat e) \<and> ex_constraints e2 = []
    \<and> (\<forall>q. 0 < q \<longrightarrow> q < page_count (ct_store (ex_cat e)) \<longrightarrow>
        read_page q (ct_store (ex_cat e2)) = read_page q (ct_store (ex_cat e)))"
proof -
  obtain st1 st2 where st: "close_store (ct_store (ex_cat e)) = (Inr (), st1)"
      "open_file (fs_file st1) (page_size (ct_store (ex_cat e))) = Inr st2"
      "open_catalog st2 = Inr (ex_cat e\<lparr>ct_store := st2\<rparr>)" "wf_store st2"
    and fr: "\<forall>q. 0 < q \<longrightarrow> q < page_count (ct_store (ex_cat e)) \<longrightarrow> read_page q st2 = read_page q (ct_store (ex_cat e))"
    using catalog_reopen_ok [OF c] by blast
  have "open_store (fs_file st1) (Some (encode_log rs)) (page_size (ct_store (ex_cat e))) = Inr st2"
    using st(2) replay_without_updates [OF log(2,3) st(4)] by (simp add: open_store_def)
  moreover have "close_database db = (Inr (), db\<lparr>db_executor := None, db_closed := True,
      db_file := fs_file st1, db_log := encode_log rs\<rparr>)"
    using db st(1) log(1) by (simp add: close_database_def cleanup_def)
  ultimately show ?thesis
    using st(3) fr by (simp add: open_database_def open_executor_def Let_def)
qed

section \<open>A concrete database\<close>

definition demo_db :: database where
  "demo_db = \<lparr>db_executor = Some demo_executor, db_closed = False, db_file = [], db_log = []\<rparr>"

lemma closed_database_raises_witness:
  "execute ascii_runtime (str ''CHECKPOINT'') (snd (close_database demo_db))
   = (Inl RuntimeError, snd (close_database demo_db))"
  using closed_database_raises [OF refl] by blast

lemma database_reopens_witness:
  "\<exists>db1 db2 e2. close_database demo_db = (Inr (), db1)
    \<and> open_database (db_file db1) (Some (db_log db1)) 512 = Inr db2 \<and> db_executor db2 = Some e2
    \<and> read_page 1 (ct_store (ex_cat e2)) = Inr (new_page 1 TABLE)"
proof -
  have db: "db_executor demo_db = Some demo_executor" "\<not> db_closed demo_db" by (simp_all add: demo_db_def)
  have cat: "ex_cat demo_executor = demo_catalog" "ct_store demo_catalog = demo_store"
    by (simp_all add: demo_executor_def demo_catalog_def)
  have c: "catalog_ok (ex_cat demo_executor) []" using demo_catalog_ok cat(1) by simp
  have log: "wal_bytes (tx_wal (ex_tx demo_executor)) = encode_log []"
    by (simp add: demo_executor_def new_tx_manager_def open_wal_def encode_log_def)
  have "page_size (ct_store (ex_cat demo_executor)) = 512" "page_count (ct_store (ex_cat demo_executor)) = 2"
    "read_page 1 (ct_store (ex_cat demo_executor)) = Inr (new_page 1 TABLE)"
    by (simp_all add: cat demo_store_facts demo_store_read)
  then show ?thesis using database_reopens [OF db c log] by (metis list.pred_inject(1) one_less_numeral_iff
        semiring_norm(76) zero_less_one)
qed

end
