(* ===== verification/Unparse.thy ===== *)
theory Unparse
  imports Parser
begin

text \<open>
  The other direction of the tokenizer: a token without its position is a lexeme, and a list of
  lexemes has a text, each followed by a blank. The tokenizer reads the lexemes back from it.
\<close>

section \<open>Lexemes\<close>

type_synonym lexeme = "token_type \<times> pystr"

definition lexeme :: "token \<Rightarrow> lexeme" where
  "lexeme t = (tok_type t, tok_value t)"

lemma lexeme_mk_token [simp]: "lexeme (mk_token ty v l c) = (ty, v)"
  by (simp add: lexeme_def)

abbreviation kw :: "string \<Rightarrow> lexeme" where
  "kw k \<equiv> (KEYWORD, str k)"

abbreviation punct :: "string \<Rightarrow> lexeme" where
  "punct p \<equiv> (PUNCT, str p)"

text \<open>A name is a word that is no keyword, a number a text of digits and points.\<close>

definition name_ok :: "runtime \<Rightarrow> pystr \<Rightarrow> bool" where
  "name_ok u w \<longleftrightarrow> w \<noteq> [] \<and> is_word_start u (hd w) \<and> \<not> ch_isdigit u (hd w) \<and> list_all (is_word u) (tl w)
     \<and> py_upper u w \<notin> set sql_keywords"

definition number_ok :: "runtime \<Rightarrow> pystr \<Rightarrow> bool" where
  "number_ok u w \<longleftrightarrow> starts_number u w \<and> list_all (is_numeric u) (tl w)"

fun lexeme_ok :: "runtime \<Rightarrow> lexeme \<Rightarrow> bool" where
  "lexeme_ok u (KEYWORD, v) \<longleftrightarrow> v \<in> set sql_keywords"
| "lexeme_ok u (IDENT, v) \<longleftrightarrow> name_ok u v"
| "lexeme_ok u (NUMBER, v) \<longleftrightarrow> number_ok u v"
| "lexeme_ok u (STRING, v) \<longleftrightarrow> True"
| "lexeme_ok u (OPERATOR, v) \<longleftrightarrow> v \<in> set operators"
| "lexeme_ok u (PUNCT, v) \<longleftrightarrow> v \<in> {str ''('', str '')'', str '','', str ''*'', str ''.''}"
| "lexeme_ok u (EOF, v) \<longleftrightarrow> False"

definition quoted :: "pystr \<Rightarrow> pystr" where
  "quoted s = [39] @ concat (map (\<lambda>c. if c = 39 then [39, 39] else [c]) s) @ [39]"

definition lexeme_text :: "lexeme \<Rightarrow> pystr" where
  "lexeme_text l = (if fst l = STRING then quoted (snd l) else snd l)"

definition print_lexemes :: "lexeme list \<Rightarrow> pystr" where
  "print_lexemes ls = concat (map (\<lambda>l. lexeme_text l @ [32]) ls)"

section \<open>Keywords\<close>

lemma keyword_mems [simp]:
  "str ''CREATE'' \<in> set sql_keywords" "str ''TABLE'' \<in> set sql_keywords" "str ''IF'' \<in> set sql_keywords" "str ''NOT'' \<in> set sql_keywords"
  "str ''EXISTS'' \<in> set sql_keywords" "str ''DROP'' \<in> set sql_keywords" "str ''INSERT'' \<in> set sql_keywords" "str ''INTO'' \<in> set sql_keywords"
  "str ''VALUES'' \<in> set sql_keywords" "str ''SELECT'' \<in> set sql_keywords" "str ''FROM'' \<in> set sql_keywords" "str ''WHERE'' \<in> set sql_keywords"
  "str ''ORDER'' \<in> set sql_keywords" "str ''BY'' \<in> set sql_keywords" "str ''ASC'' \<in> set sql_keywords" "str ''DESC'' \<in> set sql_keywords"
  "str ''LIMIT'' \<in> set sql_keywords" "str ''OFFSET'' \<in> set sql_keywords" "str ''GROUP'' \<in> set sql_keywords" "str ''UPDATE'' \<in> set sql_keywords"
  "str ''SET'' \<in> set sql_keywords" "str ''DELETE'' \<in> set sql_keywords" "str ''AND'' \<in> set sql_keywords" "str ''OR'' \<in> set sql_keywords"
  "str ''NULL'' \<in> set sql_keywords" "str ''IS'' \<in> set sql_keywords" "str ''IN'' \<in> set sql_keywords" "str ''BETWEEN'' \<in> set sql_keywords"
  "str ''TRUE'' \<in> set sql_keywords" "str ''FALSE'' \<in> set sql_keywords" "str ''PRIMARY'' \<in> set sql_keywords" "str ''KEY'' \<in> set sql_keywords"
  "str ''UNIQUE'' \<in> set sql_keywords" "str ''CHECKPOINT'' \<in> set sql_keywords" "str ''BEGIN'' \<in> set sql_keywords" "str ''TRANSACTION'' \<in> set sql_keywords"
  "str ''COMMIT'' \<in> set sql_keywords" "str ''END'' \<in> set sql_keywords" "str ''ROLLBACK'' \<in> set sql_keywords" "str ''AVG'' \<in> set sql_keywords"
  "str ''SUM'' \<in> set sql_keywords" "str ''COUNT'' \<in> set sql_keywords" "str ''AS'' \<in> set sql_keywords" "str ''JOIN'' \<in> set sql_keywords"
  "str ''ON'' \<in> set sql_keywords" "str ''LEFT'' \<in> set sql_keywords" "str ''INNER'' \<in> set sql_keywords" "str ''EXPLAIN'' \<in> set sql_keywords"
  by (simp_all add: sql_keywords_def)

lemma keywords_upper: "list_all (\<lambda>w. w \<noteq> [] \<and> list_all ascii_upper w) sql_keywords"
  by (simp add: sql_keywords_def str_def ascii_upper_def)

lemma keyword_upper: "w \<in> set sql_keywords \<Longrightarrow> w \<noteq> [] \<and> list_all ascii_upper w"
  using keywords_upper unfolding list_all_iff by blast

lemma py_upper_ascii: "list_all ascii_upper w \<Longrightarrow> py_upper u w = w"
  by (induction w) (auto simp: py_upper_def ch_upper_def ascii_upper_def ascii_lower_def)

lemma upper_keyword [simp]: "w \<in> set sql_keywords \<Longrightarrow> py_upper u w = w"
  using keyword_upper py_upper_ascii by blast

lemma ascii_upper_word: "ascii_upper c \<Longrightarrow> is_word u c \<and> is_word_start u c \<and> \<not> ch_isdigit u c"
  by (auto simp: ascii_upper_def is_word_def is_word_start_def ch_isalnum_def ch_isalpha_def ch_isdigit_def ascii_digit_def)

section \<open>One lexeme\<close>

lemma not_word_blank [simp]: "\<not> is_word u 32" "\<not> is_numeric u 32" "is_space 32"
  by (simp_all add: is_word_def is_numeric_def ch_isalnum_def ch_isdigit_def ascii_upper_def ascii_lower_def
      ascii_digit_def is_space_def)

lemma word_start_class:
  "is_word_start u c \<Longrightarrow> \<not> is_space c \<and> c \<noteq> 45 \<and> c \<noteq> 39 \<and> c \<noteq> 46"
  by (auto simp: is_word_start_def is_space_def ch_isalpha_def ascii_upper_def ascii_lower_def)

lemma digit_class: "ch_isdigit u c \<Longrightarrow> \<not> is_space c \<and> c \<noteq> 45 \<and> c \<noteq> 39"
  by (auto simp: is_space_def ch_isdigit_def ascii_digit_def)

lemma span_blank:
  "list_all P w \<Longrightarrow> \<not> P 32 \<Longrightarrow> takeWhile P (w @ 32 # r) = w \<and> dropWhile P (w @ 32 # r) = 32 # r"
  by (induction w) auto

lemma lex_word:
  assumes "is_word_start u c" and "\<not> ch_isdigit u c" and "list_all (is_word u) w"
  shows "lex u (c # w @ 32 # r) line col
    = rbind (lex u (32 # r) line (col + length (c # w))) (\<lambda>ts. Inr (word_token u (c # w) line col # ts))"
proof -
  have "\<not> starts_number u (c # w @ 32 # r)" using assms word_start_class [OF assms(1)] by (auto simp: starts_number_def)
  then show ?thesis
    using assms word_start_class [OF assms(1)] span_blank [OF assms(3), of r] by (simp add: lex.simps(2) Let_def)
qed

lemma lex_number:
  assumes "number_ok u w"
  shows "lex u (w @ 32 # r) line col
    = rbind (lex u (32 # r) line (col + length w)) (\<lambda>ts. Inr (mk_token NUMBER w line col # ts))"
proof -
  obtain c w' where w: "w = c # w'" using assms by (cases w) (auto simp: number_ok_def starts_number_def)
  have n: "list_all (is_numeric u) w'" using assms by (simp add: w number_ok_def)
  have "\<not> is_space c \<and> c \<noteq> 45 \<and> c \<noteq> 39"
    using assms digit_class by (auto simp: w number_ok_def starts_number_def is_space_def)
  moreover have "starts_number u (c # w' @ 32 # r)"
    using assms by (cases w') (auto simp: w number_ok_def starts_number_def)
  ultimately show ?thesis using span_blank [OF n, of r] by (simp add: w lex.simps(2) Let_def)
qed

lemma lex_string_quoted:
  "\<exists>l c. lex_string (concat (map (\<lambda>c. if c = 39 then [39, 39] else [c]) s) @ 39 # 32 # r) line col = (s, 32 # r, l, c)"
proof (induction s arbitrary: line col)
  case (Cons x s)
  show ?case
  proof (cases "x = 39")
    case True
    obtain l c where "lex_string (concat (map (\<lambda>c. if c = 39 then [39, 39] else [c]) s) @ 39 # 32 # r) line (col + 2) = (s, 32 # r, l, c)"
      using Cons by blast
    then show ?thesis using True by simp
  next
    case False
    have "\<exists>l' c'. lex_string (concat (map (\<lambda>c. if c = 39 then [39, 39] else [c]) s) @ 39 # 32 # r) l c = (s, 32 # r, l', c')" for l c
      by (rule Cons)
    then show ?thesis using False by (auto split: prod.splits) (metis prod.inject)+
  qed
qed simp

lemma lex_operator:
  assumes "op \<in> set operators"
  shows "lex u (op @ 32 # r) line col
    = rbind (lex u (32 # r) line (col + length op)) (\<lambda>ts. Inr (mk_token OPERATOR op line col # ts))"
proof -
  obtain c op' where op: "op = c # op'" using assms by (cases op) (auto simp: operators_def str_def)
  have c: "c = 60 \<or> c = 61 \<or> c = 62" using assms by (auto simp: op operators_def str_def)
  have m: "match_operator (op @ 32 # r) = Some op"
    using assms by (auto simp: operators_def match_operator_def starts_with_def str_def)
  have "\<not> is_space c" "\<not> starts_number u (c # x)" "\<not> is_word_start u c" "c \<noteq> 45" "c \<noteq> 39" for x
    using c by (auto simp: is_space_def starts_number_def is_word_start_def ch_isdigit_def ch_isalpha_def
        ascii_digit_def ascii_upper_def ascii_lower_def)
  then show ?thesis using m by (simp add: op lex.simps(2))
qed

lemma lex_punct:
  assumes "v \<in> {str ''('', str '')'', str '','', str ''*'', str ''.''}"
  shows "lex u (v @ 32 # r) line col
    = rbind (lex u (32 # r) line (col + 1)) (\<lambda>ts. Inr (mk_token PUNCT v line col # ts))"
proof -
  obtain c where v: "v = [c]" and c: "c \<in> {40, 41, 44, 42, 46}" using assms by (auto simp: str_def)
  have "\<not> is_space c" "\<not> starts_number u (c # 32 # r)" "\<not> is_word_start u c" "c \<noteq> 45" "c \<noteq> 39" "is_punct c"
    "match_operator (c # 32 # r) = None"
    using c by (auto simp: is_space_def starts_number_def is_word_start_def ch_isdigit_def ch_isalpha_def is_punct_def
        ascii_digit_def ascii_upper_def ascii_lower_def match_operator_def operators_def starts_with_def str_def)
  then show ?thesis by (simp add: v lex.simps(2))
qed

lemma lex_keyword:
  assumes "v \<in> set sql_keywords"
  shows "lex u (v @ 32 # r) line col
    = rbind (lex u (32 # r) line (col + length v)) (\<lambda>ts. Inr (mk_token KEYWORD v line col # ts))"
proof -
  obtain c w where w: "v = c # w" using keyword_upper [OF assms] by (cases v) auto
  have "ascii_upper c" "list_all ascii_upper w" using keyword_upper [OF assms] by (simp_all add: w)
  then have "is_word_start u c" "\<not> ch_isdigit u c" "list_all (is_word u) w"
    using ascii_upper_word [of _ u] by (auto simp: list_all_iff)
  from lex_word [OF this, of r line col] show ?thesis using assms by (simp add: w word_token_def)
qed

lemma lex_name:
  assumes "name_ok u v"
  shows "lex u (v @ 32 # r) line col
    = rbind (lex u (32 # r) line (col + length v)) (\<lambda>ts. Inr (mk_token IDENT v line col # ts))"
proof -
  obtain c w where w: "v = c # w" using assms by (cases v) (auto simp: name_ok_def)
  have "is_word_start u c" "\<not> ch_isdigit u c" "list_all (is_word u) w" using assms by (simp_all add: w name_ok_def)
  from lex_word [OF this, of r line col] show ?thesis using assms by (simp add: w word_token_def name_ok_def)
qed

lemma lex_quoted:
  "\<exists>l c. lex u (quoted s @ 32 # r) line col = rbind (lex u (32 # r) l c) (\<lambda>ts. Inr (mk_token STRING s l col # ts))"
proof -
  obtain l c where "lex_string (concat (map (\<lambda>c. if c = 39 then [39, 39] else [c]) s) @ 39 # 32 # r) line (col + 1) = (s, 32 # r, l, c)"
    using lex_string_quoted by blast
  then have "lex u (quoted s @ 32 # r) line col = rbind (lex u (32 # r) l c) (\<lambda>ts. Inr (mk_token STRING s l col # ts))"
    by (simp add: quoted_def lex.simps(2) is_space_def)
  then show ?thesis by blast
qed

lemma lex_lexeme:
  assumes "lexeme_ok u l"
  obtains t l' c' where "lexeme t = l"
    and "lex u (lexeme_text l @ 32 # r) line col = rbind (lex u (32 # r) l' c') (\<lambda>ts. Inr (t # ts))"
proof -
  obtain ty v where l: "l = (ty, v)" by (cases l)
  have "\<exists>l0 l' c'. lex u (lexeme_text l @ 32 # r) line col = rbind (lex u (32 # r) l' c') (\<lambda>ts. Inr (mk_token ty v l0 col # ts))"
  proof (cases ty)
    case KEYWORD then show ?thesis using assms lex_keyword by (auto simp: l lexeme_text_def)
  next
    case IDENT then show ?thesis using assms lex_name by (auto simp: l lexeme_text_def)
  next
    case NUMBER then show ?thesis using assms lex_number by (auto simp: l lexeme_text_def)
  next
    case STRING then show ?thesis using lex_quoted [of u v r line col] by (auto simp: l lexeme_text_def)
  next
    case OPERATOR then show ?thesis using assms lex_operator by (auto simp: l lexeme_text_def)
  next
    case PUNCT
    then have "v \<in> {str ''('', str '')'', str '','', str ''*'', str ''.''}" using assms by (simp add: l)
    from lex_punct [OF this] PUNCT show ?thesis by (auto simp: l lexeme_text_def)
  qed (use assms l in simp)
  then show thesis using that by (metis l lexeme_mk_token)
qed

text \<open>The text of lexemes, ended with a semicolon, has these lexemes as its tokens.\<close>

lemma lex_print_lexemes:
  assumes "list_all (lexeme_ok u) ls"
  obtains ts t e where "lex u (print_lexemes ls @ [59]) line col = Inr (ts @ [t, e])"
    and "map lexeme ts = ls" and "lexeme t = (PUNCT, [59])" and "lexeme e = (EOF, [])"
proof -
  have "\<exists>ts t e. lex u (print_lexemes ls @ [59]) line col = Inr (ts @ [t, e]) \<and> map lexeme ts = ls
      \<and> lexeme t = (PUNCT, [59]) \<and> lexeme e = (EOF, [])" for line col
    using assms
  proof (induction ls arbitrary: line col)
    case Nil
    have "lex u [59] line col = Inr [mk_token PUNCT [59] line col, mk_token EOF [] line (col + 1)]"
      by (simp add: lex.simps(2) is_space_def starts_number_def is_word_start_def ch_isdigit_def ch_isalpha_def ascii_digit_def
          ascii_upper_def ascii_lower_def match_operator_def operators_def starts_with_def str_def is_punct_def)
    then show ?case by (intro exI [of _ "[]"]) (simp add: print_lexemes_def)
  next
    case (Cons l ls)
    let ?r = "print_lexemes ls @ [59]"
    have whole: "print_lexemes (l # ls) @ [59] = lexeme_text l @ 32 # ?r" by (simp add: print_lexemes_def)
    have "lexeme_ok u l" using Cons.prems by simp
    then obtain t l' c' where t: "lexeme t = l"
      "lex u (lexeme_text l @ 32 # ?r) line col = rbind (lex u (32 # ?r) l' c') (\<lambda>ts. Inr (t # ts))"
      by (rule lex_lexeme [where r = ?r and line = line and col = col])
    have "lex u (32 # ?r) l' c' = lex u ?r l' (c' + 1)" by (simp add: lex.simps(2))
    moreover obtain ts d e where "lex u ?r l' (c' + 1) = Inr (ts @ [d, e])" "map lexeme ts = ls"
      "lexeme d = (PUNCT, [59])" "lexeme e = (EOF, [])"
      using Cons by fastforce
    ultimately show ?case using t unfolding whole by (intro exI [of _ "t # ts"]) auto
  qed
  then show thesis using that by blast
qed

end
