(* ===== verification/ParseBack.thy ===== *)
theory ParseBack
  imports Unparse
begin

text \<open>
  A printer for the expressions and statements of the syntax, with parentheses only where the
  grammar needs them, and the proof that the parser reads the printed text back.
\<close>

section \<open>What a parser reads\<close>

text \<open>
  \<open>reads p ls Q S\<close>: on tokens with the lexemes \<open>ls\<close>, followed by a token whose lexeme is in \<open>S\<close>,
  the parser \<open>p\<close> consumes exactly these tokens and returns a value with \<open>Q\<close>.
\<close>

definition reads :: "'a px \<Rightarrow> lexeme list \<Rightarrow> ('a \<Rightarrow> bool) \<Rightarrow> lexeme set \<Rightarrow> bool" where
  "reads p ls Q S \<longleftrightarrow>
     (\<forall>ts rest. map lexeme ts = ls \<longrightarrow> rest \<noteq> [] \<longrightarrow> lexeme (hd rest) \<in> S \<longrightarrow>
        (\<exists>x. p (ts @ rest) = (Inr x, rest) \<and> Q x))"

text \<open>The lexemes that may come next.\<close>

definition heads :: "lexeme list \<Rightarrow> lexeme set \<Rightarrow> lexeme set" where
  "heads ls S = (if ls = [] then S else {hd ls})"

lemma heads_simps [simp]: "heads [] S = S" "heads (l # ls) S = {l}"
  by (simp_all add: heads_def)

lemma heads_append [simp]: "heads (as @ bs) S = heads as (heads bs S)"
  by (simp add: heads_def)

lemma readsI:
  "(\<And>ts rest. map lexeme ts = ls \<Longrightarrow> rest \<noteq> [] \<Longrightarrow> lexeme (hd rest) \<in> S \<Longrightarrow>
     \<exists>x. p (ts @ rest) = (Inr x, rest) \<and> Q x) \<Longrightarrow> reads p ls Q S"
  by (simp add: reads_def)

lemma readsD:
  assumes "reads p ls Q S" and "map lexeme ts = ls" and "rest \<noteq> []" and "lexeme (hd rest) \<in> S"
  obtains x where "p (ts @ rest) = (Inr x, rest)" and "Q x"
  using assms unfolding reads_def by blast

lemma reads_weaken: "reads p ls P S \<Longrightarrow> (\<And>x. P x \<Longrightarrow> Q x) \<Longrightarrow> T \<subseteq> S \<Longrightarrow> reads p ls Q T"
  unfolding reads_def by blast

lemma next_lexeme:
  "map lexeme ts = ls \<Longrightarrow> rest \<noteq> [] \<Longrightarrow> lexeme (hd rest) \<in> S \<Longrightarrow>
   lexeme (first_token (ts @ rest)) \<in> heads ls S"
  by (cases ts; cases rest) (auto simp: first_token_def)

lemma reads_bind:
  assumes p: "reads p as P (heads bs S)" and f: "\<And>x. P x \<Longrightarrow> reads (f x) bs Q S"
  shows "reads (sbind p f) (as @ bs) Q S"
proof (rule readsI)
  fix ts rest
  assume ts: "map lexeme ts = as @ bs" "rest \<noteq> []" "lexeme (hd rest) \<in> S"
  then obtain xs ys where xs: "ts = xs @ ys" "map lexeme xs = as" "map lexeme ys = bs" by (auto simp: map_eq_append_conv)
  have "lexeme (hd (ys @ rest)) \<in> heads bs S"
    using next_lexeme [OF xs(3) ts(2,3)] ts(2) by (cases ys; cases rest; simp add: first_token_def)
  then obtain x where x: "p (xs @ ys @ rest) = (Inr x, ys @ rest)" "P x"
    using readsD [OF p xs(2), of "ys @ rest"] ts(2) by auto
  obtain y where "f x (ys @ rest) = (Inr y, rest)" "Q y" using readsD [OF f [OF x(2)] xs(3) ts(2,3)] by blast
  then show "\<exists>y. sbind p f (ts @ rest) = (Inr y, rest) \<and> Q y" using x by (simp add: xs(1))
qed

lemma reads_sret [intro]: "Q x \<Longrightarrow> reads (sret x) [] Q S"
  by (simp add: reads_def)

lemma reads_Pair [intro]: "Q x \<Longrightarrow> reads (Pair (Inr x)) [] Q S"
  by (simp add: reads_def)

lemma reads_slift: "r = Inr x \<Longrightarrow> Q x \<Longrightarrow> reads (slift r) [] Q S"
  by (simp add: reads_def)

lemma reads_done: "reads p as ((=) x) (heads [] S) \<Longrightarrow> Q (f x) \<Longrightarrow> reads (sbind p (\<lambda>x. sret (f x))) as Q S"
  using reads_bind [of p as "(=) x" "[]" S "\<lambda>x. sret (f x)" Q] by auto

lemma reads_advance: "reads advance [l] (\<lambda>t. lexeme t = l) S"
  by (rule readsI) (auto simp: advance_def first_token_def Suc_le_eq)

lemma reads_then_advance:
  "(\<And>t. lexeme t = l \<Longrightarrow> reads (f t) ls Q S) \<Longrightarrow> reads (sbind advance f) (l # ls) Q S"
  using reads_bind [OF reads_advance, where f = f and bs = ls and S = S and Q = Q] by simp

lemma reads_peek:
  assumes "\<And>t. lexeme t \<in> heads ls S \<Longrightarrow> reads (f t) ls Q S"
  shows "reads (sbind peek f) ls Q S"
proof (rule readsI)
  fix ts rest
  assume ts: "map lexeme ts = ls" "rest \<noteq> []" "lexeme (hd rest) \<in> S"
  then have "reads (f (first_token (ts @ rest))) ls Q S" by (intro assms next_lexeme)
  then show "\<exists>x. sbind peek f (ts @ rest) = (Inr x, rest) \<and> Q x"
    using ts by (auto simp: peek_def elim: readsD)
qed

lemma reads_length:
  assumes "\<And>n. length ls < n \<Longrightarrow> reads (f n) ls Q S"
  shows "reads (sbind sget (\<lambda>ts. f (length ts))) ls Q S" and "reads (\<lambda>ts. f (length ts) ts) ls Q S"
proof -
  have "\<exists>x. f (length (ts @ rest)) (ts @ rest) = (Inr x, rest) \<and> Q x"
    if "map lexeme ts = ls" "rest \<noteq> []" "lexeme (hd rest) \<in> S" for ts rest
    by (rule readsD [OF assms [of "length (ts @ rest)"] that(1)]) (use that in \<open>auto simp: Suc_le_eq\<close>)
  then show "reads (sbind sget (\<lambda>ts. f (length ts))) ls Q S" "reads (\<lambda>ts. f (length ts) ts) ls Q S"
    by (auto simp: reads_def)
qed

section \<open>Keywords, punctuation and names\<close>

text \<open>The lexemes a test for a keyword accepts.\<close>

definition is_kw :: "runtime \<Rightarrow> string \<Rightarrow> lexeme \<Rightarrow> bool" where
  "is_kw u k l \<longleftrightarrow> fst l = KEYWORD \<and> py_upper u (snd l) = str k"

lemma is_keyword_lexeme: "is_keyword u k t = is_kw u k (lexeme t)"
  by (simp add: is_keyword_def is_kw_def lexeme_def)

lemma is_kw_other [simp]: "ty \<noteq> KEYWORD \<Longrightarrow> \<not> is_kw u k (ty, v)"
  by (simp add: is_kw_def)

lemma is_kw_kw [simp]: "str j \<in> set sql_keywords \<Longrightarrow> is_kw u k (kw j) \<longleftrightarrow> j = k"
  by (simp add: is_kw_def)

lemma reads_match_yes:
  assumes "is_kw u k l" and "reads (f True) ls Q S"
  shows "reads (sbind (match_keyword u k) f) (l # ls) Q S"
proof -
  have "reads (match_keyword u k) ([l] @ []) ((=) True) (heads ls S)"
    unfolding match_keyword_def append_Nil2
  proof (rule reads_peek)
    fix t assume "lexeme t \<in> heads [l] (heads ls S)"
    then have "lexeme t = l" by simp
    then have "is_keyword u k t" using assms(1) by (simp add: is_keyword_lexeme)
    then show "reads (if is_keyword u k t then sbind advance (\<lambda>_. sret True) else sret False) [l] ((=) True) (heads ls S)"
      by (auto intro: reads_then_advance)
  qed
  then have "reads (match_keyword u k) [l] ((=) True) (heads ls S)" by simp
  from reads_bind [OF this, where f = f and Q = Q] show ?thesis using assms(2) by simp
qed

lemma reads_match_no:
  assumes "\<And>l. l \<in> heads ls S \<Longrightarrow> \<not> is_kw u k l" and "reads (f False) ls Q S"
  shows "reads (sbind (match_keyword u k) f) ls Q S"
proof -
  have "reads (match_keyword u k) [] ((=) False) (heads ls S)"
    unfolding match_keyword_def by (rule reads_peek) (auto simp: is_keyword_lexeme assms(1))
  from reads_bind [OF this, where f = f and Q = Q] show ?thesis using assms(2) by simp
qed

lemma reads_match:
  assumes "is_kw u k l \<Longrightarrow> reads (f True) ls Q S" and "\<not> is_kw u k l \<Longrightarrow> reads (f False) (l # ls) Q S"
  shows "reads (sbind (match_keyword u k) f) (l # ls) Q S"
  using assms by (cases "is_kw u k l") (auto intro: reads_match_yes reads_match_no)

lemma reads_match_end:
  "(\<And>l. l \<in> S \<Longrightarrow> \<not> is_kw u k l) \<Longrightarrow> reads (f False) [] Q S \<Longrightarrow> reads (sbind (match_keyword u k) f) [] Q S"
  by (rule reads_match_no) simp_all

lemma reads_keyword:
  assumes "is_kw u k l"
  shows "reads (expect_keyword u k) [l] (\<lambda>t. lexeme t = l) S"
  unfolding expect_keyword_def by (rule reads_peek) (use assms reads_advance in \<open>auto simp: is_keyword_lexeme\<close>)

lemma reads_expect:
  assumes "v = None \<or> v = Some (snd l)"
  shows "reads (expect (fst l) v) [l] (\<lambda>t. lexeme t = l) S"
  unfolding expect_def
  by (rule reads_peek) (use assms reads_advance in \<open>auto simp: lexeme_def split: option.split\<close>)

lemma reads_expect_punct: "reads (expect_punct p) [punct p] (\<lambda>t. lexeme t = punct p) S"
  using reads_expect [of "Some (str p)" "punct p" S] by (simp add: expect_punct_def)

lemma reads_ident: "reads parse_ident [(IDENT, n)] ((=) n) S"
proof -
  have "reads (expect IDENT None) [(IDENT, n)] (\<lambda>t. lexeme t = (IDENT, n)) (heads [] S)"
    using reads_expect [of None "(IDENT, n)"] by simp
  from reads_bind [OF this, where f = "\<lambda>t. sret (tok_value t)" and Q = "(=) n"] show ?thesis
    by (auto simp: parse_ident_def lexeme_def)
qed

text \<open>The parser for one lexeme, and then the rest.\<close>

lemma reads_then_keyword:
  "is_kw u k l \<Longrightarrow> (\<And>t. reads (f t) ls Q S) \<Longrightarrow> reads (sbind (expect_keyword u k) f) (l # ls) Q S"
  using reads_bind [OF reads_keyword, where f = f and bs = ls and S = S and Q = Q] by simp

lemma reads_then_punct:
  "(\<And>t. reads (f t) ls Q S) \<Longrightarrow> reads (sbind (expect_punct p) f) (punct p # ls) Q S"
  using reads_bind [OF reads_expect_punct, where f = f and bs = ls and S = S and Q = Q] by simp

lemma reads_then_ident:
  "reads (f n) ls Q S \<Longrightarrow> reads (sbind parse_ident f) ((IDENT, n) # ls) Q S"
  using reads_bind [OF reads_ident, where f = f and bs = ls and S = S and Q = Q] by auto

section \<open>Lists with commas\<close>

definition comma_lexemes :: "('a \<Rightarrow> lexeme list) \<Rightarrow> 'a list \<Rightarrow> lexeme list" where
  "comma_lexemes pr xs = (case xs of [] \<Rightarrow> [] | x # ys \<Rightarrow> pr x @ concat (map (\<lambda>y. punct '','' # pr y) ys))"

lemma reads_match_punct_yes:
  assumes "reads (f True) ls Q S"
  shows "reads (sbind (match_punct p) f) (punct p # ls) Q S"
  unfolding match_punct_def sbind_assoc
proof (rule reads_peek)
  fix t assume "lexeme t \<in> heads (punct p # ls) S"
  then have "is_punct_token p t" by (simp add: is_punct_token_def lexeme_def)
  then show "reads (sbind (if is_punct_token p t then sbind advance (\<lambda>_. sret True) else sret False) f) (punct p # ls) Q S"
    using assms by (simp add: reads_then_advance)
qed

lemma reads_match_punct_no:
  assumes "punct p \<notin> heads ls S" and "reads (f False) ls Q S"
  shows "reads (sbind (match_punct p) f) ls Q S"
  unfolding match_punct_def sbind_assoc
proof (rule reads_peek)
  fix t assume "lexeme t \<in> heads ls S"
  then have "\<not> is_punct_token p t" using assms(1) by (auto simp: is_punct_token_def lexeme_def)
  then show "reads (sbind (if is_punct_token p t then sbind advance (\<lambda>_. sret True) else sret False) f) ls Q S"
    using assms(2) by simp
qed

lemma reads_comma_rest:
  assumes "\<And>x. x \<in> set xs \<Longrightarrow> reads p (pr x) ((=) x) (insert (punct '','') S)"
    and "punct '','' \<notin> S" and "length xs < n"
  shows "reads (comma_rest n p) (concat (map (\<lambda>x. punct '','' # pr x) xs)) ((=) xs) S"
  using assms
proof (induction xs arbitrary: n)
  case Nil
  then obtain m where "n = Suc m" by (cases n) auto
  then show ?case using Nil by (auto intro!: reads_match_punct_no)
next
  case (Cons x xs)
  then obtain m where n: "n = Suc m" "length xs < m" by (cases n) auto
  let ?ls = "concat (map (\<lambda>x. punct '','' # pr x) xs)"
  have rest: "reads (comma_rest m p) ?ls ((=) xs) S" by (rule Cons.IH) (use Cons.prems n in auto)
  have "heads ?ls S \<subseteq> insert (punct '','') S" by (cases xs) auto
  then have "reads p (pr x) ((=) x) (heads ?ls S)" using Cons.prems(1) by (meson list.set_intros(1) reads_weaken)
  then have "reads (sbind p (\<lambda>x. sbind (comma_rest m p) (\<lambda>xs. sret (x # xs)))) (pr x @ ?ls) ((=) (x # xs)) S"
    by (rule reads_bind) (use rest in \<open>auto intro: reads_done\<close>)
  then show ?case by (simp add: n reads_match_punct_yes)
qed

lemma reads_comma_list:
  assumes "\<And>x. x \<in> set xs \<Longrightarrow> reads p (pr x) ((=) x) (insert (punct '','') S)"
    and "punct '','' \<notin> S" and "xs \<noteq> []"
  shows "reads (comma_list p) (comma_lexemes pr xs) ((=) xs) S"
proof -
  obtain x ys where xs: "xs = x # ys" using assms(3) by (cases xs) auto
  let ?ls = "concat (map (\<lambda>y. punct '','' # pr y) ys)"
  have "length ys \<le> length ?ls" by (induction ys) auto
  then have rest: "reads (comma_rest (n + 1) p) ?ls ((=) ys) S" if "length ?ls < n" for n
    by (intro reads_comma_rest) (use that assms xs in auto)
  have "heads ?ls S \<subseteq> insert (punct '','') S" by (cases ys) auto
  then have "reads p (pr x) ((=) x) (heads ?ls S)" using assms(1) xs by (meson list.set_intros(1) reads_weaken)
  then have "reads (comma_list p) (pr x @ ?ls) ((=) (x # ys)) S"
    unfolding comma_list_def
  proof (rule reads_bind)
    fix x' assume "x = x'"
    then show "reads (sbind sget (\<lambda>ts. sbind (comma_rest (length ts + 1) p) (\<lambda>xs. sret (x' # xs)))) ?ls ((=) (x # ys)) S"
      using rest by (intro reads_length(1) [where f = "\<lambda>n. sbind (comma_rest (n + 1) p) (\<lambda>xs. sret (x' # xs))"] reads_done) auto
  qed
  then show ?thesis by (simp add: xs comma_lexemes_def)
qed

section \<open>Values and expressions as lexemes\<close>

text \<open>How tightly an expression binds: OR, AND, a comparison, or a primary expression.\<close>

fun expr_level :: "expr \<Rightarrow> nat" where
  "expr_level (LogicalOp op a b) = (if op = str ''OR'' then 0 else 1)"
| "expr_level (BinaryOp op a b) = 2"
| "expr_level (InPredicate a vs negated) = 2"
| "expr_level _ = 3"

definition paren_at :: "nat \<Rightarrow> expr \<Rightarrow> lexeme list \<Rightarrow> lexeme list" where
  "paren_at k e ls = (if k \<le> expr_level e then ls else punct ''('' # ls @ [punct '')''])"

definition bool_kw :: "bool \<Rightarrow> lexeme" where
  "bool_kw b = (if b then kw ''TRUE'' else kw ''FALSE'')"

text \<open>A value in a list of values; a literal in an expression keeps its text.\<close>

fun value_lexeme :: "runtime \<Rightarrow> pyval \<Rightarrow> lexeme" where
  "value_lexeme u (PInt i) = (NUMBER, nat_digits (nat i))"
| "value_lexeme u (PFloat b) = (NUMBER, rt_str_float u b)"
| "value_lexeme u (PText s) = (STRING, s)"
| "value_lexeme u (PBool b) = bool_kw b"
| "value_lexeme u PNone = kw ''NULL''"

fun literal_lexeme :: "pyval \<Rightarrow> pystr \<Rightarrow> lexeme" where
  "literal_lexeme (PText s) raw = (STRING, s)"
| "literal_lexeme (PBool b) raw = bool_kw b"
| "literal_lexeme PNone raw = kw ''NULL''"
| "literal_lexeme v raw = (NUMBER, raw)"

fun expr_lexemes :: "runtime \<Rightarrow> expr \<Rightarrow> lexeme list" where
  "expr_lexemes u (Column n) = [(IDENT, n)]"
| "expr_lexemes u (QualifiedColumn t n) = (case t of None \<Rightarrow> [] | Some t \<Rightarrow> [(IDENT, t), punct ''.'']) @ [(IDENT, n)]"
| "expr_lexemes u (SqlLiteral v raw) = [literal_lexeme v raw]"
| "expr_lexemes u (BinaryOp op a b) =
     paren_at 3 a (expr_lexemes u a)
     @ (if op = str ''IS NULL'' then [kw ''IS'', kw ''NULL'']
        else if op = str ''IS NOT NULL'' then [kw ''IS'', kw ''NOT'', kw ''NULL'']
        else (OPERATOR, op) # paren_at 3 b (expr_lexemes u b))"
| "expr_lexemes u (LogicalOp op a b) =
     (let k = (if op = str ''OR'' then 0 else 1) in
      paren_at k a (expr_lexemes u a) @ (KEYWORD, op) # paren_at (k + 1) b (expr_lexemes u b))"
| "expr_lexemes u (InPredicate a vs negated) =
     paren_at 3 a (expr_lexemes u a) @ (if negated then [kw ''NOT''] else [])
     @ [kw ''IN'', punct ''(''] @ comma_lexemes (\<lambda>v. [value_lexeme u v]) vs @ [punct '')'']"
| "expr_lexemes u _ = []"

text \<open>The values and expressions that have a text: the parser makes no others.\<close>

fun value_ok :: "runtime \<Rightarrow> pyval \<Rightarrow> bool" where
  "value_ok u (PInt i) \<longleftrightarrow> 0 \<le> i \<and> parse_number u (nat_digits (nat i)) = Inr (PInt i)"
| "value_ok u (PFloat b) \<longleftrightarrow> number_ok u (rt_str_float u b) \<and> parse_number u (rt_str_float u b) = Inr (PFloat b)"
| "value_ok u v \<longleftrightarrow> True"

fun literal_ok :: "runtime \<Rightarrow> pyval \<Rightarrow> pystr \<Rightarrow> bool" where
  "literal_ok u (PText s) raw \<longleftrightarrow> raw = 39 # s @ [39]"
| "literal_ok u (PBool b) raw \<longleftrightarrow> raw = (if b then str ''TRUE'' else str ''FALSE'')"
| "literal_ok u PNone raw \<longleftrightarrow> raw = str ''NULL''"
| "literal_ok u v raw \<longleftrightarrow> number_ok u raw \<and> parse_number u raw = Inr v"

fun expr_ok :: "runtime \<Rightarrow> expr \<Rightarrow> bool" where
  "expr_ok u (Column n) \<longleftrightarrow> name_ok u n"
| "expr_ok u (QualifiedColumn t n) \<longleftrightarrow> (case t of None \<Rightarrow> False | Some t \<Rightarrow> name_ok u t) \<and> name_ok u n"
| "expr_ok u (SqlLiteral v raw) \<longleftrightarrow> literal_ok u v raw"
| "expr_ok u (BinaryOp op a b) \<longleftrightarrow> expr_ok u a
     \<and> (if op = str ''IS NULL'' \<or> op = str ''IS NOT NULL'' then b = SqlLiteral PNone (str ''NULL'')
        else op \<in> set operators \<and> expr_ok u b)"
| "expr_ok u (LogicalOp op a b) \<longleftrightarrow> op \<in> {str ''OR'', str ''AND''} \<and> expr_ok u a \<and> expr_ok u b"
| "expr_ok u (InPredicate a vs negated) \<longleftrightarrow> expr_ok u a \<and> vs \<noteq> [] \<and> list_all (value_ok u) vs"
| "expr_ok u _ \<longleftrightarrow> False"

section \<open>Values are read back\<close>

lemma reads_value:
  assumes "value_ok u v"
  shows "reads (parse_value u) [value_lexeme u v] ((=) v) S"
  unfolding parse_value_def
proof (rule reads_peek)
  fix t assume "lexeme t \<in> heads [value_lexeme u v] S"
  then have t: "tok_type t = fst (value_lexeme u v)" "tok_value t = snd (value_lexeme u v)"
    by (simp_all add: lexeme_def prod_eq_iff)
  show "reads (if tok_type t = NUMBER then sbind advance (\<lambda>_. slift (parse_number u (tok_value t)))
     else if tok_type t = STRING then sbind advance (\<lambda>_. sret (PText (tok_value t)))
     else if is_value_keyword t ''TRUE'' \<or> is_value_keyword t ''FALSE''
       then sbind advance (\<lambda>_. sret (PBool (tok_value t = str ''TRUE'')))
     else if is_value_keyword t ''NULL'' then sbind advance (\<lambda>_. sret PNone)
     else sraise (perror (UnexpectedValue (tok_value t)) t)) [value_lexeme u v] ((=) v) S"
    using assms
    by (cases v) (auto simp: t is_value_keyword_def bool_kw_def intro!: reads_then_advance reads_slift)
qed

lemma reads_in_list:
  assumes "vs \<noteq> []" and "list_all (value_ok u) vs"
  shows "reads (parse_in_list u) (punct ''('' # comma_lexemes (\<lambda>v. [value_lexeme u v]) vs @ [punct '')'']) ((=) vs) S"
proof -
  have "reads (comma_list (parse_value u)) (comma_lexemes (\<lambda>v. [value_lexeme u v]) vs) ((=) vs) {punct '')''}"
    by (rule reads_comma_list) (use assms reads_value in \<open>auto simp: list_all_iff\<close>)
  then show ?thesis
    unfolding parse_in_list_def
    by (intro reads_then_punct reads_bind [where S = S and P = "(=) vs"]) (auto intro: reads_then_punct)
qed

section \<open>Expressions are read back\<close>

text \<open>What may follow a primary expression, a comparison, and the operand of AND and of OR.\<close>

definition prim_follow :: "lexeme set" where
  "prim_follow = {l. l \<noteq> punct ''.''}"

definition comp_follow :: "runtime \<Rightarrow> lexeme set" where
  "comp_follow u = {l. l \<noteq> punct ''.'' \<and> fst l \<noteq> OPERATOR
     \<and> \<not> is_kw u ''IS'' l \<and> \<not> is_kw u ''NOT'' l \<and> \<not> is_kw u ''IN'' l \<and> \<not> is_kw u ''BETWEEN'' l}"

definition and_follow :: "runtime \<Rightarrow> lexeme set" where
  "and_follow u = comp_follow u \<inter> {l. \<not> is_kw u ''AND'' l}"

definition or_follow :: "runtime \<Rightarrow> lexeme set" where
  "or_follow u = and_follow u \<inter> {l. \<not> is_kw u ''OR'' l}"

lemmas follow_defs = prim_follow_def comp_follow_def and_follow_def or_follow_def

text \<open>
  \<open>chains u k p ls e S\<close>: after the lexemes \<open>ls\<close> the loop over the keyword \<open>k\<close> stands at \<open>e\<close>, with
  enough rounds left for the rest of the tokens.
\<close>

definition chains :: "runtime \<Rightarrow> string \<Rightarrow> expr px \<Rightarrow> lexeme list \<Rightarrow> expr \<Rightarrow> lexeme set \<Rightarrow> bool" where
  "chains u k p ls e S \<longleftrightarrow>
     (\<forall>ts rest. map lexeme ts = ls \<longrightarrow> rest \<noteq> [] \<longrightarrow> lexeme (hd rest) \<in> S \<longrightarrow>
        (\<exists>m > length rest. logical_with u k p (ts @ rest) = logical_rest u k m p e rest))"

lemma chainsD:
  assumes "chains u k p ls e S" and "map lexeme ts = ls" and "rest \<noteq> []" and "lexeme (hd rest) \<in> S"
  obtains m where "length rest < m" and "logical_with u k p (ts @ rest) = logical_rest u k m p e rest"
  using assms unfolding chains_def by blast

lemma chains_base: "reads p ls ((=) e) S \<Longrightarrow> chains u k p ls e S"
  unfolding chains_def
proof (intro allI impI)
  fix ts rest
  assume p: "reads p ls ((=) e) S" and ts: "map lexeme ts = ls" "rest \<noteq> []" "lexeme (hd rest) \<in> S"
  from readsD [OF p ts] have "p (ts @ rest) = (Inr e, rest)" by metis
  then have "logical_with u k p (ts @ rest) = logical_rest u k (length rest + 1) p e rest"
    by (simp add: logical_with_def)
  then show "\<exists>m > length rest. logical_with u k p (ts @ rest) = logical_rest u k m p e rest" by force
qed

lemma match_keyword_eval:
  "is_kw u k (lexeme t) \<Longrightarrow> r \<noteq> [] \<Longrightarrow> match_keyword u k (t # r) = (Inr True, r)"
  "\<not> is_kw u k (lexeme (hd r)) \<Longrightarrow> r \<noteq> [] \<Longrightarrow> match_keyword u k r = (Inr False, r)"
  by (auto simp: match_keyword_def peek_def advance_def first_token_def is_keyword_lexeme [symmetric] Suc_le_eq
      split: list.split)

lemma chains_step:
  assumes a: "chains u k p as a T" and b: "reads p bs ((=) b) S"
    and k: "kw k \<in> T" "is_kw u k (kw k)"
  shows "chains u k p (as @ kw k # bs) (LogicalOp (str k) a b) S"
  unfolding chains_def
proof (intro allI impI)
  fix ts rest
  assume ts: "map lexeme ts = as @ kw k # bs" "rest \<noteq> []" "lexeme (hd rest) \<in> S"
  obtain xs t ys where x: "ts = xs @ t # ys" "map lexeme xs = as" "lexeme t = kw k" "map lexeme ys = bs"
    using ts(1) by (auto simp: map_eq_append_conv map_eq_Cons_conv)
  let ?rest = "t # ys @ rest"
  have rest: "?rest \<noteq> []" "lexeme (hd ?rest) \<in> T" using x(3) k(1) by simp_all
  obtain m where m: "length ?rest < m" "logical_with u k p (xs @ ?rest) = logical_rest u k m p a ?rest"
    by (rule chainsD [OF a x(2) rest])
  then obtain n where n: "m = Suc n" "length rest < n" by (cases m) auto
  from readsD [OF b x(4) ts(2,3)] have "p (ys @ rest) = (Inr b, rest)" by metis
  moreover have "match_keyword u k ?rest = (Inr True, ys @ rest)"
    using match_keyword_eval(1) k(2) x(3) ts(2) by simp
  ultimately have "logical_rest u k m p a ?rest = logical_rest u k n p (LogicalOp (str k) a b) rest"
    unfolding n(1) logical_rest.simps by (simp only: sbind_Inr if_True)
  then show "\<exists>m > length rest. logical_with u k p (ts @ rest) = logical_rest u k m p (LogicalOp (str k) a b) rest"
    using m(2) n(2) unfolding x(1) by (intro exI [of _ n]) (simp only: simp_thms append.assoc append_Cons)
qed

lemma chains_reads:
  assumes "chains u k p ls e S" and "T \<subseteq> S" and "\<And>l. l \<in> T \<Longrightarrow> \<not> is_kw u k l"
  shows "reads (logical_with u k p) ls ((=) e) T"
proof (rule readsI)
  fix ts rest
  assume ts: "map lexeme ts = ls" "rest \<noteq> []" "lexeme (hd rest) \<in> T"
  then obtain m where m: "length rest < m" "logical_with u k p (ts @ rest) = logical_rest u k m p e rest"
    using assms(1,2) unfolding chains_def by blast
  then obtain n where "m = Suc n" by (cases m) auto
  then have "logical_rest u k m p e rest = (Inr e, rest)"
    using match_keyword_eval(2) [of u k rest] assms(3) ts by simp
  then show "\<exists>x. logical_with u k p (ts @ rest) = (Inr x, rest) \<and> e = x" using m by simp
qed

text \<open>A comparison that is only its left operand.\<close>

lemma reads_comparison_prim:
  assumes "reads prim ls ((=) e) prim_follow"
  shows "reads (comparison_with u prim) ls ((=) e) (comp_follow u)"
proof -
  have "reads prim ls ((=) e) (heads [] (comp_follow u))"
    by (rule reads_weaken [OF assms]) (auto simp: follow_defs)
  then have "reads (comparison_with u prim) (ls @ []) ((=) e) (comp_follow u)"
    unfolding comparison_with_def
    by (rule reads_bind) (auto intro!: reads_match_no reads_peek reads_sret simp: follow_defs lexeme_def)
  then show ?thesis by simp
qed

lemma token_lexeme: "lexeme t = (ty, v) \<longleftrightarrow> tok_type t = ty \<and> tok_value t = v"
  by (simp add: lexeme_def)

lemma reads_literal:
  assumes "literal_ok u v raw"
  shows "reads (primary u (Suc n)) [literal_lexeme v raw] ((=) (SqlLiteral v raw)) S"
  unfolding primary.simps
  by (rule reads_peek, insert assms, cases v)
    (auto simp: token_lexeme is_value_keyword_def bool_kw_def intro!: reads_then_advance reads_slift reads_sret)

lemma reads_column: "reads (primary u (Suc n)) [(IDENT, c)] ((=) (Column c)) prim_follow"
  unfolding primary.simps
  by (rule reads_peek)
    (auto simp: token_lexeme is_value_keyword_def prim_follow_def is_punct_token_def
      intro!: reads_then_advance reads_sret reads_peek)

lemma reads_qualified:
  "reads (primary u (Suc n)) [(IDENT, t), punct ''.'', (IDENT, c)] ((=) (QualifiedColumn (Some t) c)) S"
proof -
  have "reads (sbind (expect IDENT None) (\<lambda>c. sret (QualifiedColumn (Some t) (tok_value c)))) ([(IDENT, c)] @ [])
      ((=) (QualifiedColumn (Some t) c)) S"
  proof (rule reads_bind)
    show "reads (expect IDENT None) [(IDENT, c)] (\<lambda>t. lexeme t = (IDENT, c)) (heads [] S)"
      using reads_expect [of None "(IDENT, c)"] by simp
  qed (auto simp: token_lexeme)
  then show ?thesis
    unfolding primary.simps
    by (intro reads_peek)
      (auto simp: token_lexeme is_value_keyword_def is_punct_token_def intro!: reads_then_advance reads_peek)
qed

lemma reads_paren:
  assumes "reads (expression_with u (primary u n)) ls ((=) e) (or_follow u)"
  shows "reads (primary u (Suc n)) (punct ''('' # ls @ [punct '')'']) ((=) e) S"
proof -
  have "reads (expression_with u (primary u n)) ls ((=) e) (heads [punct '')''] S)"
    by (rule reads_weaken [OF assms]) (auto simp: follow_defs)
  then have "reads (sbind (expression_with u (primary u n)) (\<lambda>e. sbind (expect_punct '')'') (\<lambda>_. sret e)))
      (ls @ [punct '')'']) ((=) e) S"
    by (rule reads_bind) (auto intro!: reads_then_punct reads_sret)
  then show ?thesis
    unfolding primary.simps
    by (intro reads_peek)
      (auto simp: token_lexeme is_value_keyword_def is_punct_token_def intro!: reads_then_advance)
qed

text \<open>The three forms of a comparison, over a parser for the primary expressions.\<close>

lemma reads_is_null:
  assumes "reads prim as ((=) a) prim_follow"
  shows "reads (comparison_with u prim)
      (as @ (if negated then [kw ''IS'', kw ''NOT'', kw ''NULL''] else [kw ''IS'', kw ''NULL'']))
      ((=) (BinaryOp (str (if negated then ''IS NOT NULL'' else ''IS NULL'')) a (SqlLiteral PNone (str ''NULL'')))) S"
proof -
  have k: "str ''IS'' \<in> set sql_keywords" "str ''NOT'' \<in> set sql_keywords" "str ''NULL'' \<in> set sql_keywords"
    by simp_all
  show ?thesis
    unfolding comparison_with_def
    by (rule reads_bind, rule reads_weaken [OF assms], cases negated)
      (auto simp: prim_follow_def k intro!: reads_match reads_then_keyword reads_sret)
qed

lemma reads_in:
  assumes "reads prim as ((=) a) prim_follow" and "vs \<noteq> []" and "list_all (value_ok u) vs"
  shows "reads (comparison_with u prim)
      (as @ (if negated then [kw ''NOT''] else []) @ [kw ''IN'', punct ''(''] @ comma_lexemes (\<lambda>v. [value_lexeme u v]) vs @ [punct '')''])
      ((=) (InPredicate a vs negated)) S"
proof -
  have k: "str ''IS'' \<in> set sql_keywords" "str ''NOT'' \<in> set sql_keywords" "str ''IN'' \<in> set sql_keywords"
    by simp_all
  have l: "reads (sbind (parse_in_list u) (\<lambda>vs. sret (InPredicate a vs b)))
      (punct ''('' # comma_lexemes (\<lambda>v. [value_lexeme u v]) vs @ [punct '')'']) ((=) (InPredicate a vs b)) S" for b
    by (rule reads_done) (use reads_in_list [OF assms(2,3)] in auto)
  show ?thesis
    unfolding comparison_with_def
    by (rule reads_bind, rule reads_weaken [OF assms(1)], cases negated)
      (auto simp: prim_follow_def k intro!: reads_match reads_then_keyword l)
qed

lemma reads_operator:
  assumes "reads prim as ((=) a) prim_follow" and "reads prim bs ((=) b) prim_follow"
  shows "reads (comparison_with u prim) (as @ (OPERATOR, op) # bs) ((=) (BinaryOp op a b)) prim_follow"
proof -
  have "reads (sbind prim (\<lambda>right. sret (BinaryOp op a right))) bs ((=) (BinaryOp op a b)) prim_follow"
    by (rule reads_done) (use assms(2) in auto)
  then show ?thesis
    unfolding comparison_with_def
    by (rule_tac reads_bind, rule_tac reads_weaken [OF assms(1)])
      (auto simp: prim_follow_def token_lexeme intro!: reads_match_no reads_peek reads_then_advance)
qed

lemma chains_and: "chains u ''AND'' (comparison_with u p) ls e (comp_follow u) \<Longrightarrow> reads (and_with u p) ls ((=) e) (and_follow u)"
  unfolding and_with_def by (rule chains_reads) (auto simp: and_follow_def)

lemma chains_or: "chains u ''OR'' (and_with u p) ls e (and_follow u) \<Longrightarrow> reads (expression_with u p) ls ((=) e) (or_follow u)"
  unfolding expression_with_def by (rule chains_reads) (auto simp: or_follow_def)

text \<open>The text \<open>ls\<close> of \<open>e\<close> is read at a level of the grammar, given enough budget for the primary expressions.\<close>

definition reads_level :: "runtime \<Rightarrow> nat \<Rightarrow> lexeme list \<Rightarrow> expr \<Rightarrow> bool" where
  "reads_level u k ls e \<longleftrightarrow>
     (\<forall>n > length ls.
        if k = 3 then reads (primary u n) ls ((=) e) prim_follow
        else if k = 2 then reads (comparison_with u (primary u n)) ls ((=) e) (comp_follow u)
        else if k = 1 then chains u ''AND'' (comparison_with u (primary u n)) ls e (comp_follow u)
        else chains u ''OR'' (and_with u (primary u n)) ls e (and_follow u))"

lemma reads_level_down: "reads_level u (Suc k) ls e \<Longrightarrow> k < 3 \<Longrightarrow> reads_level u k ls e"
proof -
  assume l: "reads_level u (Suc k) ls e" and "k < 3"
  then consider "k = 2" | "k = 1" | "k = 0" by linarith
  then show ?thesis
    using l unfolding reads_level_def
    by cases (auto intro: reads_comparison_prim chains_base chains_and)
qed

lemma reads_level_le:
  assumes "reads_level u k ls e" and "j \<le> k" and "k \<le> 3"
  shows "reads_level u j ls e"
proof -
  have "d \<le> k \<Longrightarrow> reads_level u (k - d) ls e" for d
  proof (induction d)
    case (Suc d)
    then have "reads_level u (Suc (k - Suc d)) ls e" by (simp add: Suc_diff_Suc Suc_le_eq)
    then show ?case by (rule reads_level_down) (use assms(3) Suc.prems in linarith)
  qed (use assms in simp)
  from this [of "k - j"] assms(2) show ?thesis by simp
qed

lemma reads_level_paren:
  assumes "reads_level u 0 ls e"
  shows "reads_level u 3 (punct ''('' # ls @ [punct '')'']) e"
  unfolding reads_level_def
proof (intro allI impI)
  fix n assume n: "length (punct ''('' # ls @ [punct '')'']) < n"
  then obtain m where m: "n = Suc m" "length ls < m" by (cases n) auto
  then have "reads (expression_with u (primary u m)) ls ((=) e) (or_follow u)"
    using assms by (simp add: reads_level_def chains_or)
  then show "if 3 = (3 :: nat) then reads (primary u n) (punct ''('' # ls @ [punct '')'']) ((=) e) prim_follow
        else if 3 = (2 :: nat) then reads (comparison_with u (primary u n)) (punct ''('' # ls @ [punct '')'']) ((=) e) (comp_follow u)
        else if 3 = (1 :: nat) then chains u ''AND'' (comparison_with u (primary u n)) (punct ''('' # ls @ [punct '')'']) e (comp_follow u)
        else chains u ''OR'' (and_with u (primary u n)) (punct ''('' # ls @ [punct '')'']) e (and_follow u)"
    unfolding m(1) by (simp add: reads_paren del: primary.simps)
qed

lemma expr_level_le: "expr_level e \<le> 3"
  by (cases e) auto

text \<open>An expression that is read at its own level is read everywhere, with parentheses where they are printed.\<close>

lemma reads_paren_at:
  assumes "reads_level u (expr_level e) ls e" and "k \<le> 3"
  shows "reads_level u k (paren_at k e ls) e"
proof (cases "k \<le> expr_level e")
  case True
  then show ?thesis using assms reads_level_le [OF assms(1)] expr_level_le by (simp add: paren_at_def)
next
  case False
  have "reads_level u 0 ls e" by (rule reads_level_le [OF assms(1)]) (use expr_level_le in auto)
  from reads_level_le [OF reads_level_paren [OF this] assms(2)] show ?thesis using False by (simp add: paren_at_def)
qed

lemma reads_level_prim:
  "(\<And>m. reads (primary u (Suc m)) ls ((=) e) prim_follow) \<Longrightarrow> reads_level u 3 ls e"
  unfolding reads_level_def by (metis less_imp_Suc_add add_Suc_right)

lemma reads_levelD:
  assumes "reads_level u k ls e" and "length ls < n"
  shows "k = 3 \<Longrightarrow> reads (primary u n) ls ((=) e) prim_follow"
    and "k = 2 \<Longrightarrow> reads (comparison_with u (primary u n)) ls ((=) e) (comp_follow u)"
    and "k = 1 \<Longrightarrow> chains u ''AND'' (comparison_with u (primary u n)) ls e (comp_follow u)"
    and "k = 0 \<Longrightarrow> chains u ''OR'' (and_with u (primary u n)) ls e (and_follow u)"
  using assms by (auto simp: reads_level_def)

lemma reads_level2I:
  "(\<And>n. length ls < n \<Longrightarrow> reads (comparison_with u (primary u n)) ls ((=) e) S) \<Longrightarrow> comp_follow u \<subseteq> S \<Longrightarrow> reads_level u 2 ls e"
  unfolding reads_level_def by (auto intro: reads_weaken)

lemma reads_logical:
  assumes a: "reads_level u (expr_level a) as a" and b: "reads_level u (expr_level b) bs b"
    and k: "k = (if op = ''OR'' then 0 else 1)" "op \<in> {''OR'', ''AND''}"
  shows "reads_level u k (paren_at k a as @ kw op # paren_at (k + 1) b bs) (LogicalOp (str op) a b)"
proof -
  let ?as = "paren_at k a as" and ?bs = "paren_at (k + 1) b bs"
  have la: "reads_level u k ?as a" by (rule reads_paren_at [OF a]) (simp add: k)
  have lb: "reads_level u (k + 1) ?bs b" by (rule reads_paren_at [OF b]) (simp add: k)
  have kws: "str ''OR'' \<in> set sql_keywords" "str ''AND'' \<in> set sql_keywords" by simp_all
  have follow: "kw ''OR'' \<in> and_follow u" "kw ''AND'' \<in> comp_follow u" by (simp_all add: follow_defs kws)
  show ?thesis
  proof (cases "op = ''OR''")
    case True
    then have "chains u ''OR'' (and_with u (primary u n)) (?as @ kw ''OR'' # ?bs) (LogicalOp (str ''OR'') a b) (and_follow u)"
      if "length (?as @ kw op # ?bs) < n" for n
      using that k kws by (intro chains_step [OF reads_levelD(4) [OF la] chains_and [OF reads_levelD(3) [OF lb]] follow(1)]) simp_all
    then show ?thesis using True k by (simp add: reads_level_def)
  next
    case False
    then have op: "op = ''AND''" using k by simp
    then have "chains u ''AND'' (comparison_with u (primary u n)) (?as @ kw ''AND'' # ?bs) (LogicalOp (str ''AND'') a b) (comp_follow u)"
      if "length (?as @ kw op # ?bs) < n" for n
      using that k kws by (intro chains_step [OF reads_levelD(3) [OF la] reads_levelD(2) [OF lb] follow(2)]) simp_all
    then show ?thesis using op k by (simp add: reads_level_def)
  qed
qed

lemma reads_expr:
  assumes "expr_ok u e"
  shows "reads_level u (expr_level e) (expr_lexemes u e) e"
  using assms
proof (induction e)
  case (Column c)
  show ?case using reads_level_prim [OF reads_column] by simp
next
  case (SqlLiteral v raw)
  then show ?case using reads_level_prim [OF reads_literal] by simp
next
  case (QualifiedColumn t c)
  then show ?case using reads_level_prim [OF reads_qualified] by (cases t) simp_all
next
  case (LogicalOp op a b)
  then obtain o' where "op = str o'" "o' \<in> {''OR'', ''AND''}" by auto
  then show ?case using LogicalOp reads_logical [of u a "expr_lexemes u a" b "expr_lexemes u b"] by (auto simp: Let_def)
next
  case (BinaryOp op a b)
  let ?as = "paren_at 3 a (expr_lexemes u a)" and ?bs = "paren_at 3 b (expr_lexemes u b)"
  have la: "reads_level u 3 ?as a" using BinaryOp by (intro reads_paren_at) simp_all
  note pa = reads_levelD(1) [OF la _ refl]
  consider "op = str ''IS NULL''" | "op = str ''IS NOT NULL''" | "op \<noteq> str ''IS NULL''" "op \<noteq> str ''IS NOT NULL''" by blast
  then show ?case
  proof cases
    case 1
    then have "reads (comparison_with u (primary u n)) (?as @ [kw ''IS'', kw ''NULL'']) ((=) (BinaryOp op a b)) UNIV"
      if "length (?as @ [kw ''IS'', kw ''NULL'']) < n" for n
      using reads_is_null [OF pa, of n u False UNIV] that BinaryOp.prems by simp
    from reads_level2I [OF this] show ?thesis using 1 by simp
  next
    case 2
    then have "reads (comparison_with u (primary u n)) (?as @ [kw ''IS'', kw ''NOT'', kw ''NULL'']) ((=) (BinaryOp op a b)) UNIV"
      if "length (?as @ [kw ''IS'', kw ''NOT'', kw ''NULL'']) < n" for n
      using reads_is_null [OF pa, of n u True UNIV] that BinaryOp.prems by simp
    from reads_level2I [OF this] show ?thesis using 2 by simp
  next
    case 3
    have lb: "reads_level u 3 ?bs b" using BinaryOp 3 by (intro reads_paren_at) simp_all
    have "reads (comparison_with u (primary u n)) (?as @ (OPERATOR, op) # ?bs) ((=) (BinaryOp op a b)) prim_follow"
      if "length (?as @ (OPERATOR, op) # ?bs) < n" for n
      by (rule reads_operator [OF pa reads_levelD(1) [OF lb _ refl]]) (use that in simp_all)
    moreover have "comp_follow u \<subseteq> prim_follow" by (auto simp: follow_defs)
    ultimately have "reads_level u 2 (?as @ (OPERATOR, op) # ?bs) (BinaryOp op a b)" by (rule reads_level2I)
    then show ?thesis using 3 by simp
  qed
next
  case (InPredicate a vs negated)
  let ?as = "paren_at 3 a (expr_lexemes u a)"
  let ?ls = "?as @ (if negated then [kw ''NOT''] else []) @ [kw ''IN'', punct ''('']
      @ comma_lexemes (\<lambda>v. [value_lexeme u v]) vs @ [punct '')'']"
  have la: "reads_level u 3 ?as a" using InPredicate by (intro reads_paren_at) simp_all
  have "reads (comparison_with u (primary u n)) ?ls ((=) (InPredicate a vs negated)) UNIV" if "length ?ls < n" for n
    by (rule reads_in [OF reads_levelD(1) [OF la _ refl]]) (use that InPredicate.prems in simp_all)
  from reads_level2I [OF this] show ?case by simp
qed simp_all

text \<open>A whole expression, as \<open>parse_expression\<close> reads it.\<close>

lemma reads_expression:
  assumes "expr_ok u e"
  shows "reads (parse_expression u) (paren_at 0 e (expr_lexemes u e)) ((=) e) (or_follow u)"
  unfolding parse_expression_def
proof (rule reads_length(2) [where f = "\<lambda>n. expression_with u (primary u (n + 1))"])
  fix n assume n: "length (paren_at 0 e (expr_lexemes u e)) < n"
  have "reads_level u 0 (paren_at 0 e (expr_lexemes u e)) e" by (rule reads_paren_at [OF reads_expr [OF assms]]) simp
  from reads_levelD(4) [OF this, of "n + 1"] n
  show "reads (expression_with u (primary u (n + 1))) (paren_at 0 e (expr_lexemes u e)) ((=) e) (or_follow u)"
    by (intro chains_or) simp
qed

end
