(* ===== verification/StmtBack.thy ===== *)
theory StmtBack
  imports ParseBack
begin

text \<open>
  Statements as lexemes and their texts, the statements that have a text, and the proof that
  \<open>parse\<close> reads every such statement back from it.
\<close>

section \<open>Statements as lexemes\<close>

definition name_list :: "pystr list \<Rightarrow> lexeme list" where
  "name_list = comma_lexemes (\<lambda>n. [(IDENT, n)])"

definition in_parens :: "lexeme list \<Rightarrow> lexeme list" where
  "in_parens ls = punct ''('' # ls @ [punct '')'']"

definition constraint_lexemes :: "pystr \<Rightarrow> lexeme list" where
  "constraint_lexemes c =
     (if c = str ''PRIMARY KEY'' then [kw ''PRIMARY'', kw ''KEY'']
      else if c = str ''NOT NULL'' then [kw ''NOT'', kw ''NULL''] else [kw ''UNIQUE''])"

definition column_lexemes :: "column_def \<Rightarrow> lexeme list" where
  "column_lexemes c = [(IDENT, cd_name c), (KEYWORD, cd_type c)] @ concat (map constraint_lexemes (cd_constraints c))"

definition condition_lexemes :: "runtime \<Rightarrow> expr \<Rightarrow> lexeme list" where
  "condition_lexemes u e = paren_at 0 e (expr_lexemes u e)"

definition alias_lexemes :: "pystr option \<Rightarrow> lexeme list" where
  "alias_lexemes a = (case a of None \<Rightarrow> [] | Some n \<Rightarrow> [kw ''AS'', (IDENT, n)])"

definition join_lexemes :: "runtime \<Rightarrow> join_clause \<Rightarrow> lexeme list" where
  "join_lexemes u j =
     [kw (if jc_kind j = LEFT then ''LEFT'' else ''INNER''), kw ''JOIN'', (IDENT, jc_table j)]
     @ alias_lexemes (jc_alias j) @ kw ''ON'' # (case jc_on j of None \<Rightarrow> [] | Some e \<Rightarrow> condition_lexemes u e)"

text \<open>An aggregate is kept as the text \<open>FUNC(arg)\<close>.\<close>

definition agg_func :: "pystr \<Rightarrow> pystr" where
  "agg_func s = takeWhile (\<lambda>c. c \<noteq> 40) s"

definition agg_arg :: "pystr \<Rightarrow> pystr" where
  "agg_arg s = butlast (drop (length (agg_func s) + 1) s)"

definition is_agg :: "pyval \<Rightarrow> pystr \<Rightarrow> bool" where
  "is_agg v raw \<longleftrightarrow> v = PText raw \<and> agg_func raw \<in> {str ''COUNT'', str ''SUM'', str ''AVG''}
     \<and> raw = agg_func raw @ str ''('' @ agg_arg raw @ str '')''"

fun projection_lexemes :: "runtime \<Rightarrow> expr \<Rightarrow> lexeme list" where
  "projection_lexemes u Star = [punct ''*'']"
| "projection_lexemes u (SqlLiteral v raw) =
     (if is_agg v raw
      then (KEYWORD, agg_func raw)
        # in_parens [if agg_arg raw = str ''*'' then punct ''*'' else (IDENT, agg_arg raw)]
      else [literal_lexeme v raw])"
| "projection_lexemes u e = expr_lexemes u e"

definition order_lexemes :: "runtime \<Rightarrow> order_item \<Rightarrow> lexeme list" where
  "order_lexemes u k = expr_lexemes u (fst k) @ (if snd k then [kw ''DESC''] else [])"

definition where_lexemes :: "runtime \<Rightarrow> expr option \<Rightarrow> lexeme list" where
  "where_lexemes u w = (case w of None \<Rightarrow> [] | Some e \<Rightarrow> kw ''WHERE'' # condition_lexemes u e)"

definition by_lexemes :: "string \<Rightarrow> ('a \<Rightarrow> lexeme list) \<Rightarrow> 'a list \<Rightarrow> lexeme list" where
  "by_lexemes k pr xs = (if xs = [] then [] else kw k # kw ''BY'' # comma_lexemes pr xs)"

definition int_lexemes :: "string \<Rightarrow> int option \<Rightarrow> lexeme list" where
  "int_lexemes k i = (case i of None \<Rightarrow> [] | Some i \<Rightarrow> [kw k, (NUMBER, nat_digits (nat i))])"

definition from_lexemes :: "runtime \<Rightarrow> select \<Rightarrow> lexeme list" where
  "from_lexemes u q =
     (if sel_table q = [] then []
      else kw ''FROM'' # (IDENT, sel_table q) # alias_lexemes (sel_alias q) @ concat (map (join_lexemes u) (sel_joins q)))"

definition select_lexemes :: "runtime \<Rightarrow> select \<Rightarrow> lexeme list" where
  "select_lexemes u q =
     kw ''SELECT'' # comma_lexemes (projection_lexemes u) (sel_projections q) @ from_lexemes u q
     @ where_lexemes u (sel_where q) @ by_lexemes ''GROUP'' (expr_lexemes u) (sel_group_by q)
     @ by_lexemes ''ORDER'' (order_lexemes u) (sel_order_by q)
     @ int_lexemes ''LIMIT'' (sel_limit q) @ int_lexemes ''OFFSET'' (sel_offset q)"

definition assignment_lexemes :: "runtime \<Rightarrow> pystr \<times> pyval \<Rightarrow> lexeme list" where
  "assignment_lexemes u a = [(IDENT, fst a), (OPERATOR, str ''=''), value_lexeme u (snd a)]"

definition tuple_lexemes :: "runtime \<Rightarrow> pyval list \<Rightarrow> lexeme list" where
  "tuple_lexemes u vs = in_parens (comma_lexemes (\<lambda>v. [value_lexeme u v]) vs)"

fun stmt_lexemes :: "runtime \<Rightarrow> stmt \<Rightarrow> lexeme list" where
  "stmt_lexemes u (CreateTable n cols b) =
     [kw ''CREATE'', kw ''TABLE''] @ (if b then [kw ''IF'', kw ''NOT'', kw ''EXISTS''] else [])
     @ (IDENT, n) # in_parens (comma_lexemes column_lexemes cols)"
| "stmt_lexemes u (DropTable ns b) =
     [kw ''DROP'', kw ''TABLE''] @ (if b then [kw ''IF'', kw ''EXISTS''] else []) @ name_list ns"
| "stmt_lexemes u (Insert t cs vss) =
     [kw ''INSERT'', kw ''INTO'', (IDENT, t)] @ (case cs of None \<Rightarrow> [] | Some cs \<Rightarrow> in_parens (name_list cs))
     @ kw ''VALUES'' # comma_lexemes (tuple_lexemes u) vss"
| "stmt_lexemes u (SelectStmt q) = select_lexemes u q"
| "stmt_lexemes u (UpdateStmt t asg w) =
     [kw ''UPDATE'', (IDENT, t), kw ''SET''] @ comma_lexemes (assignment_lexemes u) asg @ where_lexemes u w"
| "stmt_lexemes u (DeleteStmt t w) = [kw ''DELETE'', kw ''FROM'', (IDENT, t)] @ where_lexemes u w"
| "stmt_lexemes u Begin = [kw ''BEGIN'']"
| "stmt_lexemes u Commit = [kw ''COMMIT'']"
| "stmt_lexemes u Rollback = [kw ''ROLLBACK'']"
| "stmt_lexemes u Checkpoint = [kw ''CHECKPOINT'']"
| "stmt_lexemes u (Explain s) = kw ''EXPLAIN'' # stmt_lexemes u s"

definition print_stmt :: "runtime \<Rightarrow> stmt \<Rightarrow> pystr" where
  "print_stmt u s = print_lexemes (stmt_lexemes u s) @ [59]"

section \<open>Statements that have a text\<close>

definition constraint_names :: "pystr list" where
  "constraint_names = [str ''PRIMARY KEY'', str ''NOT NULL'', str ''UNIQUE'']"

definition column_ok :: "runtime \<Rightarrow> column_def \<Rightarrow> bool" where
  "column_ok u c \<longleftrightarrow> name_ok u (cd_name c) \<and> cd_type c \<in> set sql_keywords
     \<and> list_all (\<lambda>k. k \<in> set constraint_names) (cd_constraints c)"

definition opt_ok :: "('a \<Rightarrow> bool) \<Rightarrow> 'a option \<Rightarrow> bool" where
  "opt_ok P x \<longleftrightarrow> (case x of None \<Rightarrow> True | Some y \<Rightarrow> P y)"

definition join_ok :: "runtime \<Rightarrow> join_clause \<Rightarrow> bool" where
  "join_ok u j \<longleftrightarrow> name_ok u (jc_table j) \<and> opt_ok (name_ok u) (jc_alias j)
     \<and> (case jc_on j of None \<Rightarrow> False | Some e \<Rightarrow> expr_ok u e)"

fun column_ref_ok :: "runtime \<Rightarrow> expr \<Rightarrow> bool" where
  "column_ref_ok u (Column c) \<longleftrightarrow> name_ok u c"
| "column_ref_ok u (QualifiedColumn (Some t) c) \<longleftrightarrow> name_ok u t \<and> name_ok u c"
| "column_ref_ok u _ \<longleftrightarrow> False"

text \<open>The string literal with a star alone is read as the star, and a literal that is a keyword not at all.\<close>

fun projection_ok :: "runtime \<Rightarrow> expr \<Rightarrow> bool" where
  "projection_ok u Star \<longleftrightarrow> True"
| "projection_ok u (SqlLiteral v raw) \<longleftrightarrow>
     (if is_agg v raw then agg_arg raw = str ''*'' \<or> name_ok u (agg_arg raw)
      else literal_ok u v raw
        \<and> (case v of PText s \<Rightarrow> s \<noteq> str ''*'' | PInt i \<Rightarrow> True | PFloat b \<Rightarrow> True | _ \<Rightarrow> False))"
| "projection_ok u e \<longleftrightarrow> column_ref_ok u e"

definition int_ok :: "runtime \<Rightarrow> int \<Rightarrow> bool" where
  "int_ok u i \<longleftrightarrow> 0 \<le> i \<and> py_int u (nat_digits (nat i)) = Inr i"

definition select_ok :: "runtime \<Rightarrow> select \<Rightarrow> bool" where
  "select_ok u q \<longleftrightarrow>
     sel_projections q \<noteq> [] \<and> list_all (projection_ok u) (sel_projections q)
     \<and> (if sel_table q = [] then sel_alias q = None \<and> sel_joins q = []
        else name_ok u (sel_table q) \<and> opt_ok (name_ok u) (sel_alias q) \<and> list_all (join_ok u) (sel_joins q))
     \<and> opt_ok (expr_ok u) (sel_where q) \<and> list_all (column_ref_ok u) (sel_group_by q)
     \<and> list_all (\<lambda>k. column_ref_ok u (fst k)) (sel_order_by q)
     \<and> opt_ok (int_ok u) (sel_limit q) \<and> opt_ok (int_ok u) (sel_offset q)"

fun stmt_ok :: "runtime \<Rightarrow> stmt \<Rightarrow> bool" where
  "stmt_ok u (CreateTable n cols b) \<longleftrightarrow> name_ok u n \<and> cols \<noteq> [] \<and> list_all (column_ok u) cols"
| "stmt_ok u (DropTable ns b) \<longleftrightarrow> ns \<noteq> [] \<and> list_all (name_ok u) ns"
| "stmt_ok u (Insert t cs vss) \<longleftrightarrow> name_ok u t \<and> opt_ok (\<lambda>cs. cs \<noteq> [] \<and> list_all (name_ok u) cs) cs
     \<and> vss \<noteq> [] \<and> list_all (\<lambda>vs. vs \<noteq> [] \<and> list_all (value_ok u) vs) vss"
| "stmt_ok u (SelectStmt q) \<longleftrightarrow> select_ok u q"
| "stmt_ok u (UpdateStmt t asg w) \<longleftrightarrow> name_ok u t \<and> asg \<noteq> []
     \<and> list_all (\<lambda>(c, v). name_ok u c \<and> value_ok u v) asg \<and> opt_ok (expr_ok u) w"
| "stmt_ok u (DeleteStmt t w) \<longleftrightarrow> name_ok u t \<and> opt_ok (expr_ok u) w"
| "stmt_ok u (Explain s) \<longleftrightarrow> stmt_ok u s"
| "stmt_ok u _ \<longleftrightarrow> True"

section \<open>Their lexemes are lexemes of the tokenizer\<close>

lemma number_ok_digits: "number_ok u (nat_digits n)"
proof -
  have d: "\<forall>c \<in> set (nat_digits n). ch_isdigit u c"
    using nat_digits_ascii [of _ n] by (fastforce simp: ch_isdigit_def ascii_digit_def)
  then have "ch_isdigit u (hd (nat_digits n))" by simp
  moreover have "\<forall>c \<in> set (tl (nat_digits n)). ch_isdigit u c" using d by (meson list.set_sel(2) nat_digits_not_Nil)
  ultimately show ?thesis
    by (cases "nat_digits n") (auto simp: number_ok_def starts_number_def is_numeric_def list_all_iff)
qed

lemma list_all_comma [simp]:
  "lexeme_ok u (punct '','') \<Longrightarrow> list_all (\<lambda>x. list_all (lexeme_ok u) (pr x)) xs \<Longrightarrow> list_all (lexeme_ok u) (comma_lexemes pr xs)"
  by (cases xs) (auto simp: comma_lexemes_def list_all_iff)

lemma punct_ok [simp]: "lexeme_ok u (punct p) \<longleftrightarrow> p \<in> {''('', '')'', '','', ''*'', ''.''}"
  by simp

lemma bool_kw_ok [simp]: "lexeme_ok u (bool_kw b)"
  by (simp add: bool_kw_def)

lemma value_lexeme_ok: "value_ok u v \<Longrightarrow> lexeme_ok u (value_lexeme u v)"
  by (cases v) (auto simp: number_ok_digits)

lemma literal_lexeme_ok: "literal_ok u v raw \<Longrightarrow> lexeme_ok u (literal_lexeme v raw)"
  by (cases v) auto

lemma paren_at_ok: "list_all (lexeme_ok u) (paren_at k e ls) \<longleftrightarrow> list_all (lexeme_ok u) ls"
  by (simp add: paren_at_def)

lemma values_ok: "list_all (value_ok u) vs \<Longrightarrow> list_all (\<lambda>v. list_all (lexeme_ok u) [value_lexeme u v]) vs"
  by (auto simp: list_all_iff value_lexeme_ok)

lemma expr_lexemes_ok: "expr_ok u e \<Longrightarrow> list_all (lexeme_ok u) (expr_lexemes u e)"
proof (induction e)
  case (QualifiedColumn t c)
  then show ?case by (cases t) simp_all
next
  case (InPredicate a vs negated)
  then show ?case using values_ok by (auto simp: paren_at_ok)
next
  case (BinaryOp op a b)
  then show ?case by (auto simp: paren_at_ok split: if_splits)
next
  case (LogicalOp op a b)
  then show ?case by (auto simp: paren_at_ok Let_def)
qed (simp_all add: literal_lexeme_ok)

lemma column_ref_expr: "column_ref_ok u e \<Longrightarrow> expr_ok u e"
  by (cases "(u, e)" rule: column_ref_ok.cases) simp_all

lemma projection_lexemes_ok: "projection_ok u e \<Longrightarrow> list_all (lexeme_ok u) (projection_lexemes u e)"
  using expr_lexemes_ok [OF column_ref_expr, of u e]
  by (cases e) (auto simp: literal_lexeme_ok in_parens_def is_agg_def split: if_splits)

lemma clause_lexemes_ok:
  "opt_ok (expr_ok u) w \<Longrightarrow> list_all (lexeme_ok u) (where_lexemes u w)"
  "opt_ok (name_ok u) a \<Longrightarrow> list_all (lexeme_ok u) (alias_lexemes a)"
  "str k \<in> set sql_keywords \<Longrightarrow> opt_ok (int_ok u) i \<Longrightarrow> list_all (lexeme_ok u) (int_lexemes k i)"
  "str k \<in> set sql_keywords \<Longrightarrow> list_all (\<lambda>x. list_all (lexeme_ok u) (pr x)) xs \<Longrightarrow> list_all (lexeme_ok u) (by_lexemes k pr xs)"
  "column_ref_ok u (fst item) \<Longrightarrow> list_all (lexeme_ok u) (order_lexemes u item)"
  by (auto simp: opt_ok_def where_lexemes_def condition_lexemes_def alias_lexemes_def int_lexemes_def by_lexemes_def
      order_lexemes_def expr_lexemes_ok paren_at_ok number_ok_digits column_ref_expr split: option.splits)

lemma part_lexemes_ok:
  "join_ok u j \<Longrightarrow> list_all (lexeme_ok u) (join_lexemes u j)"
  "column_ok u c \<Longrightarrow> list_all (lexeme_ok u) (column_lexemes c)"
  "list_all (name_ok u) ns \<Longrightarrow> list_all (lexeme_ok u) (name_list ns)"
  "list_all (value_ok u) vs \<Longrightarrow> list_all (lexeme_ok u) (tuple_lexemes u vs)"
  "(\<lambda>(c, v). name_ok u c \<and> value_ok u v) a \<Longrightarrow> list_all (lexeme_ok u) (assignment_lexemes u a)"
proof -
  show "join_ok u j \<Longrightarrow> list_all (lexeme_ok u) (join_lexemes u j)"
    using clause_lexemes_ok(2) [of u "jc_alias j"] expr_lexemes_ok
    by (auto simp: join_ok_def join_lexemes_def condition_lexemes_def paren_at_ok split: option.splits)
  show "column_ok u c \<Longrightarrow> list_all (lexeme_ok u) (column_lexemes c)"
    by (auto simp: column_ok_def column_lexemes_def constraint_lexemes_def list_all_iff)
  show "list_all (name_ok u) ns \<Longrightarrow> list_all (lexeme_ok u) (name_list ns)"
    unfolding name_list_def by (rule list_all_comma) (simp_all add: list_all_iff)
  show "list_all (value_ok u) vs \<Longrightarrow> list_all (lexeme_ok u) (tuple_lexemes u vs)"
    using list_all_comma [OF _ values_ok] by (simp add: tuple_lexemes_def in_parens_def)
  show "(\<lambda>(c, v). name_ok u c \<and> value_ok u v) a \<Longrightarrow> list_all (lexeme_ok u) (assignment_lexemes u a)"
    by (cases a) (simp add: assignment_lexemes_def value_lexeme_ok operators_def)
qed

lemma list_all_mono': "list_all P xs \<Longrightarrow> (\<And>x. P x \<Longrightarrow> Q x) \<Longrightarrow> list_all Q xs"
  by (simp add: list_all_iff)

lemma select_lexemes_ok:
  assumes "select_ok u q"
  shows "list_all (lexeme_ok u) (select_lexemes u q)"
proof -
  note q = assms [unfolded select_ok_def]
  have "list_all (lexeme_ok u) (comma_lexemes (projection_lexemes u) (sel_projections q))"
    using q by (intro list_all_comma) (auto intro: list_all_mono' projection_lexemes_ok)
  moreover have "list_all (lexeme_ok u) (from_lexemes u q)"
    using q clause_lexemes_ok(2) part_lexemes_ok(1)
    by (auto simp: from_lexemes_def list_all_iff split: if_splits)
  moreover have "list_all (lexeme_ok u) (where_lexemes u (sel_where q))" using q by (intro clause_lexemes_ok) simp
  moreover have "list_all (lexeme_ok u) (by_lexemes ''GROUP'' (expr_lexemes u) (sel_group_by q))"
    using q by (intro clause_lexemes_ok) (auto intro: list_all_mono' expr_lexemes_ok column_ref_expr)
  moreover have "list_all (lexeme_ok u) (by_lexemes ''ORDER'' (order_lexemes u) (sel_order_by q))"
    using q by (intro clause_lexemes_ok) (auto intro: list_all_mono' clause_lexemes_ok(5))
  moreover have "list_all (lexeme_ok u) (int_lexemes ''LIMIT'' (sel_limit q))" "list_all (lexeme_ok u) (int_lexemes ''OFFSET'' (sel_offset q))"
    using q by (auto intro!: clause_lexemes_ok(3))
  ultimately show ?thesis by (simp add: select_lexemes_def)
qed

lemma stmt_lexemes_ok: "stmt_ok u s \<Longrightarrow> list_all (lexeme_ok u) (stmt_lexemes u s)"
proof (induction s)
  case (CreateTable n cols b)
  then have "list_all (lexeme_ok u) (comma_lexemes column_lexemes cols)"
    by (intro list_all_comma) (auto intro: list_all_mono' part_lexemes_ok)
  then show ?case using CreateTable by (simp add: in_parens_def)
next
  case (DropTable ns b)
  then show ?case using part_lexemes_ok(3) [of u ns] by simp
next
  case (Insert t cs vss)
  have "list_all (lexeme_ok u) (comma_lexemes (tuple_lexemes u) vss)"
    using Insert by (intro list_all_comma) (auto intro: list_all_mono' part_lexemes_ok)
  moreover have "case cs of None \<Rightarrow> True | Some cs \<Rightarrow> list_all (lexeme_ok u) (name_list cs)"
    using Insert part_lexemes_ok(3) by (auto simp: opt_ok_def split: option.splits)
  ultimately show ?case using Insert by (cases cs) (simp_all add: in_parens_def)
next
  case (UpdateStmt t asg w)
  then have "list_all (lexeme_ok u) (comma_lexemes (assignment_lexemes u) asg)"
    by (intro list_all_comma) (auto intro: list_all_mono' part_lexemes_ok(5))
  then show ?case using UpdateStmt clause_lexemes_ok(1) [of u w] by simp
next
  case (DeleteStmt t w)
  then show ?case using clause_lexemes_ok(1) [of u w] by simp
next
  case (SelectStmt q)
  then show ?case by (simp add: select_lexemes_ok)
qed simp_all

section \<open>The parts of statements are read back\<close>

text \<open>Sequencing with what the next part may start with.\<close>

lemma reads_bind_eq:
  assumes "reads p as ((=) x) T" and "heads bs S \<subseteq> T" and "reads (f x) bs Q S"
  shows "reads (sbind p f) (as @ bs) Q S"
  using reads_bind [of p as "(=) x" bs S f Q] reads_weaken [OF assms(1) _ assms(2)] assms(3) by auto

lemma reads_final: "reads p as ((=) x) T \<Longrightarrow> S \<subseteq> T \<Longrightarrow> Q (f x) \<Longrightarrow> reads (sbind p (\<lambda>x. sret (f x))) as Q S"
  by (rule reads_done, rule reads_weaken) auto

text \<open>What may follow a column reference, a name without alias, and each clause of a SELECT.\<close>

abbreviation stmt_end :: lexeme where
  "stmt_end \<equiv> (EOF, [])"

definition after :: "string list \<Rightarrow> lexeme set" where
  "after ks = insert stmt_end (kw ` set ks)"

lemma heads_opt:
  "heads (where_lexemes u w) S \<subseteq> insert (kw ''WHERE'') S"
  "heads (by_lexemes k pr xs) S \<subseteq> insert (kw k) S"
  "heads (int_lexemes k i) S \<subseteq> insert (kw k) S"
  by (auto simp: where_lexemes_def by_lexemes_def int_lexemes_def split: option.splits)

lemma reads_column_ref:
  assumes "column_ref_ok u e"
  shows "reads parse_column_ref (expr_lexemes u e) ((=) e) prim_follow"
  unfolding parse_column_ref_def using assms
  by (cases "(u, e)" rule: column_ref_ok.cases)
    (auto simp: prim_follow_def is_punct_token_def token_lexeme
      intro!: reads_then_ident reads_peek reads_sret reads_then_advance)

lemma reads_order_item:
  assumes "column_ref_ok u (fst k)" and "\<And>l. l \<in> S \<Longrightarrow> \<not> is_kw u ''ASC'' l \<and> \<not> is_kw u ''DESC'' l" and "S \<subseteq> prim_follow"
  shows "reads (parse_order_item u) (order_lexemes u k) ((=) k) S"
  unfolding parse_order_item_def order_lexemes_def
proof (rule reads_bind_eq [OF reads_column_ref [OF assms(1)]])
  show "heads (if snd k then [kw ''DESC''] else []) S \<subseteq> prim_follow" using assms(3) by (simp add: prim_follow_def)
  have "reads (match_keyword u ''DESC'') (if snd k then [kw ''DESC''] else []) ((=) (snd k)) S"
  proof -
    have "reads (sbind (match_keyword u ''DESC'') sret) (if snd k then [kw ''DESC''] else []) ((=) (snd k)) S"
      using assms(2) by (auto intro!: reads_match reads_match_end reads_sret)
    moreover have "sbind (match_keyword u ''DESC'') sret = match_keyword u ''DESC''"
      by (auto simp: sbind_def fun_eq_iff split: prod.split sum.split)
    ultimately show ?thesis by simp
  qed
  then have "reads (sbind (match_keyword u ''DESC'') (\<lambda>desc. sret (fst k, desc))) (if snd k then [kw ''DESC''] else []) ((=) k) S"
    by (rule reads_done [where S = S, simplified]) simp
  then show "reads (sbind (match_keyword u ''ASC'') (\<lambda>asc. if asc then sret (fst k, False)
      else sbind (match_keyword u ''DESC'') (\<lambda>desc. sret (fst k, desc)))) (if snd k then [kw ''DESC''] else []) ((=) k) S"
    by (intro reads_match_no) (use assms(2) in \<open>auto split: if_splits\<close>)
qed

lemma reads_where:
  assumes "opt_ok (expr_ok u) w" and "S \<subseteq> or_follow u" and "\<And>l. l \<in> S \<Longrightarrow> \<not> is_kw u ''WHERE'' l"
  shows "reads (parse_where u) (where_lexemes u w) ((=) w) S"
proof (cases w)
  case None
  then show ?thesis unfolding parse_where_def where_lexemes_def
    using assms(3) by (auto intro!: reads_match_end reads_sret)
next
  case (Some e)
  have "reads (sbind (parse_expression u) (\<lambda>e. sret (Some e))) (condition_lexemes u e) ((=) (Some e)) S"
    unfolding condition_lexemes_def
    by (rule reads_final [OF reads_expression assms(2)]) (use assms(1) Some in \<open>simp_all add: opt_ok_def\<close>)
  then show ?thesis unfolding parse_where_def where_lexemes_def Some
    by (auto intro!: reads_match)
qed

lemma reads_opt_int:
  assumes "opt_ok (int_ok u) i" and "str k \<in> set sql_keywords" and "\<And>l. l \<in> S \<Longrightarrow> \<not> is_kw u k l"
  shows "reads (parse_opt_int u k) (int_lexemes k i) ((=) i) S"
proof (cases i)
  case None
  then show ?thesis unfolding parse_opt_int_def int_lexemes_def
    using assms(3) by (auto intro!: reads_match_end reads_sret)
next
  case (Some n)
  then have n: "py_int u (nat_digits (nat n)) = Inr n" using assms(1) by (simp add: opt_ok_def int_ok_def)
  have "reads (parse_int_literal u) ([(NUMBER, nat_digits (nat n))] @ []) ((=) n) (heads [] S)"
    unfolding parse_int_literal_def
  proof (rule reads_bind)
    show "reads (expect NUMBER None) [(NUMBER, nat_digits (nat n))] (\<lambda>t. lexeme t = (NUMBER, nat_digits (nat n))) (heads [] (heads [] S))"
      using reads_expect [of None "(NUMBER, nat_digits (nat n))"] by simp
  qed (auto simp: token_lexeme n intro!: reads_slift)
  then have "reads (sbind (parse_int_literal u) (\<lambda>i. sret (Some i))) [(NUMBER, nat_digits (nat n))] ((=) (Some n)) S"
    by (intro reads_done) simp_all
  then show ?thesis unfolding parse_opt_int_def int_lexemes_def Some
    using assms(2) by (auto intro!: reads_match)
qed

lemma reads_by_list:
  assumes "\<And>x. x \<in> set xs \<Longrightarrow> reads p (pr x) ((=) x) (insert (punct '','') S)" and "punct '','' \<notin> S"
    and "str k \<in> set sql_keywords" and "\<And>l. l \<in> S \<Longrightarrow> \<not> is_kw u k l"
  shows "reads (parse_by_list u k p) (by_lexemes k pr xs) ((=) xs) S"
proof (cases "xs = []")
  case True
  then show ?thesis unfolding parse_by_list_def by_lexemes_def
    using assms(4) by (auto intro!: reads_match_end reads_sret)
next
  case False
  have "reads (comma_list p) (comma_lexemes pr xs) ((=) xs) S" by (rule reads_comma_list) (use assms False in auto)
  then show ?thesis unfolding parse_by_list_def by_lexemes_def
    using assms(3) False by (auto intro!: reads_match reads_then_keyword)
qed

lemma reads_alias:
  assumes "\<And>l. l \<in> S \<Longrightarrow> \<not> is_kw u ''AS'' l \<and> fst l \<noteq> IDENT"
  shows "reads (parse_optional_alias u) (alias_lexemes a) ((=) a) S"
proof (cases a)
  case None
  then show ?thesis unfolding parse_optional_alias_def alias_lexemes_def using assms
    by (auto simp: lexeme_def intro!: reads_match_end reads_peek reads_sret)
next
  case (Some n)
  then show ?thesis unfolding parse_optional_alias_def alias_lexemes_def
    by (auto intro!: reads_match reads_then_ident reads_sret)
qed

definition join_starts :: "lexeme set" where
  "join_starts = {kw ''JOIN'', kw ''INNER'', kw ''LEFT''}"

lemma heads_joins: "heads (concat (map (join_lexemes u) js)) S \<subseteq> {kw ''LEFT'', kw ''INNER''} \<union> S"
  by (cases js) (auto simp: join_lexemes_def)

lemma reads_join_clause:
  assumes "join_ok u j" and "S \<subseteq> or_follow u"
  shows "reads (parse_join_clause u) (join_lexemes u j) ((=) j) S"
proof -
  obtain e where e: "jc_on j = Some e" "expr_ok u e" using assms(1) by (auto simp: join_ok_def split: option.splits)
  have k: "str ''LEFT'' \<in> set sql_keywords" "str ''INNER'' \<in> set sql_keywords" "str ''JOIN'' \<in> set sql_keywords" "str ''ON'' \<in> set sql_keywords"
    "str ''AS'' \<in> set sql_keywords"
    by simp_all
  have on: "reads (sbind (parse_expression u) (\<lambda>on. sret \<lparr>jc_kind = jc_kind j, jc_table = jc_table j, jc_alias = jc_alias j, jc_on = Some on\<rparr>))
      (condition_lexemes u e) ((=) j) S"
    unfolding condition_lexemes_def by (rule reads_final [OF reads_expression [OF e(2)] assms(2)]) (simp add: e(1) [symmetric])
  have al: "reads (sbind (parse_optional_alias u) (\<lambda>alias. sbind (expect_keyword u ''ON'') (\<lambda>_.
      sbind (parse_expression u) (\<lambda>on. sret \<lparr>jc_kind = jc_kind j, jc_table = jc_table j, jc_alias = alias, jc_on = Some on\<rparr>))))
      (alias_lexemes (jc_alias j) @ kw ''ON'' # condition_lexemes u e) ((=) j) S"
    by (rule reads_bind_eq [OF reads_alias [of "{kw ''ON''}"]]) (use on k in \<open>auto intro!: reads_then_keyword\<close>)
  show ?thesis
    unfolding parse_join_clause_def join_lexemes_def e(1) option.case append_Cons append_Nil
    using al k
    by (cases "jc_kind j"; intro reads_peek)
      (auto simp: token_lexeme Let_def intro!: reads_then_advance reads_then_keyword reads_then_ident)
qed

lemma join_lexemes_start: "\<exists>w ks. join_lexemes u j = kw w # ks \<and> (w = ''LEFT'' \<or> w = ''INNER'')"
  by (simp add: join_lexemes_def)

lemma length_joins: "length js \<le> length (concat (map (join_lexemes u) js))"
  by (induction js) (auto simp: join_lexemes_def)

text \<open>The loop over the JOIN clauses, up to a keyword that starts none.\<close>

definition no_join :: "runtime \<Rightarrow> lexeme set" where
  "no_join u = {l. \<not> is_kw u ''JOIN'' l \<and> \<not> is_kw u ''INNER'' l \<and> \<not> is_kw u ''LEFT'' l}"

lemma reads_joins:
  assumes "list_all (join_ok u) js" and "S \<subseteq> or_follow u \<inter> no_join u" and "length js < n"
  shows "reads (join_loop u n) (concat (map (join_lexemes u) js)) ((=) js) S"
  using assms(1,3)
proof (induction js arbitrary: n)
  case Nil
  then obtain m where "n = Suc m" by (cases n) auto
  then show ?case using assms(2)
    by (auto simp: match_join_start_def is_keyword_lexeme no_join_def intro!: reads_peek reads_sret)
next
  case (Cons j js)
  then obtain m where n: "n = Suc m" "length js < m" by (cases n) auto
  let ?ls = "concat (map (join_lexemes u) js)"
  have k: "str ''LEFT'' \<in> set sql_keywords" "str ''INNER'' \<in> set sql_keywords" by simp_all
  then have "{kw ''LEFT'', kw ''INNER''} \<union> S \<subseteq> or_follow u" using assms(2) by (auto simp: follow_defs)
  then have h: "heads ?ls S \<subseteq> or_follow u" using heads_joins by blast
  have rest: "reads (join_loop u m) ?ls ((=) js) S" by (rule Cons.IH) (use Cons.prems n in auto)
  have "reads (sbind (parse_join_clause u) (\<lambda>j. sbind (join_loop u m) (\<lambda>js. sret (j # js)))) (join_lexemes u j @ ?ls) ((=) (j # js)) S"
  proof (rule reads_bind_eq [OF reads_join_clause])
    show "reads (sbind (join_loop u m) (\<lambda>js. sret (j # js))) ?ls ((=) (j # js)) S"
      by (rule reads_final [OF rest]) simp_all
  qed (use Cons.prems h in auto)
  moreover have "match_join_start u = sbind peek (\<lambda>t. sret (is_kw u ''JOIN'' (lexeme t) \<or> is_kw u ''INNER'' (lexeme t) \<or> is_kw u ''LEFT'' (lexeme t)))"
    by (simp add: match_join_start_def is_keyword_lexeme)
  ultimately show ?case
    unfolding n(1) join_loop.simps using join_lexemes_start [of u j] by (auto simp: k intro!: reads_peek)
qed

lemma reads_from:
  assumes "if sel_table q = [] then sel_alias q = None \<and> sel_joins q = []
      else name_ok u (sel_table q) \<and> opt_ok (name_ok u) (sel_alias q) \<and> list_all (join_ok u) (sel_joins q)"
    and "S \<subseteq> or_follow u \<inter> no_join u \<inter> {l. \<not> is_kw u ''AS'' l \<and> \<not> is_kw u ''FROM'' l \<and> fst l \<noteq> IDENT}"
  shows "reads (parse_from u) (from_lexemes u q) ((=) (sel_table q, sel_alias q, sel_joins q)) S"
proof (cases "sel_table q = []")
  case True
  then show ?thesis using assms unfolding parse_from_def from_lexemes_def by (auto intro!: reads_match_end reads_sret)
next
  case False
  let ?ls = "concat (map (join_lexemes u) (sel_joins q))"
  let ?T = "{kw ''LEFT'', kw ''INNER''} \<union> S"
  have k: "str ''LEFT'' \<in> set sql_keywords" "str ''INNER'' \<in> set sql_keywords" "str ''FROM'' \<in> set sql_keywords"
    by simp_all
  have joins: "reads (parse_join_clauses u) ?ls ((=) (sel_joins q)) S"
    unfolding parse_join_clauses_def
  proof (rule reads_length(1) [where f = "\<lambda>n. join_loop u (n + 1)"])
    fix n assume "length ?ls < n"
    then have "length (sel_joins q) < n + 1" using length_joins [of "sel_joins q" u] by linarith
    then show "reads (join_loop u (n + 1)) ?ls ((=) (sel_joins q)) S"
      by (intro reads_joins) (use assms False in auto)
  qed
  have "reads (sbind (parse_optional_alias u) (\<lambda>alias. sbind (parse_join_clauses u) (\<lambda>joins. sret (sel_table q, alias, joins))))
      (alias_lexemes (sel_alias q) @ ?ls) ((=) (sel_table q, sel_alias q, sel_joins q)) S"
  proof (rule reads_bind_eq [OF reads_alias [of ?T]])
    show "\<not> is_kw u ''AS'' l \<and> fst l \<noteq> IDENT" if "l \<in> ?T" for l using that assms(2) k by auto
    show "heads ?ls S \<subseteq> ?T" by (rule heads_joins)
  qed (rule reads_final [OF joins], simp_all)
  then show ?thesis unfolding parse_from_def from_lexemes_def using False k
    by (auto intro!: reads_match reads_then_ident)
qed

section \<open>Projections\<close>

lemma reads_parse_primary: "(\<And>m. reads (primary u (Suc m)) ls Q S) \<Longrightarrow> reads (parse_primary u) ls Q S"
  unfolding parse_primary_def by (rule reads_length(2) [where f = "\<lambda>n. primary u (n + 1)"]) (simp only: add_Suc_right add_0_right One_nat_def)

lemma not_star:
  "name_ok u c \<Longrightarrow> c \<noteq> str ''*''" "number_ok u raw \<Longrightarrow> raw \<noteq> str ''*''"
  by (auto simp: name_ok_def number_ok_def starts_number_def str_def is_word_start_def ch_isalpha_def ch_isdigit_def
      ascii_upper_def ascii_lower_def ascii_digit_def)

lemma reads_agg:
  assumes "is_agg v raw" and "agg_arg raw = str ''*'' \<or> name_ok u (agg_arg raw)"
  shows "reads (parse_projection u) (projection_lexemes u (SqlLiteral v raw)) ((=) (SqlLiteral v raw)) S"
proof -
  let ?f = "agg_func raw" and ?a = "agg_arg raw"
  have v: "SqlLiteral v raw = agg_literal ?f ?a" and f: "?f \<in> {str ''COUNT'', str ''SUM'', str ''AVG''}" "?f \<noteq> str ''*''"
    using assms(1) by (auto simp: is_agg_def agg_literal_def Let_def)
  let ?arg = "\<lambda>t. sbind peek (\<lambda>a.
       if tok_value a = str ''*'' then
         sbind advance (\<lambda>_. sbind (expect_punct '')'') (\<lambda>_. sret (agg_literal (tok_value t) (str ''*''))))
       else
         sbind (parse_primary u) (\<lambda>arg.
         sbind (expect_punct '')'') (\<lambda>_.
         sret (agg_literal (tok_value t) (case arg of Column n \<Rightarrow> n | _ \<Rightarrow> rt_str_expr u arg)))))"
  have arg: "reads (?arg t) [if ?a = str ''*'' then punct ''*'' else (IDENT, ?a), punct '')''] ((=) (SqlLiteral v raw)) S"
    if "tok_value t = ?f" for t
  proof (cases "?a = str ''*''")
    case True
    then show ?thesis
      by (auto simp: v that token_lexeme intro!: reads_peek reads_then_advance reads_then_punct reads_sret)
  next
    case False
    have "reads (sbind (parse_primary u) (\<lambda>arg. sbind (expect_punct '')'') (\<lambda>_.
         sret (agg_literal (tok_value t) (case arg of Column n \<Rightarrow> n | _ \<Rightarrow> rt_str_expr u arg)))))
       ([(IDENT, ?a)] @ [punct '')'']) ((=) (SqlLiteral v raw)) S"
      by (rule reads_bind_eq [OF reads_parse_primary [OF reads_column]])
        (auto simp: prim_follow_def v that intro!: reads_then_punct reads_sret)
    then show ?thesis using False by (auto simp: token_lexeme intro!: reads_peek)
  qed
  then show ?thesis
    unfolding parse_projection_def using assms(1) f
    by (intro reads_peek) (auto simp: in_parens_def token_lexeme intro!: reads_then_advance reads_then_punct)
qed

lemma reads_projection:
  assumes "projection_ok u e" and "S \<subseteq> prim_follow" and "\<And>l. l \<in> S \<Longrightarrow> \<not> is_kw u ''AS'' l"
  shows "reads (parse_projection u) (projection_lexemes u e) ((=) e) S"
proof -
  have col: "reads (sbind parse_column_ref (\<lambda>e. sbind (match_keyword u ''AS'') (\<lambda>b. if b then sbind parse_ident (\<lambda>a. sret (Column a)) else sret e)))
      (expr_lexemes u e @ []) ((=) e) S" if "column_ref_ok u e"
    by (rule reads_bind_eq [OF reads_column_ref [OF that]]) (use assms in \<open>auto intro!: reads_match_end reads_sret\<close>)
  show ?thesis
  proof (cases e)
    case Star
    then show ?thesis unfolding parse_projection_def
      by (auto simp: token_lexeme intro!: reads_peek reads_then_advance reads_sret)
  next
    case (Column c)
    then have "c \<noteq> str ''*''" using assms(1) not_star by simp
    then show ?thesis using col assms(1) Column unfolding parse_projection_def
      by (auto simp: token_lexeme intro!: reads_peek)
  next
    case (QualifiedColumn t c)
    then obtain n where n: "t = Some n" "n \<noteq> str ''*''" using assms(1) not_star by (cases t) auto
    then show ?thesis using col assms(1) QualifiedColumn unfolding parse_projection_def
      by (auto simp: token_lexeme intro!: reads_peek)
  next
    case (SqlLiteral v raw)
    show ?thesis
    proof (cases "is_agg v raw")
      case True
      then show ?thesis using reads_agg assms(1) SqlLiteral by simp
    next
      case False
      then have ok: "literal_ok u v raw" "case v of PText s \<Rightarrow> s \<noteq> str ''*'' | PInt i \<Rightarrow> True | PFloat b \<Rightarrow> True | _ \<Rightarrow> False"
        using assms(1) SqlLiteral by auto
      have "reads (parse_primary u) [literal_lexeme v raw] ((=) (SqlLiteral v raw)) S"
        by (rule reads_parse_primary) (rule reads_literal [OF ok(1)])
      then show ?thesis using ok False not_star(2) [of u raw] unfolding parse_projection_def SqlLiteral
        by (cases v) (auto simp: token_lexeme intro!: reads_peek)
    qed
  qed (use assms(1) in auto)
qed

section \<open>SELECT\<close>

lemma after_sets [simp]:
  "insert (kw k) (after ks) = after (k # ks)" "stmt_end \<in> after ks"
  by (auto simp: after_def)

text \<open>The keywords of the clauses are not what ends the parsers before them.\<close>

lemma after_follow:
  assumes "set ks \<subseteq> {''FROM'', ''WHERE'', ''GROUP'', ''ORDER'', ''LIMIT'', ''OFFSET''}"
  shows "after ks \<subseteq> or_follow u" and "after ks \<subseteq> no_join u" and "after ks \<subseteq> prim_follow"
    and "punct '','' \<notin> after ks" and "l \<in> after ks \<Longrightarrow> fst l \<noteq> IDENT"
    and "l \<in> after ks \<Longrightarrow> k \<notin> set ks \<Longrightarrow> \<not> is_kw u k l"
proof -
  have "str k \<in> set sql_keywords" if "k \<in> {''FROM'', ''WHERE'', ''GROUP'', ''ORDER'', ''LIMIT'', ''OFFSET''}" for k
    using that by (elim insertE emptyE) simp_all
  then have k: "str k \<in> set sql_keywords" if "k \<in> set ks" for k using that assms by blast
  have no: "is_kw u j (kw k) \<Longrightarrow> k \<in> set ks \<Longrightarrow> j \<in> set ks" for j k using k by simp
  have n: "''IS'' \<notin> set ks" "''NOT'' \<notin> set ks" "''IN'' \<notin> set ks" "''BETWEEN'' \<notin> set ks" "''AND'' \<notin> set ks" "''OR'' \<notin> set ks"
    "''JOIN'' \<notin> set ks" "''INNER'' \<notin> set ks" "''LEFT'' \<notin> set ks"
    using assms by auto
  show "after ks \<subseteq> or_follow u" "after ks \<subseteq> no_join u" using no n by (auto simp: after_def follow_defs no_join_def)
  show "after ks \<subseteq> prim_follow" "punct '','' \<notin> after ks" by (auto simp: after_def prim_follow_def)
  show "l \<in> after ks \<Longrightarrow> fst l \<noteq> IDENT" by (auto simp: after_def)
  show "l \<in> after ks \<Longrightarrow> k \<notin> set ks \<Longrightarrow> \<not> is_kw u k l" using no by (auto simp: after_def)
qed

lemma heads_clause:
  "(\<And>S. heads ls S \<subseteq> insert (kw k) S) \<Longrightarrow> heads ms S \<subseteq> after ks \<Longrightarrow> heads (ls @ ms) S \<subseteq> after (k # ks)"
  using after_sets(1) by (simp, blast)

lemma heads_from: "heads (from_lexemes u q) S \<subseteq> insert (kw ''FROM'') S"
  by (simp add: from_lexemes_def subset_insertI)

text \<open>What may come after the select list, the FROM clause, WHERE, GROUP BY and ORDER BY.\<close>

lemma heads_select:
  fixes u q
  defines "off \<equiv> int_lexemes ''OFFSET'' (sel_offset q)" and "lim \<equiv> int_lexemes ''LIMIT'' (sel_limit q)"
    and "ord \<equiv> by_lexemes ''ORDER'' (order_lexemes u) (sel_order_by q)"
    and "grp \<equiv> by_lexemes ''GROUP'' (expr_lexemes u) (sel_group_by q)" and "wh \<equiv> where_lexemes u (sel_where q)"
    and "ks \<equiv> [''FROM'', ''WHERE'', ''GROUP'', ''ORDER'', ''LIMIT'', ''OFFSET'']"
  shows "heads (from_lexemes u q @ wh @ grp @ ord @ lim @ off) (after []) \<subseteq> after ks"
    and "heads (wh @ grp @ ord @ lim @ off) (after []) \<subseteq> after (drop 1 ks)"
    and "heads (grp @ ord @ lim @ off) (after []) \<subseteq> after (drop 2 ks)"
    and "heads (ord @ lim @ off) (after []) \<subseteq> after (drop 3 ks)"
    and "heads (lim @ off) (after []) \<subseteq> after (drop 4 ks)"
    and "heads off (after []) \<subseteq> after (drop 5 ks)"
proof -
  have "heads [] (after []) \<subseteq> after []" by simp
  from heads_clause [OF heads_opt(3) [of "''OFFSET''" "sel_offset q"] this]
  show h5: "heads off (after []) \<subseteq> after (drop 5 ks)" by (simp add: off_def ks_def)
  from heads_clause [OF heads_opt(3) [of "''LIMIT''" "sel_limit q"] h5]
  show h4: "heads (lim @ off) (after []) \<subseteq> after (drop 4 ks)" by (simp add: lim_def ks_def)
  from heads_clause [OF heads_opt(2) [of "''ORDER''"] h4]
  show h3: "heads (ord @ lim @ off) (after []) \<subseteq> after (drop 3 ks)" by (simp add: ord_def ks_def)
  from heads_clause [OF heads_opt(2) [of "''GROUP''"] h3]
  show h2: "heads (grp @ ord @ lim @ off) (after []) \<subseteq> after (drop 2 ks)" by (simp add: grp_def ks_def)
  from heads_clause [OF heads_opt(1) [of u "sel_where q"] h2]
  show h1: "heads (wh @ grp @ ord @ lim @ off) (after []) \<subseteq> after (drop 1 ks)" by (simp add: wh_def ks_def)
  from heads_clause [OF heads_from [of u q] h1]
  show "heads (from_lexemes u q @ wh @ grp @ ord @ lim @ off) (after []) \<subseteq> after ks" by (simp add: ks_def)
qed

lemma reads_select:
  assumes "select_ok u q"
  shows "reads (parse_select u) (select_lexemes u q) ((=) (SelectStmt q)) {stmt_end}"
proof -
  note q = assms [unfolded select_ok_def]
  let ?k = "[''FROM'', ''WHERE'', ''GROUP'', ''ORDER'', ''LIMIT'', ''OFFSET'']"
  let ?off = "int_lexemes ''OFFSET'' (sel_offset q)" and ?lim = "int_lexemes ''LIMIT'' (sel_limit q)"
    and ?ord = "by_lexemes ''ORDER'' (order_lexemes u) (sel_order_by q)"
    and ?grp = "by_lexemes ''GROUP'' (expr_lexemes u) (sel_group_by q)" and ?wh = "where_lexemes u (sel_where q)"
  have E: "{stmt_end} = after []" by (simp add: after_def)
  note h = heads_select(1-4) [of u q] heads_select(5,6) [of q]
  have ks: "set (drop n ?k) \<subseteq> {''FROM'', ''WHERE'', ''GROUP'', ''ORDER'', ''LIMIT'', ''OFFSET''}" for n
    using set_drop_subset [of n ?k] by simp
  note f = after_follow [OF ks]
  have off: "reads (sbind (parse_opt_int u ''OFFSET'') (\<lambda>offset. sret (SelectStmt
      \<lparr>sel_projections = sel_projections q, sel_table = sel_table q, sel_joins = sel_joins q, sel_alias = sel_alias q,
       sel_where = sel_where q, sel_order_by = sel_order_by q, sel_limit = sel_limit q, sel_offset = offset,
       sel_group_by = sel_group_by q\<rparr>))) ?off ((=) (SelectStmt q)) (after [])"
    by (rule reads_final [OF reads_opt_int [of u _ _ "after []"]]) (use q f(6) [of _ 6] in auto)
  have lim: "reads (sbind (parse_opt_int u ''LIMIT'') (\<lambda>limit. sbind (parse_opt_int u ''OFFSET'') (\<lambda>offset. sret (SelectStmt
      \<lparr>sel_projections = sel_projections q, sel_table = sel_table q, sel_joins = sel_joins q, sel_alias = sel_alias q,
       sel_where = sel_where q, sel_order_by = sel_order_by q, sel_limit = limit, sel_offset = offset,
       sel_group_by = sel_group_by q\<rparr>)))) (?lim @ ?off) ((=) (SelectStmt q)) (after [])"
    by (rule reads_bind_eq [OF reads_opt_int h(6)]) (use q f(6) [of _ 5] off in auto)
  have ord: "reads (parse_by_list u ''ORDER'' (parse_order_item u)) ?ord ((=) (sel_order_by q)) (after (drop 4 ?k))"
  proof (rule reads_by_list)
    fix k assume "k \<in> set (sel_order_by q)"
    then show "reads (parse_order_item u) (order_lexemes u k) ((=) k) (insert (punct '','') (after (drop 4 ?k)))"
      by (intro reads_order_item) (use q f(6) [of _ 4] f(3) [of 4] in \<open>auto simp: list_all_iff prim_follow_def\<close>)
  qed (use f(6) [of _ 4] f(4) [of 4] in auto)
  have grp: "reads (parse_by_list u ''GROUP'' parse_group_expr) ?grp ((=) (sel_group_by q)) (after (drop 3 ?k))"
  proof (rule reads_by_list)
    fix e assume "e \<in> set (sel_group_by q)"
    then show "reads parse_group_expr (expr_lexemes u e) ((=) e) (insert (punct '','') (after (drop 3 ?k)))"
      unfolding parse_group_expr_def
      by (intro reads_weaken [OF reads_column_ref]) (use q f(3) [of 3] in \<open>auto simp: list_all_iff prim_follow_def\<close>)
  qed (use f(6) [of _ 3] f(4) [of 3] in auto)
  have wh: "reads (parse_where u) ?wh ((=) (sel_where q)) (after (drop 2 ?k))"
    by (rule reads_where) (use q f(1) [of 2] f(6) [of _ 2] in auto)
  have from_clause: "reads (parse_from u) (from_lexemes u q) ((=) (sel_table q, sel_alias q, sel_joins q)) (after (drop 1 ?k))"
    by (rule reads_from) (use q f(1,2) [of 1] f(5,6) [of _ 1] in auto)
  have proj: "reads (comma_list (parse_projection u)) (comma_lexemes (projection_lexemes u) (sel_projections q)) ((=) (sel_projections q)) (after ?k)"
  proof (rule reads_comma_list)
    fix e assume "e \<in> set (sel_projections q)"
    then show "reads (parse_projection u) (projection_lexemes u e) ((=) e) (insert (punct '','') (after ?k))"
      by (intro reads_projection) (use q f(3) [of 0] f(6) [of _ 0] in \<open>auto simp: list_all_iff prim_follow_def\<close>)
  qed (use q f(4) [of 0] in auto)
  show ?thesis
    unfolding E parse_select_def select_lexemes_def
    apply (rule reads_then_keyword, simp)
    apply (rule reads_bind_eq [OF proj h(1)])
    apply (rule reads_bind_eq [OF from_clause h(2)], simp only: prod.case)
    apply (rule reads_bind_eq [OF wh h(3)])
    apply (rule reads_bind_eq [OF grp h(4)])
    apply (rule reads_bind_eq [OF ord h(5)])
    apply (rule lim)
    done
qed

section \<open>CREATE TABLE and DROP TABLE\<close>

lemma reads_constraints:
  assumes "list_all (\<lambda>k. k \<in> set constraint_names) cs" and "length cs < n" and "\<And>l. l \<in> S \<Longrightarrow> fst l = PUNCT"
  shows "reads (constraint_loop u n) (concat (map constraint_lexemes cs)) ((=) cs) S"
  using assms(1,2)
proof (induction cs arbitrary: n)
  case Nil
  then obtain m where "n = Suc m" by (cases n) auto
  moreover have "\<not> is_kw u k (lexeme t)" if "lexeme t \<in> S" for t k using assms(3) [OF that] by (simp add: is_kw_def)
  ultimately show ?case by (auto simp: is_keyword_lexeme intro!: reads_peek reads_sret)
next
  case (Cons c cs)
  then obtain m where n: "n = Suc m" "length cs < m" by (cases n) auto
  let ?ls = "concat (map constraint_lexemes cs)"
  have rest: "reads (constraint_loop u m) ?ls ((=) cs) S" by (rule Cons.IH) (use Cons.prems n in auto)
  then have "reads (sbind (constraint_loop u m) (\<lambda>cs. sret (k # cs))) ?ls ((=) (k # cs)) S" for k
    by (rule reads_final) simp_all
  moreover have "c = str ''PRIMARY KEY'' \<or> c = str ''NOT NULL'' \<or> c = str ''UNIQUE''"
    using Cons.prems by (simp add: constraint_names_def)
  ultimately show ?case
    unfolding n(1) by (auto simp: constraint_lexemes_def [of c] is_keyword_lexeme intro!: reads_peek reads_then_advance reads_then_keyword)
qed

lemma length_constraints: "length cs \<le> length (concat (map constraint_lexemes cs))"
  by (induction cs) (auto simp: constraint_lexemes_def)

lemma reads_column_def:
  assumes "column_ok u c" and "\<And>l. l \<in> S \<Longrightarrow> fst l = PUNCT"
  shows "reads (parse_column_def u) (column_lexemes c) ((=) c) S"
proof -
  let ?ls = "concat (map constraint_lexemes (cd_constraints c))"
  have cs: "reads (sbind sget (\<lambda>ts. sbind (constraint_loop u (length ts + 1)) (\<lambda>cs.
      sret \<lparr>cd_name = cd_name c, cd_type = cd_type c, cd_constraints = cs\<rparr>))) ?ls ((=) c) S"
  proof (rule reads_length(1) [where f = "\<lambda>n. sbind (constraint_loop u (n + 1)) (\<lambda>cs. sret \<lparr>cd_name = cd_name c, cd_type = cd_type c, cd_constraints = cs\<rparr>)"])
    fix n assume "length ?ls < n"
    then have "length (cd_constraints c) < n + 1" using length_constraints [of "cd_constraints c"] by linarith
    then have "reads (constraint_loop u (n + 1)) ?ls ((=) (cd_constraints c)) S"
      using assms by (intro reads_constraints) (auto simp: column_ok_def)
    then show "reads (sbind (constraint_loop u (n + 1)) (\<lambda>cs. sret \<lparr>cd_name = cd_name c, cd_type = cd_type c, cd_constraints = cs\<rparr>))
        ?ls ((=) c) S"
      by (rule reads_final) simp_all
  qed
  have "reads (sbind (expect KEYWORD None) (\<lambda>ty. sbind sget (\<lambda>ts. sbind (constraint_loop u (length ts + 1)) (\<lambda>cs.
      sret \<lparr>cd_name = cd_name c, cd_type = tok_value ty, cd_constraints = cs\<rparr>)))) ([(KEYWORD, cd_type c)] @ ?ls) ((=) c) S"
  proof (rule reads_bind)
    show "reads (expect KEYWORD None) [(KEYWORD, cd_type c)] (\<lambda>t. lexeme t = (KEYWORD, cd_type c)) (heads ?ls S)"
      using reads_expect [of None "(KEYWORD, cd_type c)"] by simp
  qed (use cs in \<open>simp add: token_lexeme\<close>)
  then show ?thesis unfolding parse_column_def_def column_lexemes_def by (simp add: reads_then_ident)
qed

lemma reads_paren_list:
  assumes "\<And>x. x \<in> set xs \<Longrightarrow> reads p (pr x) ((=) x) {punct '','', punct '')''}" and "xs \<noteq> []"
  shows "reads (paren_list p) (in_parens (comma_lexemes pr xs)) ((=) xs) S"
proof -
  have "reads (comma_list p) (comma_lexemes pr xs) ((=) xs) {punct '')''}" by (rule reads_comma_list) (use assms in auto)
  then have "reads (sbind (comma_list p) (\<lambda>xs. sbind (expect_punct '')'') (\<lambda>_. sret xs))) (comma_lexemes pr xs @ [punct '')'']) ((=) xs) S"
    by (rule reads_bind_eq) (auto intro: reads_then_punct)
  then show ?thesis unfolding paren_list_def in_parens_def by (rule reads_then_punct)
qed

lemma reads_name_list: "ns \<noteq> [] \<Longrightarrow> punct '','' \<notin> S \<Longrightarrow> reads (comma_list parse_ident) (name_list ns) ((=) ns) S"
  unfolding name_list_def by (rule reads_comma_list) (simp_all add: reads_ident)

lemma reads_create_table:
  assumes "stmt_ok u (CreateTable n cols b)"
  shows "reads (parse_create_table u) (stmt_lexemes u (CreateTable n cols b)) ((=) (CreateTable n cols b)) S"
proof -
  have "reads (paren_list (parse_column_def u)) (in_parens (comma_lexemes column_lexemes cols)) ((=) cols) S"
    by (rule reads_paren_list, rule reads_column_def) (use assms in \<open>auto simp: list_all_iff\<close>)
  then have "reads (sbind (paren_list (parse_column_def u)) (\<lambda>cols. sret (CreateTable n cols b)))
      (in_parens (comma_lexemes column_lexemes cols)) ((=) (CreateTable n cols b)) S"
    by (rule reads_final) simp_all
  then show ?thesis unfolding parse_create_table_def
    by (cases b) (auto intro!: reads_then_keyword reads_match reads_then_ident)
qed

lemma reads_drop_table:
  assumes "stmt_ok u (DropTable ns b)" and "punct '','' \<notin> S"
  shows "reads (parse_drop_table u) (stmt_lexemes u (DropTable ns b)) ((=) (DropTable ns b)) S"
proof -
  have "reads (sbind (comma_list parse_ident) (\<lambda>ns. sret (DropTable ns b))) (name_list ns) ((=) (DropTable ns b)) S"
    by (rule reads_final [OF reads_name_list [of ns S]]) (use assms in auto)
  moreover obtain n ls where n: "name_list ns = (IDENT, n) # ls"
    using assms(1) by (cases ns) (auto simp: name_list_def comma_lexemes_def)
  ultimately show ?thesis unfolding parse_drop_table_def stmt_lexemes.simps n
    by (cases b) (auto intro!: reads_then_keyword reads_match)
qed

section \<open>INSERT, UPDATE and DELETE\<close>

lemma reads_tuple:
  assumes "vs \<noteq> []" and "list_all (value_ok u) vs"
  shows "reads (parse_value_tuple u) (tuple_lexemes u vs) ((=) vs) S"
  unfolding parse_value_tuple_def tuple_lexemes_def
  by (rule reads_paren_list) (use assms reads_value in \<open>auto simp: list_all_iff\<close>)

lemma reads_insert:
  assumes "stmt_ok u (Insert t cs vss)" and "punct '','' \<notin> S"
  shows "reads (parse_insert u) (stmt_lexemes u (Insert t cs vss)) ((=) (Insert t cs vss)) S"
proof -
  have vss: "reads (comma_list (parse_value_tuple u)) (comma_lexemes (tuple_lexemes u) vss) ((=) vss) S"
    by (rule reads_comma_list, rule reads_tuple) (use assms in \<open>auto simp: list_all_iff\<close>)
  have vals: "reads (sbind (expect_keyword u ''VALUES'') (\<lambda>_. sbind (comma_list (parse_value_tuple u)) (\<lambda>vs. sret (Insert t cs vs))))
      (kw ''VALUES'' # comma_lexemes (tuple_lexemes u) vss) ((=) (Insert t cs vss)) S" for cs
    by (intro reads_then_keyword reads_final [OF vss]) simp_all
  show ?thesis
  proof (cases cs)
    case None
    then show ?thesis unfolding parse_insert_def using vals [of None]
      by (auto simp: token_lexeme intro!: reads_then_keyword reads_then_ident reads_peek)
  next
    case (Some ns)
    have "reads (comma_list parse_ident) (name_list ns) ((=) ns) {punct '')''}"
      by (rule reads_name_list) (use assms Some in \<open>auto simp: opt_ok_def\<close>)
    then have "reads (sbind (comma_list parse_ident) (\<lambda>cols. sbind (expect_punct '')'') (\<lambda>_. sret (Some cols))))
        (name_list ns @ [punct '')'']) ((=) (Some ns)) UNIV"
      by (rule reads_bind_eq) (auto intro!: reads_then_punct reads_sret)
    then have "reads (sbind advance (\<lambda>_. sbind (comma_list parse_ident) (\<lambda>cols. sbind (expect_punct '')'') (\<lambda>_. sret (Some cols)))))
        (in_parens (name_list ns)) ((=) (Some ns)) UNIV"
      unfolding in_parens_def by (rule reads_then_advance)
    then have cols: "reads (sbind (sbind advance (\<lambda>_. sbind (comma_list parse_ident) (\<lambda>cols. sbind (expect_punct '')'') (\<lambda>_. sret (Some cols)))))
        (\<lambda>cs. sbind (expect_keyword u ''VALUES'') (\<lambda>_. sbind (comma_list (parse_value_tuple u)) (\<lambda>vs. sret (Insert t cs vs)))))
        (in_parens (name_list ns) @ kw ''VALUES'' # comma_lexemes (tuple_lexemes u) vss) ((=) (Insert t (Some ns) vss)) S"
      by (rule reads_bind_eq) (rule subset_UNIV, rule vals)
    have ls: "stmt_lexemes u (Insert t (Some ns) vss)
        = kw ''INSERT'' # kw ''INTO'' # (IDENT, t) # in_parens (name_list ns) @ kw ''VALUES'' # comma_lexemes (tuple_lexemes u) vss"
      by simp
    have open_paren: "tok_value t' = str ''(''"
      if "lexeme t' \<in> heads (in_parens (name_list ns) @ kw ''VALUES'' # comma_lexemes (tuple_lexemes u) vss) S" for t'
      using that by (simp add: in_parens_def token_lexeme)
    show ?thesis
      unfolding parse_insert_def Some ls
      apply (rule reads_then_keyword, simp)
      apply (rule reads_then_keyword, simp)
      apply (rule reads_then_ident)
      apply (rule reads_peek)
      apply (subst if_P, erule open_paren)
      apply (rule cols)
      done
  qed
qed

lemma reads_assignment:
  assumes "value_ok u (snd a)"
  shows "reads (parse_assignment u) (assignment_lexemes u a) ((=) a) S"
proof -
  have "reads (sbind (parse_value u) (\<lambda>v. sret (fst a, v))) [value_lexeme u (snd a)] ((=) a) S"
    by (rule reads_final [OF reads_value [OF assms] subset_refl]) simp
  then have "reads (sbind (expect OPERATOR (Some (str ''=''))) (\<lambda>_. sbind (parse_value u) (\<lambda>v. sret (fst a, v))))
      ([(OPERATOR, str ''='')] @ [value_lexeme u (snd a)]) ((=) a) S"
    using reads_expect [of "Some (str ''='')" "(OPERATOR, str ''='')"] by (intro reads_bind) simp_all
  then show ?thesis unfolding parse_assignment_def assignment_lexemes_def by (simp add: reads_then_ident)
qed

lemma end_follow: "{stmt_end} \<subseteq> or_follow u" "l \<in> {stmt_end} \<Longrightarrow> \<not> is_kw u k l"
  by (auto simp: follow_defs)

lemma reads_update:
  assumes "stmt_ok u (UpdateStmt t asg w)"
  shows "reads (parse_update u) (stmt_lexemes u (UpdateStmt t asg w)) ((=) (UpdateStmt t asg w)) {stmt_end}"
proof -
  have w: "reads (parse_where u) (where_lexemes u w) ((=) w) {stmt_end}"
    by (rule reads_where) (use assms end_follow in auto)
  have "reads (comma_list (parse_assignment u)) (comma_lexemes (assignment_lexemes u) asg) ((=) asg) (insert (kw ''WHERE'') {stmt_end})"
    by (rule reads_comma_list, rule reads_assignment) (use assms in \<open>auto simp: list_all_iff\<close>)
  note asg = this
  have "reads (sbind (comma_list (parse_assignment u)) (\<lambda>asg. sbind (parse_where u) (\<lambda>wh. sret (UpdateStmt t asg wh))))
      (comma_lexemes (assignment_lexemes u) asg @ where_lexemes u w) ((=) (UpdateStmt t asg w)) {stmt_end}"
    by (rule reads_bind_eq [OF asg heads_opt(1)], rule reads_final [OF w]) simp_all
  then show ?thesis unfolding parse_update_def by (auto intro!: reads_then_keyword reads_then_ident)
qed

lemma reads_delete:
  assumes "stmt_ok u (DeleteStmt t w)"
  shows "reads (parse_delete u) (stmt_lexemes u (DeleteStmt t w)) ((=) (DeleteStmt t w)) {stmt_end}"
proof -
  have "reads (parse_where u) (where_lexemes u w) ((=) w) {stmt_end}"
    by (rule reads_where) (use assms end_follow in auto)
  then have "reads (sbind (parse_where u) (\<lambda>wh. sret (DeleteStmt t wh))) (where_lexemes u w) ((=) (DeleteStmt t w)) {stmt_end}"
    by (rule reads_final) simp_all
  then show ?thesis unfolding parse_delete_def by (auto intro!: reads_then_keyword reads_then_ident)
qed

section \<open>Statements\<close>

lemma reads_dispatch:
  assumes "v \<in> set sql_keywords"
    and "reads (if v = str ''CREATE'' then parse_create_table u
        else if v = str ''DROP'' then parse_drop_table u
        else if v = str ''INSERT'' then parse_insert u
        else if v = str ''SELECT'' then parse_select u
        else if v = str ''UPDATE'' then parse_update u
        else if v = str ''DELETE'' then parse_delete u
        else if v = str ''CHECKPOINT'' then sbind advance (\<lambda>_. sret Checkpoint)
        else if v = str ''EXPLAIN'' then
          sbind advance (\<lambda>_. sbind (statement u n) (\<lambda>s. sret (Explain s)))
        else parse_tx_control u) ((KEYWORD, v) # ls) Q S"
  shows "reads (statement u (Suc n)) ((KEYWORD, v) # ls) Q S"
  unfolding statement.simps
proof (rule reads_peek)
  fix t assume "lexeme t \<in> heads ((KEYWORD, v) # ls) S"
  then have "tok_type t = KEYWORD" "py_upper u (tok_value t) = v" using assms(1) by (auto simp: token_lexeme)
  then show "reads (if tok_type t = KEYWORD then
       (let kw = py_upper u (tok_value t) in
        if kw = str ''CREATE'' then parse_create_table u
        else if kw = str ''DROP'' then parse_drop_table u
        else if kw = str ''INSERT'' then parse_insert u
        else if kw = str ''SELECT'' then parse_select u
        else if kw = str ''UPDATE'' then parse_update u
        else if kw = str ''DELETE'' then parse_delete u
        else if kw = str ''CHECKPOINT'' then sbind advance (\<lambda>_. sret Checkpoint)
        else if kw = str ''EXPLAIN'' then
          sbind advance (\<lambda>_. sbind (statement u n) (\<lambda>s. sret (Explain s)))
        else parse_tx_control u)
     else sraise (perror (UnexpectedStatement (tok_value t)) t)) ((KEYWORD, v) # ls) Q S"
    unfolding Let_def using assms(2) by (simp only: simp_thms if_True)
qed

lemma reads_tx_control:
  "reads (parse_tx_control u) [kw ''BEGIN''] ((=) Begin) {stmt_end}"
  "reads (parse_tx_control u) [kw ''COMMIT''] ((=) Commit) {stmt_end}"
  "reads (parse_tx_control u) [kw ''ROLLBACK''] ((=) Rollback) {stmt_end}"
  unfolding parse_tx_control_def Let_def
  by (rule reads_peek, auto simp: token_lexeme intro!: reads_then_advance reads_match_end reads_sret)+

lemma reads_statement:
  "stmt_ok u s \<Longrightarrow> length (stmt_lexemes u s) < n \<Longrightarrow> reads (statement u n) (stmt_lexemes u s) ((=) s) {stmt_end}"
proof (induction s arbitrary: n)
  case (CreateTable t cols b)
  then obtain m where m: "n = Suc m" by (cases n) auto
  show ?case using reads_create_table [OF CreateTable(1)]
    unfolding m stmt_lexemes.simps append_Cons append_Nil by (intro reads_dispatch) simp_all
next
  case (DropTable ns b)
  then obtain m where m: "n = Suc m" by (cases n) auto
  show ?case using reads_drop_table [OF DropTable(1), of "{stmt_end}"]
    unfolding m stmt_lexemes.simps append_Cons append_Nil by (intro reads_dispatch) simp_all
next
  case (Insert t cs vss)
  then obtain m where m: "n = Suc m" by (cases n) auto
  show ?case using reads_insert [OF Insert(1), of "{stmt_end}"]
    unfolding m stmt_lexemes.simps append_Cons append_Nil by (intro reads_dispatch) simp_all
next
  case (SelectStmt q)
  then obtain m where m: "n = Suc m" by (cases n) (auto simp: select_lexemes_def)
  show ?case using reads_select [of u q] SelectStmt(1)
    unfolding m stmt_lexemes.simps select_lexemes_def by (intro reads_dispatch) simp_all
next
  case (UpdateStmt t asg w)
  then obtain m where m: "n = Suc m" by (cases n) auto
  show ?case using reads_update [OF UpdateStmt(1)]
    unfolding m stmt_lexemes.simps append_Cons append_Nil by (intro reads_dispatch) simp_all
next
  case (DeleteStmt t w)
  then obtain m where m: "n = Suc m" by (cases n) auto
  show ?case using reads_delete [OF DeleteStmt(1)]
    unfolding m stmt_lexemes.simps append_Cons append_Nil by (intro reads_dispatch) simp_all
next
  case (Explain s)
  then obtain m where m: "n = Suc m" "length (stmt_lexemes u s) < m" by (cases n) auto
  have "reads (sbind (statement u m) (\<lambda>s. sret (Explain s))) (stmt_lexemes u s) ((=) (Explain s)) {stmt_end}"
    by (rule reads_final [OF Explain.IH]) (use Explain.prems m in simp_all)
  then show ?case unfolding m(1) stmt_lexemes.simps by (intro reads_dispatch) (simp_all add: reads_then_advance)
next
  case Checkpoint
  then obtain m where m: "n = Suc m" by (cases n) auto
  show ?case unfolding m stmt_lexemes.simps by (intro reads_dispatch) (auto intro!: reads_then_advance reads_sret)
qed (use reads_tx_control in \<open>auto simp: gr0_conv_Suc intro!: reads_dispatch dest!: Suc_lessD\<close>)

lemma not_semicolon: "lexeme_ok u (lexeme t) \<Longrightarrow> \<not> is_semicolon t"
  by (auto simp: is_semicolon_def is_punct_token_def lexeme_def)

lemma parse_printed:
  assumes "stmt_ok u s"
  shows "parse u (print_stmt u s) = Inr s"
proof -
  have ok: "list_all (lexeme_ok u) (stmt_lexemes u s)" by (rule stmt_lexemes_ok [OF assms])
  obtain ts t e where l: "lex u (print_lexemes (stmt_lexemes u s) @ [59]) 1 1 = Inr (ts @ [t, e])"
      "map lexeme ts = stmt_lexemes u s" "lexeme t = (PUNCT, [59])" "lexeme e = stmt_end"
    by (rule lex_print_lexemes [OF ok])
  have "\<forall>t \<in> set ts. \<not> is_semicolon t"
    using ok not_semicolon unfolding l(2) [symmetric] list_all_iff by auto
  moreover have "is_semicolon t" "\<not> is_semicolon e" using l(3,4) by (auto simp: is_semicolon_def is_punct_token_def lexeme_def str_def)
  ultimately have "filter (\<lambda>t. \<not> is_semicolon t) (ts @ [t, e]) = ts @ [e]" by simp
  then obtain x where input: "parser_input (ts @ [t, e]) = ts @ [e, x]" by (simp add: parser_input_def Let_def)
  have "reads (parse_statement u) (stmt_lexemes u s) ((=) s) {stmt_end}"
    unfolding parse_statement_def
    by (rule reads_length(2) [where f = "\<lambda>n. statement u (n + 1)"], rule reads_statement [OF assms]) simp
  then have "parse_statement u (ts @ [e, x]) = (Inr s, [e, x])" by (rule readsD [OF _ l(2)]) (use l(4) in auto)
  moreover have "expect EOF None [e, x] = (Inr e, [x])"
    using l(4) by (simp add: expect_def peek_def first_token_def advance_def lexeme_def)
  ultimately show ?thesis using l(1) by (simp add: parse_def tokenize_def print_stmt_def input)
qed

text \<open>
  C8: Every statement that has a text is parsed back from it: the statement is printed with
  blanks between its tokens, with parentheses only where a looser operator stands below a tighter
  one or on the right of its own kind, and a semicolon at the end. \<open>stmt_ok\<close> says which have one:
  the names are no keywords, the numbers are those the tokenizer reads, an aggregate is over a
  plain column or the star.
\<close>

theorem parse_print:
  assumes "stmt_ok u s"
  shows "parse u (print_stmt u s) = Inr s"
  using assms by (rule parse_printed)

text \<open>
  A query with a disjunction below a conjunction, a text with a quote, a grouping and a limit.
\<close>

definition demo_query :: select where
  "demo_query =
     \<lparr>sel_projections = [Column (str ''name''), SqlLiteral (PText (str ''COUNT(*)'')) (str ''COUNT(*)'')],
      sel_table = str ''t'', sel_joins = [], sel_alias = Some (str ''x''),
      sel_where = Some (LogicalOp (str ''AND'')
        (LogicalOp (str ''OR'')
          (BinaryOp (str ''='') (QualifiedColumn (Some (str ''x'')) (str ''id'')) (SqlLiteral (PInt 1) (str ''1'')))
          (BinaryOp (str ''IS NULL'') (Column (str ''id'')) (SqlLiteral PNone (str ''NULL''))))
        (InPredicate (Column (str ''name'')) [PText (str ''it'' @ [39] @ str ''s''), PNone] True)),
      sel_order_by = [(Column (str ''name''), True)], sel_limit = Some 3, sel_offset = None,
      sel_group_by = [Column (str ''name'')]\<rparr>"

lemma demo_query_ok: "stmt_ok ascii_runtime (Explain (SelectStmt demo_query))"
  by code_simp

lemma demo_query_text:
  "print_stmt ascii_runtime (Explain (SelectStmt demo_query))
   = str ''EXPLAIN SELECT name , COUNT ( * ) FROM t AS x WHERE ( x . id = 1 OR id IS NULL ) AND name NOT IN ( ''
     @ [39] @ str ''it'' @ [39, 39] @ str ''s'' @ [39] @ str '' , NULL ) GROUP BY name ORDER BY name DESC LIMIT 3 ;''"
  by code_simp

lemma parse_print_witness:
  "parse ascii_runtime
     (str ''EXPLAIN SELECT name , COUNT ( * ) FROM t AS x WHERE ( x . id = 1 OR id IS NULL ) AND name NOT IN ( ''
      @ [39] @ str ''it'' @ [39, 39] @ str ''s'' @ [39] @ str '' , NULL ) GROUP BY name ORDER BY name DESC LIMIT 3 ;'')
   = Inr (Explain (SelectStmt demo_query))"
  using parse_print [OF demo_query_ok] unfolding demo_query_text .

end
