(* ===== verification/Session.thy ===== *)
theory Session
  imports Database StmtBack
begin

text \<open>
  The database from the outside: statements given as texts to \<open>Database.execute\<close>, through the
  tokenizer, the parser, the executor, the catalog and the heap.
\<close>

lemma execute_printed:
  assumes "stmt_ok u s" and "db_executor db = Some e" and "\<not> db_closed db" and "dispatch u s e = (r, e')"
  shows "execute u (print_stmt u s) db
    = (case r of Inl err \<Rightarrow> Inl err | Inr x \<Rightarrow> Inr (normalize_result s x), db\<lparr>db_executor := Some e'\<rparr>)"
proof -
  have "execute_sql u (print_stmt u s) e = (r, e')"
    using assms(4) by (simp add: execute_sql_def parse_printed [OF assms(1)])
  then have "in_executor (execute_sql u (print_stmt u s)) db = (r, db\<lparr>db_executor := Some e'\<rparr>)"
    by (rule in_executor_Some [OF assms(2)])
  then show ?thesis
    using assms(2,3) by (simp add: execute_def check_open_def parse_printed [OF assms(1)] sbind_def split: sum.split)
qed

text \<open>
  C7: On an open database whose catalog in memory is the one that page 0 holds, with tables on pages
  of their own that are not in the chain of free pages (\<open>catalog_ok\<close>), executing the text of a
  CREATE TABLE under a new name, of an INSERT of a row that passes the checks and can be encoded,
  and of SELECT * returns the status, the count and that row, its values as they are stored under
  the names of the columns. The catalog with the new table fits page 0 and the row fits the page
  of the table, which the code does not check, and the number of pages fits its 32 bits.
\<close>

theorem sql_create_insert_select:
  assumes db: "db_executor db = Some e" "\<not> db_closed db"
    and c: "catalog_ok (ex_cat e) ps" "\<not> dict_has (ct_entries (ex_cat e)) name"
    and cols: "rmap (column_of u) cols = Inr columns"
    and room: "page_count (ct_store (ex_cat e)) + 1 < 256 ^ 4"
      "alloc_result (ct_store (ex_cat e)) ps = (root, ps', pc)"
    and raw: "encode_catalog (map snd (ct_entries (ex_cat e)) @ [mk_meta name root columns]) = Inr raw"
      "20 + length raw \<le> capacity (ct_store (ex_cat e))"
    and v: "validate_row (mk_meta name root columns) (map fst columns) vals (table_constraints cols) = Inr us"
      "ordered_row (mk_meta name root columns) (map fst columns) vals = Inr vs" "row_fits columns vs"
    and n: "length columns < 2 ^ 16" "7 + row_size columns vs \<le> capacity (ct_store (ex_cat e))"
    and ok: "stmt_ok u (CreateTable name cols False)" "stmt_ok u (Insert name None [vals])"
  shows "\<exists>db1 db2 db3.
      execute u (print_stmt u (CreateTable name cols False)) db = (Inr [[(str ''status'', OVal (PText (str ''ok'')))]], db1)
    \<and> execute u (print_stmt u (Insert name None [vals])) db1 = (Inr [[(str ''rows_affected'', OVal (PInt 1))]], db2)
    \<and> execute u (print_stmt u (SelectStmt (star_query name))) db2
      = (Inr [map (\<lambda>(k, v). (k, OVal v))
          (dict_del (str ''rowid'') (row_to_dict (mk_meta name root columns) (1, map stored vs)))], db3)"
proof -
  obtain e1 e2 where s: "dispatch u (CreateTable name cols False) e = (Inr ENothing, e1)"
      "dispatch u (Insert name None [vals]) e1 = (Inr ENothing, e2)"
      "fst (dispatch u (SelectStmt (star_query name)) e2)
        = Inr (ERows [dict_del (str ''rowid'') (row_to_dict (mk_meta name root columns) (1, map stored vs))])"
    using create_insert_select [OF c cols room raw v n] by blast
  obtain e3 where q: "dispatch u (SelectStmt (star_query name)) e2
      = (Inr (ERows [dict_del (str ''rowid'') (row_to_dict (mk_meta name root columns) (1, map stored vs))]), e3)"
    using s(3) by (metis prod.collapse)
  have "stmt_ok u (SelectStmt (star_query name))"
    using ok(1) by (simp add: select_ok_def star_query_def opt_ok_def name_ok_def)
  note x = execute_printed [OF ok(1) db s(1)] execute_printed [OF ok(2) _ _ s(2), of "db\<lparr>db_executor := Some e1\<rparr>"]
    execute_printed [OF this _ _ q, of "db\<lparr>db_executor := Some e2\<rparr>"]
  show ?thesis
    using x db(2) by (simp add: normalize_result_def rows_affected_def)
qed

text \<open>The session on an empty database: \<open>CREATE TABLE t (id INT PRIMARY KEY)\<close>, and so on.\<close>

lemma demo_texts:
  "print_stmt ascii_runtime (CreateTable (str ''t'') demo_cols False) = str ''CREATE TABLE t ( id INT PRIMARY KEY ) ;''"
  "print_stmt ascii_runtime (Insert (str ''t'') None [[PInt 8]]) = str ''INSERT INTO t VALUES ( 8 ) ;''"
  "print_stmt ascii_runtime (SelectStmt (star_query (str ''t''))) = str ''SELECT * FROM t ;''"
  by code_simp+

lemma demo_stmts_ok:
  "stmt_ok ascii_runtime (CreateTable (str ''t'') demo_cols False)" "stmt_ok ascii_runtime (Insert (str ''t'') None [[PInt 8]])"
  by code_simp+

lemma sql_create_insert_select_witness:
  "\<exists>db1 db2 db3.
      execute ascii_runtime (str ''CREATE TABLE t ( id INT PRIMARY KEY ) ;'') demo_db = (Inr [[(str ''status'', OVal (PText (str ''ok'')))]], db1)
    \<and> execute ascii_runtime (str ''INSERT INTO t VALUES ( 8 ) ;'') db1 = (Inr [[(str ''rows_affected'', OVal (PInt 1))]], db2)
    \<and> execute ascii_runtime (str ''SELECT * FROM t ;'') db2 = (Inr [[(str ''id'', OVal (PInt 8))]], db3)"
proof -
  have db: "db_executor demo_db = Some demo_executor" "\<not> db_closed demo_db" by (simp_all add: demo_db_def)
  have cat: "ex_cat demo_executor = demo_catalog" by (simp add: demo_executor_def)
  obtain raw where raw: "encode_catalog (map snd (ct_entries demo_catalog) @ [mk_meta (str ''t'') 2 [(str ''id'', T_INT)]]) = Inr raw"
    "20 + length raw \<le> capacity (ct_store demo_catalog)"
    using demo_create(4) by auto
  have cap: "capacity (ct_store demo_catalog) = 501" by (simp add: demo_catalog_def demo_capacity)
  from sql_create_insert_select [OF db, of "[]", unfolded cat, OF demo_catalog_ok demo_create(1)
      demo_statement(1) demo_create(2,3) raw demo_statement(2-4), unfolded cap demo_statement(5), OF _ _ demo_stmts_ok]
  show ?thesis
    unfolding demo_texts by (simp add: row_to_dict_def row_dict_def mk_meta_def dict_of_def stored_def)
qed

end
