(* ===== verification/Statements.thy ===== *)
theory Statements
  imports Session
begin

text \<open>
  What any statement keeps, whether it returns or raises: the file stays well-formed, grows by at
  most one page, and the catalog names pages of the file. With it, a transaction block of
  statements that fails is undone without further conditions on the statements.
\<close>

section \<open>Pages\<close>

definition same_pages :: "file_store \<Rightarrow> file_store \<Rightarrow> bool" where
  "same_pages st0 st \<longleftrightarrow> wf_store st \<and> page_count st = page_count st0 \<and> page_size st = page_size st0"

lemma keeps_sget: "(\<And>s. P s \<Longrightarrow> keeps P (f s)) \<Longrightarrow> keeps P (sbind sget f)"
  by (simp add: keeps_def)

lemma keeps_sread: "(\<And>s x. P s \<Longrightarrow> g s = Inr x \<Longrightarrow> keeps P (f x)) \<Longrightarrow> keeps P (sbind (sread g) f)"
  by (auto simp: keeps_def sbind_def split: sum.splits)

lemma keeps_slift: "(\<And>x. r = Inr x \<Longrightarrow> keeps P (f x)) \<Longrightarrow> keeps P (sbind (slift r) f)"
  by (auto simp: keeps_def sbind_def split: sum.splits)

lemma page_of_read:
  assumes "wf_store st" and "read_page p st = Inr pg"
  shows "p < page_count st" and "page_id pg = p"
proof -
  show p: "p < page_count st" using assms read_page_beyond [of st p] by (cases "p < page_count st") auto
  show "page_id pg = p" using fs.rd_ok [OF assms(1), of p] p assms(2) by (simp add: has_page_def)
qed

text \<open>Any header and body written at the place of a page.\<close>

lemma keeps_image:
  assumes "pid < page_count st0" and "pack_header pid t l (length body) = Inr h"
  shows "same_pages st0 st \<Longrightarrow>
    \<exists>st'. os_pwrite (h @ pad_body body (page_size st)) (pid * page_size st) st = (Inr (), st') \<and> same_pages st0 st'
      \<and> same_pages st0 (st'\<lparr>free_head := n\<rparr>)"
proof -
  assume st: "same_pages st0 st"
  then have wf: "wf_store st" and c: "page_count st = page_count st0" "page_size st = page_size st0"
    by (simp_all add: same_pages_def)
  note d = wf_storeD [OF wf]
  let ?pg = "\<lparr>page_id = pid, page_kind = t, page_lsn = l, page_body = body\<rparr>"
  let ?f = "pwrite_bytes (fs_file st) (h @ pad_body (page_body ?pg) (page_size st)) (page_id ?pg * page_size st)"
  have w: "wf_store (st\<lparr>fs_file := ?f, page_count := max (page_count st) (page_id ?pg + 1), free_head := fh\<rparr>)" for fh
    by (rule write_image(1) [OF wf, of ?pg h _ fh]) (use assms c d in simp_all)
  have e: "st\<lparr>fs_file := ?f, page_count := max (page_count st) (page_id ?pg + 1), free_head := fh\<rparr>
      = st\<lparr>fs_file := ?f, free_head := fh\<rparr>" for fh
    using assms(1) c by simp
  have "wf_store (st\<lparr>fs_file := ?f\<rparr>)" "wf_store (st\<lparr>fs_file := ?f, free_head := n\<rparr>)"
    using w [of "free_head st"] w [of n] unfolding e by simp_all
  then show ?thesis using d(1) c by (simp add: os_pwrite_def same_pages_def)
qed

lemma keeps_write_page:
  assumes "page_id pg < page_count st0"
  shows "keeps (same_pages st0) (write_page pg)"
proof (rule keepsI)
  fix st assume st: "same_pages st0 st"
  show "same_pages st0 (snd (write_page pg st))"
  proof (cases "pack_header (page_id pg) (page_kind pg) (page_lsn pg) (length (page_body pg))")
    case (Inr h)
    then show ?thesis using keeps_image [OF assms Inr st, where n = 0] by (auto simp: write_page_def)
  qed (use st in \<open>simp add: write_page_def\<close>)
qed

lemma keeps_rewrite:
  assumes "\<And>pg. page_id pg < page_count st0 \<Longrightarrow> keeps (same_pages st0) (f pg)"
  shows "keeps (same_pages st0) (sbind (sread (read_page p)) f)"
proof (rule keeps_sread)
  fix st pg assume "same_pages st0 st" "read_page p st = Inr pg"
  then have "page_id pg < page_count st0" using page_of_read [of st p pg] by (simp add: same_pages_def)
  then show "keeps (same_pages st0) (f pg)" by (rule assms)
qed

lemma keeps_fsync: "keeps P fsync"
  by (simp add: keeps_def fsync_def)

lemma keeps_free_page:
  assumes "pid < page_count st0"
  shows "keeps (same_pages st0) (free_page pid)"
proof (rule keepsI)
  fix st assume st: "same_pages st0 st"
  show "same_pages st0 (snd (free_page pid st))"
  proof (cases "pid = 0 \<or> (\<exists>e. pack_I (free_head st) = Inl e)")
    case True
    then show ?thesis using st by (auto simp: free_page_def)
  next
    case False
    then obtain n where n: "pack_I (free_head st) = Inr n" "pid \<noteq> 0" by (cases "pack_I (free_head st)") auto
    show ?thesis
    proof (cases "pack_header pid FREE 0 (length n)")
      case (Inr h)
      then show ?thesis using keeps_image [OF assms Inr st, where n = pid] n by (auto simp: free_page_def)
    qed (use st n in \<open>simp add: free_page_def\<close>)
  qed
qed

section \<open>Rows\<close>

lemma keeps_heap:
  "keeps (same_pages st0) (heap_append h vs)" "keeps (same_pages st0) (heap_delete h rowid)"
  "keeps (same_pages st0) (heap_update h rowid vs)" "keeps (same_pages st0) (heap_close h)"
proof -
  show "keeps (same_pages st0) (heap_append h vs)"
    unfolding heap_append_def Let_def
    by (rule keeps_rewrite) (auto split: prod.splits intro!: keeps_slift keeps_sbind keeps_write_page)
  show "keeps (same_pages st0) (heap_delete h rowid)"
    unfolding heap_delete_def Let_def
    by (rule keeps_rewrite) (auto split: option.splits prod.splits intro!: keeps_slift keeps_write_page)
  show "keeps (same_pages st0) (heap_update h rowid vs)"
    unfolding heap_update_def Let_def
    by (rule keeps_rewrite) (auto split: option.splits prod.splits intro!: keeps_slift keeps_write_page)
  show "keeps (same_pages st0) (heap_close h)" by (simp add: heap_close_def keeps_fsync)
qed

lemma keeps_insert: "keeps (same_pages st0) (exec_insert meta columns values_list cs)"
proof -
  have u: "keeps (same_pages st0) (check_unique h meta vs cs)" for h vs
    unfolding check_unique_def by (rule keeps_sread) (simp add: keeps_pure)
  show ?thesis
    unfolding exec_insert_def insert_row_def by (intro keeps_sbind keeps_sfor) (auto intro: u keeps_heap)
qed

lemma keeps_update: "keeps (same_pages st0) (exec_update meta assignments wh)"
proof -
  have "keeps (same_pages st0) (update_rows meta d wh rows n)" for d rows n
    by (induction rows arbitrary: n) (auto simp: keeps_def [where m = "\<lambda>s. (Inr n, s)" for n] intro!: keeps_slift keeps_sbind keeps_heap)
  then show ?thesis unfolding exec_update_def by (intro keeps_sbind) (auto intro: keeps_heap)
qed

lemma keeps_delete: "keeps (same_pages st0) (exec_delete meta wh)"
proof -
  have "keeps (same_pages st0) (delete_rows meta w rows n)" for w rows n
    by (induction rows arbitrary: n) (auto simp: keeps_def [where m = "\<lambda>s. (Inr n, s)" for n] intro!: keeps_slift keeps_sbind keeps_heap)
  then show ?thesis unfolding exec_delete_def by (cases wh) (auto intro!: keeps_sbind keeps_heap)
qed

section \<open>The catalog\<close>

text \<open>The tables are on pages of the file.\<close>

definition catalog_in :: "file_store \<Rightarrow> catalog \<Rightarrow> bool" where
  "catalog_in st0 c \<longleftrightarrow> same_pages st0 (ct_store c) \<and> (\<forall>m \<in> snd ` set (ct_entries c). root_page_id m < page_count st0)"

lemma keeps_in_store: "keeps (same_pages st0) m \<Longrightarrow> keeps (catalog_in st0) (in_store m)"
  by (auto simp: keeps_def catalog_in_def in_store_def split: prod.splits)

lemma in_store_sread: "in_store (sread f) = sread (\<lambda>c. f (ct_store c))"
  by (simp add: fun_eq_iff in_store_def)

lemma keeps_catalog_flush: "keeps (catalog_in st0) catalog_flush"
  unfolding catalog_flush_def Let_def in_store_sread
proof (intro keeps_sget keeps_slift keeps_sread)
  fix c c' :: catalog and pg raw
  assume "catalog_in st0 c'" "read_page 0 (ct_store c') = Inr pg"
  then have "page_id pg < page_count st0" using page_of_read [of "ct_store c'" 0 pg] by (simp add: catalog_in_def same_pages_def)
  then show "keeps (catalog_in st0) (sbind (in_store (write_page (pg\<lparr>page_body := b\<rparr>))) (\<lambda>_. in_store fsync))" for b
    by (intro keeps_sbind keeps_in_store keeps_write_page keeps_fsync) simp_all
qed

lemma keeps_drop_table: "keeps (catalog_in st0) (drop_table name)"
  unfolding drop_table_def
proof (rule keeps_sget)
  fix c assume c: "catalog_in st0 c"
  have "keeps (catalog_in st0) (in_store (free_page (root_page_id m)))" if "dict_get (ct_entries c) name = Some m" for m
    using that c by (intro keeps_in_store keeps_free_page) (force simp: catalog_in_def dest: map_of_SomeD)
  moreover have "keeps (catalog_in st0) (smodify (\<lambda>c. c\<lparr>ct_entries := dict_del name (ct_entries c)\<rparr>))"
    by (auto simp: keeps_def catalog_in_def AList.delete_eq)
  ultimately show "keeps (catalog_in st0) (case dict_get (ct_entries c) name of
       None \<Rightarrow> sraise (TableNotFound name)
     | Some meta \<Rightarrow>
         sbind (smodify (\<lambda>c. c\<lparr>ct_entries := dict_del name (ct_entries c)\<rparr>)) (\<lambda>_.
         sbind (in_store (free_page (root_page_id meta))) (\<lambda>_. catalog_flush)))"
    by (auto split: option.splits intro!: keeps_sbind keeps_catalog_flush)
qed

text \<open>A new page is one of the file, or the next one.\<close>

definition grown :: "file_store \<Rightarrow> file_store \<Rightarrow> bool" where
  "grown st0 st \<longleftrightarrow> wf_store st \<and> page_size st = page_size st0 \<and> page_count st0 \<le> page_count st \<and> page_count st \<le> page_count st0 + 1"

lemma alloc_page_grown:
  assumes wf: "wf_store st" and n: "page_count st + 1 < 256 ^ 4"
  obtains e where "alloc_page t st = (Inl e, st)"
    | pid st' where "alloc_page t st = (Inr pid, st')" and "grown st st'" and "pid < page_count st'"
proof -
  consider "free_head st = 0" | "0 < free_head st" "free_head st < page_count st" | "page_count st \<le> free_head st" "0 < free_head st"
    by linarith
  then show ?thesis
  proof cases
    case 1
    obtain st' where "alloc_page t st = (Inr (page_count st), st')" "wf_store st'" "page_count st' = page_count st + 1"
      "page_size st' = page_size st"
      by (rule alloc_next_page [OF wf 1 n, of t]) (rule that; assumption)
    then show ?thesis by (intro that(2) [of "page_count st" st']) (simp_all add: grown_def)
  next
    case 2
    obtain st' where "alloc_page t st = (Inr (free_head st), st')" "wf_store st'" "page_count st' = page_count st"
      "page_size st' = page_size st"
      by (rule alloc_freed_page [OF wf 2, of t]) (rule that; assumption)
    then show ?thesis using 2 by (intro that(2) [of "free_head st" st']) (simp_all add: grown_def)
  next
    case 3
    note d = wf_storeD [OF wf]
    have "length (fs_file st) \<le> free_head st * page_size st" using d(6) 3(1) by simp
    then have "raw_read (free_head st) st = Inr []" by (simp add: raw_read_at [OF d(1)])
    then show ?thesis using 3(2) by (intro that(1) [of StructError]) (simp add: alloc_page_def Let_def unpack_uint_def pyslice_def)
  qed
qed

text \<open>The invariant of the catalog between statements.\<close>

definition catalog_grown :: "file_store \<Rightarrow> catalog \<Rightarrow> bool" where
  "catalog_grown st0 c \<longleftrightarrow> grown st0 (ct_store c) \<and> catalog_in (ct_store c) c"

lemma catalog_in_grown: "grown st0 st1 \<Longrightarrow> catalog_in st1 c \<Longrightarrow> catalog_grown st0 c"
  by (auto simp: catalog_grown_def catalog_in_def same_pages_def grown_def)

lemma dict_set_subset: "kv \<in> set (dict_set k v d) \<Longrightarrow> kv = (k, v) \<or> kv \<in> set d"
  by (induction d) (auto split: if_splits)

lemma create_table_grown:
  assumes c: "catalog_in (ct_store c) c" and n: "page_count (ct_store c) + 1 < 256 ^ 4"
  shows "catalog_grown (ct_store c) (snd (create_table name columns c))"
proof (cases "dict_has (ct_entries c) name")
  case True
  then show ?thesis using c by (simp add: create_table_def catalog_grown_def grown_def catalog_in_def same_pages_def)
next
  case False
  have wf: "wf_store (ct_store c)" using c by (simp add: catalog_in_def same_pages_def)
  show ?thesis
  proof (rule alloc_page_grown [OF wf n, of TABLE])
    fix e assume "alloc_page TABLE (ct_store c) = (Inl e, ct_store c)"
    then show ?thesis
      using False c wf by (simp add: create_table_def in_store_def catalog_grown_def grown_def)
  next
    fix pid st' assume a: "alloc_page TABLE (ct_store c) = (Inr pid, st')" "grown (ct_store c) st'" "pid < page_count st'"
    let ?c = "c\<lparr>ct_store := st', ct_entries := dict_set name (mk_meta name pid columns) (ct_entries c)\<rparr>"
    have "snd ` set (ct_entries ?c) \<subseteq> insert (mk_meta name pid columns) (snd ` set (ct_entries c))"
      by (auto simp: image_iff dest!: dict_set_subset)
    then have "catalog_in st' ?c"
      using a(2,3) c by (fastforce simp: catalog_in_def same_pages_def grown_def mk_meta_def)
    then have "catalog_in st' (snd (catalog_flush ?c))" using keeps_catalog_flush by (simp add: keeps_def)
    then have "catalog_grown (ct_store c) (snd (catalog_flush ?c))" by (rule catalog_in_grown [OF a(2)])
    then show ?thesis using a(1) False by (simp add: create_table_def in_store_def)
  qed
qed

section \<open>Statements\<close>

lemma keeps_in_catalog: "keeps (catalog_in st0) m \<Longrightarrow> keeps (\<lambda>e. catalog_in st0 (ex_cat e)) (in_catalog m)"
  by (auto simp: keeps_def in_catalog_def split: prod.splits)

lemma keeps_in_tx: "keeps (\<lambda>e. catalog_in st0 (ex_cat e)) (in_tx m)"
  by (auto simp: keeps_def in_tx_def split: prod.splits)

lemma keeps_meta_of: "keeps (\<lambda>e. catalog_in st0 (ex_cat e)) (meta_of name)"
  unfolding meta_of_def by (intro keeps_in_catalog keeps_pure)

lemma keeps_dispatch:
  assumes "\<And>name cols b. stmt \<noteq> CreateTable name cols b"
  shows "keeps (\<lambda>e. catalog_in st0 (ex_cat e)) (dispatch u stmt)"
proof -
  have d: "keeps (\<lambda>e. catalog_in st0 (ex_cat e)) (in_catalog (exec_drop_table names))" for names
    unfolding exec_drop_table_def by (intro keeps_in_catalog keeps_sfor keeps_drop_table)
  note i = keeps_in_catalog [OF keeps_in_store [OF keeps_insert]] keeps_in_catalog [OF keeps_in_store [OF keeps_update]]
    keeps_in_catalog [OF keeps_in_store [OF keeps_delete]]
  have b: "keeps (\<lambda>e. catalog_in st0 (ex_cat e)) (exec_tx_control s)" for s
    unfolding exec_tx_control_def by (auto intro!: keeps_sbind keeps_in_tx)
  show ?thesis
    unfolding dispatch_def Let_def using assms
    by (cases stmt) (auto intro!: keeps_sbind keeps_sget d i b keeps_meta_of keeps_in_tx)
qed

lemma dispatch_grown:
  assumes c: "catalog_in (ct_store (ex_cat e)) (ex_cat e)" and n: "page_count (ct_store (ex_cat e)) + 1 < 256 ^ 4"
  shows "catalog_grown (ct_store (ex_cat e)) (ex_cat (snd (dispatch u stmt e)))"
proof (cases "\<exists>name cols b. stmt = CreateTable name cols b")
  case True
  then obtain name cols b where s: "stmt = CreateTable name cols b" by blast
  have "catalog_grown (ct_store (ex_cat e)) (snd (exec_create_table u name cols (ex_cat e)))"
    using create_table_grown [OF c n, of name] catalog_in_grown [OF _ c]  c
    by (cases "rmap (column_of u) cols") (auto simp: exec_create_table_def catalog_in_def same_pages_def grown_def)
  then show ?thesis
    by (auto simp: s dispatch_def in_catalog_def sbind_def split: prod.splits sum.splits)
next
  case False
  then have "keeps (\<lambda>e'. catalog_in (ct_store (ex_cat e)) (ex_cat e')) (dispatch u stmt)" by (intro keeps_dispatch) blast
  then have "catalog_in (ct_store (ex_cat e)) (ex_cat (snd (dispatch u stmt e)))" using c by (simp add: keeps_def)
  moreover have "grown (ct_store (ex_cat e)) (ct_store (ex_cat e))"
    using c by (simp add: catalog_in_def same_pages_def grown_def)
  ultimately show ?thesis by (intro catalog_in_grown)
qed

text \<open>The open transaction and its log, which only CHECKPOINT touches.\<close>

definition tx_ready :: "nat \<Rightarrow> 's tx_manager \<Rightarrow> bool" where
  "tx_ready t tm \<longleftrightarrow> tx_txs tm = [(t, True)] \<and> wal_open (tx_wal tm) \<and> next_lsn (tx_wal tm) < 256 ^ 4"

lemma keeps_ready_tx: "keeps (tx_ready t) tx_begin" "keeps (tx_ready t) (exec_checkpoint None)"
  by (simp_all add: keeps_def tx_ready_def tx_begin_def exec_checkpoint_def tx_checkpoint_def on_wal_def wal_fsync_def wal_truncate_def)

lemma keeps_ready_in_tx: "keeps (tx_ready t) m \<Longrightarrow> keeps (\<lambda>e. tx_ready t (ex_tx e)) (in_tx m)"
  by (auto simp: keeps_def in_tx_def split: prod.splits)

lemma keeps_ready_in_catalog: "keeps (\<lambda>e. tx_ready t (ex_tx e)) (in_catalog m)"
  by (auto simp: keeps_def in_catalog_def split: prod.splits)

lemma keeps_ready_dispatch: "keeps (\<lambda>e. tx_ready t (ex_tx e)) (dispatch u stmt)"
proof -
  note i = keeps_ready_in_catalog keeps_ready_in_tx keeps_ready_tx
  have m: "keeps (\<lambda>e. tx_ready t (ex_tx e)) (meta_of name)" for name unfolding meta_of_def by (rule i)
  have b: "keeps (\<lambda>e. tx_ready t (ex_tx e)) (exec_tx_control s)" for s
    unfolding exec_tx_control_def by (auto intro!: keeps_sbind i)
  have c: "keeps (\<lambda>e. tx_ready t (ex_tx e)) (smodify (\<lambda>e. e\<lparr>ex_constraints := f e\<rparr>))" for f by (simp add: keeps_def)
  show ?thesis
    unfolding dispatch_def Let_def by (cases stmt) (auto intro!: keeps_sbind keeps_sget i b m c)
qed

text \<open>A statement that is run on an open database is one dispatched by its executor, or none.\<close>

lemma execute_dispatch:
  assumes "db_executor db = Some e"
  obtains e' where "db_executor (snd (execute u sql db)) = Some e'" and "e' = e \<or> (\<exists>s. e' = snd (dispatch u s e))"
proof (cases "\<not> db_closed db \<and> (\<exists>s. parse u sql = Inr s)")
  case True
  then obtain s where s: "parse u sql = Inr s" "\<not> db_closed db" by blast
  obtain r e' where d: "dispatch u s e = (r, e')" by (cases "dispatch u s e")
  have "db_executor (snd (execute u sql db)) = Some e'"
    using s d assms by (cases r) (simp_all add: execute_def check_open_def in_executor_def execute_sql_def)
  then show ?thesis using d by (intro that [of e']) (auto intro!: exI [of _ s])
next
  case False
  then have "db_executor (snd (execute u sql db)) = Some e"
    using assms by (cases "db_closed db"; cases "parse u sql") (auto simp: execute_def check_open_def)
  then show ?thesis by (rule that) simp
qed

lemma execute_grown:
  assumes "catalog_in (ct_store (ex_cat e)) (ex_cat e)" and "page_count (ct_store (ex_cat e)) + 1 < 256 ^ 4"
    and "db_executor db = Some e"
  obtains e' where "db_executor (snd (execute u sql db)) = Some e'" and "catalog_grown (ct_store (ex_cat e)) (ex_cat e')"
    and "tx_ready t (ex_tx e) \<Longrightarrow> tx_ready t (ex_tx e')"
proof -
  obtain e' where e': "db_executor (snd (execute u sql db)) = Some e'" "e' = e \<or> (\<exists>s. e' = snd (dispatch u s e))"
    by (rule execute_dispatch [OF assms(3)])
  have "catalog_grown (ct_store (ex_cat e)) (ex_cat e)"
    using assms(1) by (simp add: catalog_grown_def catalog_in_def same_pages_def grown_def)
  then have "catalog_grown (ct_store (ex_cat e)) (ex_cat e')" using e'(2) dispatch_grown [OF assms(1,2)] by auto
  moreover have "tx_ready t (ex_tx e')" if "tx_ready t (ex_tx e)"
    using e'(2) that keeps_ready_dispatch [of t u] by (auto simp: keeps_def)
  ultimately show ?thesis using e'(1) by (intro that)
qed

text \<open>
  C6: Whatever texts are executed on a database, and whichever of them raise, the file stays
  well-formed: it has whole pages with their own numbers, each statement adds at most one page and none
  takes a page away, the page size does not change, and every table of the catalog has its page in
  the file. An exception in the middle of a statement is no exception to that.
\<close>

theorem statements_keep_file:
  assumes "db_executor db = Some e" and "catalog_in (ct_store (ex_cat e)) (ex_cat e)"
    and "page_count (ct_store (ex_cat e)) + length sqls < 256 ^ 4"
  shows "\<exists>e'. db_executor (fold (\<lambda>sql db. snd (execute u sql db)) sqls db) = Some e'
    \<and> catalog_in (ct_store (ex_cat e')) (ex_cat e')
    \<and> page_size (ct_store (ex_cat e')) = page_size (ct_store (ex_cat e))
    \<and> page_count (ct_store (ex_cat e)) \<le> page_count (ct_store (ex_cat e'))
    \<and> page_count (ct_store (ex_cat e')) \<le> page_count (ct_store (ex_cat e)) + length sqls"
  using assms
proof (induction sqls arbitrary: db e)
  case (Cons sql sqls)
  have n: "page_count (ct_store (ex_cat e)) + 1 < 256 ^ 4" using Cons.prems(3) by simp
  obtain e1 where e1: "db_executor (snd (execute u sql db)) = Some e1" "catalog_grown (ct_store (ex_cat e)) (ex_cat e1)"
    by (rule execute_grown [OF Cons.prems(2) n Cons.prems(1)]) (rule that; assumption)
  then have g: "grown (ct_store (ex_cat e)) (ct_store (ex_cat e1))" "catalog_in (ct_store (ex_cat e1)) (ex_cat e1)"
    by (simp_all add: catalog_grown_def)
  then have "page_count (ct_store (ex_cat e1)) + length sqls < 256 ^ 4" using Cons.prems(3) by (simp add: grown_def)
  from Cons.IH [OF e1(1) g(2) this] show ?case using g(1) by (auto simp: grown_def)
qed simp

section \<open>A block of statements\<close>

definition run_block :: "runtime \<Rightarrow> pystr list \<Rightarrow> unit dbx" where
  "run_block u sqls = sfor sqls (\<lambda>sql. sbind (execute u sql) (\<lambda>_. sret ()))"

lemma run_block_ok:
  assumes "db_executor db = Some e" and "catalog_in (ct_store (ex_cat e)) (ex_cat e)"
    and "page_count (ct_store (ex_cat e)) + length sqls < 256 ^ 4" and "tx_ready t (ex_tx e)" and "run_block u sqls db = (r, db1)"
  shows "\<exists>e1. db_executor db1 = Some e1 \<and> wf_store (ct_store (ex_cat e1)) \<and> tx_ready t (ex_tx e1)
    \<and> page_count (ct_store (ex_cat e)) \<le> page_count (ct_store (ex_cat e1))
    \<and> page_size (ct_store (ex_cat e1)) = page_size (ct_store (ex_cat e))"
  using assms
proof (induction sqls arbitrary: db e)
  case Nil
  then show ?case by (simp add: run_block_def catalog_in_def same_pages_def)
next
  case (Cons sql sqls)
  have n: "page_count (ct_store (ex_cat e)) + 1 < 256 ^ 4" using Cons.prems(3) by simp
  obtain e1 where e1: "db_executor (snd (execute u sql db)) = Some e1" "catalog_grown (ct_store (ex_cat e)) (ex_cat e1)"
    "tx_ready t (ex_tx e1)"
    by (rule execute_grown [OF Cons.prems(2) n Cons.prems(1)]) (use that Cons.prems(4) in blast)
  then have g: "grown (ct_store (ex_cat e)) (ct_store (ex_cat e1))" "catalog_in (ct_store (ex_cat e1)) (ex_cat e1)"
    by (simp_all add: catalog_grown_def)
  then have m: "page_count (ct_store (ex_cat e1)) + length sqls < 256 ^ 4" using Cons.prems(3) by (simp add: grown_def)
  show ?case
  proof (cases "fst (execute u sql db)")
    case (Inl err)
    then have "db1 = snd (execute u sql db)"
      using Cons.prems(5) by (cases "execute u sql db") (simp add: run_block_def)
    then show ?thesis using e1 g(1) by (intro exI [of _ e1]) (simp add: grown_def)
  next
    case (Inr x)
    then have "run_block u sqls (snd (execute u sql db)) = (r, db1)"
      using Cons.prems(5) by (cases "execute u sql db") (simp add: run_block_def)
    from Cons.IH [OF e1(1) g(2) m e1(3) this] show ?thesis using g(1) by (auto simp: grown_def)
  qed
qed

lemma tx_commit_ready:
  assumes "tx_ready t tm" and "t < 256 ^ 4"
  obtains tm1 where "tx_commit t tm = (Inr (), tm1)"
proof -
  let ?r = "\<lparr>wr_lsn = next_lsn (tx_wal tm), wr_tx = t, wr_kind = TX_COMMIT, wr_page = 0, wr_before = [], wr_after = []\<rparr>"
  have "record_ok ?r" using assms by (simp add: record_ok_def tx_ready_def)
  then obtain raw where "encode_record ?r = Inr raw" by (rule encode_record_total)
  then show ?thesis using assms(1) that
    by (simp add: tx_commit_def check_tx_def on_wal_def wal_append_def append_rec_def tx_ready_def wal_fsync_def)
qed

lemma transaction_returns:
  assumes "db_executor db = Some e" "\<not> db_closed db" and "catalog_ok (ex_cat e) ps" and "tx_begin (ex_tx e) = (Inr t, tm)"
    and "body (db\<lparr>db_executor := Some (e\<lparr>ex_tx := tm\<rparr>)\<rparr>) = (Inr x, db1)" "db_executor db1 = Some e1"
    and "tx_commit t (ex_tx e1) = (Inr (), tm1)"
  shows "transaction body db = (Inr x, db1\<lparr>db_executor := Some (e1\<lparr>ex_tx := tm1\<rparr>)\<rparr>)"
  using assms snapshot_ok [OF catalog_okD(1) [OF assms(3)]]
  by (simp add: transaction_def check_open_def in_executor_def in_tx_def)

lemma heap_scan_body:
  assumes "read_page (hp_root h) st = Inr pg" and "read_page (hp_root h) st2 = Inr pg2" and "page_body pg2 = page_body pg"
  shows "heap_scan h st2 = heap_scan h st"
  using assms by (simp add: heap_scan_def)

lemma catalog_ok_in: "catalog_ok c ps \<Longrightarrow> catalog_in (ct_store c) c"
  by (auto simp: catalog_ok_def catalog_in_def same_pages_def roots_def)

lemma begin_ready:
  assumes "tx_txs tm = []" and "wal_open (tx_wal tm)" and "next_lsn (tx_wal tm) < 256 ^ 4"
  shows "tx_begin tm = (Inr (tx_next_id tm), snd (tx_begin tm))" and "tx_ready (tx_next_id tm) (snd (tx_begin tm))"
  using assms by (simp_all add: tx_begin_def tx_ready_def Let_def)

text \<open>A block that raises: its transaction raises the same, with every body restored.\<close>

lemma block_error:
  assumes db: "db_executor db = Some e" "\<not> db_closed db" and c: "catalog_ok (ex_cat e) ps"
    and tx: "tx_txs (ex_tx e) = []" "tx_next_id (ex_tx e) < 256 ^ 4"
    and log: "wal_open (tx_wal (ex_tx e))" "next_lsn (tx_wal (ex_tx e)) < 256 ^ 4"
    and n: "page_count (ct_store (ex_cat e)) + length sqls < 256 ^ 4"
    and run: "run_block u sqls (db\<lparr>db_executor := Some (e\<lparr>ex_tx := snd (tx_begin (ex_tx e))\<rparr>)\<rparr>) = (Inl err, db1)"
  obtains e2 where "transaction (run_block u sqls) db = (Inl err, db1\<lparr>db_executor := Some e2\<rparr>)"
    and "\<And>p pg. p < page_count (ct_store (ex_cat e)) \<Longrightarrow> read_page p (ct_store (ex_cat e)) = Inr pg \<Longrightarrow>
      \<exists>pg2. read_page p (ct_store (ex_cat e2)) = Inr pg2 \<and> page_body pg2 = page_body pg"
    and "ct_entries (ex_cat e) \<noteq> [] \<Longrightarrow> ct_entries (ex_cat e2) = ct_entries (ex_cat e)"
proof -
  let ?t = "tx_next_id (ex_tx e)" and ?st = "ct_store (ex_cat e)"
  note b = begin_ready [OF tx(1) log]
  let ?e = "e\<lparr>ex_tx := snd (tx_begin (ex_tx e))\<rparr>"
  have rd: "tx_ready ?t (ex_tx ?e)" using b(2) by simp
  obtain e1 where e1: "db_executor db1 = Some e1" "wf_store (ct_store (ex_cat e1))" "tx_ready ?t (ex_tx e1)"
    "page_count ?st \<le> page_count (ct_store (ex_cat e1))" "page_size (ct_store (ex_cat e1)) = page_size ?st"
    using run_block_ok [OF _ _ _ rd run] catalog_ok_in [OF c] n by auto
  have e1': "capacity (ct_store (ex_cat e1)) = capacity ?st" "dict_get (tx_txs (ex_tx e1)) ?t = Some True"
    "wal_open (tx_wal (ex_tx e1))" "next_lsn (tx_wal (ex_tx e1)) < 256 ^ 4"
    using e1(3,5) by (simp_all add: capacity_def tx_ready_def)
  obtain e2 where e2: "transaction (run_block u sqls) db = (Inl err, db1\<lparr>db_executor := Some e2\<rparr>)"
    and put: "\<And>p pg pg1. p < page_count ?st \<Longrightarrow> read_page p ?st = Inr pg \<Longrightarrow> read_page p (ct_store (ex_cat e1)) = Inr pg1 \<Longrightarrow>
        read_page p (ct_store (ex_cat e2)) = Inr (pg1\<lparr>page_body := page_body pg\<rparr>)"
    and es: "ct_entries (ex_cat e) \<noteq> [] \<longrightarrow> ct_entries (ex_cat e2) = ct_entries (ex_cat e)"
    using failed_transaction_restores [where body = "run_block u sqls", OF db c b(1) run e1(1,2,4) e1'(1,2) tx(2) e1'(3,4)] by blast
  have "\<exists>pg2. read_page p (ct_store (ex_cat e2)) = Inr pg2 \<and> page_body pg2 = page_body pg"
    if p: "p < page_count ?st" "read_page p ?st = Inr pg" for p pg
  proof -
    obtain pg1 where "read_page p (ct_store (ex_cat e1)) = Inr pg1" using page_read [OF e1(2), of p] p(1) e1(4) by auto
    from put [OF p this] show ?thesis by simp
  qed
  then show ?thesis using es by (intro that [OF e2]) blast+
qed

text \<open>A block that returns: its transaction is committed.\<close>

lemma block_returns:
  assumes db: "db_executor db = Some e" "\<not> db_closed db" and c: "catalog_ok (ex_cat e) ps"
    and tx: "tx_txs (ex_tx e) = []" "tx_next_id (ex_tx e) < 256 ^ 4"
    and log: "wal_open (tx_wal (ex_tx e))" "next_lsn (tx_wal (ex_tx e)) < 256 ^ 4"
    and n: "page_count (ct_store (ex_cat e)) + length sqls < 256 ^ 4"
    and run: "run_block u sqls (db\<lparr>db_executor := Some (e\<lparr>ex_tx := snd (tx_begin (ex_tx e))\<rparr>)\<rparr>) = (Inr (), db1)"
  shows "fst (transaction (run_block u sqls) db) = Inr ()"
proof -
  note b = begin_ready [OF tx(1) log]
  have rd: "tx_ready (tx_next_id (ex_tx e)) (ex_tx (e\<lparr>ex_tx := snd (tx_begin (ex_tx e))\<rparr>))" using b(2) by simp
  obtain e1 where e1: "db_executor db1 = Some e1" "tx_ready (tx_next_id (ex_tx e)) (ex_tx e1)"
    using run_block_ok [OF _ _ _ rd run] catalog_ok_in [OF c] n by auto
  obtain tm1 where "tx_commit (tx_next_id (ex_tx e)) (ex_tx e1) = (Inr (), tm1)" by (rule tx_commit_ready [OF e1(2) tx(2)])
  then show ?thesis using transaction_returns [where body = "run_block u sqls", OF db c b(1) run e1(1)] by simp
qed

text \<open>
  C1: A block of statements in a transaction that raises is undone. The database is open and no
  transaction is open on it (a BEGIN that was executed as a statement opens one that COMMIT does
  not end, and \<open>transaction\<close> then raises before the block); the catalog in memory is the one that
  page 0 holds, the tables have pages of their own and the chain of free pages has none of them
  (\<open>catalog_ok\<close>; a catalog larger than the page, which is cut off, is not so); the log is open, and
  the numbers of the transaction, of the log record and of the pages fit their 32 bits. Then
  whatever statements ran before the exception, creations and deletions of tables among them: the
  exception that \<open>transaction\<close> raises is that of the statement, every page the file had has its
  body back, every table has its rows back, and the catalog is as it was, provided it had a
  table.
\<close>

theorem failed_block_undone:
  assumes db: "db_executor db = Some e" "\<not> db_closed db" and c: "catalog_ok (ex_cat e) ps"
    and tx: "tx_txs (ex_tx e) = []" "tx_next_id (ex_tx e) < 256 ^ 4"
    and log: "wal_open (tx_wal (ex_tx e))" "next_lsn (tx_wal (ex_tx e)) < 256 ^ 4"
    and n: "page_count (ct_store (ex_cat e)) + length sqls < 256 ^ 4"
    and failed: "transaction (run_block u sqls) db = (Inl err, db2)"
  shows "fst (run_block u sqls (db\<lparr>db_executor := Some (e\<lparr>ex_tx := snd (tx_begin (ex_tx e))\<rparr>)\<rparr>)) = Inl err
    \<and> (\<exists>e2. db_executor db2 = Some e2
      \<and> (\<forall>p < page_count (ct_store (ex_cat e)). \<forall>pg. read_page p (ct_store (ex_cat e)) = Inr pg \<longrightarrow>
           (\<exists>pg2. read_page p (ct_store (ex_cat e2)) = Inr pg2 \<and> page_body pg2 = page_body pg))
      \<and> (\<forall>m \<in> snd ` set (ct_entries (ex_cat e)).
           heap_scan (table_heap m) (ct_store (ex_cat e2)) = heap_scan (table_heap m) (ct_store (ex_cat e)))
      \<and> (ct_entries (ex_cat e) \<noteq> [] \<longrightarrow> ct_entries (ex_cat e2) = ct_entries (ex_cat e)))"
proof -
  let ?st = "ct_store (ex_cat e)" and ?db = "db\<lparr>db_executor := Some (e\<lparr>ex_tx := snd (tx_begin (ex_tx e))\<rparr>)\<rparr>"
  obtain r db1 where run: "run_block u sqls ?db = (r, db1)" by fastforce
  obtain err' where r: "r = Inl err'"
  proof (cases r)
    case (Inr x)
    then have "fst (transaction (run_block u sqls) db) = Inr ()"
      using block_returns [OF db c tx log n, of u db1] run by simp
    then show ?thesis using failed by simp
  qed
  obtain e2 where e2: "transaction (run_block u sqls) db = (Inl err', db1\<lparr>db_executor := Some e2\<rparr>)"
    and pages: "\<And>p pg. p < page_count ?st \<Longrightarrow> read_page p ?st = Inr pg \<Longrightarrow>
      \<exists>pg2. read_page p (ct_store (ex_cat e2)) = Inr pg2 \<and> page_body pg2 = page_body pg"
    and es: "ct_entries (ex_cat e) \<noteq> [] \<Longrightarrow> ct_entries (ex_cat e2) = ct_entries (ex_cat e)"
    by (rule block_error [OF db c tx log n run [unfolded r]]) (rule that; assumption)
  have "heap_scan (table_heap m) (ct_store (ex_cat e2)) = heap_scan (table_heap m) ?st"
    if m: "m \<in> snd ` set (ct_entries (ex_cat e))" for m
  proof -
    have p: "hp_root (table_heap m) < page_count ?st"
      using catalog_ok_in [OF c] m by (auto simp: catalog_in_def table_heap_def)
    obtain pg where pg: "read_page (hp_root (table_heap m)) ?st = Inr pg"
      using page_read [OF catalog_okD(1) [OF c] p] by blast
    show ?thesis using pages [OF p pg] heap_scan_body [OF pg] by blast
  qed
  moreover have "err' = err" "db2 = db1\<lparr>db_executor := Some e2\<rparr>" using e2 failed by simp_all
  ultimately show ?thesis using run r es pages by auto
qed

section \<open>A concrete block\<close>

text \<open>\<open>CREATE TABLE t\<close> twice: the second raises, and the first is undone.\<close>

lemma demo_db_facts:
  "db_executor demo_db = Some demo_executor" "\<not> db_closed demo_db" "ex_cat demo_executor = demo_catalog"
  "ct_store demo_catalog = demo_store" "tx_txs (ex_tx demo_executor) = []" "tx_next_id (ex_tx demo_executor) = 1"
  "wal_open (tx_wal (ex_tx demo_executor))" "next_lsn (tx_wal (ex_tx demo_executor)) = 1"
  by (simp_all add: demo_db_def demo_executor_def demo_catalog_def new_tx_manager_def open_wal_def recover_next_lsn_def
      scan_log.simps [of "[]"])

lemma create_twice:
  fixes e :: executor
  assumes "ex_cat e = demo_catalog"
  obtains e1 where "dispatch ascii_runtime (CreateTable (str ''t'') demo_cols False) e = (Inr ENothing, e1)"
    and "dispatch ascii_runtime (CreateTable (str ''t'') demo_cols False) e1
      = (Inl (UniqueViolation (str ''TABLE_NAME'') (str ''t'') (UName (str ''t''))), e1)"
proof -
  obtain raw where raw: "encode_catalog (map snd (ct_entries demo_catalog) @ [mk_meta (str ''t'') 2 [(str ''id'', T_INT)]]) = Inr raw"
    "20 + length raw \<le> capacity (ct_store demo_catalog)" using demo_create(4) by blast
  obtain c1 where c1: "create_table (str ''t'') [(str ''id'', T_INT)] demo_catalog = (Inr (), c1)"
      "ct_entries c1 = ct_entries demo_catalog @ [(str ''t'', mk_meta (str ''t'') 2 [(str ''id'', T_INT)])]"
    by (rule create_table_ok [OF demo_catalog_ok demo_create(1-3) raw]) blast
  have "dict_has (ct_entries c1) (str ''t'')" by (simp add: c1(2) dict_has_def)
  then have c2: "create_table (str ''t'') [(str ''id'', T_INT)] c1 = (Inl (UniqueViolation (str ''TABLE_NAME'') (str ''t'') (UName (str ''t''))), c1)"
    by (simp add: create_table_def)
  let ?e1 = "e\<lparr>ex_cat := c1, ex_constraints := dict_set (str ''t'') (table_constraints demo_cols) (ex_constraints e)\<rparr>"
  show ?thesis
    using c1(1) c2 assms demo_statement(1)
    by (intro that [of ?e1]) (simp_all add: dispatch_def exec_create_table_def in_catalog_def)
qed

lemma failed_block_undone_witness:
  "\<exists>db2 e2. transaction (run_block ascii_runtime
      [str ''CREATE TABLE t ( id INT PRIMARY KEY ) ;'', str ''CREATE TABLE t ( id INT PRIMARY KEY ) ;'']) demo_db
      = (Inl (UniqueViolation (str ''TABLE_NAME'') (str ''t'') (UName (str ''t''))), db2)
    \<and> db_executor db2 = Some e2
    \<and> (\<exists>pg. read_page 1 (ct_store (ex_cat e2)) = Inr pg \<and> page_body pg = page_body (new_page 1 TABLE))"
proof -
  let ?s = "CreateTable (str ''t'') demo_cols False" and ?u = ascii_runtime
  let ?sqls = "[print_stmt ?u ?s, print_stmt ?u ?s]" and ?err = "UniqueViolation (str ''TABLE_NAME'') (str ''t'') (UName (str ''t''))"
  note f = demo_db_facts
  let ?e = "demo_executor\<lparr>ex_tx := snd (tx_begin (ex_tx demo_executor))\<rparr>"
  have cat: "ex_cat ?e = demo_catalog" by (simp add: f)
  obtain e1 where d: "dispatch ?u ?s ?e = (Inr ENothing, e1)" "dispatch ?u ?s e1 = (Inl ?err, e1)"
    by (rule create_twice [OF cat])
  let ?db = "demo_db\<lparr>db_executor := Some ?e\<rparr>" and ?db1 = "demo_db\<lparr>db_executor := Some e1\<rparr>"
  have run: "run_block ?u ?sqls ?db = (Inl ?err, ?db1)"
    using execute_printed [OF demo_stmts_ok(1) _ _ d(1), of ?db] execute_printed [OF demo_stmts_ok(1) _ _ d(2), of ?db1] f(2)
    by (simp add: run_block_def)
  have c: "catalog_ok (ex_cat demo_executor) []" using demo_catalog_ok f(3) by simp
  have n: "page_count (ct_store (ex_cat demo_executor)) + length ?sqls < 256 ^ 4" by (simp add: f demo_store_facts)
  have tx: "tx_next_id (ex_tx demo_executor) < 256 ^ 4" "next_lsn (tx_wal (ex_tx demo_executor)) < 256 ^ 4" using f by simp_all
  obtain db2 where t: "transaction (run_block ?u ?sqls) demo_db = (Inl ?err, db2)"
    by (rule block_error [OF f(1,2) c f(5) tx(1) f(7) tx(2) n run]) (rule that; assumption)
  have p: "1 < page_count (ct_store (ex_cat demo_executor))" "read_page 1 (ct_store (ex_cat demo_executor)) = Inr (new_page 1 TABLE)"
    by (simp_all add: f demo_store_facts demo_store_read)
  have "\<exists>e2. db_executor db2 = Some e2 \<and> (\<exists>pg. read_page 1 (ct_store (ex_cat e2)) = Inr pg \<and> page_body pg = page_body (new_page 1 TABLE))"
    using failed_block_undone [OF f(1,2) c f(5) tx(1) f(7) tx(2) n t] p by blast
  then show ?thesis using t unfolding demo_texts by blast
qed

lemma statements_keep_file_witness:
  "\<exists>e'. db_executor (fold (\<lambda>sql db. snd (execute ascii_runtime sql db)) [str ''CREATE TABLE t ( id INT PRIMARY KEY ) ;'', str ''DROP''] demo_db) = Some e'
     \<and> wf_store (ct_store (ex_cat e')) \<and> page_count (ct_store (ex_cat e')) \<le> 4"
  using statements_keep_file [of demo_db demo_executor "[str ''CREATE TABLE t ( id INT PRIMARY KEY ) ;'', str ''DROP'']" ascii_runtime]
    catalog_ok_in [OF demo_catalog_ok] demo_db_facts demo_store_facts(4)
  by (auto simp: catalog_in_def same_pages_def)

end
