(* ===== verification/BTree.thy ===== *)
theory BTree
  imports Storage
begin

text \<open>
  tinydb/index.py: the B+ tree over the pages of a store. A node is read from its page into
  memory, changed there and written back. Keys are the values of the four column types. Walks
  from page to page depend on the page's number only, so that a walk of more pages than the
  store has would never end; the model counts the pages of a walk and answers with
  \<open>OutOfFuel\<close> in that case.
\<close>

section \<open>Keys and nodes\<close>

text \<open>\<open>[type_tag u8][len u16][payload]\<close>; an unknown tag is read as INT.\<close>

definition key_tag :: "nat \<Rightarrow> py_error + byte list \<Rightarrow> py_error + byte list" where
  "key_tag tag payload =
     rbind payload (\<lambda>p. rbind (pack_B tag) (\<lambda>t. rbind (pack_H (length p)) (\<lambda>l. Inr (t @ l @ p))))"

definition encode_key :: "pyval \<Rightarrow> py_error + byte list" where
  "encode_key key =
     (case key of
        PBool b \<Rightarrow> key_tag 4 (Inr [if b then 1 else 0])
      | PInt i \<Rightarrow> key_tag 1 (to_bytes_signed 8 i)
      | PFloat b \<Rightarrow> key_tag 2 (Inr (pack_d b))
      | PText s \<Rightarrow> key_tag 3 (utf8_encode s)
      | PNone \<Rightarrow> Inl PyTypeError)"

definition decode_payload :: "nat \<Rightarrow> byte list \<Rightarrow> py_error + pyval" where
  "decode_payload tag payload =
     (if tag = 2 then rbind (unpack_d payload) (\<lambda>b. Inr (PFloat b))
      else if tag = 4 then rbind (decode_bool payload) (\<lambda>b. Inr (PBool b))
      else if tag = 3 then rbind (utf8_decode payload) (\<lambda>s. Inr (PText s))
      else Inr (PInt (from_bytes_signed payload)))"

definition decode_key :: "byte list \<Rightarrow> nat \<Rightarrow> py_error + pyval \<times> nat" where
  "decode_key body offset =
     rbind (unpack_B (pyslice body offset (offset + 1))) (\<lambda>tag.
     rbind (unpack_H (pyslice body (offset + 1) (offset + 3))) (\<lambda>len.
     rbind (decode_payload tag (pyslice body (offset + 3) (offset + 3 + len))) (\<lambda>key.
     Inr (key, offset + 3 + len))))"

text \<open>
  \<open>_TYPE_TO_TAG\<close>, \<open>_TAG_TO_TYPE\<close> with the default of \<open>_decode_key\<close>, and \<open>_infer_type\<close>: the tag of an
  encoded key is that of the type of the key.
\<close>

definition type_tag :: "column_type \<Rightarrow> nat" where
  "type_tag t = (case t of T_INT \<Rightarrow> 1 | T_FLOAT \<Rightarrow> 2 | T_TEXT \<Rightarrow> 3 | T_BOOL \<Rightarrow> 4)"

definition tag_type :: "nat \<Rightarrow> column_type" where
  "tag_type tag = (if tag = 2 then T_FLOAT else if tag = 3 then T_TEXT else if tag = 4 then T_BOOL else T_INT)"

definition infer_type :: "pyval \<Rightarrow> py_error + column_type" where
  "infer_type key =
     (case key of
        PBool b \<Rightarrow> Inr T_BOOL
      | PInt i \<Rightarrow> Inr T_INT
      | PFloat b \<Rightarrow> Inr T_FLOAT
      | PText s \<Rightarrow> Inr T_TEXT
      | PNone \<Rightarrow> Inl PyTypeError)"

record node =
  nd_page :: nat
  nd_leaf :: bool
  nd_keys :: "pyval list"
  nd_values :: "nat list"
  nd_children :: "nat list"
  nd_next :: nat

definition leaf_node :: "nat \<Rightarrow> pyval list \<Rightarrow> nat list \<Rightarrow> nat \<Rightarrow> node" where
  "leaf_node pid keys values next = \<lparr>nd_page = pid, nd_leaf = True, nd_keys = keys, nd_values = values,
     nd_children = [], nd_next = next\<rparr>"

definition inner_node :: "nat \<Rightarrow> pyval list \<Rightarrow> nat list \<Rightarrow> node" where
  "inner_node pid keys children = \<lparr>nd_page = pid, nd_leaf = False, nd_keys = keys, nd_values = [],
     nd_children = children, nd_next = 0\<rparr>"

text \<open>Keys with a field of \<open>n\<close> bytes each: rowids in a leaf, page numbers in an internal node.\<close>

fun encode_pairs :: "nat \<Rightarrow> (pyval \<times> nat) list \<Rightarrow> py_error + byte list" where
  "encode_pairs n [] = Inr []"
| "encode_pairs n ((k, v) # kvs) =
     rbind (encode_key k) (\<lambda>kb. rbind (pack_uint n v) (\<lambda>vb.
     rbind (encode_pairs n kvs) (\<lambda>rest. Inr (kb @ vb @ rest))))"

fun decode_pairs :: "nat \<Rightarrow> nat \<Rightarrow> byte list \<Rightarrow> nat \<Rightarrow> py_error + (pyval \<times> nat) list \<times> nat" where
  "decode_pairs n 0 body offset = Inr ([], offset)"
| "decode_pairs n (Suc c) body offset =
     rbind (decode_key body offset) (\<lambda>(k, offset).
     rbind (unpack_uint n (pyslice body offset (offset + n))) (\<lambda>v.
     rbind (decode_pairs n c body (offset + n)) (\<lambda>(kvs, offset).
     Inr ((k, v) # kvs, offset))))"

definition encode_node :: "node \<Rightarrow> py_error + byte list" where
  "encode_node nd =
     rbind (pack_B (if nd_leaf nd then 1 else 0)) (\<lambda>l.
     rbind (pack_H (length (nd_keys nd))) (\<lambda>c.
     if nd_leaf nd then
       rbind (encode_pairs 8 (zip (nd_keys nd) (nd_values nd))) (\<lambda>ps.
       rbind (pack_Q (nd_next nd)) (\<lambda>n. Inr (l @ c @ ps @ n)))
     else
       case nd_children nd of
         [] \<Rightarrow> Inl IndexError
       | first # rest \<Rightarrow>
           rbind (pack_I first) (\<lambda>f.
           rbind (encode_pairs 4 (zip (nd_keys nd) rest)) (\<lambda>ps. Inr (l @ c @ f @ ps)))))"

definition write_node :: "node \<Rightarrow> unit fsx" where
  "write_node nd =
     sbind (slift (encode_node nd)) (\<lambda>body.
     write_page \<lparr>page_id = nd_page nd, page_kind = INDEX, page_lsn = 0, page_body = body\<rparr>)"

definition decode_node :: "nat \<Rightarrow> byte list \<Rightarrow> py_error + node" where
  "decode_node pid body =
     rbind (unpack_B (pyslice body 0 1)) (\<lambda>l.
     rbind (unpack_H (pyslice body 1 3)) (\<lambda>c.
     if l = 1 then
       rbind (decode_pairs 8 c body 3) (\<lambda>(kvs, offset).
       rbind (if offset + 8 \<le> length body then unpack_Q (pyslice body offset (offset + 8)) else Inr 0) (\<lambda>next.
       Inr (leaf_node pid (map fst kvs) (map snd kvs) next)))
     else
       rbind (unpack_I (pyslice body 3 7)) (\<lambda>first.
       rbind (decode_pairs 4 c body 7) (\<lambda>(kvs, offset).
       Inr (inner_node pid (map fst kvs) (first # map snd kvs))))))"

definition read_node :: "nat \<Rightarrow> file_store \<Rightarrow> py_error + node" where
  "read_node pid st = rbind (read_page pid st) (\<lambda>pg. decode_node pid (page_body pg))"

section \<open>Searching in a node\<close>

fun child_index :: "pyval list \<Rightarrow> pyval \<Rightarrow> py_error + nat" where
  "child_index [] key = Inr 0"
| "child_index (sep # keys) key =
     rbind (py_lt key sep) (\<lambda>b. if b then Inr 0 else rbind (child_index keys key) (\<lambda>i. Inr (i + 1)))"

function bisect_loop :: "pyval list \<Rightarrow> pyval \<Rightarrow> nat \<Rightarrow> nat \<Rightarrow> py_error + nat" where
  "bisect_loop keys key lo hi =
     (if lo < hi then
        let mid = (lo + hi) div 2 in
        rbind (py_le (keys ! mid) key) (\<lambda>b.
        if b then bisect_loop keys key (mid + 1) hi else bisect_loop keys key lo mid)
      else Inr lo)"
  by pat_completeness auto

termination by (relation "measure (\<lambda>(keys, key, lo, hi). hi - lo)") auto

declare bisect_loop.simps [simp del]

definition bisect_right :: "pyval list \<Rightarrow> pyval \<Rightarrow> py_error + nat" where
  "bisect_right keys key = bisect_loop keys key 0 (length keys)"

definition key_greater :: "pyval \<Rightarrow> pyval \<Rightarrow> py_error + bool" where
  "key_greater key other = py_lt other key"

definition key_in_range :: "pyval \<Rightarrow> pyval \<Rightarrow> pyval \<Rightarrow> bool \<Rightarrow> py_error + bool" where
  "key_in_range key lo hi inclusive =
     (let le = (if inclusive then py_le else py_lt) in
      rbind (le lo key) (\<lambda>b. if b then le key hi else Inr False))"

text \<open>\<open>xs.insert(i, x)\<close>, \<open>xs.pop(i)\<close>, \<open>xs.pop()\<close> and \<open>xs[i] = x\<close>.\<close>

definition py_insert :: "nat \<Rightarrow> 'a \<Rightarrow> 'a list \<Rightarrow> 'a list" where
  "py_insert i x xs = take i xs @ x # drop i xs"

definition py_pop :: "nat \<Rightarrow> 'a list \<Rightarrow> py_error + 'a \<times> 'a list" where
  "py_pop i xs = (if i < length xs then Inr (xs ! i, take i xs @ drop (i + 1) xs) else Inl IndexError)"

definition py_pop_last :: "'a list \<Rightarrow> py_error + 'a \<times> 'a list" where
  "py_pop_last xs = (if xs = [] then Inl IndexError else Inr (last xs, butlast xs))"

definition py_get :: "'a list \<Rightarrow> nat \<Rightarrow> py_error + 'a" where
  "py_get xs i = (if i < length xs then Inr (xs ! i) else Inl IndexError)"

definition py_set :: "nat \<Rightarrow> 'a \<Rightarrow> 'a list \<Rightarrow> py_error + 'a list" where
  "py_set i x xs = (if i < length xs then Inr (xs[i := x]) else Inl IndexError)"

text \<open>The position of the first key equal to the given one.\<close>

fun key_position :: "pyval \<Rightarrow> pyval list \<Rightarrow> nat option" where
  "key_position key [] = None"
| "key_position key (k # ks) = (if py_eq k key then Some 0 else map_option Suc (key_position key ks))"

section \<open>The tree and its queries\<close>

record btree =
  bt_store :: file_store
  bt_root :: nat
  bt_order :: nat
  bt_min :: nat
  bt_pages :: "nat set"

type_synonym 'a btx = "(btree, py_error, 'a) sx"

definition in_tree :: "'a fsx \<Rightarrow> 'a btx" where
  "in_tree m t = (case m (bt_store t) of (r, st) \<Rightarrow> (r, t\<lparr>bt_store := st\<rparr>))"

definition open_btree :: "file_store \<Rightarrow> nat \<Rightarrow> nat \<Rightarrow> btree" where
  "open_btree st root order =
     \<lparr>bt_store = st, bt_root = root, bt_order = order, bt_min = max 1 (order div 2), bt_pages = {root}\<rparr>"

definition create_btree :: "nat \<Rightarrow> file_store \<Rightarrow> (py_error + btree) \<times> file_store" where
  "create_btree order =
     sbind (alloc_page INDEX) (\<lambda>root.
     sbind (write_node (leaf_node root [] [] 0)) (\<lambda>_.
     sbind sget (\<lambda>st. sret (open_btree st root order))))"

text \<open>
  The walk to a leaf with the path to it, innermost parent first; \<open>_find_leaf\<close> is the same
  walk without the path.
\<close>

fun walk :: "nat \<Rightarrow> file_store \<Rightarrow> pyval \<Rightarrow> node \<Rightarrow> (node \<times> nat) list \<Rightarrow> py_error + node \<times> (node \<times> nat) list" where
  "walk 0 st key nd path = (if nd_leaf nd then Inr (nd, path) else Inl OutOfFuel)"
| "walk (Suc f) st key nd path =
     (if nd_leaf nd then Inr (nd, path)
      else
        rbind (child_index (nd_keys nd) key) (\<lambda>i.
        rbind (py_get (nd_children nd) i) (\<lambda>pid.
        rbind (read_node pid st) (\<lambda>child. walk f st key child ((nd, i) # path)))))"

definition find_leaf_with_path :: "btree \<Rightarrow> pyval \<Rightarrow> py_error + node \<times> (node \<times> nat) list" where
  "find_leaf_with_path t key =
     rbind (read_node (bt_root t) (bt_store t)) (\<lambda>nd. walk (page_count (bt_store t)) (bt_store t) key nd [])"

definition find_leaf :: "btree \<Rightarrow> pyval \<Rightarrow> py_error + node" where
  "find_leaf t key = rbind (find_leaf_with_path t key) (\<lambda>r. Inr (fst r))"

definition seek :: "btree \<Rightarrow> pyval \<Rightarrow> py_error + nat list" where
  "seek t key =
     rbind (find_leaf t key) (\<lambda>leaf.
     case key_position key (nd_keys leaf) of
       None \<Rightarrow> Inr []
     | Some i \<Rightarrow> rbind (py_get (nd_values leaf) i) (\<lambda>v. Inr [v]))"

text \<open>The entries of one leaf: the rowids in the range, and whether a key beyond it was met.\<close>

fun range_leaf ::
  "pyval \<Rightarrow> pyval \<Rightarrow> bool \<Rightarrow> (pyval \<times> nat) list \<Rightarrow> py_error + nat list \<times> bool" where
  "range_leaf lo hi inclusive [] = Inr ([], False)"
| "range_leaf lo hi inclusive ((k, v) # kvs) =
     rbind (key_in_range k lo hi inclusive) (\<lambda>b.
     if b then rbind (range_leaf lo hi inclusive kvs) (\<lambda>(vs, done). Inr (v # vs, done))
     else rbind (key_greater k hi) (\<lambda>g.
       if g then Inr ([], True) else range_leaf lo hi inclusive kvs))"

fun range_loop :: "nat \<Rightarrow> file_store \<Rightarrow> pyval \<Rightarrow> pyval \<Rightarrow> bool \<Rightarrow> node \<Rightarrow> py_error + nat list" where
  "range_loop f st lo hi inclusive leaf =
     rbind (range_leaf lo hi inclusive (zip (nd_keys leaf) (nd_values leaf))) (\<lambda>(vs, stop).
     if stop \<or> nd_next leaf = 0 then Inr vs
     else case f of
         0 \<Rightarrow> Inl OutOfFuel
       | Suc f' \<Rightarrow>
           rbind (read_node (nd_next leaf) st) (\<lambda>leaf'.
           rbind (range_loop f' st lo hi inclusive leaf') (\<lambda>rest. Inr (vs @ rest))))"

definition range_query :: "btree \<Rightarrow> pyval \<Rightarrow> pyval \<Rightarrow> bool \<Rightarrow> py_error + nat list" where
  "range_query t lo hi inclusive =
     rbind (find_leaf t lo) (\<lambda>leaf. range_loop (page_count (bt_store t)) (bt_store t) lo hi inclusive leaf)"

text \<open>The walk to the leftmost leaf, with its length; a node without children ends it.\<close>

fun leftmost :: "nat \<Rightarrow> file_store \<Rightarrow> node \<Rightarrow> nat \<Rightarrow> py_error + node \<times> nat" where
  "leftmost f st nd h =
     (if nd_leaf nd \<or> nd_children nd = [] then Inr (nd, h)
      else case f of
          0 \<Rightarrow> Inl OutOfFuel
        | Suc f' \<Rightarrow> rbind (read_node (hd (nd_children nd)) st) (\<lambda>child. leftmost f' st child (h + 1)))"

fun scan_loop :: "nat \<Rightarrow> file_store \<Rightarrow> node \<Rightarrow> py_error + nat list" where
  "scan_loop f st nd =
     (if nd_next nd = 0 then Inr (nd_values nd)
      else case f of
          0 \<Rightarrow> Inl OutOfFuel
        | Suc f' \<Rightarrow>
            rbind (read_node (nd_next nd) st) (\<lambda>nd'.
            rbind (scan_loop f' st nd') (\<lambda>rest. Inr (nd_values nd @ rest))))"

declare range_loop.simps [simp del] leftmost.simps [simp del] scan_loop.simps [simp del]

definition full_scan :: "btree \<Rightarrow> py_error + nat list" where
  "full_scan t =
     rbind (read_node (bt_root t) (bt_store t)) (\<lambda>nd.
     rbind (leftmost (page_count (bt_store t)) (bt_store t) nd 1) (\<lambda>(nd, h).
     scan_loop (page_count (bt_store t)) (bt_store t) nd))"

definition height :: "btree \<Rightarrow> py_error + nat" where
  "height t =
     rbind (read_node (bt_root t) (bt_store t)) (\<lambda>nd.
     rbind (leftmost (page_count (bt_store t)) (bt_store t) nd 1) (\<lambda>(nd, h). Inr h))"

section \<open>Insertion\<close>

definition add_page :: "nat \<Rightarrow> unit btx" where
  "add_page pid = smodify (\<lambda>t. t\<lparr>bt_pages := insert pid (bt_pages t)\<rparr>)"

definition drop_page :: "nat \<Rightarrow> unit btx" where
  "drop_page pid = smodify (\<lambda>t. t\<lparr>bt_pages := bt_pages t - {pid}\<rparr>)"

text \<open>The right half of a node on a new page, and what stays.\<close>

definition split_right :: "nat \<Rightarrow> nat \<Rightarrow> node \<Rightarrow> node" where
  "split_right mid pid nd =
     (if nd_leaf nd then leaf_node pid (drop mid (nd_keys nd)) (drop mid (nd_values nd)) (nd_next nd)
      else inner_node pid (drop (mid + 1) (nd_keys nd)) (drop (mid + 1) (nd_children nd)))"

definition split_left :: "nat \<Rightarrow> nat \<Rightarrow> node \<Rightarrow> node" where
  "split_left mid pid nd =
     (if nd_leaf nd then nd\<lparr>nd_keys := take mid (nd_keys nd), nd_values := take mid (nd_values nd), nd_next := pid\<rparr>
      else nd\<lparr>nd_keys := take mid (nd_keys nd), nd_children := take (mid + 1) (nd_children nd)\<rparr>)"

text \<open>The root leaf overflows: it is split and a new internal root is put above the halves.\<close>

definition split_root :: "unit btx" where
  "split_root =
     sbind sget (\<lambda>t.
     sbind (in_tree (sread (read_node (bt_root t)))) (\<lambda>child.
     if \<not> nd_leaf child \<or> length (nd_keys child) \<le> bt_order t then sret ()
     else
       let mid = length (nd_keys child) div 2; sep_key = nd_keys child ! mid in
       sbind (in_tree (alloc_page INDEX)) (\<lambda>new_page_id.
       sbind (add_page new_page_id) (\<lambda>_.
       sbind (in_tree (write_node (split_left mid new_page_id child))) (\<lambda>_.
       sbind (in_tree (write_node (split_right mid new_page_id child))) (\<lambda>_.
       sbind (in_tree (alloc_page INDEX)) (\<lambda>new_root_id.
       sbind (add_page new_root_id) (\<lambda>_.
       sbind (in_tree (write_node (inner_node new_root_id [sep_key] [nd_page child, new_page_id]))) (\<lambda>_.
       smodify (\<lambda>t. t\<lparr>bt_root := new_root_id\<rparr>))))))))))"

fun split_and_propagate :: "(node \<times> nat) list \<Rightarrow> unit btx" where
  "split_and_propagate [] = split_root"
| "split_and_propagate ((parent, child_idx) # path) =
     sbind (slift (py_get (nd_children parent) child_idx)) (\<lambda>pid.
     sbind (in_tree (sread (read_node pid))) (\<lambda>child.
     sbind sget (\<lambda>t.
     if length (nd_keys child) \<le> bt_order t then sret ()
     else
       let mid = length (nd_keys child) div 2; sep_key = nd_keys child ! mid in
       sbind (in_tree (alloc_page INDEX)) (\<lambda>new_page_id.
       sbind (add_page new_page_id) (\<lambda>_.
       sbind (in_tree (write_node (split_left mid new_page_id child))) (\<lambda>_.
       sbind (in_tree (write_node (split_right mid new_page_id child))) (\<lambda>_.
       let parent' = parent\<lparr>nd_keys := py_insert child_idx sep_key (nd_keys parent),
             nd_children := py_insert (child_idx + 1) new_page_id (nd_children parent)\<rparr> in
       sbind (in_tree (write_node parent')) (\<lambda>_.
       if length (nd_keys parent') > bt_order t then split_and_propagate path else sret ()))))))))"

definition bt_insert :: "pyval \<Rightarrow> nat \<Rightarrow> unit btx" where
  "bt_insert key rowid =
     sbind (sread (\<lambda>t. find_leaf_with_path t key)) (\<lambda>(nd, path).
     case key_position key (nd_keys nd) of
       Some i \<Rightarrow>
         sbind (slift (py_set i rowid (nd_values nd))) (\<lambda>vs.
         in_tree (write_node (nd\<lparr>nd_values := vs\<rparr>)))
     | None \<Rightarrow>
         sbind (slift (bisect_right (nd_keys nd) key)) (\<lambda>idx.
         let nd' = nd\<lparr>nd_keys := py_insert idx key (nd_keys nd), nd_values := py_insert idx rowid (nd_values nd)\<rparr> in
         sbind (in_tree (write_node nd')) (\<lambda>_.
         sbind sget (\<lambda>t.
         if length (nd_keys nd') > bt_order t then split_and_propagate path else sret ()))))"

section \<open>Deletion\<close>

definition write_nodes :: "node list \<Rightarrow> unit btx" where
  "write_nodes nds = sfor nds (\<lambda>nd. in_tree (write_node nd))"

text \<open>Moving one entry from a sibling.\<close>

definition redistribute_left :: "node \<Rightarrow> nat \<Rightarrow> node \<Rightarrow> node \<Rightarrow> unit btx" where
  "redistribute_left parent child_idx left nd =
     (if nd_leaf nd then
        sbind (slift (py_pop_last (nd_keys left))) (\<lambda>(k, lks).
        sbind (slift (py_pop_last (nd_values left))) (\<lambda>(v, lvs).
        sbind (slift (py_set (child_idx - 1) k (nd_keys parent))) (\<lambda>pks.
        write_nodes [left\<lparr>nd_keys := lks, nd_values := lvs\<rparr>,
          nd\<lparr>nd_keys := k # nd_keys nd, nd_values := v # nd_values nd\<rparr>, parent\<lparr>nd_keys := pks\<rparr>])))
      else
        sbind (slift (py_get (nd_keys parent) (child_idx - 1))) (\<lambda>k.
        sbind (slift (py_pop_last (nd_children left))) (\<lambda>(c, lcs).
        sbind (slift (py_pop_last (nd_keys left))) (\<lambda>(lk, lks).
        sbind (slift (py_set (child_idx - 1) lk (nd_keys parent))) (\<lambda>pks.
        write_nodes [left\<lparr>nd_keys := lks, nd_children := lcs\<rparr>,
          nd\<lparr>nd_keys := k # nd_keys nd, nd_children := c # nd_children nd\<rparr>, parent\<lparr>nd_keys := pks\<rparr>])))))"

definition redistribute_right :: "node \<Rightarrow> nat \<Rightarrow> node \<Rightarrow> node \<Rightarrow> unit btx" where
  "redistribute_right parent child_idx nd right =
     (if nd_leaf nd then
        sbind (slift (py_pop 0 (nd_keys right))) (\<lambda>(k, rks).
        sbind (slift (py_pop 0 (nd_values right))) (\<lambda>(v, rvs).
        sbind (slift (py_get rks 0)) (\<lambda>rk.
        sbind (slift (py_set child_idx rk (nd_keys parent))) (\<lambda>pks.
        write_nodes [nd\<lparr>nd_keys := nd_keys nd @ [k], nd_values := nd_values nd @ [v]\<rparr>,
          right\<lparr>nd_keys := rks, nd_values := rvs\<rparr>, parent\<lparr>nd_keys := pks\<rparr>]))))
      else
        sbind (slift (py_get (nd_keys parent) child_idx)) (\<lambda>k.
        sbind (slift (py_pop 0 (nd_children right))) (\<lambda>(c, rcs).
        sbind (slift (py_pop 0 (nd_keys right))) (\<lambda>(rk, rks).
        sbind (slift (py_set child_idx rk (nd_keys parent))) (\<lambda>pks.
        write_nodes [nd\<lparr>nd_keys := nd_keys nd @ [k], nd_children := nd_children nd @ [c]\<rparr>,
          right\<lparr>nd_keys := rks, nd_children := rcs\<rparr>, parent\<lparr>nd_keys := pks\<rparr>])))))"

definition maybe_shrink_root :: "node \<Rightarrow> unit btx" where
  "maybe_shrink_root parent =
     sbind sget (\<lambda>t.
     case nd_children parent of
       new_root # _ \<Rightarrow>
         if nd_page parent = bt_root t \<and> nd_keys parent = [] then
           sbind (in_tree (free_page (nd_page parent))) (\<lambda>_.
           sbind (drop_page (nd_page parent)) (\<lambda>_.
           smodify (\<lambda>t. t\<lparr>bt_root := new_root\<rparr>)))
         else sret ()
     | [] \<Rightarrow> sret ())"

text \<open>
  The node that was emptied is freed and leaves its parent. The merges end with
  \<open>self._rebalance([])\<close> for a parent with too few keys, which returns at once.
\<close>

definition remove_child :: "node \<Rightarrow> nat \<Rightarrow> nat \<Rightarrow> nat \<Rightarrow> unit btx" where
  "remove_child parent key_idx child_idx pid =
     sbind (in_tree (free_page pid)) (\<lambda>_.
     sbind (drop_page pid) (\<lambda>_.
     sbind (slift (py_pop key_idx (nd_keys parent))) (\<lambda>(k, ks).
     sbind (slift (py_pop child_idx (nd_children parent))) (\<lambda>(c, cs).
     let parent' = parent\<lparr>nd_keys := ks, nd_children := cs\<rparr> in
     sbind (in_tree (write_node parent')) (\<lambda>_. maybe_shrink_root parent')))))"

definition merge_into_left :: "node \<Rightarrow> nat \<Rightarrow> node \<Rightarrow> node \<Rightarrow> unit btx" where
  "merge_into_left parent child_idx left nd =
     sbind (if nd_leaf nd then
          sret (left\<lparr>nd_keys := nd_keys left @ nd_keys nd, nd_values := nd_values left @ nd_values nd,
                  nd_next := nd_next nd\<rparr>)
        else
          sbind (slift (py_get (nd_keys parent) (child_idx - 1))) (\<lambda>k.
          sret (left\<lparr>nd_keys := nd_keys left @ k # nd_keys nd,
                  nd_children := nd_children left @ nd_children nd\<rparr>))) (\<lambda>left'.
     sbind (in_tree (write_node left')) (\<lambda>_.
     remove_child parent (child_idx - 1) child_idx (nd_page nd)))"

definition merge_into_right :: "node \<Rightarrow> nat \<Rightarrow> node \<Rightarrow> node \<Rightarrow> unit btx" where
  "merge_into_right parent child_idx nd right =
     sbind (if nd_leaf nd then
          sret (right\<lparr>nd_keys := nd_keys nd @ nd_keys right, nd_values := nd_values nd @ nd_values right\<rparr>)
        else
          sbind (slift (py_get (nd_keys parent) child_idx)) (\<lambda>k.
          sret (right\<lparr>nd_keys := k # nd_keys nd @ nd_keys right,
                  nd_children := nd_children nd @ nd_children right\<rparr>))) (\<lambda>right'.
     sbind (in_tree (write_node right')) (\<lambda>_.
     remove_child parent child_idx child_idx (nd_page nd)))"

fun rebalance :: "(node \<times> nat) list \<Rightarrow> unit btx" where
  "rebalance [] = sret ()"
| "rebalance ((parent, child_idx) # path) =
     sbind (slift (py_get (nd_children parent) child_idx)) (\<lambda>pid.
     sbind (in_tree (sread (read_node pid))) (\<lambda>nd.
     sbind sget (\<lambda>t.
     if bt_min t \<le> length (nd_keys nd) then sret ()
     else if 0 < child_idx then
       sbind (in_tree (sread (read_node (nd_children parent ! (child_idx - 1))))) (\<lambda>left.
       if bt_min t < length (nd_keys left) then redistribute_left parent child_idx left nd
       else merge_into_left parent child_idx left nd)
     else if child_idx + 1 < length (nd_children parent) then
       sbind (in_tree (sread (read_node (nd_children parent ! (child_idx + 1))))) (\<lambda>right.
       if bt_min t < length (nd_keys right) then redistribute_right parent child_idx nd right
       else merge_into_right parent child_idx nd right)
     else sret ())))"

definition bt_delete :: "pyval \<Rightarrow> unit btx" where
  "bt_delete key =
     sbind (sread (\<lambda>t. find_leaf_with_path t key)) (\<lambda>(nd, path).
     case key_position key (nd_keys nd) of
       None \<Rightarrow> sret ()
     | Some i \<Rightarrow>
         sbind (slift (py_pop i (nd_keys nd))) (\<lambda>(k, ks).
         sbind (slift (py_pop i (nd_values nd))) (\<lambda>(v, vs).
         let nd' = nd\<lparr>nd_keys := ks, nd_values := vs\<rparr> in
         sbind (in_tree (write_node nd')) (\<lambda>_.
         sbind sget (\<lambda>t.
         if length ks < bt_min t \<and> nd_page nd \<noteq> bt_root t then rebalance path else sret ())))))"

end
