(* ===== verification/BTreeFacts.thy ===== *)
theory BTreeFacts
  imports BTree PyOrder
begin

text \<open>
  Nodes come back from their pages as they were written, a leaf answers \<open>seek\<close> as the finite
  map of its entries, and the binary search finds the insertion point.
\<close>

section \<open>Keys and nodes come back\<close>

lemma decode_key_encoded:
  assumes "encode_key k = Inr kb" and "length pre = off"
  shows "decode_key (pre @ kb @ rest) off = Inr (k, off + length kb)"
proof -
  obtain tag p where kb: "kb = le_enc 1 tag @ le_enc 2 (length p) @ p" and tag: "tag < 5"
    and len: "length p < 256 ^ 2" and pl: "decode_payload tag p = Inr k"
  proof (cases k)
    case (PInt i)
    then obtain p where p: "to_bytes_signed 8 i = Inr p" "kb = le_enc 1 1 @ le_enc 2 (length p) @ p" "length p < 256 ^ 2"
      using assms(1) by (auto simp: encode_key_def key_tag_def simp del: One_nat_def le_enc.simps)
    show ?thesis by (rule that [of 1 p]) (use p from_to_bytes_signed [OF p(1)] PInt in \<open>simp_all add: decode_payload_def\<close>)
  next
    case (PFloat b)
    then show ?thesis using assms(1) that [of 2 "pack_d b"]
      by (auto simp: encode_key_def key_tag_def decode_payload_def simp del: One_nat_def le_enc.simps)
  next
    case (PText s)
    then obtain p where p: "utf8_encode s = Inr p" "kb = le_enc 1 3 @ le_enc 2 (length p) @ p" "length p < 256 ^ 2"
      using assms(1) by (auto simp: encode_key_def key_tag_def simp del: One_nat_def le_enc.simps)
    show ?thesis by (rule that [of 3 p]) (use p utf8_roundtrip [OF p(1)] PText in \<open>simp_all add: decode_payload_def\<close>)
  next
    case (PBool b)
    then show ?thesis using assms(1) that [of 4 "[if b then 1 else 0]"]
      by (auto simp: encode_key_def key_tag_def decode_payload_def decode_bool_def simp del: One_nat_def le_enc.simps)
  qed (use assms(1) in \<open>simp add: encode_key_def\<close>)
  let ?body = "pre @ le_enc 1 tag @ le_enc 2 (length p) @ p @ rest"
  have s1: "pyslice ?body off (off + 1) = le_enc 1 tag"
    using assms(2) by (simp add: pyslice_def del: One_nat_def le_enc.simps)
  have s2: "pyslice ?body (off + 1) (off + 3) = le_enc 2 (length p)"
    using assms(2) by (simp add: pyslice_def del: One_nat_def le_enc.simps)
  have s3: "pyslice ?body (off + 3) (off + 3 + length p) = p"
    using assms(2) by (simp add: pyslice_def del: One_nat_def le_enc.simps)
  have "tag < 256 ^ 1" using tag by simp
  then have "decode_key ?body off = Inr (k, off + 3 + length p)"
    using s1 s2 s3 len pl unfolding decode_key_def
    by (simp only: unpack_le_enc rbind_Inr)
  then show ?thesis by (simp add: kb del: One_nat_def le_enc.simps)
qed

lemma decode_pairs_encoded:
  assumes "encode_pairs n kvs = Inr bs" and "length pre = off"
  shows "decode_pairs n (length kvs) (pre @ bs @ rest) off = Inr (kvs, off + length bs)"
  using assms
proof (induction kvs arbitrary: pre bs off)
  case (Cons kv kvs)
  obtain k v where kv: "kv = (k, v)" by (cases kv)
  obtain kb ps where kb: "encode_key k = Inr kb" and v: "v < 256 ^ n" and ps: "encode_pairs n kvs = Inr ps"
    and bs: "bs = kb @ le_enc n v @ ps" using Cons.prems(1) by (auto simp: kv)
  have d: "decode_key (pre @ bs @ rest) off = Inr (k, off + length kb)"
    using decode_key_encoded [OF kb Cons.prems(2), of "le_enc n v @ ps @ rest"] by (simp add: bs)
  have p: "pre @ bs @ rest = (pre @ kb @ le_enc n v) @ ps @ rest"
    and l: "length (pre @ kb @ le_enc n v) = off + length kb + n" by (simp_all add: bs Cons.prems(2))
  have s: "unpack_uint n (pyslice (pre @ bs @ rest) (off + length kb) (off + length kb + n)) = Inr v"
    using v Cons.prems(2) by (simp add: bs pyslice_def)
  show ?case
    using d s Cons.IH [OF ps l, folded p] by (simp add: kv bs ac_simps)
qed simp

definition node_ok :: "node \<Rightarrow> bool" where
  "node_ok nd \<longleftrightarrow>
     (if nd_leaf nd then length (nd_values nd) = length (nd_keys nd) \<and> nd_children nd = []
      else length (nd_children nd) = length (nd_keys nd) + 1 \<and> nd_values nd = [] \<and> nd_next nd = 0)"

lemma decode_encoded_node:
  assumes "encode_node nd = Inr body" and "node_ok nd"
  shows "decode_node (nd_page nd) body = Inr nd"
proof (cases "nd_leaf nd")
  case True
  let ?kvs = "zip (nd_keys nd) (nd_values nd)"
  obtain ps where n: "length (nd_keys nd) < 256 ^ 2" "nd_next nd < 256 ^ 8" and ps: "encode_pairs 8 ?kvs = Inr ps"
    and body: "body = le_enc 1 1 @ le_enc 2 (length (nd_keys nd)) @ ps @ le_enc 8 (nd_next nd)"
    using assms(1) True by (auto simp: encode_node_def simp del: One_nat_def le_enc.simps)
  have l: "length ?kvs = length (nd_keys nd)" "length (le_enc 1 1 @ le_enc 2 (length (nd_keys nd))) = 3"
    using assms(2) True by (simp_all add: node_ok_def)
  have s: "pyslice body 0 1 = le_enc 1 1" "pyslice body 1 3 = le_enc 2 (length (nd_keys nd))"
    "pyslice body (3 + length ps) (3 + length ps + 8) = le_enc 8 (nd_next nd)"
    by (simp_all add: body pyslice_def del: One_nat_def le_enc.simps)
  have "decode_pairs 8 (length (nd_keys nd)) body 3 = Inr (?kvs, 3 + length ps)"
    using decode_pairs_encoded [OF ps l(2), of "le_enc 8 (nd_next nd)"] l(1) by (simp add: body del: One_nat_def le_enc.simps)
  moreover have "3 + length ps + 8 \<le> length body" by (simp add: body del: le_enc.simps)
  moreover have "map fst ?kvs = nd_keys nd" "map snd ?kvs = nd_values nd"
    using assms(2) True by (simp_all add: node_ok_def)
  ultimately show ?thesis
    using n s True assms(2) unfolding decode_node_def
    by (simp add: leaf_node_def node_ok_def del: le_enc.simps One_nat_def)
next
  case False
  obtain c cs where cs: "nd_children nd = c # cs" and lc: "length cs = length (nd_keys nd)"
    using assms(2) False by (cases "nd_children nd") (auto simp: node_ok_def)
  let ?kvs = "zip (nd_keys nd) cs"
  obtain ps where n: "length (nd_keys nd) < 256 ^ 2" "c < 256 ^ 4" and ps: "encode_pairs 4 ?kvs = Inr ps"
    and body: "body = le_enc 1 0 @ le_enc 2 (length (nd_keys nd)) @ le_enc 4 c @ ps"
    using assms(1) False cs by (auto simp: encode_node_def simp del: One_nat_def le_enc.simps le_enc_0)
  have l: "length ?kvs = length (nd_keys nd)" "length (le_enc 1 0 @ le_enc 2 (length (nd_keys nd)) @ le_enc 4 c) = 7"
    using lc by simp_all
  have s: "pyslice body 0 1 = le_enc 1 0" "pyslice body 1 3 = le_enc 2 (length (nd_keys nd))" "pyslice body 3 7 = le_enc 4 c"
    by (simp_all add: body pyslice_def del: One_nat_def le_enc.simps le_enc_0)
  have "decode_pairs 4 (length (nd_keys nd)) body 7 = Inr (?kvs, 7 + length ps)"
    using decode_pairs_encoded [OF ps l(2), of "[]"] l(1) by (simp add: body del: One_nat_def le_enc.simps le_enc_0)
  moreover have "map fst ?kvs = nd_keys nd" "map snd ?kvs = cs" using lc by simp_all
  ultimately show ?thesis
    using n s False assms(2) cs unfolding decode_node_def
    by (simp add: inner_node_def node_ok_def del: le_enc.simps One_nat_def le_enc_0)
qed

text \<open>A node that fits its page is read back as it was written, and no other node changes.\<close>

lemma write_node_ok:
  assumes wf: "wf_store st" and p: "nd_page nd < page_count st" and ok: "node_ok nd"
    and e: "encode_node nd = Inr body" and room: "length body \<le> capacity st"
  obtains st' where "write_node nd st = (Inr (), st')" and "wf_store st'"
    and "page_count st' = page_count st" and "capacity st' = capacity st" and "free_head st' = free_head st"
    and "read_node (nd_page nd) st' = Inr nd"
    and "\<And>q. q < page_count st \<Longrightarrow> q \<noteq> nd_page nd \<Longrightarrow> read_page q st' = read_page q st"
proof -
  let ?pg = "\<lparr>page_id = nd_page nd, page_kind = INDEX, page_lsn = 0, page_body = body\<rparr>"
  have "storable (capacity st) ?pg" using room by (simp add: storable_def)
  moreover have "page_id ?pg < page_count st" using p by simp
  ultimately obtain st' where st': "write_page ?pg st = (Inr (), st')" "wf_store st'"
      "page_count st' = page_count st" "page_size st' = page_size st" "free_head st' = free_head st"
      "read_page (page_id ?pg) st' = Inr ?pg"
    and fr: "\<And>q. q < page_count st \<Longrightarrow> q \<noteq> page_id ?pg \<Longrightarrow> read_page q st' = read_page q st"
    using write_page_ok [OF wf, of ?pg] by metis
  have "read_node (nd_page nd) st' = Inr nd"
    using st'(6) decode_encoded_node [OF e ok] by (simp add: read_node_def)
  moreover have "write_node nd st = (Inr (), st')" using e st'(1) by (simp add: write_node_def)
  ultimately show ?thesis using that st' fr by (simp add: capacity_def)
qed

lemma write_node_frame:
  assumes "wf_store st" and "wf_store st'" and "page_count st' = page_count st"
    and "\<And>q. q < page_count st \<Longrightarrow> q \<noteq> p \<Longrightarrow> read_page q st' = read_page q st" and "q \<noteq> p"
  shows "read_node q st' = read_node q st"
proof (cases "q < page_count st")
  case False
  then show ?thesis using read_page_beyond assms(1-3) by (simp add: read_node_def)
qed (use assms(4,5) in \<open>simp add: read_node_def\<close>)

section \<open>Leaves and keys\<close>

text \<open>A leaf as a finite map: the value of the first key equal to the given one.\<close>

definition lookup_entry :: "pyval \<Rightarrow> (pyval \<times> nat) list \<Rightarrow> nat list" where
  "lookup_entry key kvs = (case find (\<lambda>kv. py_eq (fst kv) key) kvs of None \<Rightarrow> [] | Some kv \<Rightarrow> [snd kv])"

lemma key_position_Some:
  "key_position key ks = Some i \<Longrightarrow> i < length ks \<and> py_eq (ks ! i) key"
  by (induction ks arbitrary: i) (auto split: if_splits)

lemma key_position_lookup:
  "length vs = length ks \<Longrightarrow>
   (case key_position key ks of None \<Rightarrow> Inr [] | Some i \<Rightarrow> rbind (py_get vs i) (\<lambda>v. Inr [v]))
   = Inr (lookup_entry key (zip ks vs))"
proof (induction ks arbitrary: vs)
  case (Cons k ks)
  then obtain v ws where vs: "vs = v # ws" by (cases vs) auto
  then show ?case
    using Cons key_position_Some [of key ks]
    by (cases "key_position key ks") (auto simp: lookup_entry_def py_get_def split: if_splits)
qed (simp add: lookup_entry_def)

lemma seek_lookup:
  assumes "find_leaf t key = Inr leaf" and "node_ok leaf" and "nd_leaf leaf"
  shows "seek t key = Inr (lookup_entry key (zip (nd_keys leaf) (nd_values leaf)))"
  using assms key_position_lookup [of "nd_values leaf" "nd_keys leaf" key] by (simp add: seek_def node_ok_def)

lemma find_append: "find P (xs @ ys) = (case find P xs of None \<Rightarrow> find P ys | Some x \<Rightarrow> Some x)"
  by (induction xs) auto

text \<open>
  The binary search: when the keys not greater than the given one are the first ones, it finds
  how many they are.
\<close>

definition splits_at :: "pyval list \<Rightarrow> pyval \<Rightarrow> nat \<Rightarrow> nat \<Rightarrow> nat \<Rightarrow> bool" where
  "splits_at keys key lo hi i \<longleftrightarrow>
     (\<forall>j. lo \<le> j \<longrightarrow> j < i \<longrightarrow> py_le (keys ! j) key = Inr True)
   \<and> (\<forall>j. i \<le> j \<longrightarrow> j < hi \<longrightarrow> py_le (keys ! j) key \<noteq> Inr True)"

definition down_closed :: "pyval list \<Rightarrow> pyval \<Rightarrow> bool" where
  "down_closed keys key \<longleftrightarrow>
     (\<forall>i j. i \<le> j \<longrightarrow> j < length keys \<longrightarrow> py_le (keys ! j) key = Inr True \<longrightarrow> py_le (keys ! i) key = Inr True)"

lemma splits_below:
  assumes "down_closed keys key" and "m < length keys" and "py_le (keys ! m) key = Inr True"
    and "splits_at keys key (Suc m) hi i"
  shows "splits_at keys key lo hi i"
  unfolding splits_at_def
proof (intro conjI allI impI)
  fix j
  assume "j < i"
  show "py_le (keys ! j) key = Inr True"
  proof (cases "j \<le> m")
    case True
    then show ?thesis using assms(1-3) unfolding down_closed_def by blast
  next
    case False
    then show ?thesis using assms(4) \<open>j < i\<close> unfolding splits_at_def by simp
  qed
qed (use assms(4) in \<open>simp add: splits_at_def\<close>)

lemma splits_above:
  assumes "down_closed keys key" and "hi \<le> length keys" and "py_le (keys ! m) key \<noteq> Inr True"
    and "splits_at keys key lo m i"
  shows "splits_at keys key lo hi i"
  unfolding splits_at_def
proof (intro conjI allI impI)
  fix j
  assume j: "i \<le> j" "j < hi"
  show "py_le (keys ! j) key \<noteq> Inr True"
  proof (cases "j < m")
    case True
    then show ?thesis using assms(4) j unfolding splits_at_def by simp
  next
    case False
    then have "m \<le> j" "j < length keys" using j assms(2) by simp_all
    then show ?thesis using assms(1,3) unfolding down_closed_def by blast
  qed
qed (use assms(4) in \<open>simp add: splits_at_def\<close>)

lemma bisect_loop_splits:
  assumes total: "\<And>i. i < length keys \<Longrightarrow> \<exists>b. py_le (keys ! i) key = Inr b"
    and "lo \<le> hi" and "hi \<le> length keys"
  shows "\<exists>i. bisect_loop keys key lo hi = Inr i \<and> lo \<le> i \<and> i \<le> hi
    \<and> (down_closed keys key \<longrightarrow> splits_at keys key lo hi i)"
  using assms(2,3)
proof (induction "hi - lo" arbitrary: lo hi rule: less_induct)
  case less
  show ?case
  proof (cases "lo < hi")
    case False
    then have "lo = hi" using less.prems by simp
    then show ?thesis by (intro exI [of _ hi]) (simp add: bisect_loop.simps [of keys key hi hi] splits_at_def)
  next
    case True
    let ?mid = "(lo + hi) div 2"
    have m: "lo \<le> ?mid" "?mid < hi" "?mid < length keys" "?mid \<le> length keys" using True less.prems(2) by auto
    then obtain b where b: "py_le (keys ! ?mid) key = Inr b" using total by blast
    have step: "bisect_loop keys key lo hi = (if b then bisect_loop keys key (Suc ?mid) hi else bisect_loop keys key lo ?mid)"
      using True b by (simp add: bisect_loop.simps [of keys key lo hi])
    show ?thesis
    proof (cases b)
      case b1: True
      have "hi - Suc ?mid < hi - lo" "Suc ?mid \<le> hi" using True m by linarith+
      from less.hyps [OF this less.prems(2)]
      obtain i where "bisect_loop keys key (Suc ?mid) hi = Inr i" "Suc ?mid \<le> i" "i \<le> hi"
        "down_closed keys key \<longrightarrow> splits_at keys key (Suc ?mid) hi i" by blast
      then show ?thesis
        using step b1 b m splits_below [of keys key ?mid hi i lo] by (intro exI [of _ i]) simp
    next
      case b0: False
      have "?mid - lo < hi - lo" using True m by linarith
      from less.hyps [OF this m(1) m(4)]
      obtain i where "bisect_loop keys key lo ?mid = Inr i" "lo \<le> i" "i \<le> ?mid"
        "down_closed keys key \<longrightarrow> splits_at keys key lo ?mid i" by blast
      then show ?thesis
        using step b0 b m splits_above [OF _ less.prems(2), of key ?mid lo i] by (intro exI [of _ i]) simp
    qed
  qed
qed

text \<open>The bytes of a leaf.\<close>

lemma encode_leaf:
  assumes "nd_leaf nd" and "node_ok nd"
  shows "encode_node nd = Inr body \<longleftrightarrow>
    length (nd_keys nd) < 256 ^ 2 \<and> nd_next nd < 256 ^ 8
    \<and> (\<exists>ps. encode_pairs 8 (zip (nd_keys nd) (nd_values nd)) = Inr ps
        \<and> body = le_enc 1 1 @ le_enc 2 (length (nd_keys nd)) @ ps @ le_enc 8 (nd_next nd))"
  using assms by (auto simp: encode_node_def simp del: One_nat_def le_enc.simps)

abbreviation entries :: "node \<Rightarrow> (pyval \<times> nat) list" where
  "entries nd \<equiv> zip (nd_keys nd) (nd_values nd)"

section \<open>Nodes on their pages\<close>

text \<open>
  C24: A node that is written to its page is read back with its keys, values, children and
  link to the next leaf, and no other node of the store changes, when its bytes fit the page.
\<close>

theorem node_roundtrip:
  assumes "wf_store st" and "nd_page nd < page_count st" and "node_ok nd"
    and "encode_node nd = Inr body" and "length body \<le> capacity st"
  shows "\<exists>st'. write_node nd st = (Inr (), st') \<and> wf_store st' \<and> read_node (nd_page nd) st' = Inr nd
    \<and> (\<forall>q. q \<noteq> nd_page nd \<longrightarrow> read_node q st' = read_node q st)"
proof -
  obtain st' where w: "write_node nd st = (Inr (), st')" "wf_store st'" "page_count st' = page_count st" "read_node (nd_page nd) st' = Inr nd"
    and fr: "\<And>q. q < page_count st \<Longrightarrow> q \<noteq> nd_page nd \<Longrightarrow> read_page q st' = read_page q st"
    by (rule write_node_ok [OF assms]) (rule that; assumption)
  have "read_node q st' = read_node q st" if "q \<noteq> nd_page nd" for q
    using write_node_frame [OF assms(1) w(2,3) fr that] by simp
  then show ?thesis using w by blast
qed

definition demo_leaf :: node where
  "demo_leaf = leaf_node 1 [PInt 1, PInt 2] [10, 20] 0"

lemma demo_leaf_facts:
  obtains body where "encode_node demo_leaf = Inr body" and "length body \<le> capacity demo_store"
    and "nd_page demo_leaf < page_count demo_store" and "node_ok demo_leaf"
proof -
  have "\<exists>body. encode_node demo_leaf = Inr body \<and> length body \<le> capacity demo_store"
    by (simp add: demo_leaf_def encode_node_def leaf_node_def encode_key_def key_tag_def to_bytes_signed_def pack_uint_def
        demo_capacity del: le_enc.simps One_nat_def)
  then show ?thesis using that by (auto simp: demo_leaf_def leaf_node_def node_ok_def demo_store_facts)
qed

lemma node_roundtrip_witness:
  "\<exists>st'. write_node demo_leaf demo_store = (Inr (), st') \<and> read_node 1 st' = Inr demo_leaf"
proof -
  obtain body where b: "encode_node demo_leaf = Inr body" "length body \<le> capacity demo_store"
    "nd_page demo_leaf < page_count demo_store" "node_ok demo_leaf" by (rule demo_leaf_facts)
  have "nd_page demo_leaf = 1" by (simp add: demo_leaf_def leaf_node_def)
  then show ?thesis using node_roundtrip [OF demo_store_facts(1) b(3,4,1,2)] by metis
qed

end
