(* ===== verification/BTreeMap.thy ===== *)
theory BTreeMap
  imports BTreeFacts
begin

text \<open>
  The B+ tree as a finite map. A tree that only \<open>insert\<close> has changed is a leaf, or a root
  over a chain of leaves: a root that is full is not split again. \<open>index_map\<close> is the
  invariant of these trees and relates them to their sorted list of entries; \<open>insert\<close>,
  \<open>seek\<close>, \<open>range\<close> and \<open>full_scan\<close> are shown to be the operations of this list.
\<close>

section \<open>Keys of one kind are in a linear order\<close>

definition key_of :: "bool \<Rightarrow> pyval \<Rightarrow> bool" where
  "key_of tx k = (if tx then is_text k else is_number k)"

definition kless :: "pyval \<Rightarrow> pyval \<Rightarrow> bool" where
  "kless a b \<longleftrightarrow> py_lt a b = Inr True"

lemma key_of_lt:
  assumes "key_of tx a" and "key_of tx b"
  shows "py_lt a b = Inr (kless a b)"
  using assms by (auto simp: key_of_def kless_def py_lt_number py_lt_text split: if_splits)

lemma key_of_eq:
  assumes "key_of tx a" and "key_of tx b"
  shows "py_eq a b \<longleftrightarrow> \<not> kless a b \<and> \<not> kless b a"
  using assms kind_equal [of a b] by (auto simp: key_of_def kless_def split: if_splits)

lemma kless_asym: "key_of tx a \<Longrightarrow> key_of tx b \<Longrightarrow> kless a b \<Longrightarrow> \<not> kless b a"
  using by_number.asym [of a b] by_text.asym [of a b] by (auto simp: key_of_def kless_def split: if_splits)

lemma kless_neg_trans:
  "key_of tx a \<Longrightarrow> key_of tx b \<Longrightarrow> key_of tx c \<Longrightarrow> kless a c \<Longrightarrow> kless a b \<or> kless b c"
  using by_number.neg_trans [of a b c] by_text.neg_trans [of a b c]
  by (auto simp: key_of_def kless_def split: if_splits)

lemma kless_trans:
  assumes "key_of tx a" "key_of tx b" "key_of tx c" and "kless a b" and "kless b c"
  shows "kless a c"
  using kless_neg_trans [of tx a c b] kless_asym [of tx b c] assms by blast

lemma key_of_le:
  assumes "key_of tx a" and "key_of tx b"
  shows "py_le a b = Inr (\<not> kless b a)"
  using assms kless_asym [OF assms] by (auto simp: py_le_def key_of_lt [OF assms] key_of_eq [OF assms])

section \<open>The abstract map: a sorted list of entries\<close>

definition keys_sorted :: "(pyval \<times> nat) list \<Rightarrow> bool" where
  "keys_sorted kvs \<longleftrightarrow> sorted_wrt kless (map fst kvs)"

fun put_entry :: "pyval \<Rightarrow> nat \<Rightarrow> (pyval \<times> nat) list \<Rightarrow> (pyval \<times> nat) list" where
  "put_entry k v [] = [(k, v)]"
| "put_entry k v ((k', v') # kvs) =
     (if py_eq k' k then (k', v) # kvs
      else if kless k' k then (k', v') # put_entry k v kvs
      else (k, v) # (k', v') # kvs)"

lemma put_entry_lookup:
  assumes "\<not> is_nan k"
  shows "lookup_entry k' (put_entry k v kvs) = (if py_eq k k' then [v] else lookup_entry k' kvs)"
proof (induction kvs)
  case (Cons kv kvs)
  obtain l w where kv: "kv = (l, w)" by (cases kv)
  have e: "py_eq l k' = py_eq k k'" if "py_eq l k" using that py_eq_sym py_eq_trans by blast
  have e': "py_eq l k" if "py_eq l k'" "py_eq k k'" using that py_eq_sym py_eq_trans by blast
  show ?case using Cons e e' by (auto simp: kv lookup_entry_def)
qed (simp add: lookup_entry_def)

lemma put_entry_set:
  "e \<in> set (put_entry k v kvs) \<Longrightarrow>
   (fst e = k \<or> fst e \<in> fst ` set kvs) \<and> (snd e = v \<or> snd e \<in> snd ` set kvs)"
proof (induction kvs)
  case (Cons kv kvs)
  then show ?case by (cases kv) (auto split: if_splits)
qed simp

lemma put_entry_length: "length kvs \<le> length (put_entry k v kvs)" "length (put_entry k v kvs) \<le> Suc (length kvs)"
  by (induction kvs) auto

lemma put_entry_append:
  assumes "\<forall>k' \<in> set (map fst as). key_of tx k' \<and> kless k' k" and "\<forall>k' \<in> set (map fst bs). key_of tx k' \<and> kless k k'"
    and "key_of tx k"
  shows "put_entry k v (as @ es @ bs) = as @ put_entry k v es @ bs"
  using assms(1)
proof (induction as)
  case Nil
  show ?case
  proof (induction es)
    case Nil
    show ?case
    proof (cases bs)
      case (Cons b bs')
      obtain l w where b: "b = (l, w)" by (cases b)
      then have "key_of tx l" "kless k l" using assms(2) by (auto simp: Cons)
      then show ?thesis using assms(3) kless_asym [of tx k l] by (simp add: Cons b key_of_eq [of tx])
    qed simp
  next
    case (Cons e es)
    then show ?case by (cases e) simp
  qed
next
  case (Cons a as)
  obtain l w where a: "a = (l, w)" by (cases a)
  then have "key_of tx l" "kless l k" using Cons.prems by auto
  then show ?case using Cons assms(3) by (simp add: a key_of_eq [of tx])
qed

lemma put_entry_split:
  assumes "key_of tx k" and "\<forall>e \<in> set es. key_of tx (fst e)" and "key_position k (map fst es) = None"
  shows "put_entry k v es = takeWhile (\<lambda>e. kless (fst e) k) es @ (k, v) # dropWhile (\<lambda>e. kless (fst e) k) es"
  using assms(2,3) by (induction es) (auto split: if_splits)

text \<open>A leaf that \<open>insert\<close> has changed.\<close>

lemma keys_sorted_down:
  assumes s: "keys_sorted es" and k: "key_of tx k" "\<forall>e \<in> set es. key_of tx (fst e)"
  shows "down_closed (map fst es) k"
  unfolding down_closed_def
proof (intro allI impI)
  fix i j
  assume ij: "i \<le> j" "j < length (map fst es)" and le: "py_le (map fst es ! j) k = Inr True"
  have kj: "key_of tx (fst (es ! j))" "key_of tx (fst (es ! i))" using k(2) ij by simp_all
  show "py_le (map fst es ! i) k = Inr True"
  proof (cases "i = j")
    case False
    then have "kless (fst (es ! i)) (fst (es ! j))"
      using s ij sorted_wrt_nth_less [of kless "map fst es" i j] by (simp add: keys_sorted_def)
    moreover have "\<not> kless k (fst (es ! j))" using le ij by (simp add: key_of_le [OF kj(1) k(1)])
    ultimately have "\<not> kless k (fst (es ! i))"
      using kless_trans [of tx k "fst (es ! i)" "fst (es ! j)"] k(1) kj by blast
    then show ?thesis using ij by (simp add: key_of_le [OF kj(2) k(1)])
  qed (use le in simp)
qed

lemma key_position_nth: "key_position k ks = None \<Longrightarrow> i < length ks \<Longrightarrow> \<not> py_eq (ks ! i) k"
  by (induction ks arbitrary: i) (auto simp: nth_Cons split: if_splits nat.splits)

lemma leaf_insert_entry:
  assumes s: "keys_sorted es" and k: "key_of tx k" "\<forall>e \<in> set es. key_of tx (fst e)"
    and none: "key_position k (map fst es) = None"
  shows "\<exists>i. bisect_right (map fst es) k = Inr i \<and> i \<le> length es \<and> put_entry k v es = py_insert i (k, v) es"
proof -
  have "\<exists>b. py_le (map fst es ! i) k = Inr b" if "i < length (map fst es)" for i
    using key_of_le [of tx "fst (es ! i)" k] k that by simp
  then obtain i where i: "bisect_loop (map fst es) k 0 (length (map fst es)) = Inr i" "i \<le> length (map fst es)"
    and sp: "splits_at (map fst es) k 0 (length (map fst es)) i"
    using bisect_loop_splits [of "map fst es" k 0 "length (map fst es)"] keys_sorted_down [OF s k] by blast
  have le: "py_le (map fst es ! j) k = Inr (kless (fst (es ! j)) k)" if "j < length es" for j
  proof -
    have "key_of tx (fst (es ! j))" using k(2) that by simp
    moreover have "\<not> py_eq (fst (es ! j)) k" using key_position_nth [OF none, of j] that by simp
    ultimately show ?thesis using that k(1) kless_asym [of tx k "fst (es ! j)"] by (auto simp: key_of_le [of tx] key_of_eq [of tx])
  qed
  have a: "kless (fst (es ! j)) k" if "j < i" for j
    using sp that i(2) le [of j] by (auto simp: splits_at_def)
  have b: "\<not> kless (fst (es ! i)) k" if "i < length es"
    using sp that i(2) le [of i] by (auto simp: splits_at_def)
  have "takeWhile (\<lambda>e. kless (fst e) k) es = take i es"
    using a b by (auto intro: takeWhile_eq_take_P_nth)
  moreover from this have "dropWhile (\<lambda>e. kless (fst e) k) es = drop i es"
    using i(2) by (simp add: dropWhile_eq_drop min_def)
  ultimately show ?thesis
    using i put_entry_split [OF k none] by (intro exI [of _ i]) (simp add: bisect_right_def py_insert_def)
qed

lemma leaf_update_entry:
  assumes "keys_sorted (zip ks vs)" and "length vs = length ks" and "key_of tx k" and "\<forall>k' \<in> set ks. key_of tx k'"
    and "key_position k ks = Some i"
  shows "put_entry k v (zip ks vs) = zip ks (vs[i := v])"
  using assms(1,2,4,5)
proof (induction ks arbitrary: vs i)
  case (Cons l ks)
  obtain w ws where vs: "vs = w # ws" using Cons.prems(2) by (cases vs) auto
  show ?case
  proof (cases "py_eq l k")
    case False
    then obtain j where j: "key_position k ks = Some j" "i = Suc j" using Cons.prems(4) by auto
    note kj = key_position_Some [OF j(1)]
    have kk: "key_of tx l" "key_of tx (ks ! j)" using Cons.prems(3) kj by auto
    have "ks ! j \<in> set (map fst (zip ks ws))" using kj Cons.prems(2) by (simp add: vs)
    then have "kless l (ks ! j)" using Cons.prems(1) by (auto simp: keys_sorted_def vs)
    moreover have "\<not> kless k (ks ! j)" using kj kk assms(3) by (simp add: key_of_eq [of tx])
    ultimately have "kless l k"
      using kless_neg_trans [of tx l k "ks ! j"] kk assms(3) by blast
    then show ?thesis
      using False Cons j by (simp add: vs keys_sorted_def)
  qed (use Cons.prems in \<open>auto simp: vs\<close>)
qed simp

end
