(* ===== verification/BTreeRefine.thy ===== *)
theory BTreeRefine
  imports BTreeMap
begin

text \<open>
  The refinement of the abstract map by the pages of the tree: the separators and keys in
  the order of the tree, the chain of the leaves, and each operation against the sorted list.
\<close>

section \<open>Separators and keys in the order of the tree\<close>

text \<open>The keys of the leaves and the separators between them, as one list.\<close>

datatype item = Key pyval | Sep pyval

fun item_before :: "item \<Rightarrow> item \<Rightarrow> bool" where
  "item_before (Key a) (Key b) = kless a b"
| "item_before (Key a) (Sep s) = kless a s"
| "item_before (Sep s) (Key b) = (\<not> kless b s)"
| "item_before (Sep s) (Sep s') = (\<not> kless s' s)"

fun items :: "pyval list \<Rightarrow> node list \<Rightarrow> item list" where
  "items seps [] = []"
| "items [] (l # ls) = map Key (nd_keys l)"
| "items (s # seps) (l # ls) = map Key (nd_keys l) @ Sep s # items seps ls"

definition items_left :: "pyval list \<Rightarrow> node list \<Rightarrow> item list" where
  "items_left seps ls = concat (map (\<lambda>(s, l). map Key (nd_keys l) @ [Sep s]) (zip seps ls))"

definition items_right :: "pyval list \<Rightarrow> node list \<Rightarrow> item list" where
  "items_right seps ls = concat (map (\<lambda>(s, l). Sep s # map Key (nd_keys l)) (zip seps ls))"

lemma items_middle:
  assumes "length seps1 = length ls1" and "length seps2 = length ls2"
  shows "items (seps1 @ seps2) (ls1 @ l # ls2) = items_left seps1 ls1 @ map Key (nd_keys l) @ items_right seps2 ls2"
  using assms(1)
proof (induction seps1 ls1 rule: list_induct2)
  case Nil
  show ?case using assms(2)
    by (induction seps2 ls2 arbitrary: l rule: list_induct2) (simp_all add: items_left_def items_right_def)
qed (simp add: items_left_def)

lemma items_left_set:
  assumes "length seps = length ls"
  shows "set (items_left seps ls) = Sep ` set seps \<union> Key ` (\<Union>l \<in> set ls. set (nd_keys l))"
  using assms by (induction seps ls rule: list_induct2) (auto simp: items_left_def)

lemma items_right_set:
  assumes "length seps = length ls"
  shows "set (items_right seps ls) = Sep ` set seps \<union> Key ` (\<Union>l \<in> set ls. set (nd_keys l))"
  using assms by (induction seps ls rule: list_induct2) (auto simp: items_right_def)

text \<open>The child of a key: the separators up to it are not greater, the others are.\<close>

lemma child_index_split:
  assumes "key_of tx key" and "\<forall>s \<in> set seps. key_of tx s" and "sorted_wrt (\<lambda>a b. \<not> kless b a) seps"
  shows "\<exists>seps1 seps2. seps = seps1 @ seps2 \<and> child_index seps key = Inr (length seps1)
    \<and> (\<forall>s \<in> set seps1. \<not> kless key s) \<and> (\<forall>s \<in> set seps2. kless key s)"
  using assms(2,3)
proof (induction seps)
  case (Cons s seps)
  have s: "key_of tx s" using Cons.prems by simp
  show ?case
  proof (cases "kless key s")
    case True
    have "kless key s'" if "s' \<in> set seps" for s'
      using that Cons.prems True assms(1) kless_neg_trans [of tx key s' s] by auto
    then show ?thesis
      using True by (intro exI [of _ "[]"] exI [of _ "s # seps"]) (simp add: key_of_lt [OF assms(1) s])
  next
    case False
    from Cons.prems have "\<forall>s \<in> set seps. key_of tx s" "sorted_wrt (\<lambda>a b. \<not> kless b a) seps" by simp_all
    from Cons.IH [OF this] obtain seps1 seps2 where "seps = seps1 @ seps2" "child_index seps key = Inr (length seps1)"
      "\<forall>s \<in> set seps1. \<not> kless key s" "\<forall>s \<in> set seps2. kless key s" by blast
    then show ?thesis
      using False by (intro exI [of _ "s # seps1"] exI [of _ seps2]) (simp add: key_of_lt [OF assms(1) s])
  qed
qed simp

lemma items_seps: "length ls = Suc (length seps) \<Longrightarrow> sorted_wrt item_before (items seps ls) \<Longrightarrow> sorted_wrt (\<lambda>a b. \<not> kless b a) seps"
proof (induction seps arbitrary: ls)
  case (Cons s seps)
  obtain l ls' where ls: "ls = l # ls'" "length ls' = Suc (length seps)" using Cons.prems(1) by (cases ls) auto
  then obtain l' ls2 where ls': "ls' = l' # ls2" "length seps = length ls2" by (cases ls') auto
  have "Sep s' \<in> set (items seps ls')" if "s' \<in> set seps" for s'
    using items_middle [of "[]" "[]" seps ls2 l'] ls' that by (simp add: items_left_def items_right_set)
  then show ?case using Cons ls by (force simp: sorted_wrt_append)
qed simp

lemma items_keys:
  assumes "length ls = Suc (length seps)" and "sorted_wrt item_before (items seps ls)"
  shows "sorted_wrt kless (concat (map nd_keys ls))"
proof -
  have f: "sorted_wrt kless [k. Key k \<leftarrow> xs]" if "sorted_wrt item_before xs" for xs
    using that
  proof (induction xs)
    case (Cons x xs)
    then show ?case by (cases x) auto
  qed simp
  have "[k. Key k \<leftarrow> items seps ls] = concat (map nd_keys ls)"
    using assms(1)
  proof (induction seps arbitrary: ls)
    case Nil
    then obtain l where "ls = [l]" by (cases ls) auto
    then show ?case by (simp add: comp_def)
  next
    case (Cons s seps)
    then obtain l ls' where "ls = l # ls'" "length ls' = Suc (length seps)" by (cases ls) auto
    then show ?case using Cons.IH by (simp add: comp_def)
  qed
  then show ?thesis using f [OF assms(2)] by simp
qed

text \<open>The keys of the leaves left of the child are smaller, those right of it greater.\<close>

lemma items_left_before:
  assumes "length seps = length ls" and "sorted_wrt item_before (items_left seps ls)"
  shows "l \<in> set ls \<Longrightarrow> k \<in> set (nd_keys l) \<Longrightarrow> \<exists>s \<in> set seps. kless k s"
  using assms
proof (induction seps ls rule: list_induct2)
  case (Cons s seps l' ls)
  then show ?case by (auto simp: items_left_def sorted_wrt_append)
qed simp

lemma items_right_before:
  assumes "length seps = length ls" and "sorted_wrt item_before (items_right seps ls)"
  shows "l \<in> set ls \<Longrightarrow> k \<in> set (nd_keys l) \<Longrightarrow> \<exists>s \<in> set seps. \<not> kless k s"
  using assms
proof (induction seps ls rule: list_induct2)
  case (Cons s seps l' ls)
  have "items_right (s # seps) (l' # ls) = Sep s # map Key (nd_keys l') @ items_right seps ls"
    by (simp add: items_right_def)
  then have "\<forall>k \<in> set (nd_keys l'). \<not> kless k s" "sorted_wrt item_before (items_right seps ls)"
    using Cons.prems(3) by (force simp: sorted_wrt_append)+
  then show ?case using Cons.prems Cons.IH by auto
qed simp

lemma items_around:
  assumes len: "length seps1 = length ls1" "length seps2 = length ls2"
    and s: "sorted_wrt item_before (items (seps1 @ seps2) (ls1 @ l # ls2))"
    and k: "key_of tx key" "\<forall>k \<in> set (seps1 @ seps2) \<union> set (concat (map nd_keys (ls1 @ l # ls2))). key_of tx k"
    and seps: "\<forall>s \<in> set seps1. \<not> kless key s" "\<forall>s \<in> set seps2. kless key s"
  shows "\<forall>k \<in> set (concat (map nd_keys ls1)). kless k key" and "\<forall>k \<in> set (concat (map nd_keys ls2)). kless key k"
    and "\<forall>x \<in> set (items_left seps1 ls1). item_before x (Key key)"
    and "\<forall>x \<in> set (items_right seps2 ls2). item_before (Key key) x"
proof -
  have so: "sorted_wrt item_before (items_left seps1 ls1)" "sorted_wrt item_before (items_right seps2 ls2)"
    using s unfolding items_middle [OF len] by (simp_all add: sorted_wrt_append)
  show l: "\<forall>k \<in> set (concat (map nd_keys ls1)). kless k key"
  proof
    fix a assume "a \<in> set (concat (map nd_keys ls1))"
    then obtain l' where l': "l' \<in> set ls1" "a \<in> set (nd_keys l')" by auto
    obtain s where "s \<in> set seps1" "kless a s" using items_left_before [OF len(1) so(1) l'] by blast
    then show "kless a key" using kless_neg_trans [of tx a key s] k seps(1) l' by auto
  qed
  show r: "\<forall>k \<in> set (concat (map nd_keys ls2)). kless key k"
  proof
    fix b assume "b \<in> set (concat (map nd_keys ls2))"
    then obtain l' where l': "l' \<in> set ls2" "b \<in> set (nd_keys l')" by auto
    obtain s where "s \<in> set seps2" "\<not> kless b s" using items_right_before [OF len(2) so(2) l'] by blast
    then show "kless key b" using kless_neg_trans [of tx key b s] k seps(2) l' by auto
  qed
  show "\<forall>x \<in> set (items_left seps1 ls1). item_before x (Key key)"
    using l seps(1) by (auto simp: items_left_set [OF len(1)])
  show "\<forall>x \<in> set (items_right seps2 ls2). item_before (Key key) x"
    using r seps(2) by (auto simp: items_right_set [OF len(2)])
qed

text \<open>New keys in a leaf, and a new separator in front of a key.\<close>

lemma items_put:
  assumes "sorted_wrt item_before (as @ map Key ks @ bs)" and "sorted_wrt kless ks'" and "set ks' \<subseteq> insert key (set ks)"
    and "\<forall>x \<in> set as. item_before x (Key key)" and "\<forall>x \<in> set bs. item_before (Key key) x"
  shows "sorted_wrt item_before (as @ map Key ks' @ bs)"
proof -
  have "sorted_wrt item_before (map Key ks')" using assms(2) by (simp add: sorted_wrt_map)
  moreover have "item_before x (Key k)" if "x \<in> set as" "k \<in> set ks'" for x k
    using that assms(1,3,4) by (auto simp: sorted_wrt_append)
  moreover have "item_before (Key k) x" if "x \<in> set bs" "k \<in> set ks'" for x k
    using that assms(1,3,5) by (auto simp: sorted_wrt_append)
  ultimately show ?thesis using assms(1) by (auto simp: sorted_wrt_append)
qed

lemma items_split:
  assumes s: "sorted_wrt item_before (as @ Key k # bs)" and k: "key_of tx k"
    and bs: "\<forall>x \<in> set bs. \<forall>b. x = Key b \<or> x = Sep b \<longrightarrow> key_of tx b"
  shows "sorted_wrt item_before (as @ Sep k # Key k # bs)"
proof -
  have "item_before x (Sep k)" if "item_before x (Key k)" for x using that by (cases x) simp_all
  moreover have "item_before (Sep k) x" if "x \<in> set bs" "item_before (Key k) x" for x
    using bspec [OF bs that(1)] that(2) k kless_asym [of tx k] by (cases x) auto
  moreover have "\<not> kless k k" using k kless_asym by blast
  ultimately show ?thesis using s by (auto simp: sorted_wrt_append)
qed

section \<open>The chain of leaves\<close>

fun next_page :: "node list \<Rightarrow> nat" where
  "next_page [] = 0"
| "next_page (l # ls) = nd_page l"

fun chained :: "node list \<Rightarrow> bool" where
  "chained [] = True"
| "chained (l # ls) = (nd_next l = next_page ls \<and> nd_page l \<noteq> 0 \<and> chained ls)"

lemma chained_replace:
  assumes "chained (ls1 @ l # ls2)" and "nd_page l' = nd_page l" and "nd_next l' = nd_next l"
  shows "chained (ls1 @ l' # ls2)"
  using assms(1)
proof (induction ls1)
  case (Cons a ls1)
  then show ?case using assms(2) by (cases ls1) auto
qed (use assms in simp)

lemma chained_split:
  assumes "chained (ls1 @ l # ls2)" and "nd_page l1 = nd_page l" and "nd_next l1 = nd_page l2"
    and "nd_next l2 = nd_next l" and "nd_page l2 \<noteq> 0"
  shows "chained (ls1 @ l1 # l2 # ls2)"
  using assms(1)
proof (induction ls1)
  case (Cons a ls1)
  then show ?case using assms(2) by (cases ls1) auto
qed (use assms in simp)

section \<open>Nodes fit their pages\<close>

definition key_fits :: "nat \<Rightarrow> pyval \<Rightarrow> bool" where
  "key_fits m k \<longleftrightarrow> (case encode_key k of Inl _ \<Rightarrow> False | Inr b \<Rightarrow> length b \<le> m)"

lemma encode_pairs_fits:
  assumes "\<forall>(k, v) \<in> set kvs. key_fits m k \<and> v < 256 ^ n"
  shows "\<exists>ps. encode_pairs n kvs = Inr ps \<and> length ps \<le> length kvs * (m + n)"
  using assms
proof (induction kvs)
  case (Cons kv kvs)
  obtain k v where kv: "kv = (k, v)" by (cases kv)
  obtain kb where kb: "encode_key k = Inr kb" "length kb \<le> m" "v < 256 ^ n"
    using Cons.prems by (auto simp: kv key_fits_def split: sum.splits)
  obtain ps where "encode_pairs n kvs = Inr ps" "length ps \<le> length kvs * (m + n)" using Cons by auto
  then show ?case using kb by (simp add: kv)
qed simp

lemma encode_leaf_fits:
  assumes "nd_leaf nd" and "node_ok nd" and "\<forall>k \<in> set (nd_keys nd). key_fits m k" and "\<forall>v \<in> set (nd_values nd). v < 256 ^ 8"
    and "nd_next nd < 256 ^ 8" and "length (nd_keys nd) \<le> n" and "n < 256 ^ 2"
  shows "\<exists>body. encode_node nd = Inr body \<and> length body \<le> 11 + n * (m + 8)"
proof -
  have "\<forall>(k, v) \<in> set (entries nd). key_fits m k \<and> v < 256 ^ 8" using assms(3,4) by (auto dest: set_zip_leftD set_zip_rightD)
  from encode_pairs_fits [OF this]
  obtain ps where ps: "encode_pairs 8 (entries nd) = Inr ps" "length ps \<le> length (entries nd) * (m + 8)" by blast
  have "length (entries nd) * (m + 8) \<le> n * (m + 8)" using assms(6) by (intro mult_right_mono) simp_all
  then have "length ps \<le> n * (m + 8)" using ps(2) by linarith
  then show ?thesis
    using ps(1) assms(5-7) unfolding encode_leaf [OF assms(1,2)] by (intro exI conjI) (auto simp del: le_enc.simps One_nat_def)
qed

lemma encode_inner_fits:
  assumes "\<forall>k \<in> set ks. key_fits m k" and "\<forall>c \<in> set cs. c < 256 ^ 4" and "length cs = Suc (length ks)"
    and "length ks \<le> n" and "n < 256 ^ 2"
  shows "\<exists>body. encode_node (inner_node p ks cs) = Inr body \<and> length body \<le> 7 + n * (m + 4)"
proof -
  obtain c cs' where cs: "cs = c # cs'" using assms(3) by (cases cs) auto
  have "\<forall>(k, v) \<in> set (zip ks cs'). key_fits m k \<and> v < 256 ^ 4" using assms(1,2) by (auto simp: cs dest: set_zip_leftD set_zip_rightD)
  from encode_pairs_fits [OF this]
  obtain ps where ps: "encode_pairs 4 (zip ks cs') = Inr ps" "length ps \<le> length (zip ks cs') * (m + 4)" by blast
  have "length (zip ks cs') * (m + 4) \<le> n * (m + 4)" using assms(4) by (intro mult_right_mono) simp_all
  then have "length ps \<le> n * (m + 4)" using ps(2) by linarith
  moreover have "c < 256 ^ 4" "length ks < 256 ^ 2" using assms(2,4,5) by (simp_all add: cs)
  ultimately show ?thesis
    using ps(1) by (simp add: encode_node_def inner_node_def cs del: le_enc.simps One_nat_def le_enc_0)
qed

section \<open>Writing and allocating pages of the tree\<close>

lemma write_keeps:
  assumes wf: "wf_store st" and fl: "free_list st ps" and p: "nd_page nd \<notin> set ps" "nd_page nd < page_count st"
    and ok: "node_ok nd" and e: "encode_node nd = Inr body" and room: "length body \<le> capacity st"
  obtains st' where "write_node nd st = (Inr (), st')" and "wf_store st'" and "free_list st' ps"
    and "page_count st' = page_count st" and "capacity st' = capacity st"
    and "read_node (nd_page nd) st' = Inr nd" and "\<And>q. q \<noteq> nd_page nd \<Longrightarrow> read_node q st' = read_node q st"
proof -
  obtain st' where w: "write_node nd st = (Inr (), st')" "wf_store st'" "page_count st' = page_count st"
      "capacity st' = capacity st" "free_head st' = free_head st" "read_node (nd_page nd) st' = Inr nd"
    and fr: "\<And>q. q < page_count st \<Longrightarrow> q \<noteq> nd_page nd \<Longrightarrow> read_page q st' = read_page q st"
    by (rule write_node_ok [OF wf p(2) ok e room]) (rule that; assumption)
  have ch: "free_chain st (free_head st) ps" using fl by (simp add: free_list_def)
  have "read_page q st' = read_page q st" if "q \<in> set ps" for q
    using fr [of q] free_chain_bound [OF ch that] p(1) that by auto
  then have "free_list st' ps"
    using free_chain_frame [OF ch, of st'] w(3) by (simp add: free_list_def w(5))
  moreover have "read_node q st' = read_node q st" if "q \<noteq> nd_page nd" for q
    using write_node_frame [OF wf w(2,3) fr that] by simp
  ultimately show ?thesis using that w by blast
qed

lemma alloc_index:
  assumes wf: "wf_store st" and fl: "free_list st ps" and room: "page_count st + 1 < 256 ^ 4"
  obtains pid st' ps' where "alloc_page INDEX st = (Inr pid, st')" and "wf_store st'" and "free_list st' ps'"
    and "page_count st \<le> page_count st'" and "page_count st' \<le> page_count st + 1" and "capacity st' = capacity st"
    and "0 < pid" and "pid < page_count st'" and "pid \<notin> set ps'" and "set ps' \<subseteq> set ps" and "pid \<in> set ps \<or> pid = page_count st"
    and "\<And>q. q < page_count st \<Longrightarrow> q \<noteq> pid \<Longrightarrow> read_node q st' = read_node q st"
proof -
  obtain pid ps' pc where r: "alloc_result st ps = (pid, ps', pc)" by (cases "alloc_result st ps") auto
  obtain st' where a: "alloc_page INDEX st = (Inr pid, st')" "wf_store st'" "page_count st' = pc" "page_size st' = page_size st"
      "free_list st' ps'"
    and fr: "\<And>q. q < page_count st \<Longrightarrow> q \<noteq> pid \<Longrightarrow> read_page q st' = read_page q st"
    by (rule alloc_page_ok [OF wf fl room r]) (rule that; assumption)
  have ch: "free_chain st (free_head st) ps" using fl by (simp add: free_list_def)
  have d: "distinct ps" "\<And>q. q \<in> set ps \<Longrightarrow> 0 < q \<and> q < page_count st"
    using free_chain_distinct [OF ch] free_chain_bound [OF ch] by blast+
  have "page_count st \<le> pc" "pc \<le> page_count st + 1" "0 < pid" "pid < pc" "pid \<notin> set ps'" "set ps' \<subseteq> set ps"
    "pid \<in> set ps \<or> pid = page_count st"
    using r d wf_storeD(4) [OF wf] by (auto simp: alloc_result_def split: list.splits)
  moreover have "read_node q st' = read_node q st" if "q < page_count st" "q \<noteq> pid" for q
    using fr [OF that] by (simp add: read_node_def)
  ultimately show ?thesis using that a by (simp add: capacity_def)
qed

section \<open>The invariant\<close>

text \<open>
  \<open>leaf_pages\<close>: the leaves are on pages of their own. \<open>leaf_layer\<close>: with the separators \<open>seps\<close>
  between them they are also chained and in order. \<open>root_ok\<close>: the root is the only leaf, or the
  internal node with these separators and the pages of the leaves, which have \<open>min_keys\<close> keys.
\<close>

definition leaf_ok :: "bool \<Rightarrow> nat \<Rightarrow> node \<Rightarrow> bool" where
  "leaf_ok tx m l \<longleftrightarrow> nd_leaf l \<and> node_ok l \<and> (\<forall>k \<in> set (nd_keys l). key_of tx k \<and> key_fits m k)
     \<and> (\<forall>v \<in> set (nd_values l). v < 256 ^ 8)"

definition leaf_pages :: "bool \<Rightarrow> nat \<Rightarrow> file_store \<Rightarrow> nat list \<Rightarrow> node list \<Rightarrow> bool" where
  "leaf_pages tx m st ps ls \<longleftrightarrow>
     wf_store st \<and> free_list st ps \<and> distinct (map nd_page ls)
     \<and> (\<forall>l \<in> set ls. leaf_ok tx m l \<and> read_node (nd_page l) st = Inr l \<and> nd_page l \<notin> set ps)"

definition leaf_layer :: "bool \<Rightarrow> nat \<Rightarrow> file_store \<Rightarrow> nat list \<Rightarrow> pyval list \<Rightarrow> node list \<Rightarrow> bool" where
  "leaf_layer tx m st ps seps ls \<longleftrightarrow>
     leaf_pages tx m st ps ls \<and> length ls = Suc (length seps) \<and> chained ls
     \<and> (\<forall>s \<in> set seps. key_of tx s \<and> key_fits m s) \<and> sorted_wrt item_before (items seps ls)"

definition min_keys :: "nat \<Rightarrow> nat" where
  "min_keys order = max 1 (order div 2)"

definition root_ok :: "btree \<Rightarrow> nat list \<Rightarrow> pyval list \<Rightarrow> node list \<Rightarrow> bool" where
  "root_ok t ps seps ls \<longleftrightarrow>
     (if seps = [] then bt_root t = nd_page (hd ls)
      else 0 < bt_root t \<and> bt_root t \<notin> set ps \<and> bt_root t \<notin> set (map nd_page ls)
        \<and> read_node (bt_root t) (bt_store t) = Inr (inner_node (bt_root t) seps (map nd_page ls))
        \<and> (\<forall>l \<in> set ls. min_keys (bt_order t) \<le> length (nd_keys l)))"

definition index_map :: "bool \<Rightarrow> nat \<Rightarrow> nat list \<Rightarrow> btree \<Rightarrow> (pyval \<times> nat) list \<Rightarrow> bool" where
  "index_map tx m ps t kvs \<longleftrightarrow>
     (\<exists>seps ls. leaf_layer tx m (bt_store t) ps seps ls \<and> root_ok t ps seps ls
        \<and> (\<forall>l \<in> set ls. length (nd_keys l) \<le> bt_order t) \<and> kvs = concat (map entries ls))
     \<and> bt_min t = min_keys (bt_order t)"

lemma leaf_layerD:
  assumes "leaf_layer tx m st ps seps ls"
  shows "wf_store st" and "free_list st ps" and "length ls = Suc (length seps)" and "distinct (map nd_page ls)"
    and "chained ls" and "l \<in> set ls \<Longrightarrow> leaf_ok tx m l" and "l \<in> set ls \<Longrightarrow> read_node (nd_page l) st = Inr l"
    and "l \<in> set ls \<Longrightarrow> nd_page l \<notin> set ps" and "\<forall>s \<in> set seps. key_of tx s \<and> key_fits m s"
    and "sorted_wrt item_before (items seps ls)"
  using assms by (auto simp: leaf_layer_def leaf_pages_def)

lemma read_node_bound: "wf_store st \<Longrightarrow> read_node q st = Inr nd \<Longrightarrow> q < page_count st"
  using read_page_beyond [of st q] by (cases "q < page_count st") (auto simp: read_node_def)

lemma leaf_okD:
  assumes "leaf_ok tx m l"
  shows "nd_leaf l" and "node_ok l" and "length (nd_values l) = length (nd_keys l)"
    and "\<forall>k \<in> set (nd_keys l). key_of tx k" and "\<forall>k \<in> set (nd_keys l). key_fits m k" and "\<forall>v \<in> set (nd_values l). v < 256 ^ 8"
  using assms by (auto simp: leaf_ok_def node_ok_def)

text \<open>
  Leaves are forgotten, kept when other pages change, and written: \<open>leaf_room\<close> is what a leaf
  of \<open>n\<close> entries needs.
\<close>

lemma leaf_pages_subset:
  "leaf_pages tx m st ps ls \<Longrightarrow> set ls' \<subseteq> set ls \<Longrightarrow> distinct (map nd_page ls') \<Longrightarrow> leaf_pages tx m st ps ls'"
  by (auto simp: leaf_pages_def)

lemma leaf_pages_frame:
  assumes "leaf_pages tx m st ps ls" and "wf_store st'" and "free_list st' ps'" and "\<And>l. l \<in> set ls \<Longrightarrow> nd_page l \<notin> set ps'"
    and "\<And>l. l \<in> set ls \<Longrightarrow> read_node (nd_page l) st' = read_node (nd_page l) st"
  shows "leaf_pages tx m st' ps' ls"
  using assms by (auto simp: leaf_pages_def)

lemma leaf_pages_bound:
  assumes "leaf_pages tx m st ps ls" and "l \<in> set ls"
  shows "nd_page l < page_count st"
proof -
  have "wf_store st" "read_node (nd_page l) st = Inr l" using assms by (auto simp: leaf_pages_def)
  then show ?thesis by (rule read_node_bound)
qed

definition leaf_room :: "nat \<Rightarrow> nat \<Rightarrow> file_store \<Rightarrow> bool" where
  "leaf_room m n st \<longleftrightarrow> n < 256 ^ 2 \<and> 11 + n * (m + 8) \<le> capacity st"

lemma leaf_pages_put:
  assumes lp: "leaf_pages tx m st ps (ls1 @ ls2)" and l: "leaf_ok tx m l" "nd_page l \<notin> set ps" "nd_page l < page_count st"
    and new: "nd_page l \<notin> nd_page ` set (ls1 @ ls2)" and nx: "nd_next l < page_count st"
    and n: "length (nd_keys l) \<le> n" "leaf_room m n st"
  obtains st' where "write_node l st = (Inr (), st')" and "leaf_pages tx m st' ps (ls1 @ l # ls2)"
    and "page_count st' = page_count st" and "capacity st' = capacity st"
    and "\<And>q. q \<noteq> nd_page l \<Longrightarrow> read_node q st' = read_node q st"
proof -
  have wf: "wf_store st" and fl: "free_list st ps" using lp by (simp_all add: leaf_pages_def)
  have nx8: "nd_next l < 256 ^ 8" using nx wf_storeD(5) [OF wf] by simp
  obtain body where e: "encode_node l = Inr body" "length body \<le> 11 + n * (m + 8)"
    using encode_leaf_fits [OF leaf_okD(1,2,5,6) [OF l(1)] nx8 n(1)] n(2) by (auto simp: leaf_room_def)
  have "length body \<le> capacity st" using e(2) n(2) by (simp add: leaf_room_def)
  then obtain st' where w: "write_node l st = (Inr (), st')" "wf_store st'" "free_list st' ps"
      "page_count st' = page_count st" "capacity st' = capacity st" "read_node (nd_page l) st' = Inr l"
    and fr: "\<And>q. q \<noteq> nd_page l \<Longrightarrow> read_node q st' = read_node q st"
    by (rule write_keeps [OF wf fl l(2,3) leaf_okD(2) [OF l(1)] e(1)]) (rule that; assumption)
  have "nd_page x \<noteq> nd_page l" if "x \<in> set (ls1 @ ls2)" for x using new that by (metis imageI)
  then have "leaf_pages tx m st' ps (ls1 @ ls2)"
    by (intro leaf_pages_frame [OF lp w(2,3)] fr) (use lp in \<open>simp add: leaf_pages_def\<close>)
  then have "leaf_pages tx m st' ps (ls1 @ l # ls2)" using w(6) l(1,2) new by (auto simp: leaf_pages_def)
  then show ?thesis using w(1,4,5) fr by (intro that)
qed

text \<open>A leaf of a layer is rewritten in its page.\<close>

lemma leaf_pages_rewrite:
  assumes lp: "leaf_pages tx m st ps (ls1 @ l # ls2)" and l': "leaf_ok tx m l'" "nd_page l' = nd_page l"
    and nx: "nd_next l' < page_count st" and n: "length (nd_keys l') \<le> n" "leaf_room m n st"
  obtains st' where "write_node l' st = (Inr (), st')" and "leaf_pages tx m st' ps (ls1 @ l' # ls2)"
    and "page_count st' = page_count st" and "capacity st' = capacity st"
    and "\<And>q. q \<noteq> nd_page l \<Longrightarrow> read_node q st' = read_node q st"
proof -
  have p: "nd_page l' \<notin> set ps" "nd_page l' \<notin> nd_page ` set (ls1 @ ls2)"
    using lp l'(2) by (auto simp: leaf_pages_def)
  have b: "nd_page l' < page_count st" using leaf_pages_bound [OF lp, of l] l'(2) by simp
  have sub: "leaf_pages tx m st ps (ls1 @ ls2)" by (rule leaf_pages_subset [OF lp]) (use lp in \<open>auto simp: leaf_pages_def\<close>)
  obtain st' where "write_node l' st = (Inr (), st')" "leaf_pages tx m st' ps (ls1 @ l' # ls2)"
    "page_count st' = page_count st" "capacity st' = capacity st"
    "\<And>q. q \<noteq> nd_page l' \<Longrightarrow> read_node q st' = read_node q st"
    by (rule leaf_pages_put [OF sub l'(1) p(1) b p(2) nx n]) (rule that; assumption)
  then show ?thesis using l'(2) by (intro that [of st']) simp_all
qed

lemma concat_entries_keys:
  assumes "\<forall>l \<in> set ls. leaf_ok tx m l"
  shows "map fst (concat (map entries ls)) = concat (map nd_keys ls)"
    and "map snd (concat (map entries ls)) = concat (map nd_values ls)"
  using assms by (induction ls) (simp_all add: leaf_okD(3) [of tx m])

lemma walk_at_leaf: "nd_leaf nd \<Longrightarrow> walk f st key nd path = Inr (nd, path)"
  by (cases f) simp_all

text \<open>The walk to the leaf of a key.\<close>

lemma find_in_layer:
  assumes lay: "leaf_layer tx m (bt_store t) ps seps ls" and root: "root_ok t ps seps ls" and key: "key_of tx key"
  obtains seps1 seps2 ls1 l ls2 where "seps = seps1 @ seps2" and "ls = ls1 @ l # ls2"
    and "length seps1 = length ls1" and "length seps2 = length ls2"
    and "\<forall>s \<in> set seps1. \<not> kless key s" and "\<forall>s \<in> set seps2. kless key s"
    and "find_leaf_with_path t key = Inr (l, if seps = [] then [] else [(inner_node (bt_root t) seps (map nd_page ls), length ls1)])"
proof -
  note d = leaf_layerD [OF lay]
  have sp: "\<forall>s \<in> set seps. key_of tx s" using d(9) by blast
  obtain seps1 seps2 where s: "seps = seps1 @ seps2" "child_index seps key = Inr (length seps1)"
    "\<forall>s \<in> set seps1. \<not> kless key s" "\<forall>s \<in> set seps2. kless key s"
    using child_index_split [OF key sp items_seps [OF d(3,10)]] by blast
  have n: "length seps1 < length ls" using d(3) s(1) by simp
  then obtain ls1 l ls2 where l: "ls = ls1 @ l # ls2" "length ls1 = length seps1"
    by (metis id_take_nth_drop length_take min.absorb4)
  have l2: "length seps2 = length ls2" using d(3) s(1) l by simp
  have leaf: "nd_leaf l" "read_node (nd_page l) (bt_store t) = Inr l"
    using d(6,7) [of l] l(1) by (simp_all add: leaf_ok_def)
  obtain f where f: "page_count (bt_store t) = Suc f" using wf_storeD(4) [OF d(1)] by (cases "page_count (bt_store t)") auto
  have "find_leaf_with_path t key = Inr (l, if seps = [] then [] else [(inner_node (bt_root t) seps (map nd_page ls), length ls1)])"
  proof (cases "seps = []")
    case True
    then have "ls = [l]" using l d(3) s(1) by simp
    then show ?thesis using root leaf True by (simp add: root_ok_def find_leaf_with_path_def walk_at_leaf)
  next
    case False
    have "map nd_page ls ! length seps1 = nd_page l" using l by (simp add: nth_append)
    then show ?thesis
      using root leaf False s(2) n l(2)
      by (simp add: root_ok_def find_leaf_with_path_def f inner_node_def py_get_def walk_at_leaf)
  qed
  then show ?thesis using that s l l2 by metis
qed

section \<open>Queries\<close>

lemma lookup_entry_around:
  assumes "key_of tx key" and "\<forall>e \<in> set as \<union> set bs. key_of tx (fst e)"
    and "\<forall>e \<in> set as. kless (fst e) key" and "\<forall>e \<in> set bs. kless key (fst e)"
  shows "lookup_entry key (as @ es @ bs) = lookup_entry key es"
proof -
  have "\<not> py_eq (fst e) key" if "e \<in> set as \<union> set bs" for e
    using assms that by (auto simp: key_of_eq [OF bspec [OF assms(2) that] assms(1)])
  then have "\<forall>e \<in> set as. \<not> py_eq (fst e) key" "\<forall>e \<in> set bs. \<not> py_eq (fst e) key" by blast+
  then have "find (\<lambda>kv. py_eq (fst kv) key) as = None" "find (\<lambda>kv. py_eq (fst kv) key) bs = None"
    by (force simp: find_None_iff)+
  then show ?thesis by (simp add: lookup_entry_def find_append split: option.split)
qed

lemma layer_around:
  assumes lay: "leaf_layer tx m st ps (seps1 @ seps2) (ls1 @ l # ls2)" and key: "key_of tx key"
    and len: "length seps1 = length ls1" "length seps2 = length ls2"
    and seps: "\<forall>s \<in> set seps1. \<not> kless key s" "\<forall>s \<in> set seps2. kless key s"
  shows "\<forall>e \<in> set (concat (map entries ls1)). key_of tx (fst e) \<and> kless (fst e) key"
    and "\<forall>e \<in> set (concat (map entries ls2)). key_of tx (fst e) \<and> kless key (fst e)"
    and "\<forall>x \<in> set (items_left seps1 ls1). item_before x (Key key)"
    and "\<forall>x \<in> set (items_right seps2 ls2). item_before (Key key) x"
proof -
  note d = leaf_layerD [OF lay]
  have ks: "\<forall>k \<in> set (seps1 @ seps2) \<union> set (concat (map nd_keys (ls1 @ l # ls2))). key_of tx k"
  proof
    fix k assume "k \<in> set (seps1 @ seps2) \<union> set (concat (map nd_keys (ls1 @ l # ls2)))"
    then consider "k \<in> set (seps1 @ seps2)" | l' where "l' \<in> set (ls1 @ l # ls2)" "k \<in> set (nd_keys l')"
      unfolding set_concat by auto
    then show "key_of tx k" using d(6,9) by cases (blast, simp add: leaf_ok_def)
  qed
  note a = items_around [OF len d(10) key ks seps]
  show "\<forall>x \<in> set (items_left seps1 ls1). item_before x (Key key)"
    "\<forall>x \<in> set (items_right seps2 ls2). item_before (Key key) x" using a(3,4) by blast+
  have m: "fst e \<in> set (concat (map nd_keys ls'))" if "e \<in> set (concat (map entries ls'))" for ls' e
  proof -
    obtain k v where "e = (k, v)" by fastforce
    then show ?thesis using that by (auto dest: set_zip_leftD)
  qed
  show "\<forall>e \<in> set (concat (map entries ls1)). key_of tx (fst e) \<and> kless (fst e) key"
    "\<forall>e \<in> set (concat (map entries ls2)). key_of tx (fst e) \<and> kless key (fst e)"
    using a(1,2) ks m [of _ ls1] m [of _ ls2] unfolding map_append concat_append set_append list.map concat.simps by blast+
qed

lemma seek_refines:
  assumes t: "index_map tx m ps t kvs" and key: "key_of tx key"
  shows "seek t key = Inr (lookup_entry key kvs)"
proof -
  obtain seps ls where lay: "leaf_layer tx m (bt_store t) ps seps ls" and root: "root_ok t ps seps ls"
    and kvs: "kvs = concat (map entries ls)" using t by (auto simp: index_map_def)
  obtain seps1 seps2 ls1 l ls2 where f: "seps = seps1 @ seps2" "ls = ls1 @ l # ls2" "length seps1 = length ls1"
    "length seps2 = length ls2" "\<forall>s \<in> set seps1. \<not> kless key s" "\<forall>s \<in> set seps2. kless key s"
    and p: "find_leaf_with_path t key = Inr (l, if seps = [] then [] else [(inner_node (bt_root t) seps (map nd_page ls), length ls1)])"
    by (rule find_in_layer [OF lay root key]) (rule that; assumption)
  have l: "leaf_ok tx m l" using leaf_layerD(6) [OF lay] f(2) by simp
  have "seek t key = Inr (lookup_entry key (entries l))"
    using seek_lookup [of t key l] p leaf_okD(1,2) [OF l] by (simp add: find_leaf_def)
  moreover have "lookup_entry key kvs = lookup_entry key (entries l)"
    using lookup_entry_around [of tx key "concat (map entries ls1)" "concat (map entries ls2)" "entries l"] key
      layer_around(1,2) [OF lay [unfolded f(1,2)] key f(3-6)] unfolding kvs f(2) map_append concat_append list.map concat.simps
    by blast
  ultimately show ?thesis by simp
qed

lemma scan_chain:
  assumes "chained (l # ls)" and "\<forall>l' \<in> set ls. read_node (nd_page l') st = Inr l'" and "length ls \<le> f"
  shows "scan_loop f st l = Inr (concat (map nd_values (l # ls)))"
  using assms
proof (induction ls arbitrary: l f)
  case (Cons l' ls)
  then obtain f' where f: "f = Suc f'" by (cases f) auto
  then have "scan_loop f' st l' = Inr (concat (map nd_values (l' # ls)))" using Cons by simp
  then show ?case using Cons.prems by (simp add: f scan_loop.simps [of "Suc f'"])
qed (simp add: scan_loop.simps)

lemma layer_fuel:
  assumes "leaf_layer tx m st ps seps ls"
  shows "length ls \<le> page_count st"
proof -
  note d = leaf_layerD [OF assms]
  have "set (map nd_page ls) \<subseteq> {..<page_count st}" using d(7) read_node_bound [OF d(1)] by auto
  from card_mono [OF _ this] show ?thesis using distinct_card [OF d(4)] by simp
qed

lemma leftmost_of_layer:
  assumes lay: "leaf_layer tx m (bt_store t) ps seps ls" and root: "root_ok t ps seps ls"
  obtains nd where "read_node (bt_root t) (bt_store t) = Inr nd"
    and "leftmost (page_count (bt_store t)) (bt_store t) nd 1 = Inr (hd ls, if seps = [] then 1 else 2)"
proof -
  note d = leaf_layerD [OF lay]
  obtain l ls' where ls: "ls = l # ls'" using d(3) by (cases ls) auto
  have l: "nd_leaf l" "read_node (nd_page l) (bt_store t) = Inr l" using d(6,7) [of l] ls by (simp_all add: leaf_ok_def)
  obtain f where f: "page_count (bt_store t) = Suc f" using wf_storeD(4) [OF d(1)] by (cases "page_count (bt_store t)") auto
  show ?thesis
  proof (cases "seps = []")
    case True
    then show ?thesis using root l ls that by (simp add: root_ok_def leftmost.simps [of _ _ l])
  next
    case False
    let ?r = "inner_node (bt_root t) seps (nd_page l # map nd_page ls')"
    have r: "\<not> nd_leaf ?r" "nd_children ?r = nd_page l # map nd_page ls'" by (simp_all add: inner_node_def)
    have "leftmost (Suc f) (bt_store t) ?r 1 = Inr (l, 2)"
      using l ls r by (simp add: leftmost.simps [of "Suc f" _ ?r] leftmost.simps [of f _ l])
    then show ?thesis using root False that f ls by (simp add: root_ok_def)
  qed
qed

lemma full_scan_refines:
  assumes "index_map tx m ps t kvs"
  shows "full_scan t = Inr (map snd kvs)" and "\<exists>h \<le> 2. height t = Inr h"
proof -
  obtain seps ls where lay: "leaf_layer tx m (bt_store t) ps seps ls" and root: "root_ok t ps seps ls"
    and kvs: "kvs = concat (map entries ls)" using assms by (auto simp: index_map_def)
  note d = leaf_layerD [OF lay]
  obtain l ls' where ls: "ls = l # ls'" using d(3) by (cases ls) auto
  obtain nd where nd: "read_node (bt_root t) (bt_store t) = Inr nd"
    "leftmost (page_count (bt_store t)) (bt_store t) nd 1 = Inr (hd ls, if seps = [] then 1 else 2)"
    by (rule leftmost_of_layer [OF lay root]) (rule that; assumption)
  then show "\<exists>h \<le> 2. height t = Inr h" by (simp add: height_def)
  have "scan_loop (page_count (bt_store t)) (bt_store t) l = Inr (concat (map nd_values ls))"
    using scan_chain [of l ls' "bt_store t" "page_count (bt_store t)"] d(5,7) layer_fuel [OF lay] ls by simp
  then show "full_scan t = Inr (map snd kvs)"
    using nd concat_entries_keys(2) [of ls tx m] d(6) by (simp add: full_scan_def ls kvs)
qed

text \<open>The range query.\<close>

definition in_range :: "pyval \<Rightarrow> pyval \<Rightarrow> bool \<Rightarrow> pyval \<Rightarrow> bool" where
  "in_range lo hi inclusive k \<longleftrightarrow>
     (if inclusive then \<not> kless k lo \<and> \<not> kless hi k else kless lo k \<and> kless k hi)"

lemma key_in_range_eq:
  assumes "key_of tx k" and "key_of tx lo" and "key_of tx hi"
  shows "key_in_range k lo hi inclusive = Inr (in_range lo hi inclusive k)"
  using assms by (simp add: key_in_range_def in_range_def key_of_le [of tx] key_of_lt [of tx])

lemma in_range_beyond:
  assumes "key_of tx k" "key_of tx k'" "key_of tx hi" and "kless hi k" and "kless k k'"
  shows "\<not> in_range lo hi inclusive k'"
  using assms kless_trans [of tx hi k k'] kless_asym [of tx hi k'] by (auto simp: in_range_def)

lemma range_leaf_refines:
  assumes "keys_sorted (kvs @ rest)" and "\<forall>e \<in> set (kvs @ rest). key_of tx (fst e)" and "key_of tx lo" "key_of tx hi"
  shows "\<exists>vs stop. range_leaf lo hi inclusive kvs = Inr (vs, stop)
    \<and> (if stop then vs = map snd (filter (\<lambda>e. in_range lo hi inclusive (fst e)) (kvs @ rest))
       else vs = map snd (filter (\<lambda>e. in_range lo hi inclusive (fst e)) kvs))"
  using assms(1,2)
proof (induction kvs)
  case Nil
  show ?case by (intro exI [of _ "[]"] exI [of _ False]) simp
next
  case (Cons e kvs)
  obtain k v where e: "e = (k, v)" by (cases e)
  have k: "key_of tx k" using Cons.prems(2) by (simp add: e)
  have "keys_sorted (kvs @ rest)" using Cons.prems(1) by (simp add: keys_sorted_def)
  then obtain vs stop where r: "range_leaf lo hi inclusive kvs = Inr (vs, stop)"
    "if stop then vs = map snd (filter (\<lambda>e. in_range lo hi inclusive (fst e)) (kvs @ rest))
     else vs = map snd (filter (\<lambda>e. in_range lo hi inclusive (fst e)) kvs)"
    using Cons by (metis (no_types, lifting) append_Cons list.set_intros(2))
  show ?case
  proof (cases "in_range lo hi inclusive k")
    case True
    then show ?thesis using r k assms(3,4) by (simp add: e key_in_range_eq [of tx])
  next
    case False
    show ?thesis
    proof (cases "kless hi k")
      case True
      have "\<not> in_range lo hi inclusive (fst e')" if "e' \<in> set (kvs @ rest)" for e'
      proof -
        have "key_of tx (fst e')" "kless k (fst e')" using Cons.prems that by (auto simp: e keys_sorted_def)
        then show ?thesis using in_range_beyond [OF k _ assms(4) True] by blast
      qed
      then have "filter (\<lambda>e. in_range lo hi inclusive (fst e)) (kvs @ rest) = []" by (simp add: filter_empty_conv)
      then show ?thesis using False True k assms(3,4)
        by (intro exI [of _ "[]"] exI [of _ True]) (simp add: e key_in_range_eq [of tx] key_greater_def key_of_lt [of tx])
    next
      case gr: False
      then show ?thesis using False r k assms(3,4) by (simp add: e key_in_range_eq [of tx] key_greater_def key_of_lt [of tx])
    qed
  qed
qed

lemma range_chain:
  assumes "chained (l # ls)" and "\<forall>l' \<in> set ls. read_node (nd_page l') st = Inr l'" and "length ls \<le> f"
    and "keys_sorted (concat (map entries (l # ls)))" and "\<forall>e \<in> set (concat (map entries (l # ls))). key_of tx (fst e)"
    and "key_of tx lo" "key_of tx hi"
  shows "range_loop f st lo hi inclusive l
    = Inr (map snd (filter (\<lambda>e. in_range lo hi inclusive (fst e)) (concat (map entries (l # ls)))))"
  using assms(1-5)
proof (induction ls arbitrary: l f)
  case Nil
  obtain vs stop where "range_leaf lo hi inclusive (entries l) = Inr (vs, stop)"
    "vs = map snd (filter (\<lambda>e. in_range lo hi inclusive (fst e)) (entries l))"
    using range_leaf_refines [of "entries l" "[]" tx lo hi inclusive] Nil assms(6,7) by (auto split: if_splits)
  then show ?case using Nil(1) by (simp add: range_loop.simps)
next
  case (Cons l' ls)
  then obtain f' where f: "f = Suc f'" by (cases f) auto
  obtain vs stop where r: "range_leaf lo hi inclusive (entries l) = Inr (vs, stop)"
    "if stop then vs = map snd (filter (\<lambda>e. in_range lo hi inclusive (fst e)) (entries l @ concat (map entries (l' # ls))))
     else vs = map snd (filter (\<lambda>e. in_range lo hi inclusive (fst e)) (entries l))"
    using range_leaf_refines [of "entries l" "concat (map entries (l' # ls))" tx lo hi inclusive] Cons.prems(4,5) assms(6,7) by auto
  have "keys_sorted (concat (map entries (l' # ls)))" using Cons.prems(4) by (simp add: keys_sorted_def sorted_wrt_append)
  then have "range_loop f' st lo hi inclusive l'
      = Inr (map snd (filter (\<lambda>e. in_range lo hi inclusive (fst e)) (concat (map entries (l' # ls)))))"
    using Cons.prems f by (intro Cons.IH) auto
  then show ?case
    using r Cons.prems(1,2) unfolding f by (cases stop) (simp_all add: range_loop.simps [of "Suc f'"])
qed

lemma chained_suffix: "chained (xs @ ys) \<Longrightarrow> chained ys"
  by (induction xs) auto

lemma layer_keys_sorted:
  assumes "leaf_layer tx m st ps seps ls"
  shows "keys_sorted (concat (map entries ls))" and "\<forall>e \<in> set (concat (map entries ls)). key_of tx (fst e)"
proof -
  note d = leaf_layerD [OF assms]
  have e: "map fst (concat (map entries ls)) = concat (map nd_keys ls)"
    using concat_entries_keys(1) d(6) by blast
  then show "keys_sorted (concat (map entries ls))"
    using items_keys [OF d(3,10)] by (simp add: keys_sorted_def)
  have "key_of tx k" if "k \<in> set (map fst (concat (map entries ls)))" for k
    using that d(6) unfolding e by (auto simp: leaf_ok_def)
  then show "\<forall>e \<in> set (concat (map entries ls)). key_of tx (fst e)" by simp
qed

lemma range_refines:
  assumes t: "index_map tx m ps t kvs" and key: "key_of tx lo" "key_of tx hi"
  shows "range_query t lo hi inclusive = Inr (map snd (filter (\<lambda>e. in_range lo hi inclusive (fst e)) kvs))"
proof -
  obtain seps ls where lay: "leaf_layer tx m (bt_store t) ps seps ls" and root: "root_ok t ps seps ls"
    and kvs: "kvs = concat (map entries ls)" using t by (auto simp: index_map_def)
  note d = leaf_layerD [OF lay]
  obtain seps1 seps2 ls1 l ls2 where f: "seps = seps1 @ seps2" "ls = ls1 @ l # ls2" "length seps1 = length ls1"
    "length seps2 = length ls2" "\<forall>s \<in> set seps1. \<not> kless lo s" "\<forall>s \<in> set seps2. kless lo s"
    and p: "find_leaf_with_path t lo = Inr (l, if seps = [] then [] else [(inner_node (bt_root t) seps (map nd_page ls), length ls1)])"
    by (rule find_in_layer [OF lay root key(1)]) (rule that; assumption)
  let ?f = "\<lambda>e. in_range lo hi inclusive (fst e)"
  have "\<not> ?f e" if "e \<in> set (concat (map entries ls1))" for e
    using bspec [OF layer_around(1) [OF lay [unfolded f(1,2)] key(1) f(3-6)] that] key kless_asym [of tx "fst e" lo]
    by (auto simp: in_range_def)
  then have none: "filter ?f (concat (map entries ls1)) = []" by (simp add: filter_empty_conv)
  have ks: "keys_sorted (concat (map entries (l # ls2)))" "\<forall>e \<in> set (concat (map entries (l # ls2))). key_of tx (fst e)"
    using layer_keys_sorted [OF lay] by (simp_all add: f(2) keys_sorted_def sorted_wrt_append)
  have "range_loop (page_count (bt_store t)) (bt_store t) lo hi inclusive l
      = Inr (map snd (filter ?f (concat (map entries (l # ls2)))))"
    using d(5,7) layer_fuel [OF lay] f(2) chained_suffix [of ls1 "l # ls2"]
    by (intro range_chain [OF _ _ _ ks key]) simp_all
  then show ?thesis using p none by (simp add: range_query_def find_leaf_def kvs f(2))
qed

end
