(* ===== verification/BTreeInsert.thy ===== *)
theory BTreeInsert
  imports BTreeRefine
begin

text \<open>
  Insertion into the B+ tree refines the insertion into the sorted list of entries, with
  the split of a full leaf and the first split of the root.
\<close>

section \<open>Insertion\<close>

lemma chained_bound:
  assumes "chained ls" and "\<forall>l \<in> set ls. nd_page l < n" and "0 < n"
  shows "l \<in> set ls \<Longrightarrow> nd_next l < n"
  using assms(1,2)
proof (induction ls)
  case (Cons a ls)
  then show ?case using assms(3) by (cases ls) auto
qed simp

lemma layer_next_bound:
  assumes lay: "leaf_layer tx m st ps seps ls" and l: "l \<in> set ls"
  shows "nd_next l < page_count st"
proof -
  have lp: "leaf_pages tx m st ps ls" and ch: "chained ls" using lay by (simp_all add: leaf_layer_def)
  have b: "\<forall>l \<in> set ls. nd_page l < page_count st" using leaf_pages_bound [OF lp] by blast
  have "0 < page_count st" using wf_storeD(4) lp by (auto simp: leaf_pages_def)
  from chained_bound [OF ch b this l] show ?thesis .
qed

lemma leaf_layer_write:
  assumes lay: "leaf_layer tx m st ps seps (ls1 @ l # ls2)" and l': "leaf_ok tx m l'" "nd_page l' = nd_page l" "nd_next l' = nd_next l"
    and n: "length (nd_keys l') \<le> n" "leaf_room m n st"
    and items: "sorted_wrt item_before (items seps (ls1 @ l' # ls2))"
  obtains st' where "write_node l' st = (Inr (), st')" and "leaf_layer tx m st' ps seps (ls1 @ l' # ls2)"
    and "page_count st' = page_count st" and "capacity st' = capacity st"
    and "\<And>q. q \<noteq> nd_page l \<Longrightarrow> read_node q st' = read_node q st"
proof -
  note d = leaf_layerD [OF lay]
  have lp: "leaf_pages tx m st ps (ls1 @ l # ls2)" using lay by (simp add: leaf_layer_def)
  have nx: "nd_next l' < page_count st" using layer_next_bound [OF lay, of l] l'(3) by simp
  obtain st' where w: "write_node l' st = (Inr (), st')" "leaf_pages tx m st' ps (ls1 @ l' # ls2)"
      "page_count st' = page_count st" "capacity st' = capacity st"
    and fr: "\<And>q. q \<noteq> nd_page l \<Longrightarrow> read_node q st' = read_node q st"
    by (rule leaf_pages_rewrite [OF lp l'(1,2) nx n]) (rule that; assumption)
  have "leaf_layer tx m st' ps seps (ls1 @ l' # ls2)"
    using w(2) d(3,9) chained_replace [OF d(5) l'(2,3)] items by (simp add: leaf_layer_def)
  then show ?thesis using w fr by (intro that)
qed

text \<open>What a leaf has after an insertion, in front of the split.\<close>

lemma put_entry_sorted:
  assumes "keys_sorted es" and "key_of tx k" and "\<forall>e \<in> set es. key_of tx (fst e)"
  shows "keys_sorted (put_entry k v es)"
  using assms(1,3)
proof (induction es)
  case (Cons e es)
  obtain l w where e: "e = (l, w)" by (cases e)
  have l: "key_of tx l" using Cons.prems(2) by (simp add: e)
  have es: "\<forall>k' \<in> fst ` set es. kless l k' \<and> key_of tx k'" using Cons.prems by (auto simp: e keys_sorted_def)
  consider "py_eq l k" | "\<not> py_eq l k" "kless l k" | "\<not> py_eq l k" "kless k l"
    using l assms(2) by (auto simp: key_of_eq [of tx])
  then show ?case
  proof cases
    case 1
    then show ?thesis using Cons.prems by (simp add: e keys_sorted_def)
  next
    case 2
    have "keys_sorted (put_entry k v es)" using Cons by (simp add: keys_sorted_def)
    moreover have "kless l (fst e')" if "e' \<in> set (put_entry k v es)" for e'
      using put_entry_set [OF that] es 2 by auto
    ultimately show ?thesis using 2 by (simp add: e keys_sorted_def)
  next
    case 3
    then have "\<not> kless l k" using kless_asym [OF assms(2) l] by blast
    moreover have "kless k k'" if "k' \<in> fst ` set es" for k'
      using kless_trans [OF assms(2) l, of k'] that es 3 by blast
    ultimately show ?thesis using 3 Cons.prems(1) by (auto simp: e keys_sorted_def)
  qed
qed (simp add: keys_sorted_def)

definition new_leaf :: "pyval \<Rightarrow> nat \<Rightarrow> node \<Rightarrow> node" where
  "new_leaf k v l = l\<lparr>nd_keys := map fst (put_entry k v (entries l)), nd_values := map snd (put_entry k v (entries l))\<rparr>"

lemma entries_new_leaf: "entries (new_leaf k v l) = put_entry k v (entries l)"
  by (simp add: new_leaf_def zip_map_fst_snd)

lemma new_leaf_ok:
  assumes l: "leaf_ok tx m l" and k: "key_of tx k" "key_fits m k" "v < 256 ^ 8"
  shows "leaf_ok tx m (new_leaf k v l)"
proof -
  have "\<forall>k' \<in> set (nd_keys (new_leaf k v l)). key_of tx k' \<and> key_fits m k'"
    using leaf_okD(4,5) [OF l] k by (auto simp: new_leaf_def dest!: put_entry_set dest: set_zip_leftD)
  moreover have "\<forall>v' \<in> set (nd_values (new_leaf k v l)). v' < 256 ^ 8"
    using leaf_okD(6) [OF l] k by (auto simp: new_leaf_def dest!: put_entry_set dest: set_zip_rightD)
  ultimately show ?thesis using leaf_okD(1,2) [OF l] by (simp add: leaf_ok_def new_leaf_def node_ok_def)
qed

text \<open>The rest of \<open>insert\<close>, once the leaf is written.\<close>

definition split_if_full :: "nat \<Rightarrow> (node \<times> nat) list \<Rightarrow> unit btx" where
  "split_if_full n path = sbind sget (\<lambda>t. if n > bt_order t then split_and_propagate path else sret ())"

lemma insert_writes_new_leaf:
  assumes f: "find_leaf_with_path t key = Inr (l, path)" and l: "leaf_ok tx m l" and s: "keys_sorted (entries l)"
    and key: "key_of tx key" and len: "length (nd_keys l) \<le> bt_order t"
  shows "bt_insert key v t
    = sbind (in_tree (write_node (new_leaf key v l))) (\<lambda>_. split_if_full (length (nd_keys (new_leaf key v l))) path) t"
proof -
  note d = leaf_okD [OF l]
  have e: "map fst (entries l) = nd_keys l" "map snd (entries l) = nd_values l" using d(3) by simp_all
  have ek: "\<forall>e \<in> set (entries l). key_of tx (fst e)" using d(4) by (auto dest: set_zip_leftD)
  show ?thesis
  proof (cases "key_position key (nd_keys l)")
    case (Some i)
    have p: "put_entry key v (entries l) = zip (nd_keys l) ((nd_values l)[i := v])"
      using leaf_update_entry [OF s d(3) key d(4) Some] .
    then have nl: "new_leaf key v l = l\<lparr>nd_values := (nd_values l)[i := v]\<rparr>" using d(3) by (simp add: new_leaf_def)
    have i: "i < length (nd_values l)" using key_position_Some [OF Some] d(3) by simp
    have "split_if_full (length (nd_keys l)) path = sbind sget (\<lambda>t. if length (nd_keys l) > bt_order t then split_and_propagate path else sret ())"
      by (simp add: split_if_full_def)
    then show ?thesis
      using f Some i len
      by (cases "write_node (l\<lparr>nd_values := (nd_values l)[i := v]\<rparr>) (bt_store t)" rule: prod.exhaust; cases "fst (write_node (l\<lparr>nd_values := (nd_values l)[i := v]\<rparr>) (bt_store t))")
        (simp_all add: bt_insert_def py_set_def nl in_tree_def sbind_def split_if_full_def sget_def sret_def sread_def slift_def)
  next
    case None
    obtain i where i: "bisect_right (nd_keys l) key = Inr i" "i \<le> length (nd_keys l)"
      and p: "put_entry key v (entries l) = py_insert i (key, v) (entries l)"
      using leaf_insert_entry [OF s key ek, of v] None d(3) by (auto simp: e)
    have nl: "new_leaf key v l = l\<lparr>nd_keys := py_insert i key (nd_keys l), nd_values := py_insert i v (nd_values l)\<rparr>"
      using e by (simp add: new_leaf_def p py_insert_def take_map [symmetric] drop_map [symmetric])
    show ?thesis using f None i by (simp add: bt_insert_def nl split_if_full_def Let_def)
  qed
qed

text \<open>Pages outside the layer may change.\<close>

lemma leaf_layer_frame:
  assumes lay: "leaf_layer tx m st ps seps ls" and st: "wf_store st'" "free_list st' ps'"
    and free: "\<And>l. l \<in> set ls \<Longrightarrow> nd_page l \<notin> set ps'"
    and fr: "\<And>l. l \<in> set ls \<Longrightarrow> read_node (nd_page l) st' = read_node (nd_page l) st"
  shows "leaf_layer tx m st' ps' seps ls"
  using assms leaf_pages_frame [of tx m st ps ls st' ps'] by (simp add: leaf_layer_def)

text \<open>The halves of a leaf.\<close>

lemma split_half:
  assumes "nd_leaf l"
  shows "nd_page (split_left mid pid l) = nd_page l" and "nd_page (split_right mid pid l) = pid"
    and "nd_next (split_left mid pid l) = pid" and "nd_next (split_right mid pid l) = nd_next l"
    and "nd_keys (split_left mid pid l) = take mid (nd_keys l)" and "nd_keys (split_right mid pid l) = drop mid (nd_keys l)"
  using assms by (simp_all add: split_left_def split_right_def leaf_node_def)

lemma split_sizes:
  assumes "nd_leaf l" and "length (nd_keys l) = order + 1" and "0 < order" and "mid = length (nd_keys l) div 2"
    and "x \<in> {split_left mid pid l, split_right mid pid l}"
  shows "min_keys order \<le> length (nd_keys x)" and "length (nd_keys x) \<le> order"
proof -
  have mid: "mid = (order + 1) div 2" using assms(2,4) by simp
  have "length (nd_keys x) = mid \<or> length (nd_keys x) = order + 1 - mid"
    using assms(2,5) mid by (auto simp: split_half [OF assms(1)])
  then show "min_keys order \<le> length (nd_keys x)" and "length (nd_keys x) \<le> order"
    using assms(3) mid by (auto simp: min_keys_def)
qed

lemma entries_split:
  assumes "nd_leaf l"
  shows "entries (split_left mid pid l) @ entries (split_right mid pid l) = entries l"
  using assms by (simp add: split_left_def split_right_def leaf_node_def flip: zip_append1 take_zip drop_zip)

lemma leaf_ok_split:
  assumes "leaf_ok tx m l"
  shows "leaf_ok tx m (split_left mid pid l)" and "leaf_ok tx m (split_right mid pid l)"
  using assms by (auto simp: leaf_ok_def split_left_def split_right_def leaf_node_def node_ok_def dest: in_set_takeD in_set_dropD)

lemma items_after_split:
  assumes lay: "leaf_layer tx m st ps (seps1 @ seps2) (ls1 @ l # ls2)" and len: "length seps1 = length ls1" "length seps2 = length ls2"
    and l: "nd_leaf l" and mid: "mid < length (nd_keys l)"
  shows "sorted_wrt item_before (items (seps1 @ nd_keys l ! mid # seps2) (ls1 @ split_left mid pid l # split_right mid pid l # ls2))"
proof -
  note d = leaf_layerD [OF lay]
  let ?k = "nd_keys l ! mid"
  have keys: "nd_keys (split_left mid pid l) = take mid (nd_keys l)" "nd_keys (split_right mid pid l) = drop mid (nd_keys l)"
    using l by (simp_all add: split_left_def split_right_def leaf_node_def)
  have dr: "drop mid (nd_keys l) = ?k # drop (Suc mid) (nd_keys l)" using mid by (simp add: Cons_nth_drop_Suc)
  let ?as = "items_left seps1 ls1 @ map Key (take mid (nd_keys l))"
  let ?bs = "map Key (drop (Suc mid) (nd_keys l)) @ items_right seps2 ls2"
  have tk: "nd_keys l = take mid (nd_keys l) @ ?k # drop (Suc mid) (nd_keys l)" using dr by (metis append_take_drop_id)
  have k: "key_of tx k" if "k \<in> set (seps1 @ seps2) \<or> (\<exists>l' \<in> set (ls1 @ l # ls2). k \<in> set (nd_keys l'))" for k
    using that d(6,9) by (auto simp: leaf_ok_def)
  have "sorted_wrt item_before (items_left seps1 ls1 @ map Key (nd_keys l) @ items_right seps2 ls2)"
    using d(10) unfolding items_middle [OF len] .
  then have "sorted_wrt item_before (?as @ Key ?k # ?bs)" by (subst (asm) tk) simp
  moreover have "key_of tx ?k" using k mid by (auto intro: bexI [of _ l])
  moreover have "key_of tx b" if "x \<in> set ?bs" "x = Key b \<or> x = Sep b" for x b
    using that k [of b] by (auto simp: items_right_set [OF len(2)] dest: in_set_dropD)
  ultimately have "sorted_wrt item_before (?as @ Sep ?k # Key ?k # ?bs)" by (intro items_split) blast+
  moreover have "length (?k # seps2) = length (split_right mid pid l # ls2)" using len(2) by simp
  ultimately show ?thesis
    by (subst items_middle [OF len(1)]) (simp_all add: keys dr items_right_def)
qed

text \<open>The two halves of a full leaf, on the old page and on a new one.\<close>

lemma layer_split:
  assumes lay: "leaf_layer tx m st ps (seps1 @ seps2) (ls1 @ l # ls2)" and len: "length seps1 = length ls1" "length seps2 = length ls2"
    and mid: "mid < length (nd_keys l)" and n: "length (nd_keys l) \<le> n" "leaf_room m n st"
    and pc: "page_count st + 1 < 256 ^ 4"
  obtains pid st1 st2 st3 ps' where "alloc_page INDEX st = (Inr pid, st1)" and "write_node (split_left mid pid l) st1 = (Inr (), st2)"
    and "write_node (split_right mid pid l) st2 = (Inr (), st3)"
    and "leaf_layer tx m st3 ps' (seps1 @ nd_keys l ! mid # seps2) (ls1 @ split_left mid pid l # split_right mid pid l # ls2)"
    and "page_count st \<le> page_count st3" and "page_count st3 \<le> page_count st + 1" and "capacity st3 = capacity st"
    and "set ps' \<subseteq> set ps" and "pid \<in> set ps \<or> pid = page_count st" and "pid < page_count st3"
proof -
  note d = leaf_layerD [OF lay]
  let ?l = "ls1 @ l # ls2"
  have lp: "leaf_pages tx m st ps ?l" using lay by (simp add: leaf_layer_def)
  obtain pid st1 ps' where a: "alloc_page INDEX st = (Inr pid, st1)" "wf_store st1" "free_list st1 ps'"
      "page_count st \<le> page_count st1" "page_count st1 \<le> page_count st + 1" "capacity st1 = capacity st" "0 < pid" "pid < page_count st1"
      "pid \<notin> set ps'" "set ps' \<subseteq> set ps" "pid \<in> set ps \<or> pid = page_count st"
    and fa: "\<And>q. q < page_count st \<Longrightarrow> q \<noteq> pid \<Longrightarrow> read_node q st1 = read_node q st"
    by (rule alloc_index [OF d(1,2) pc]) (rule that; assumption)
  have used: "nd_page x < page_count st" "nd_page x \<noteq> pid" "nd_page x \<notin> set ps'" if "x \<in> set ?l" for x
    using leaf_pages_bound [OF lp that] d(8) [OF that] a(10,11) by auto
  have lp1: "leaf_pages tx m st1 ps' ?l"
    by (rule leaf_pages_frame [OF lp a(2,3)]) (use used fa in blast)+
  let ?a = "split_left mid pid l" and ?b = "split_right mid pid l"
  have l: "leaf_ok tx m l" using d(6) [of l] by simp
  note half = split_half [OF leaf_okD(1) [OF l], of mid pid]
  note ok = leaf_ok_split [OF l, of mid pid]
  have kl: "length (nd_keys ?a) \<le> n" "length (nd_keys ?b) \<le> n" using n(1) by (simp_all add: half)
  have nxa: "nd_next ?a < page_count st1" and rm1: "leaf_room m n st1"
    using a(6,8) n(2) by (simp_all add: half leaf_room_def)
  obtain st2 where w2: "write_node ?a st1 = (Inr (), st2)" "leaf_pages tx m st2 ps' (ls1 @ ?a # ls2)"
      "page_count st2 = page_count st1" "capacity st2 = capacity st1"
    by (rule leaf_pages_rewrite [OF lp1 ok(1) half(1) nxa kl(1) rm1]) (rule that; assumption)
  have lp2: "leaf_pages tx m st2 ps' ((ls1 @ [?a]) @ ls2)" using w2(2) by simp
  have pb: "nd_page ?b \<notin> set ps'" "nd_page ?b < page_count st2" "nd_page ?b \<notin> nd_page ` set ((ls1 @ [?a]) @ ls2)"
    using a(8,9) w2(3) used(2) by (auto simp: half)
  have nxb: "nd_next ?b < page_count st2" and rm2: "leaf_room m n st2"
    using layer_next_bound [OF lay, of l] a(4,6) w2(3,4) n(2) by (simp_all add: half leaf_room_def)
  obtain st3 where w3: "write_node ?b st2 = (Inr (), st3)" "leaf_pages tx m st3 ps' ((ls1 @ [?a]) @ ?b # ls2)"
      "page_count st3 = page_count st2" "capacity st3 = capacity st2"
    by (rule leaf_pages_put [OF lp2 ok(2) pb nxb kl(2) rm2]) (rule that; assumption)
  have ch: "chained (ls1 @ ?a # ?b # ls2)" using chained_split [OF d(5) half(1), of ?b] half a(7) by simp
  have "leaf_layer tx m st3 ps' (seps1 @ nd_keys l ! mid # seps2) (ls1 @ ?a # ?b # ls2)"
    using w3(2) len ch d(9) leaf_okD(4,5) [OF l] mid
      items_after_split [OF lay len leaf_okD(1) [OF l] mid, of pid] by (simp add: leaf_layer_def)
  then show ?thesis using a w2(1,3,4) w3(1,3,4) by (intro that [of pid st1 st2 st3 ps']) simp_all
qed

lemma layer_size:
  assumes "\<forall>l \<in> set ls. leaf_ok tx m l \<and> h \<le> length (nd_keys l)"
  shows "length ls * h \<le> length (concat (map entries ls))"
  using assms
proof (induction ls)
  case (Cons l ls)
  then have "length (nd_values l) = length (nd_keys l)" using leaf_okD(3) by auto
  then show ?case using Cons by simp
qed simp

lemma min_keys_pos [simp]: "0 < min_keys order"
  by (simp add: min_keys_def)

lemma layer_seps_bound:
  assumes lay: "leaf_layer tx m st ps seps ls" and "\<forall>l \<in> set ls. min_keys order \<le> length (nd_keys l)"
  shows "length seps \<le> length (concat (map entries ls)) div min_keys order"
proof -
  have "length ls * min_keys order \<le> length (concat (map entries ls))"
    using leaf_layerD(6) [OF lay] assms(2) by (intro layer_size) blast
  then have "length seps * min_keys order \<le> length (concat (map entries ls))" using leaf_layerD(3) [OF lay] by simp
  then show ?thesis by (simp add: less_eq_div_iff_mult_less_eq)
qed

text \<open>
  The room that the operations rely on: a leaf of one entry more than the order fits a page,
  a root over leaves that hold the least number of keys fits a page, and pages can be numbered.
\<close>

definition inner_room :: "nat \<Rightarrow> nat \<Rightarrow> file_store \<Rightarrow> bool" where
  "inner_room m n st \<longleftrightarrow> n < 256 ^ 2 \<and> 7 + n * (m + 4) \<le> capacity st"

definition tree_room :: "nat \<Rightarrow> nat \<Rightarrow> nat \<Rightarrow> nat \<Rightarrow> bool" where
  "tree_room m order cap n \<longleftrightarrow>
     0 < order \<and> order + 1 < 256 ^ 2 \<and> 11 + (order + 1) * (m + 8) \<le> cap
     \<and> n div min_keys order < 256 ^ 2 \<and> 7 + n div min_keys order * (m + 4) \<le> cap"

definition index_room :: "nat \<Rightarrow> btree \<Rightarrow> nat \<Rightarrow> bool" where
  "index_room m t n \<longleftrightarrow> tree_room m (bt_order t) (capacity (bt_store t)) n \<and> page_count (bt_store t) + 2 < 256 ^ 4"

lemma tree_room_mono: "tree_room m order cap n \<Longrightarrow> k \<le> n \<Longrightarrow> tree_room m order cap k"
  using div_le_mono [of k n "min_keys order"] mult_le_mono1 [of "k div min_keys order" "n div min_keys order" "m + 4"]
  unfolding tree_room_def by linarith

lemma index_roomD:
  assumes "index_room m t n"
  shows "0 < bt_order t" and "leaf_room m (bt_order t + 1) (bt_store t)"
    and "inner_room m (n div min_keys (bt_order t)) (bt_store t)"
    and "page_count (bt_store t) + 1 < 256 ^ 4" and "page_count (bt_store t) + 2 < 256 ^ 4"
  using assms by (simp_all add: index_room_def tree_room_def leaf_room_def inner_room_def)

lemma room_cong:
  assumes "capacity st' = capacity st"
  shows "leaf_room m n st' = leaf_room m n st" and "inner_room m n st' = inner_room m n st"
  using assms by (simp_all add: leaf_room_def inner_room_def)

text \<open>Writing the internal root over a layer.\<close>

lemma root_write:
  assumes lay: "leaf_layer tx m st ps seps ls" and r: "r \<notin> set ps" "r \<notin> set (map nd_page ls)" "r < page_count st"
    and n: "length seps \<le> n" "inner_room m n st"
  obtains st' where "write_node (inner_node r seps (map nd_page ls)) st = (Inr (), st')"
    and "leaf_layer tx m st' ps seps ls" and "page_count st' = page_count st" and "capacity st' = capacity st"
    and "read_node r st' = Inr (inner_node r seps (map nd_page ls))"
proof -
  note d = leaf_layerD [OF lay]
  let ?nd = "inner_node r seps (map nd_page ls)"
  have nb: "n < 256 ^ 2" "7 + n * (m + 4) \<le> capacity st" using n(2) by (simp_all add: inner_room_def)
  have c: "\<forall>c \<in> set (map nd_page ls). c < 256 ^ 4"
    using read_node_bound [OF d(1) d(7)] wf_storeD(5) [OF d(1)] by (auto dest: less_trans)
  have ln: "length (map nd_page ls) = Suc (length seps)" using d(3) by simp
  have fs: "\<forall>s \<in> set seps. key_fits m s" using d(9) by blast
  obtain body where e: "encode_node ?nd = Inr body" "length body \<le> 7 + n * (m + 4)"
    using encode_inner_fits [OF fs c ln n(1) nb(1)] by blast
  have ok: "node_ok ?nd" "nd_page ?nd \<notin> set ps" "nd_page ?nd < page_count st"
    using r d(3) by (simp_all add: node_ok_def inner_node_def)
  have "length body \<le> capacity st" using e(2) nb(2) by simp
  then obtain st' where w: "write_node ?nd st = (Inr (), st')" "wf_store st'" "free_list st' ps"
      "page_count st' = page_count st" "capacity st' = capacity st" "read_node (nd_page ?nd) st' = Inr ?nd"
    and fr: "\<And>q. q \<noteq> nd_page ?nd \<Longrightarrow> read_node q st' = read_node q st"
    by (rule write_keeps [OF d(1,2) ok(2,3,1) e(1)]) (rule that; assumption)
  have p: "nd_page ?nd = r" by (simp add: inner_node_def)
  have "read_node (nd_page l) st' = read_node (nd_page l) st" if "l \<in> set ls" for l
    using fr [of "nd_page l"] r(2) that p by auto
  then have "leaf_layer tx m st' ps seps ls"
    by (intro leaf_layer_frame [OF lay w(2,3)] d(8))
  then show ?thesis using that w(1,4,5,6) p by simp
qed

text \<open>The page of the root is written last, and the tree is in order again.\<close>

lemma install_root:
  assumes lay: "leaf_layer tx m st ps seps ls" and ne: "seps \<noteq> []"
    and r: "r \<notin> set ps" "r \<notin> set (map nd_page ls)" "r < page_count st" "0 < r"
    and sizes: "\<forall>l \<in> set ls. min_keys order \<le> length (nd_keys l) \<and> length (nd_keys l) \<le> order"
    and room: "inner_room m (length (concat (map entries ls)) div min_keys order) st"
  obtains st' where "write_node (inner_node r seps (map nd_page ls)) st = (Inr (), st')"
    and "page_count st' = page_count st" and "capacity st' = capacity st"
    and "\<And>t. bt_store t = st' \<Longrightarrow> bt_root t = r \<Longrightarrow> bt_order t = order \<Longrightarrow> bt_min t = min_keys order \<Longrightarrow>
      index_map tx m ps t (concat (map entries ls)) \<and> split_root t = (Inr (), t)"
proof -
  have "length seps \<le> length (concat (map entries ls)) div min_keys order"
    using sizes by (intro layer_seps_bound [OF lay]) blast
  then obtain st' where w: "write_node (inner_node r seps (map nd_page ls)) st = (Inr (), st')"
    "leaf_layer tx m st' ps seps ls" "page_count st' = page_count st" "capacity st' = capacity st"
    "read_node r st' = Inr (inner_node r seps (map nd_page ls))"
    by (rule root_write [OF lay r(1-3) _ room]) (rule that; assumption)
  have "index_map tx m ps t (concat (map entries ls))"
    if "bt_store t = st'" "bt_root t = r" "bt_order t = order" "bt_min t = min_keys order" for t
    unfolding index_map_def root_ok_def
    using that w(2,5) r(1,2,4) sizes ne by (intro conjI exI [of _ seps] exI [of _ ls]) simp_all
  moreover have "split_root t = (Inr (), t)" if "bt_store t = st'" "bt_root t = r" for t
    using that w(5) by (simp add: split_root_def in_tree_def inner_node_def)
  ultimately show ?thesis using w(1,3,4) by (intro that [of st']) blast+
qed

lemma split_root_refines:
  assumes lay: "leaf_layer tx m (bt_store t) ps [] [l]" and root: "bt_root t = nd_page l" and mk: "bt_min t = min_keys (bt_order t)"
    and full: "length (nd_keys l) = bt_order t + 1" and room: "index_room m t (length (entries l))"
  obtains t' ps' where "split_root t = (Inr (), t')" and "index_map tx m ps' t' (entries l)"
    and "bt_order t' = bt_order t" and "capacity (bt_store t') = capacity (bt_store t)"
    and "page_count (bt_store t') \<le> page_count (bt_store t) + 2"
proof -
  note d = leaf_layerD [OF lay] and rm = index_roomD [OF room]
  have l: "leaf_ok tx m l" "read_node (nd_page l) (bt_store t) = Inr l" "nd_leaf l"
    using d(6,7) [of l] leaf_okD(1) by simp_all
  let ?mid = "length (nd_keys l) div 2"
  have lay': "leaf_layer tx m (bt_store t) ps ([] @ []) ([] @ l # [])" and mid: "?mid < length (nd_keys l)"
    and nl: "length (nd_keys l) \<le> bt_order t + 1" using lay full by simp_all
  have e0: "length ([] :: pyval list) = length ([] :: node list)" by simp
  obtain pid st1 st2 st3 ps3 where s: "alloc_page INDEX (bt_store t) = (Inr pid, st1)"
      "write_node (split_left ?mid pid l) st1 = (Inr (), st2)" "write_node (split_right ?mid pid l) st2 = (Inr (), st3)"
      "leaf_layer tx m st3 ps3 ([] @ nd_keys l ! ?mid # []) ([] @ split_left ?mid pid l # split_right ?mid pid l # [])"
      "page_count st3 \<le> page_count (bt_store t) + 1" "capacity st3 = capacity (bt_store t)"
    by (rule layer_split [OF lay' e0 e0 mid nl rm(2,4)]) (rule that; assumption)
  let ?ls = "[split_left ?mid pid l, split_right ?mid pid l]" and ?seps = "[nd_keys l ! ?mid]"
  have lay3: "leaf_layer tx m st3 ps3 ?seps ?ls" using s(4) by simp
  note d3 = leaf_layerD [OF lay3]
  have pc3: "page_count st3 + 1 < 256 ^ 4" using s(5) rm(5) by simp
  obtain rid st4 ps4 where a: "alloc_page INDEX st3 = (Inr rid, st4)" "wf_store st4" "free_list st4 ps4"
      "page_count st4 \<le> page_count st3 + 1" "capacity st4 = capacity st3" "rid < page_count st4"
      "0 < rid" "rid \<notin> set ps4" "set ps4 \<subseteq> set ps3" "rid \<in> set ps3 \<or> rid = page_count st3"
    and fa: "\<And>q. q < page_count st3 \<Longrightarrow> q \<noteq> rid \<Longrightarrow> read_node q st4 = read_node q st3"
    by (rule alloc_index [OF d3(1,2) pc3]) (rule that; assumption)
  have used: "nd_page x < page_count st3" "nd_page x \<noteq> rid" "nd_page x \<notin> set ps4" if "x \<in> set ?ls" for x
    using read_node_bound [OF d3(1) d3(7) [OF that]] d3(8) [OF that] a(9,10) by auto
  have lay4: "leaf_layer tx m st4 ps4 ?seps ?ls"
    by (rule leaf_layer_frame [OF lay3 a(2,3)]) (use used fa in blast)+
  have rp: "rid \<notin> set (map nd_page ?ls)" and ne: "?seps \<noteq> []" using used(2) by auto
  have kvs: "concat (map entries ?ls) = entries l" using entries_split [OF l(3), of ?mid pid] by simp
  have room4: "inner_room m (length (concat (map entries ?ls)) div min_keys (bt_order t)) st4"
    using rm(3) a(5) s(6) room_cong(2) unfolding kvs by metis
  have sizes: "\<forall>x \<in> set ?ls. min_keys (bt_order t) \<le> length (nd_keys x) \<and> length (nd_keys x) \<le> bt_order t"
    using split_sizes [OF l(3) full rm(1) refl, of _ pid] by simp
  obtain st5 where w: "write_node (inner_node rid ?seps (map nd_page ?ls)) st4 = (Inr (), st5)"
      "page_count st5 = page_count st4" "capacity st5 = capacity st4"
    and im: "\<And>t'. bt_store t' = st5 \<Longrightarrow> bt_root t' = rid \<Longrightarrow> bt_order t' = bt_order t \<Longrightarrow>
      bt_min t' = min_keys (bt_order t) \<Longrightarrow> index_map tx m ps4 t' (concat (map entries ?ls)) \<and> split_root t' = (Inr (), t')"
    by (rule install_root [OF lay4 ne a(8) rp a(6,7) sizes room4]) (rule that; assumption)
  let ?t = "t\<lparr>bt_store := st5, bt_root := rid, bt_pages := insert rid (insert pid (bt_pages t))\<rparr>"
  have "split_root t = (Inr (), ?t)"
    unfolding split_root_def
    using root l full s(1-3) a(1) w(1) by (simp add: in_tree_def add_page_def Let_def split_half)
  then show ?thesis
    using im [of ?t] mk w(2,3) a(4,5) s(5,6) unfolding kvs by (intro that [of ?t ps4]) simp_all
qed

lemma split_child_refines:
  assumes lay: "leaf_layer tx m (bt_store t) ps (seps1 @ seps2) (ls1 @ l # ls2)"
    and len: "length seps1 = length ls1" "length seps2 = length ls2" and inner: "seps1 @ seps2 \<noteq> []"
    and root: "root_ok t ps (seps1 @ seps2) (ls1 @ l # ls2)" and mk: "bt_min t = min_keys (bt_order t)"
    and full: "length (nd_keys l) = bt_order t + 1" and others: "\<forall>x \<in> set (ls1 @ ls2). length (nd_keys x) \<le> bt_order t"
    and room: "index_room m t (length (concat (map entries (ls1 @ l # ls2))))"
    and path: "path = [(inner_node (bt_root t) (seps1 @ seps2) (map nd_page (ls1 @ l # ls2)), length ls1)]"
  obtains t' ps' where "split_and_propagate path t = (Inr (), t')"
    and "index_map tx m ps' t' (concat (map entries (ls1 @ l # ls2)))"
    and "bt_order t' = bt_order t" and "capacity (bt_store t') = capacity (bt_store t)"
    and "page_count (bt_store t') \<le> page_count (bt_store t) + 2"
proof -
  note d = leaf_layerD [OF lay] and rm = index_roomD [OF room]
  have l: "leaf_ok tx m l" "read_node (nd_page l) (bt_store t) = Inr l" "nd_leaf l"
    using d(6,7) [of l] leaf_okD(1) by simp_all
  let ?mid = "length (nd_keys l) div 2" and ?r = "bt_root t"
  have h: "?mid < length (nd_keys l)" "length (nd_keys l) \<le> bt_order t + 1" using full by simp_all
  have r: "?r \<notin> set ps" "?r \<notin> set (map nd_page (ls1 @ l # ls2))" and r0: "0 < ?r" and
    rr: "read_node ?r (bt_store t) = Inr (inner_node ?r (seps1 @ seps2) (map nd_page (ls1 @ l # ls2)))"
    and half: "\<forall>x \<in> set (ls1 @ l # ls2). min_keys (bt_order t) \<le> length (nd_keys x)"
    using root unfolding root_ok_def if_not_P [OF inner] by blast+
  obtain pid st1 st2 st3 ps3 where s: "alloc_page INDEX (bt_store t) = (Inr pid, st1)"
      "write_node (split_left ?mid pid l) st1 = (Inr (), st2)" "write_node (split_right ?mid pid l) st2 = (Inr (), st3)"
      "leaf_layer tx m st3 ps3 (seps1 @ nd_keys l ! ?mid # seps2) (ls1 @ split_left ?mid pid l # split_right ?mid pid l # ls2)"
      "page_count (bt_store t) \<le> page_count st3" "page_count st3 \<le> page_count (bt_store t) + 1" "capacity st3 = capacity (bt_store t)"
      "set ps3 \<subseteq> set ps" "pid \<in> set ps \<or> pid = page_count (bt_store t)"
    by (rule layer_split [OF lay len h rm(2,4)]) (rule that; assumption)
  let ?ls = "ls1 @ split_left ?mid pid l # split_right ?mid pid l # ls2" and ?seps = "seps1 @ nd_keys l ! ?mid # seps2"
  have ne: "?seps \<noteq> []" by simp
  have sizes: "\<forall>x \<in> set ?ls. min_keys (bt_order t) \<le> length (nd_keys x) \<and> length (nd_keys x) \<le> bt_order t"
    using half others split_sizes [OF l(3) full rm(1) refl, of _ pid] by auto
  have kvs: "concat (map entries ?ls) = concat (map entries (ls1 @ l # ls2))"
    using entries_split [OF l(3), of ?mid pid] by simp
  have "?r < page_count (bt_store t)" using read_node_bound [OF d(1) rr] .
  then have r3: "?r \<notin> set ps3" "?r \<notin> set (map nd_page ?ls)" "?r < page_count st3" "0 < ?r"
    using r r0 s(5,8,9) by (auto simp: split_half [OF l(3)])
  have room3: "inner_room m (length (concat (map entries ?ls)) div min_keys (bt_order t)) st3"
    using rm(3) s(7) room_cong(2) unfolding kvs by metis
  obtain st4 where w: "write_node (inner_node ?r ?seps (map nd_page ?ls)) st3 = (Inr (), st4)"
      "page_count st4 = page_count st3" "capacity st4 = capacity st3"
    and im: "\<And>t'. bt_store t' = st4 \<Longrightarrow> bt_root t' = ?r \<Longrightarrow> bt_order t' = bt_order t \<Longrightarrow>
      bt_min t' = min_keys (bt_order t) \<Longrightarrow> index_map tx m ps3 t' (concat (map entries ?ls)) \<and> split_root t' = (Inr (), t')"
    by (rule install_root [OF s(4) ne r3 sizes room3]) (rule that; assumption)
  let ?t = "t\<lparr>bt_pages := insert pid (bt_pages t), bt_store := st4\<rparr>"
  define P where "P = inner_node ?r (seps1 @ seps2) (map nd_page (ls1 @ l # ls2))"
  define P' where "P' = inner_node ?r ?seps (map nd_page ?ls)"
  have get: "nd_keys P = seps1 @ seps2" "nd_children P = map nd_page ls1 @ nd_page l # map nd_page ls2"
    "py_get (map nd_page ls1 @ nd_page l # map nd_page ls2) (length ls1) = Inr (nd_page l)"
    by (simp_all add: P_def py_get_def inner_node_def nth_append)
  have parent': "P\<lparr>nd_keys := py_insert (length ls1) (nd_keys l ! ?mid) (seps1 @ seps2),
      nd_children := py_insert (Suc (length ls1)) pid (map nd_page ls1 @ nd_page l # map nd_page ls2)\<rparr> = P'"
    using len by (simp add: P_def P'_def inner_node_def py_insert_def split_half [OF l(3)])
  note ix = im [of ?t, simplified, OF mk]
  then have "split_and_propagate path t = (Inr (), ?t)"
    unfolding path P_def [symmetric] split_and_propagate.simps(2)
    using get l(2) full s(1-3) w(1) parent' unfolding P'_def [symmetric]
    by (simp add: in_tree_def add_page_def Let_def)
  moreover have "index_map tx m ps3 ?t (concat (map entries (ls1 @ l # ls2)))"
    using ix unfolding kvs [symmetric] by simp
  ultimately show ?thesis using w(2,3) s(6,7) by (intro that [of ?t ps3]) simp_all
qed

text \<open>A leaf with one key too many is split, be it the root or below it.\<close>

lemma split_full_refines:
  assumes lay: "leaf_layer tx m (bt_store t) ps (seps1 @ seps2) (ls1 @ l # ls2)"
    and len: "length seps1 = length ls1" "length seps2 = length ls2"
    and root: "root_ok t ps (seps1 @ seps2) (ls1 @ l # ls2)" and mk: "bt_min t = min_keys (bt_order t)"
    and full: "length (nd_keys l) = bt_order t + 1" and others: "\<forall>x \<in> set (ls1 @ ls2). length (nd_keys x) \<le> bt_order t"
    and room: "index_room m t (length (concat (map entries (ls1 @ l # ls2))))"
    and path: "path = (if seps1 @ seps2 = [] then []
      else [(inner_node (bt_root t) (seps1 @ seps2) (map nd_page (ls1 @ l # ls2)), length ls1)])"
  obtains t' ps' where "split_and_propagate path t = (Inr (), t')"
    and "index_map tx m ps' t' (concat (map entries (ls1 @ l # ls2)))"
    and "bt_order t' = bt_order t" and "capacity (bt_store t') = capacity (bt_store t)"
    and "page_count (bt_store t') \<le> page_count (bt_store t) + 2"
proof (cases "seps1 @ seps2 = []")
  case True
  then have e: "ls1 = []" "ls2 = []" "path = []" using len path by auto
  have lay1: "leaf_layer tx m (bt_store t) ps [] [l]" "bt_root t = nd_page l" "index_room m t (length (entries l))"
    using lay root room True e by (simp_all add: root_ok_def)
  show ?thesis
    by (rule split_root_refines [OF lay1(1,2) mk full lay1(3)]) (use e in \<open>intro that; simp\<close>)
next
  case False
  then have p: "path = [(inner_node (bt_root t) (seps1 @ seps2) (map nd_page (ls1 @ l # ls2)), length ls1)]"
    using path by (simp only: if_False)
  show ?thesis
    by (rule split_child_refines [OF lay len False root mk full others room p]) (rule that; assumption)
qed

text \<open>The leaf with the new entry, in place of the old one.\<close>

lemma write_new_leaf:
  assumes lay: "leaf_layer tx m st ps (seps1 @ seps2) (ls1 @ l # ls2)" and len: "length seps1 = length ls1" "length seps2 = length ls2"
    and sp: "\<forall>s \<in> set seps1. \<not> kless key s" "\<forall>s \<in> set seps2. kless key s"
    and key: "key_of tx key" "key_fits m key" "v < 256 ^ 8"
    and n: "length (nd_keys (new_leaf key v l)) \<le> n" "leaf_room m n st"
  obtains st' where "write_node (new_leaf key v l) st = (Inr (), st')"
    and "leaf_layer tx m st' ps (seps1 @ seps2) (ls1 @ new_leaf key v l # ls2)"
    and "page_count st' = page_count st" and "capacity st' = capacity st"
    and "\<And>q. q \<noteq> nd_page l \<Longrightarrow> read_node q st' = read_node q st"
    and "put_entry key v (concat (map entries (ls1 @ l # ls2))) = concat (map entries (ls1 @ new_leaf key v l # ls2))"
proof -
  note d = leaf_layerD [OF lay]
  note ar = layer_around [OF lay key(1) len sp]
  have l: "leaf_ok tx m l" using d(6) [of l] by simp
  have so: "keys_sorted (entries l)" using layer_keys_sorted [OF lay] by (simp add: keys_sorted_def sorted_wrt_append)
  let ?l = "new_leaf key v l"
  have nl: "leaf_ok tx m ?l" "nd_page ?l = nd_page l" "nd_next ?l = nd_next l"
    using new_leaf_ok [OF l key] by (simp_all add: new_leaf_def)
  have ks: "set (nd_keys ?l) \<subseteq> insert key (set (nd_keys l))"
    using leaf_okD(3) [OF l] by (auto simp: new_leaf_def dest!: put_entry_set dest: set_zip_leftD)
  have i: "sorted_wrt item_before (items (seps1 @ seps2) (ls1 @ ?l # ls2))"
    using d(10) ks put_entry_sorted [OF so key(1), of v] layer_keys_sorted(2) [OF lay] ar(3,4) unfolding items_middle [OF len]
    by - (rule items_put [where ks = "nd_keys l" and key = key], simp_all add: keys_sorted_def new_leaf_def)
  have put: "put_entry key v (concat (map entries (ls1 @ l # ls2))) = concat (map entries (ls1 @ ?l # ls2))"
    using put_entry_append [where as = "concat (map entries ls1)" and bs = "concat (map entries ls2)" and es = "entries l" and k = key and v = v and tx = tx]
      ar(1,2) key(1) by (simp add: entries_new_leaf)
  show ?thesis
    by (rule leaf_layer_write [OF lay nl n i]) (rule that [OF _ _ _ _ _ put]; assumption)
qed

lemma root_ok_rewrite:
  assumes root: "root_ok t ps seps (ls1 @ l # ls2)" and lay: "leaf_layer tx m (bt_store t) ps seps (ls1 @ l # ls2)"
    and l': "nd_page l' = nd_page l" "seps \<noteq> [] \<Longrightarrow> min_keys (bt_order t) \<le> length (nd_keys l')"
    and fr: "\<And>q. q \<noteq> nd_page l \<Longrightarrow> read_node q st' = read_node q (bt_store t)"
  shows "root_ok (t\<lparr>bt_store := st'\<rparr>) ps seps (ls1 @ l' # ls2)"
proof (cases "seps = []")
  case True
  then have "ls1 = []" using leaf_layerD(3) [OF lay] by simp
  then show ?thesis using root True l'(1) by (simp add: root_ok_def)
next
  case False
  have "bt_root t \<noteq> nd_page l" using root unfolding root_ok_def if_not_P [OF False] by auto
  then show ?thesis
    using root l' fr [of "bt_root t"] False unfolding root_ok_def by simp
qed

lemma insert_refines:
  assumes t: "index_map tx m ps t kvs" and key: "key_of tx key" "key_fits m key" "v < 256 ^ 8"
    and room: "index_room m t (length kvs + 1)"
  obtains t' ps' where "bt_insert key v t = (Inr (), t')" and "index_map tx m ps' t' (put_entry key v kvs)"
    and "bt_order t' = bt_order t" and "capacity (bt_store t') = capacity (bt_store t)"
    and "page_count (bt_store t') \<le> page_count (bt_store t) + 2"
proof -
  obtain seps ls where lay: "leaf_layer tx m (bt_store t) ps seps ls" and root: "root_ok t ps seps ls" and mk: "bt_min t = min_keys (bt_order t)"
    and order: "\<forall>l \<in> set ls. length (nd_keys l) \<le> bt_order t" and kvs: "kvs = concat (map entries ls)"
    using t by (auto simp: index_map_def)
  note rm = index_roomD [OF room]
  obtain seps1 seps2 ls1 l ls2 where f: "seps = seps1 @ seps2" "ls = ls1 @ l # ls2" and len: "length seps1 = length ls1"
    "length seps2 = length ls2" and sp: "\<forall>s \<in> set seps1. \<not> kless key s" "\<forall>s \<in> set seps2. kless key s"
    and p: "find_leaf_with_path t key = Inr (l, if seps = [] then [] else [(inner_node (bt_root t) seps (map nd_page ls), length ls1)])"
    by (rule find_in_layer [OF lay root key(1)]) (rule that; assumption)
  let ?path = "if seps = [] then [] else [(inner_node (bt_root t) seps (map nd_page ls), length ls1)]"
  note lay = lay [unfolded f] and root = root [unfolded f]
  let ?l = "new_leaf key v l"
  have l: "leaf_ok tx m l" using leaf_layerD(6) [OF lay, of l] by simp
  have so: "keys_sorted (entries l)" using layer_keys_sorted [OF lay] by (simp add: keys_sorted_def sorted_wrt_append)
  have ln: "length (nd_keys ?l) = length (put_entry key v (entries l))" "length (entries l) = length (nd_keys l)"
    using leaf_okD(3) [OF l] by (simp_all add: new_leaf_def)
  have lk: "length (nd_keys ?l) \<le> bt_order t + 1" "length (nd_keys l) \<le> length (nd_keys ?l)"
    using put_entry_length [where kvs = "entries l" and k = key and v = v] order f(2) ln by auto
  obtain st' where w: "write_node ?l (bt_store t) = (Inr (), st')" "leaf_layer tx m st' ps (seps1 @ seps2) (ls1 @ ?l # ls2)"
      "page_count st' = page_count (bt_store t)" "capacity st' = capacity (bt_store t)"
    and fr: "\<And>q. q \<noteq> nd_page l \<Longrightarrow> read_node q st' = read_node q (bt_store t)"
    and put: "put_entry key v (concat (map entries (ls1 @ l # ls2))) = concat (map entries (ls1 @ ?l # ls2))"
    by (rule write_new_leaf [OF lay len sp key lk(1) rm(2)]) (rule that; assumption)
  let ?t = "t\<lparr>bt_store := st'\<rparr>"
  have ins: "bt_insert key v t = split_if_full (length (nd_keys ?l)) ?path ?t"
    using insert_writes_new_leaf [OF p l so key(1)] order f(2) w(1) by (simp add: in_tree_def)
  have "min_keys (bt_order t) \<le> length (nd_keys ?l)" if "seps1 @ seps2 \<noteq> []"
    using root lk(2) unfolding root_ok_def if_not_P [OF that] by auto
  then have root': "root_ok ?t ps (seps1 @ seps2) (ls1 @ ?l # ls2)"
    by (intro root_ok_rewrite [OF root lay _ _ fr]) (simp_all add: new_leaf_def)
  have put: "put_entry key v kvs = concat (map entries (ls1 @ ?l # ls2))" unfolding kvs f(2) by (rule put)
  show ?thesis
  proof (cases "length (nd_keys ?l) \<le> bt_order t")
    case True
    then have "bt_insert key v t = (Inr (), ?t)" by (simp add: ins split_if_full_def)
    moreover have "index_map tx m ps ?t (put_entry key v kvs)"
      unfolding index_map_def put
      by (intro conjI exI [of _ "seps1 @ seps2"] exI [of _ "ls1 @ ?l # ls2"]) (use w(2) root' True order f(2) mk in auto)
    ultimately show ?thesis using w(3,4) by (intro that [of ?t ps]) simp_all
  next
    case False
    then have full: "length (nd_keys ?l) = bt_order ?t + 1" using lk(1) by simp
    have "length (put_entry key v kvs) \<le> length kvs + 1" using put_entry_length(2) [of key v kvs] by simp
    then have room': "index_room m ?t (length (concat (map entries (ls1 @ ?l # ls2))))"
      using room tree_room_mono w(3,4) unfolding put [symmetric] by (auto simp: index_room_def)
    have sp: "split_if_full (length (nd_keys ?l)) ?path ?t = split_and_propagate ?path ?t"
      using full by (simp add: split_if_full_def)
    have mk': "bt_min ?t = min_keys (bt_order ?t)" and lay1: "leaf_layer tx m (bt_store ?t) ps (seps1 @ seps2) (ls1 @ ?l # ls2)"
      and others: "\<forall>x \<in> set (ls1 @ ls2). length (nd_keys x) \<le> bt_order ?t" using mk w(2) order f(2) by auto
    have path: "?path = (if seps1 @ seps2 = [] then []
        else [(inner_node (bt_root ?t) (seps1 @ seps2) (map nd_page (ls1 @ ?l # ls2)), length ls1)])"
      using f by (simp add: new_leaf_def)
    show ?thesis
      by (rule split_full_refines [OF lay1 len root' mk' full others room' path])
        (use ins sp w(3,4) put in \<open>intro that; simp\<close>)
  qed
qed

section \<open>A new tree\<close>

lemma create_refines:
  assumes wf: "wf_store st" and fl: "free_list st ps" and pc: "page_count st + 1 < 256 ^ 4" and cap: "11 \<le> capacity st"
  obtains t ps' where "create_btree order st = (Inr t, bt_store t)" and "index_map tx m ps' t []" and "bt_order t = order"
    and "capacity (bt_store t) = capacity st" and "page_count (bt_store t) \<le> page_count st + 1"
proof -
  obtain pid st1 ps1 where a: "alloc_page INDEX st = (Inr pid, st1)" "wf_store st1" "free_list st1 ps1"
      "page_count st1 \<le> page_count st + 1" "capacity st1 = capacity st" "0 < pid" "pid < page_count st1" "pid \<notin> set ps1"
    by (rule alloc_index [OF wf fl pc]) (rule that; assumption)
  let ?nd = "leaf_node pid [] [] 0"
  have nd: "nd_leaf ?nd" "node_ok ?nd" "nd_page ?nd = pid" "nd_keys ?nd = []" "nd_values ?nd = []" "nd_next ?nd = 0"
    by (simp_all add: leaf_node_def node_ok_def)
  obtain body where e: "encode_node ?nd = Inr body" "length body \<le> 11 + 0 * (m + 8)"
    using encode_leaf_fits [of ?nd m 0] nd by auto
  have p: "nd_page ?nd \<notin> set ps1" "nd_page ?nd < page_count st1" "length body \<le> capacity st1"
    using a(5,7,8) nd(3) e(2) cap by simp_all
  obtain st2 where w: "write_node ?nd st1 = (Inr (), st2)" "wf_store st2" "free_list st2 ps1"
      "page_count st2 = page_count st1" "capacity st2 = capacity st1" "read_node (nd_page ?nd) st2 = Inr ?nd"
    by (rule write_keeps [OF a(2,3) p(1,2) nd(2) e(1) p(3)]) (rule that; assumption)
  let ?t = "open_btree st2 pid order"
  have t: "bt_store ?t = st2" "bt_order ?t = order" "bt_root ?t = pid" "bt_min ?t = min_keys order"
    by (simp_all add: open_btree_def min_keys_def)
  have "leaf_layer tx m st2 ps1 [] [?nd]"
    using w(2,3,6) nd p(1) a(6) by (simp add: leaf_layer_def leaf_pages_def leaf_ok_def)
  then have "index_map tx m ps1 ?t []"
    unfolding index_map_def t by (intro conjI exI [of _ "[]"] exI [of _ "[?nd]"]) (simp_all add: root_ok_def t nd)
  moreover have "create_btree order st = (Inr ?t, bt_store ?t)"
    using a(1) w(1) t by (simp add: create_btree_def)
  ultimately show ?thesis using t a(4,5) w(4,5) by (intro that [of ?t ps1]) simp_all
qed

lemma key_fits_int:
  assumes "- (2 ^ 63) \<le> i" and "i < 2 ^ 63"
  shows "key_fits 11 (PInt i)"
  using assms
  by (simp add: key_fits_def encode_key_def key_tag_def to_bytes_signed_def pack_uint_def del: le_enc.simps One_nat_def)

end
