(* ===== verification/BTreeDelete.thy ===== *)
theory BTreeDelete
  imports BTreeInsert
begin

text \<open>
  Deletion from the B+ tree refines the deletion from the sorted list of entries: a leaf that
  has become too small takes an entry from a sibling or is merged with it, its page is freed,
  and a root with a single child left is given up. With the insertion it gives the behaviour
  of any run of both.
\<close>

section \<open>The abstract deletion\<close>

definition remove_entry :: "pyval \<Rightarrow> (pyval \<times> nat) list \<Rightarrow> (pyval \<times> nat) list" where
  "remove_entry k kvs = filter (\<lambda>e. \<not> py_eq (fst e) k) kvs"

lemma remove_entry_length: "length (remove_entry k kvs) \<le> length kvs"
  by (simp add: remove_entry_def)

lemma remove_entry_sorted: "keys_sorted es \<Longrightarrow> keys_sorted (remove_entry k es)"
  by (simp add: keys_sorted_def remove_entry_def sorted_wrt_map sorted_wrt_filter)

lemma remove_entry_lookup:
  "lookup_entry k' (remove_entry k kvs) = (if py_eq k k' then [] else lookup_entry k' kvs)"
proof (induction kvs)
  case (Cons e kvs)
  have "py_eq k k'" if "py_eq (fst e) k" "py_eq (fst e) k'" using that py_eq_sym py_eq_trans by blast
  moreover have "py_eq (fst e) k" if "py_eq (fst e) k'" "py_eq k k'" using that py_eq_sym py_eq_trans by blast
  ultimately show ?case using Cons by (auto simp: lookup_entry_def remove_entry_def)
qed (simp add: lookup_entry_def remove_entry_def)

lemma remove_entry_none:
  assumes "\<forall>e \<in> set es. key_of tx (fst e)" and "key_of tx k" and "\<forall>e \<in> set es. kless (fst e) k \<or> kless k (fst e)"
  shows "remove_entry k es = es"
  using assms by (auto simp: remove_entry_def filter_id_conv key_of_eq [of tx])

lemma remove_entry_absent: "key_position k (map fst es) = None \<Longrightarrow> remove_entry k es = es"
  by (induction es) (auto simp: remove_entry_def split: if_splits)

lemma remove_entry_position:
  assumes "keys_sorted es" and "\<forall>e \<in> set es. key_of tx (fst e)" and "key_position k (map fst es) = Some i"
  shows "remove_entry k es = take i es @ drop (Suc i) es"
  using assms
proof (induction es arbitrary: i)
  case (Cons e es)
  show ?case
  proof (cases "py_eq (fst e) k")
    case True
    have "\<not> py_eq (fst e') k" if e': "e' \<in> set es" for e'
    proof -
      have "kless (fst e) (fst e')" using Cons.prems(1) e' by (auto simp: keys_sorted_def)
      then have "\<not> py_eq (fst e) (fst e')" using Cons.prems(2) e' by (simp add: key_of_eq [of tx])
      then show ?thesis using True py_eq_sym py_eq_trans by blast
    qed
    then show ?thesis using True Cons.prems(3) by (simp add: remove_entry_def filter_id_conv)
  next
    case False
    then obtain j where j: "key_position k (map fst es) = Some j" "i = Suc j" using Cons.prems(3) by auto
    have "remove_entry k es = take j es @ drop (Suc j) es"
      using Cons j(1) by (simp add: keys_sorted_def)
    then show ?thesis using False j(2) by (simp add: remove_entry_def)
  qed
qed simp

section \<open>The leaf without the entry\<close>

definition cut_leaf :: "pyval \<Rightarrow> node \<Rightarrow> node" where
  "cut_leaf k l = l\<lparr>nd_keys := map fst (remove_entry k (entries l)), nd_values := map snd (remove_entry k (entries l))\<rparr>"

lemma cut_leaf_simps [simp]:
  "nd_page (cut_leaf k l) = nd_page l" "nd_next (cut_leaf k l) = nd_next l"
  "nd_keys (cut_leaf k l) = map fst (remove_entry k (entries l))"
  "nd_values (cut_leaf k l) = map snd (remove_entry k (entries l))"
  by (simp_all add: cut_leaf_def)

lemma cut_leaf_ok: "leaf_ok tx m l \<Longrightarrow> leaf_ok tx m (cut_leaf k l)"
  by (auto simp: leaf_ok_def cut_leaf_def node_ok_def remove_entry_def dest: set_zip_leftD set_zip_rightD)

lemma cut_leaf_length:
  assumes "leaf_ok tx m l" and "keys_sorted (entries l)" and "key_of tx k" and "key_position k (nd_keys l) = Some i"
  shows "length (nd_keys (cut_leaf k l)) = length (nd_keys l) - 1" and "i < length (nd_keys l)"
proof -
  note d = leaf_okD [OF assms(1)]
  have e: "map fst (entries l) = nd_keys l" "length (entries l) = length (nd_keys l)" using d(3) by simp_all
  have ek: "\<forall>e \<in> set (entries l). key_of tx (fst e)" using d(4) by (auto dest: set_zip_leftD)
  show i: "i < length (nd_keys l)" using key_position_Some [OF assms(4)] by simp
  have "remove_entry k (entries l) = take i (entries l) @ drop (Suc i) (entries l)"
    using remove_entry_position [OF assms(2) ek] assms(4) e(1) by simp
  then show "length (nd_keys (cut_leaf k l)) = length (nd_keys l) - 1" using i e(2) by simp
qed

text \<open>The rest of \<open>delete\<close>, once the leaf is written.\<close>

definition rebalance_if_small :: "node \<Rightarrow> (node \<times> nat) list \<Rightarrow> unit btx" where
  "rebalance_if_small l path =
     sbind sget (\<lambda>t. if length (nd_keys l) < bt_min t \<and> nd_page l \<noteq> bt_root t then rebalance path else sret ())"

lemma delete_writes_cut_leaf:
  assumes f: "find_leaf_with_path t key = Inr (l, path)" and l: "leaf_ok tx m l" and s: "keys_sorted (entries l)"
    and key: "key_of tx key"
  shows "key_position key (nd_keys l) = None \<Longrightarrow> bt_delete key t = (Inr (), t)"
    and "key_position key (nd_keys l) = Some i \<Longrightarrow> bt_delete key t
      = sbind (in_tree (write_node (cut_leaf key l))) (\<lambda>_. rebalance_if_small (cut_leaf key l) path) t"
proof -
  show "key_position key (nd_keys l) = None \<Longrightarrow> bt_delete key t = (Inr (), t)" using f by (simp add: bt_delete_def)
  assume pos: "key_position key (nd_keys l) = Some i"
  note d = leaf_okD [OF l]
  have e: "map fst (entries l) = nd_keys l" "map snd (entries l) = nd_values l" using d(3) by simp_all
  have ek: "\<forall>e \<in> set (entries l). key_of tx (fst e)" using d(4) by (auto dest: set_zip_leftD)
  have i: "i < length (nd_keys l)" by (rule cut_leaf_length(2) [OF l s key pos])
  have r: "remove_entry key (entries l) = take i (entries l) @ drop (Suc i) (entries l)"
    using remove_entry_position [OF s ek] pos e(1) by simp
  have c: "cut_leaf key l = l\<lparr>nd_keys := take i (nd_keys l) @ drop (Suc i) (nd_keys l),
      nd_values := take i (nd_values l) @ drop (Suc i) (nd_values l)\<rparr>"
    using e by (simp add: cut_leaf_def r take_map [symmetric] drop_map [symmetric])
  show "bt_delete key t = sbind (in_tree (write_node (cut_leaf key l))) (\<lambda>_. rebalance_if_small (cut_leaf key l) path) t"
    using f pos i d(3) by (simp add: bt_delete_def py_pop_def c rebalance_if_small_def Let_def)
qed

lemma write_cut_leaf:
  assumes lay: "leaf_layer tx m st ps (seps1 @ seps2) (ls1 @ l # ls2)" and len: "length seps1 = length ls1" "length seps2 = length ls2"
    and sp: "\<forall>s \<in> set seps1. \<not> kless key s" "\<forall>s \<in> set seps2. kless key s" and key: "key_of tx key"
    and n: "length (nd_keys l) \<le> n" "leaf_room m n st"
  obtains st' where "write_node (cut_leaf key l) st = (Inr (), st')"
    and "leaf_layer tx m st' ps (seps1 @ seps2) (ls1 @ cut_leaf key l # ls2)"
    and "page_count st' = page_count st" and "capacity st' = capacity st"
    and "\<And>q. q \<noteq> nd_page l \<Longrightarrow> read_node q st' = read_node q st"
proof -
  note d = leaf_layerD [OF lay]
  note ar = layer_around [OF lay key len sp]
  have l: "leaf_ok tx m l" using d(6) [of l] by simp
  have so: "keys_sorted (entries l)" using layer_keys_sorted [OF lay] by (simp add: keys_sorted_def sorted_wrt_append)
  have "set (nd_keys (cut_leaf key l)) \<subseteq> insert key (set (nd_keys l))"
    by (auto simp: remove_entry_def dest: set_zip_leftD)
  then have i: "sorted_wrt item_before (items (seps1 @ seps2) (ls1 @ cut_leaf key l # ls2))"
    using d(10) remove_entry_sorted [OF so, of key] ar(3,4) unfolding items_middle [OF len]
    by - (rule items_put [where ks = "nd_keys l" and key = key], simp_all add: keys_sorted_def)
  have "length (nd_keys (cut_leaf key l)) \<le> n"
    using n(1) remove_entry_length [of key "entries l"] leaf_okD(3) [OF l] by simp
  then show ?thesis
    by (rule leaf_layer_write [OF lay cut_leaf_ok [OF l] cut_leaf_simps(1,2) _ n(2) i]) (rule that; assumption)
qed

lemma remove_from_layer:
  assumes lay: "leaf_layer tx m st ps (seps1 @ seps2) (ls1 @ l # ls2)" and len: "length seps1 = length ls1" "length seps2 = length ls2"
    and sp: "\<forall>s \<in> set seps1. \<not> kless key s" "\<forall>s \<in> set seps2. kless key s" and key: "key_of tx key"
  shows "remove_entry key (concat (map entries (ls1 @ l # ls2))) = concat (map entries (ls1 @ cut_leaf key l # ls2))"
proof -
  note ar = layer_around [OF lay key len sp]
  have "remove_entry key (concat (map entries ls1)) = concat (map entries ls1)"
    "remove_entry key (concat (map entries ls2)) = concat (map entries ls2)"
    by (rule remove_entry_none [of _ tx]; use ar(1,2) key in blast)+
  then show ?thesis by (simp add: remove_entry_def zip_map_fst_snd)
qed

section \<open>Two neighbours\<close>

lemma items_pair:
  assumes "length seps1 = length ls1" and "length seps2 = length ls2"
  shows "items (seps1 @ s # seps2) (ls1 @ a # b # ls2)
    = items_left seps1 ls1 @ map Key (nd_keys a) @ Sep s # map Key (nd_keys b) @ items_right seps2 ls2"
  using assms by (subst items_middle) (simp_all add: items_right_def)

lemma sorted_without: "sorted_wrt P (xs @ x # ys) \<Longrightarrow> sorted_wrt P (xs @ ys)"
  by (simp add: sorted_wrt_append)

lemma items_joined:
  assumes lay: "leaf_layer tx m st ps (seps1 @ s # seps2) (ls1 @ a # b # ls2)"
    and len: "length seps1 = length ls1" "length seps2 = length ls2"
  shows "sorted_wrt item_before (items_left seps1 ls1 @ map Key (nd_keys a @ nd_keys b) @ items_right seps2 ls2)"
  using sorted_without [of item_before "items_left seps1 ls1 @ map Key (nd_keys a)" "Sep s"] leaf_layerD(10) [OF lay]
  by (simp add: items_pair [OF len])

text \<open>The entries of two neighbours are divided anew, at the first key of the right one.\<close>

lemma items_shifted:
  assumes lay: "leaf_layer tx m st ps (seps1 @ s # seps2) (ls1 @ a # b # ls2)"
    and len: "length seps1 = length ls1" "length seps2 = length ls2"
    and keys: "nd_keys a' @ nd_keys b' = nd_keys a @ nd_keys b" "nd_keys b' = s' # ks"
  shows "sorted_wrt item_before (items (seps1 @ s' # seps2) (ls1 @ a' # b' # ls2))"
proof -
  note d = leaf_layerD [OF lay]
  have k: "key_of tx k" if "k \<in> set (nd_keys a' @ nd_keys b') \<or> k \<in> set seps2 \<or> (\<exists>l \<in> set ls2. k \<in> set (nd_keys l))" for k
    using that d(6,9) unfolding keys(1) by (auto simp: leaf_ok_def)
  have "sorted_wrt item_before ((items_left seps1 ls1 @ map Key (nd_keys a')) @ Key s' # map Key ks @ items_right seps2 ls2)"
    using items_joined [OF lay len] unfolding keys(1) [symmetric] by (simp add: keys(2))
  moreover have "key_of tx s'" using k keys(2) by simp
  moreover have "key_of tx y" if "x \<in> set (map Key ks @ items_right seps2 ls2)" "x = Key y \<or> x = Sep y" for x y
    using that k [of y] keys(2) by (auto simp: items_right_set [OF len(2)])
  ultimately have "sorted_wrt item_before ((items_left seps1 ls1 @ map Key (nd_keys a')) @ Sep s' # Key s' # map Key ks @ items_right seps2 ls2)"
    by (intro items_split) blast+
  then show ?thesis unfolding items_pair [OF len] by (simp add: keys(2))
qed

lemma layer_shift:
  assumes lay: "leaf_layer tx m st ps (seps1 @ s # seps2) (ls1 @ a # b # ls2)"
    and len: "length seps1 = length ls1" "length seps2 = length ls2"
    and keys: "nd_keys a' @ nd_keys b' = nd_keys a @ nd_keys b" "nd_keys b' = s' # ks"
    and ok: "leaf_ok tx m a'" "leaf_ok tx m b'"
    and same: "nd_page a' = nd_page a" "nd_next a' = nd_next a" "nd_page b' = nd_page b" "nd_next b' = nd_next b"
    and n: "length (nd_keys a') \<le> n" "length (nd_keys b') \<le> n" "leaf_room m n st"
  obtains st1 st2 where "write_node a' st = (Inr (), st1)" and "write_node b' st1 = (Inr (), st2)"
    and "leaf_layer tx m st2 ps (seps1 @ s' # seps2) (ls1 @ a' # b' # ls2)"
    and "page_count st2 = page_count st" and "capacity st2 = capacity st"
proof -
  note d = leaf_layerD [OF lay]
  have lp: "leaf_pages tx m st ps (ls1 @ a # b # ls2)" using lay by (simp add: leaf_layer_def)
  have nx: "nd_next a' < page_count st" "nd_next b' < page_count st"
    using layer_next_bound [OF lay] same by simp_all
  obtain st1 where w1: "write_node a' st = (Inr (), st1)" "leaf_pages tx m st1 ps (ls1 @ a' # b # ls2)"
    "page_count st1 = page_count st" "capacity st1 = capacity st"
    by (rule leaf_pages_rewrite [OF lp ok(1) same(1) nx(1) n(1,3)]) (rule that; assumption)
  have lp1: "leaf_pages tx m st1 ps ((ls1 @ [a']) @ b # ls2)" and nx1: "nd_next b' < page_count st1" and n1: "leaf_room m n st1"
    using w1 nx(2) n(3) by (simp_all add: leaf_room_def)
  obtain st2 where w2: "write_node b' st1 = (Inr (), st2)" "leaf_pages tx m st2 ps ((ls1 @ [a']) @ b' # ls2)"
    "page_count st2 = page_count st1" "capacity st2 = capacity st1"
    by (rule leaf_pages_rewrite [OF lp1 ok(2) same(3) nx1 n(2) n1]) (rule that; assumption)
  have "chained (ls1 @ a' # b # ls2)" by (rule chained_replace [OF d(5) same(1,2)])
  then have "chained ((ls1 @ [a']) @ b # ls2)" by simp
  then have ch: "chained ((ls1 @ [a']) @ b' # ls2)" by (rule chained_replace [OF _ same(3,4)])
  have s': "key_of tx s' \<and> key_fits m s'" using ok(2) keys(2) by (simp add: leaf_ok_def)
  have "leaf_layer tx m st2 ps (seps1 @ s' # seps2) (ls1 @ a' # b' # ls2)"
    unfolding leaf_layer_def
  proof (intro conjI)
    show "leaf_pages tx m st2 ps (ls1 @ a' # b' # ls2)" using w2(2) by simp
    show "chained (ls1 @ a' # b' # ls2)" using ch by simp
    show "\<forall>x \<in> set (seps1 @ s' # seps2). key_of tx x \<and> key_fits m x" using d(9) s' by simp
    show "sorted_wrt item_before (items (seps1 @ s' # seps2) (ls1 @ a' # b' # ls2))"
      by (rule items_shifted [OF lay len keys])
  qed (simp add: len)
  moreover have "page_count st2 = page_count st" "capacity st2 = capacity st" using w1(3,4) w2(3,4) by simp_all
  ultimately show ?thesis by (rule that [OF w1(1) w2(1)])
qed

lemma chained_join:
  assumes "chained (ls1 @ a # b # ls2)" and "nd_page c = nd_page a \<or> ls1 = [] \<and> nd_page c = nd_page b" and "nd_next c = nd_next b"
  shows "chained (ls1 @ c # ls2)"
  using assms(1,2)
proof (induction ls1)
  case (Cons x ls1)
  then show ?case by (cases ls1) auto
qed (use assms(3) in auto)

lemma chained_pages: "chained ls \<Longrightarrow> l \<in> set ls \<Longrightarrow> 0 < nd_page l"
  by (induction ls) auto

text \<open>Two neighbours become one leaf on the page of one of them; the other page is freed.\<close>

lemma layer_merge:
  assumes lay: "leaf_layer tx m st ps (seps1 @ s # seps2) (ls1 @ a # b # ls2)"
    and len: "length seps1 = length ls1" "length seps2 = length ls2"
    and keys: "nd_keys c = nd_keys a @ nd_keys b" and ok: "leaf_ok tx m c" and nx: "nd_next c = nd_next b"
    and pages: "nd_page c = nd_page a \<and> f = nd_page b \<or> ls1 = [] \<and> nd_page c = nd_page b \<and> f = nd_page a"
    and n: "length (nd_keys c) \<le> n" "leaf_room m n st"
  obtains st1 st2 where "write_node c st = (Inr (), st1)" and "free_page f st1 = (Inr (), st2)"
    and "leaf_layer tx m st2 (f # ps) (seps1 @ seps2) (ls1 @ c # ls2)"
    and "page_count st2 = page_count st" and "capacity st2 = capacity st"
proof -
  note d = leaf_layerD [OF lay]
  let ?l = "ls1 @ a # b # ls2"
  have lp: "leaf_pages tx m st ps ?l" using lay by (simp add: leaf_layer_def)
  have sub: "leaf_pages tx m st ps (ls1 @ ls2)" by (rule leaf_pages_subset [OF lp]) (use d(4) in auto)
  have in_l: "nd_page c \<in> nd_page ` set ?l" "f \<in> nd_page ` set ?l" using pages by auto
  then have pc: "nd_page c \<notin> set ps" "nd_page c < page_count st" and pf: "f \<notin> set ps" "f < page_count st"
    using leaf_pages_bound [OF lp] lp by (auto simp: leaf_pages_def)
  have new: "nd_page c \<notin> nd_page ` set (ls1 @ ls2)" "f \<notin> nd_page ` set (ls1 @ c # ls2)"
    using pages d(4) by auto
  have nxc: "nd_next c < page_count st" using layer_next_bound [OF lay] nx by simp
  obtain st1 where w: "write_node c st = (Inr (), st1)" "leaf_pages tx m st1 ps (ls1 @ c # ls2)"
    "page_count st1 = page_count st" "capacity st1 = capacity st"
    by (rule leaf_pages_put [OF sub ok pc new(1) nxc n]) (rule that; assumption)
  have wf: "wf_store st1" "free_list st1 ps" using w(2) by (simp_all add: leaf_pages_def)
  have "0 < f" using chained_pages [OF d(5)] in_l(2) by (metis imageE)
  then obtain st2 where fr: "free_page f st1 = (Inr (), st2)" "wf_store st2" "page_count st2 = page_count st1"
      "page_size st2 = page_size st1" "free_list st2 (f # ps)"
    and same: "\<And>q. q < page_count st1 \<Longrightarrow> q \<noteq> f \<Longrightarrow> read_page q st2 = read_page q st1"
    by (rule free_page_ok [OF wf(1) _ _ wf(2) pf(1)]) (use pf(2) w(3) in \<open>auto intro: that\<close>)
  have "leaf_pages tx m st2 (f # ps) (ls1 @ c # ls2)"
  proof (rule leaf_pages_frame [OF w(2) fr(2,5)])
    fix l assume l: "l \<in> set (ls1 @ c # ls2)"
    then have "nd_page l \<noteq> f" using new(2) by (metis imageI)
    then show "nd_page l \<notin> set (f # ps)" "read_node (nd_page l) st2 = read_node (nd_page l) st1"
      using w(2) l same leaf_pages_bound [OF w(2) l] by (auto simp: leaf_pages_def read_node_def)
  qed
  moreover have "chained (ls1 @ c # ls2)" by (rule chained_join [OF d(5) _ nx]) (use pages in blast)
  moreover have "sorted_wrt item_before (items (seps1 @ seps2) (ls1 @ c # ls2))"
    using items_joined [OF lay len] by (simp add: items_middle [OF len] keys)
  ultimately have "leaf_layer tx m st2 (f # ps) (seps1 @ seps2) (ls1 @ c # ls2)"
    using d(9) len by (simp add: leaf_layer_def)
  moreover have "page_count st2 = page_count st" "capacity st2 = capacity st"
    using w(3,4) fr(3,4) by (simp_all add: capacity_def)
  ultimately show ?thesis by (rule that [OF w(1) fr(1)])
qed

section \<open>Writing the parent\<close>

text \<open>
  The parent is the root. It is written with its new children, and given up when it has one
  child left.
\<close>

definition write_parent :: "node \<Rightarrow> unit btx" where
  "write_parent parent = sbind (in_tree (write_node parent)) (\<lambda>_. maybe_shrink_root parent)"

lemma write_parent_refines:
  assumes lay: "leaf_layer tx m (bt_store t) ps seps ls" and mk: "bt_min t = min_keys (bt_order t)"
    and r: "bt_root t \<notin> set ps" "bt_root t \<notin> set (map nd_page ls)" "bt_root t < page_count (bt_store t)" "0 < bt_root t"
    and sizes: "\<forall>l \<in> set ls. min_keys (bt_order t) \<le> length (nd_keys l) \<and> length (nd_keys l) \<le> bt_order t"
    and room: "index_room m t (length (concat (map entries ls)))"
  obtains t' ps' where "write_parent (inner_node (bt_root t) seps (map nd_page ls)) t = (Inr (), t')"
    and "index_map tx m ps' t' (concat (map entries ls))" and "bt_order t' = bt_order t"
    and "capacity (bt_store t') = capacity (bt_store t)" and "page_count (bt_store t') = page_count (bt_store t)"
proof -
  let ?r = "bt_root t" and ?p = "inner_node (bt_root t) seps (map nd_page ls)"
  note rm = index_roomD [OF room]
  have ne: "ls \<noteq> []" using leaf_layerD(3) [OF lay] by auto
  show ?thesis
  proof (cases "seps = []")
    case False
    obtain st' where w: "write_node ?p (bt_store t) = (Inr (), st')"
        "page_count st' = page_count (bt_store t)" "capacity st' = capacity (bt_store t)"
      and im: "\<And>t'. bt_store t' = st' \<Longrightarrow> bt_root t' = ?r \<Longrightarrow> bt_order t' = bt_order t \<Longrightarrow>
        bt_min t' = min_keys (bt_order t) \<Longrightarrow> index_map tx m ps t' (concat (map entries ls)) \<and> split_root t' = (Inr (), t')"
      by (rule install_root [OF lay False r sizes rm(3)]) (rule that; assumption)
    have "write_parent ?p t = (Inr (), t\<lparr>bt_store := st'\<rparr>)"
      using w(1) False ne by (cases ls) (simp_all add: write_parent_def in_tree_def maybe_shrink_root_def inner_node_def)
    then show ?thesis using im [of "t\<lparr>bt_store := st'\<rparr>"] mk w(2,3) by (intro that [of "t\<lparr>bt_store := st'\<rparr>" ps]) simp_all
  next
    case True
    then obtain l where ls: "ls = [l]" using leaf_layerD(3) [OF lay] by (cases ls) auto
    have "length seps \<le> length (concat (map entries ls)) div min_keys (bt_order t)" using True by simp
    then obtain st1 where w: "write_node ?p (bt_store t) = (Inr (), st1)" "leaf_layer tx m st1 ps seps ls"
        "page_count st1 = page_count (bt_store t)" "capacity st1 = capacity (bt_store t)"
      by (rule root_write [OF lay r(1-3) _ rm(3)]) (rule that; assumption)
    note d = leaf_layerD [OF w(2)]
    have rb: "?r < page_count st1" using r(3) w(3) by simp
    obtain st2 where fr: "free_page ?r st1 = (Inr (), st2)" "wf_store st2" "page_count st2 = page_count st1"
        "page_size st2 = page_size st1" "free_list st2 (?r # ps)"
      and same: "\<And>q. q < page_count st1 \<Longrightarrow> q \<noteq> ?r \<Longrightarrow> read_page q st2 = read_page q st1"
      by (rule free_page_ok [OF d(1) r(4) rb d(2) r(1)]) (rule that; assumption)
    have l: "nd_page l < page_count st1" "nd_page l \<noteq> ?r" "nd_page l \<notin> set ps"
      using read_node_bound [OF d(1) d(7)] r(2) d(8) ls by auto
    have lay2: "leaf_layer tx m st2 (?r # ps) [] [l]"
      using leaf_layer_frame [OF w(2) fr(2,5)] same [OF l(1,2)] l(2,3) True ls by (simp add: read_node_def)
    let ?t = "t\<lparr>bt_store := st2, bt_pages := bt_pages t - {?r}, bt_root := nd_page l\<rparr>"
    have "write_parent ?p t = (Inr (), ?t)"
      using w(1) fr(1) True ls
      by (simp add: write_parent_def in_tree_def maybe_shrink_root_def inner_node_def drop_page_def)
    moreover have "index_map tx m (?r # ps) ?t (concat (map entries ls))"
      unfolding index_map_def
      by (intro conjI exI [of _ "[]"] exI [of _ "[l]"]) (use lay2 sizes mk ls in \<open>simp_all add: root_ok_def\<close>)
    ultimately show ?thesis using w(3,4) fr(3,4) by (intro that [of ?t "?r # ps"]) (simp_all add: capacity_def)
  qed
qed

section \<open>Rebalancing\<close>

text \<open>
  What both siblings of a small leaf have in common: a root over the layer with two neighbours
  \<open>a\<close> and \<open>b\<close>, of which the entries are shifted, or joined.
\<close>

definition over_layer :: "bool \<Rightarrow> nat \<Rightarrow> nat list \<Rightarrow> btree \<Rightarrow> pyval list \<Rightarrow> node list \<Rightarrow> bool" where
  "over_layer tx m ps t seps ls \<longleftrightarrow>
     leaf_layer tx m (bt_store t) ps seps ls \<and> bt_min t = min_keys (bt_order t)
     \<and> 0 < bt_root t \<and> bt_root t < page_count (bt_store t) \<and> bt_root t \<notin> set ps \<and> bt_root t \<notin> set (map nd_page ls)
     \<and> index_room m t (length (concat (map entries ls)))"

definition sized :: "nat \<Rightarrow> node \<Rightarrow> bool" where
  "sized order l \<longleftrightarrow> min_keys order \<le> length (nd_keys l) \<and> length (nd_keys l) \<le> order"

lemma shift_refines:
  assumes o: "over_layer tx m ps t (seps1 @ s # seps2) (ls1 @ a # b # ls2)"
    and len: "length seps1 = length ls1" "length seps2 = length ls2"
    and keys: "nd_keys a' @ nd_keys b' = nd_keys a @ nd_keys b" "nd_keys b' = s' # ks"
    and vals: "entries a' @ entries b' = entries a @ entries b"
    and ok: "leaf_ok tx m a'" "leaf_ok tx m b'"
    and same: "nd_page a' = nd_page a" "nd_next a' = nd_next a" "nd_page b' = nd_page b" "nd_next b' = nd_next b"
    and sizes: "\<forall>l \<in> set (ls1 @ a' # b' # ls2). sized (bt_order t) l"
  obtains t' where "write_nodes [a', b', inner_node (bt_root t) (seps1 @ s' # seps2) (map nd_page (ls1 @ a # b # ls2))] t = (Inr (), t')"
    and "index_map tx m ps t' (concat (map entries (ls1 @ a # b # ls2)))" and "bt_order t' = bt_order t"
    and "capacity (bt_store t') = capacity (bt_store t)" and "page_count (bt_store t') = page_count (bt_store t)"
proof -
  let ?r = "bt_root t" and ?ls = "ls1 @ a' # b' # ls2"
  have lay: "leaf_layer tx m (bt_store t) ps (seps1 @ s # seps2) (ls1 @ a # b # ls2)"
    and mk: "bt_min t = min_keys (bt_order t)"
    and r: "?r \<notin> set ps" "?r \<notin> set (map nd_page ?ls)" "?r < page_count (bt_store t)" "0 < ?r"
    and room: "index_room m t (length (concat (map entries (ls1 @ a # b # ls2))))"
    using o same by (simp_all add: over_layer_def)
  note rm = index_roomD [OF room]
  have n: "length (nd_keys a') \<le> bt_order t + 1" "length (nd_keys b') \<le> bt_order t + 1"
    using sizes by (simp_all add: sized_def)
  obtain st1 st2 where w: "write_node a' (bt_store t) = (Inr (), st1)" "write_node b' st1 = (Inr (), st2)"
    "leaf_layer tx m st2 ps (seps1 @ s' # seps2) ?ls" "page_count st2 = page_count (bt_store t)" "capacity st2 = capacity (bt_store t)"
    by (rule layer_shift [OF lay len keys ok same n rm(2)]) (rule that; assumption)
  have kvs: "concat (map entries ?ls) = concat (map entries (ls1 @ a # b # ls2))" using vals by simp
  have room2: "inner_room m (length (concat (map entries ?ls)) div min_keys (bt_order t)) st2"
    using rm(3) w(5) room_cong(2) unfolding kvs by metis
  have r2: "?r \<notin> set ps" "?r \<notin> set (map nd_page ?ls)" "?r < page_count st2" "0 < ?r" using r w(4) by simp_all
  have sz: "\<forall>l \<in> set ?ls. min_keys (bt_order t) \<le> length (nd_keys l) \<and> length (nd_keys l) \<le> bt_order t"
    using sizes by (simp add: sized_def)
  have ne: "seps1 @ s' # seps2 \<noteq> []" by simp
  obtain st3 where w3: "write_node (inner_node ?r (seps1 @ s' # seps2) (map nd_page ?ls)) st2 = (Inr (), st3)"
      "page_count st3 = page_count st2" "capacity st3 = capacity st2"
    and im: "\<And>t'. bt_store t' = st3 \<Longrightarrow> bt_root t' = ?r \<Longrightarrow> bt_order t' = bt_order t \<Longrightarrow>
      bt_min t' = min_keys (bt_order t) \<Longrightarrow> index_map tx m ps t' (concat (map entries ?ls)) \<and> split_root t' = (Inr (), t')"
    by (rule install_root [OF w(3) ne r2 sz room2]) (rule that; assumption)
  have pg: "map nd_page ?ls = map nd_page (ls1 @ a # b # ls2)" using same by simp
  have "write_nodes [a', b', inner_node ?r (seps1 @ s' # seps2) (map nd_page (ls1 @ a # b # ls2))] t = (Inr (), t\<lparr>bt_store := st3\<rparr>)"
    using w(1,2) w3(1) unfolding pg [symmetric] by (simp add: write_nodes_def in_tree_def)
  moreover have "index_map tx m ps (t\<lparr>bt_store := st3\<rparr>) (concat (map entries (ls1 @ a # b # ls2)))"
    using im [of "t\<lparr>bt_store := st3\<rparr>"] mk unfolding kvs [symmetric] by simp
  ultimately show ?thesis using w(4,5) w3(2,3) by (intro that [of "t\<lparr>bt_store := st3\<rparr>"]) simp_all
qed

definition free_and_write :: "nat \<Rightarrow> node \<Rightarrow> unit btx" where
  "free_and_write f parent = sbind (in_tree (free_page f)) (\<lambda>_. sbind (drop_page f) (\<lambda>_. write_parent parent))"

lemma join_refines:
  assumes o: "over_layer tx m ps t (seps1 @ s # seps2) (ls1 @ a # b # ls2)"
    and len: "length seps1 = length ls1" "length seps2 = length ls2"
    and keys: "nd_keys c = nd_keys a @ nd_keys b" and vals: "entries c = entries a @ entries b"
    and ok: "leaf_ok tx m c" and nx: "nd_next c = nd_next b"
    and pages: "nd_page c = nd_page a \<and> f = nd_page b \<or> ls1 = [] \<and> nd_page c = nd_page b \<and> f = nd_page a"
    and sizes: "\<forall>l \<in> set (ls1 @ c # ls2). sized (bt_order t) l"
  obtains t' ps' where "sbind (in_tree (write_node c)) (\<lambda>_. free_and_write f
        (inner_node (bt_root t) (seps1 @ seps2) (map nd_page (ls1 @ c # ls2)))) t = (Inr (), t')"
    and "index_map tx m ps' t' (concat (map entries (ls1 @ a # b # ls2)))" and "bt_order t' = bt_order t"
    and "capacity (bt_store t') = capacity (bt_store t)" and "page_count (bt_store t') = page_count (bt_store t)"
proof -
  let ?r = "bt_root t" and ?ls = "ls1 @ c # ls2"
  have lay: "leaf_layer tx m (bt_store t) ps (seps1 @ s # seps2) (ls1 @ a # b # ls2)"
    and mk: "bt_min t = min_keys (bt_order t)"
    and r: "?r \<notin> set ps" "?r \<notin> set (map nd_page (ls1 @ a # b # ls2))" "?r < page_count (bt_store t)" "0 < ?r"
    and room: "index_room m t (length (concat (map entries (ls1 @ a # b # ls2))))"
    using o by (simp_all add: over_layer_def)
  note rm = index_roomD [OF room]
  have n: "length (nd_keys c) \<le> bt_order t + 1" using sizes by (simp add: sized_def)
  obtain st1 st2 where w: "write_node c (bt_store t) = (Inr (), st1)" "free_page f st1 = (Inr (), st2)"
    "leaf_layer tx m st2 (f # ps) (seps1 @ seps2) ?ls" "page_count st2 = page_count (bt_store t)" "capacity st2 = capacity (bt_store t)"
    by (rule layer_merge [OF lay len keys ok nx pages n rm(2)]) (rule that; assumption)
  let ?t = "t\<lparr>bt_store := st2, bt_pages := bt_pages t - {f}\<rparr>"
  have kvs: "concat (map entries ?ls) = concat (map entries (ls1 @ a # b # ls2))" using vals by simp
  have r2: "bt_root ?t \<notin> set (f # ps)" "bt_root ?t \<notin> set (map nd_page ?ls)" "bt_root ?t < page_count (bt_store ?t)" "0 < bt_root ?t"
    using r pages w(4) by auto
  have lay2: "leaf_layer tx m (bt_store ?t) (f # ps) (seps1 @ seps2) ?ls" and mk2: "bt_min ?t = min_keys (bt_order ?t)"
    and sz: "\<forall>l \<in> set ?ls. min_keys (bt_order ?t) \<le> length (nd_keys l) \<and> length (nd_keys l) \<le> bt_order ?t"
    and room2: "index_room m ?t (length (concat (map entries ?ls)))"
    using w(3-5) mk sizes room unfolding kvs by (simp_all add: sized_def index_room_def)
  obtain t' ps' where p: "write_parent (inner_node (bt_root ?t) (seps1 @ seps2) (map nd_page ?ls)) ?t = (Inr (), t')"
    "index_map tx m ps' t' (concat (map entries ?ls))" "bt_order t' = bt_order ?t"
    "capacity (bt_store t') = capacity (bt_store ?t)" "page_count (bt_store t') = page_count (bt_store ?t)"
    by (rule write_parent_refines [OF lay2 mk2 r2 sz room2]) (rule that; assumption)
  have "sbind (in_tree (write_node c)) (\<lambda>_. free_and_write f (inner_node ?r (seps1 @ seps2) (map nd_page ?ls))) t = (Inr (), t')"
    using w(1,2) p(1) by (simp add: free_and_write_def in_tree_def drop_page_def)
  then show ?thesis using p(2-5) w(4,5) unfolding kvs by (intro that [of t' ps']) simp_all
qed

lemma remove_child_eq:
  assumes "py_pop i ks = Inr (k, ks')" and "py_pop j cs = Inr (c, cs')"
  shows "remove_child (inner_node r ks cs) i j f = free_and_write f (inner_node r ks' cs')"
  using assms by (simp add: remove_child_def free_and_write_def write_parent_def inner_node_def Let_def)

lemma py_pop_middle: "i = length xs \<Longrightarrow> py_pop i (xs @ x # ys) = Inr (x, xs @ ys)"
  by (simp add: py_pop_def)

lemma small_merge_sized:
  assumes "sized order a" and "length (nd_keys a) \<le> min_keys order" and "length (nd_keys b) + 1 = min_keys order"
    and "0 < order" and "length (nd_keys c) = length (nd_keys a) + length (nd_keys b)"
  shows "sized order c"
  using assms by (auto simp: sized_def min_keys_def max_def split: if_splits)

text \<open>What the code does to two leaves.\<close>

lemma redistribute_left_leaf:
  assumes "nd_leaf b" and "nd_keys a = lks @ [k]" and "nd_values a = lvs @ [v]" and "n = length seps1"
  shows "redistribute_left (inner_node r (seps1 @ s # seps2) cs) (Suc n) a b
    = write_nodes [a\<lparr>nd_keys := lks, nd_values := lvs\<rparr>, b\<lparr>nd_keys := k # nd_keys b, nd_values := v # nd_values b\<rparr>,
        inner_node r (seps1 @ k # seps2) cs]"
  using assms by (simp add: redistribute_left_def py_pop_last_def py_set_def inner_node_def)

lemma redistribute_right_leaf:
  assumes "nd_leaf a" and "nd_keys b = k # rk # rks" and "nd_values b = v # rvs"
  shows "redistribute_right (inner_node r (s # seps2) cs) 0 a b
    = write_nodes [a\<lparr>nd_keys := nd_keys a @ [k], nd_values := nd_values a @ [v]\<rparr>, b\<lparr>nd_keys := rk # rks, nd_values := rvs\<rparr>,
        inner_node r (rk # seps2) cs]"
  using assms by (simp add: redistribute_right_def py_pop_def py_get_def py_set_def inner_node_def)

lemma merge_into_left_leaf:
  assumes "nd_leaf b" and "n = length seps1" and "n = length cs1"
  shows "merge_into_left (inner_node r (seps1 @ s # seps2) (cs1 @ c # d # cs2)) (Suc n) a b
    = sbind (in_tree (write_node (a\<lparr>nd_keys := nd_keys a @ nd_keys b, nd_values := nd_values a @ nd_values b, nd_next := nd_next b\<rparr>)))
        (\<lambda>_. free_and_write (nd_page b) (inner_node r (seps1 @ seps2) (cs1 @ c # cs2)))"
proof -
  have "py_pop n (seps1 @ s # seps2) = Inr (s, seps1 @ seps2)" by (rule py_pop_middle [OF assms(2)])
  moreover have "py_pop (Suc n) (cs1 @ c # d # cs2) = Inr (d, cs1 @ c # cs2)"
    using py_pop_middle [of "Suc n" "cs1 @ [c]" d cs2] assms(3) by simp
  ultimately show ?thesis using remove_child_eq assms(1) by (simp add: merge_into_left_def)
qed

lemma merge_into_right_leaf:
  assumes "nd_leaf a"
  shows "merge_into_right (inner_node r (s # seps2) (c # cs)) 0 a b
    = sbind (in_tree (write_node (b\<lparr>nd_keys := nd_keys a @ nd_keys b, nd_values := nd_values a @ nd_values b\<rparr>)))
        (\<lambda>_. free_and_write (nd_page a) (inner_node r seps2 cs))"
proof -
  have "py_pop 0 (s # seps2) = Inr (s, seps2)" "py_pop 0 (c # cs) = Inr (c, cs)" by (simp_all add: py_pop_def)
  then show ?thesis using remove_child_eq assms by (simp add: merge_into_right_def)
qed

text \<open>A leaf that is too small takes an entry from a sibling that has one to spare, and is joined with one that has none.\<close>

lemma rotate_left:
  assumes o: "over_layer tx m ps t (seps1 @ s # seps2) (ls1 @ a # b # ls2)"
    and len: "length seps1 = length ls1" "length seps2 = length ls2"
    and small: "length (nd_keys b) + 1 = min_keys (bt_order t)" and others: "\<forall>x \<in> set (ls1 @ a # ls2). sized (bt_order t) x"
    and big: "bt_min t < length (nd_keys a)"
  obtains t' ps' where "redistribute_left (inner_node (bt_root t) (seps1 @ s # seps2) (map nd_page (ls1 @ a # b # ls2))) (Suc (length ls1)) a b t = (Inr (), t')"
    and "index_map tx m ps' t' (concat (map entries (ls1 @ a # b # ls2)))" and "bt_order t' = bt_order t"
    and "capacity (bt_store t') = capacity (bt_store t)" and "page_count (bt_store t') = page_count (bt_store t)"
proof -
  let ?r = "bt_root t" and ?ls = "ls1 @ a # b # ls2"
  have ab: "leaf_ok tx m a" "leaf_ok tx m b"
    using o leaf_layerD(6) [of tx m "bt_store t" ps "seps1 @ s # seps2" ?ls] by (simp_all add: over_layer_def)
  have mk: "bt_min t = min_keys (bt_order t)" and room: "index_room m t (length (concat (map entries ?ls)))"
    using o by (simp_all add: over_layer_def)
  note la = leaf_okD [OF ab(1)] and lb = leaf_okD [OF ab(2)]
  have sa: "sized (bt_order t) a" using others by simp
  have ne: "nd_keys a \<noteq> []" "nd_values a \<noteq> []" using la(3) big by auto
  obtain lks k where ks: "nd_keys a = lks @ [k]" using ne(1) by (metis rev_exhaust)
  obtain lvs v where vs: "nd_values a = lvs @ [v]" using ne(2) by (metis rev_exhaust)
  let ?a = "a\<lparr>nd_keys := lks, nd_values := lvs\<rparr>" and ?b = "b\<lparr>nd_keys := k # nd_keys b, nd_values := v # nd_values b\<rparr>"
  have l: "length lvs = length lks" using la(3) ks vs by simp
  have keys: "nd_keys ?a @ nd_keys ?b = nd_keys a @ nd_keys b" "nd_keys ?b = k # nd_keys b" and vals: "entries ?a @ entries ?b = entries a @ entries b"
    using ks vs l by simp_all
  have ok: "leaf_ok tx m ?a" "leaf_ok tx m ?b" using ab(1,2) ks vs l by (auto simp: leaf_ok_def node_ok_def)
  have same: "nd_page ?a = nd_page a" "nd_next ?a = nd_next a" "nd_page ?b = nd_page b" "nd_next ?b = nd_next b" by simp_all
  have "sized (bt_order t) ?a" "sized (bt_order t) ?b"
    using sa big mk small ks by (auto simp: sized_def)
  then have sizes: "\<forall>l \<in> set (ls1 @ ?a # ?b # ls2). sized (bt_order t) l" using others by simp
  have step: "redistribute_left (inner_node (bt_root t) (seps1 @ s # seps2) (map nd_page (ls1 @ a # b # ls2))) (Suc (length ls1)) a b t
      = write_nodes [?a, ?b, inner_node ?r (seps1 @ k # seps2) (map nd_page ?ls)] t"
    unfolding redistribute_left_leaf [OF lb(1) ks vs len(1) [symmetric]] by (rule refl)
  show ?thesis
    by (rule shift_refines [OF o len keys vals ok same sizes]) (rule that [unfolded step]; assumption)
qed

lemma join_left:
  assumes o: "over_layer tx m ps t (seps1 @ s # seps2) (ls1 @ a # b # ls2)"
    and len: "length seps1 = length ls1" "length seps2 = length ls2"
    and small: "length (nd_keys b) + 1 = min_keys (bt_order t)" and others: "\<forall>x \<in> set (ls1 @ a # ls2). sized (bt_order t) x"
    and big: "\<not> bt_min t < length (nd_keys a)"
  obtains t' ps' where "merge_into_left (inner_node (bt_root t) (seps1 @ s # seps2) (map nd_page (ls1 @ a # b # ls2))) (Suc (length ls1)) a b t = (Inr (), t')"
    and "index_map tx m ps' t' (concat (map entries (ls1 @ a # b # ls2)))" and "bt_order t' = bt_order t"
    and "capacity (bt_store t') = capacity (bt_store t)" and "page_count (bt_store t') = page_count (bt_store t)"
proof -
  let ?r = "bt_root t" and ?ls = "ls1 @ a # b # ls2"
  have ab: "leaf_ok tx m a" "leaf_ok tx m b"
    using o leaf_layerD(6) [of tx m "bt_store t" ps "seps1 @ s # seps2" ?ls] by (simp_all add: over_layer_def)
  have mk: "bt_min t = min_keys (bt_order t)" and room: "index_room m t (length (concat (map entries ?ls)))"
    using o by (simp_all add: over_layer_def)
  note la = leaf_okD [OF ab(1)] and lb = leaf_okD [OF ab(2)]
  have sa: "sized (bt_order t) a" using others by simp
  let ?c = "a\<lparr>nd_keys := nd_keys a @ nd_keys b, nd_values := nd_values a @ nd_values b, nd_next := nd_next b\<rparr>"
  have keys: "nd_keys ?c = nd_keys a @ nd_keys b" and vals: "entries ?c = entries a @ entries b" and nx: "nd_next ?c = nd_next b"
    and pages: "nd_page ?c = nd_page a \<and> nd_page b = nd_page b \<or> ls1 = [] \<and> nd_page ?c = nd_page b \<and> nd_page b = nd_page a"
    using la(3) by simp_all
  have ok: "leaf_ok tx m ?c" using ab(1,2) by (auto simp: leaf_ok_def node_ok_def)
  have "sized (bt_order t) ?c"
    by (rule small_merge_sized [OF sa _ small]) (use big mk index_roomD(1) [OF room] in simp_all)
  then have sizes: "\<forall>l \<in> set (ls1 @ ?c # ls2). sized (bt_order t) l" using others by simp
  have pl: "length ls1 = length (map nd_page ls1)" and pg: "map nd_page ?ls = map nd_page ls1 @ nd_page a # nd_page b # map nd_page ls2"
    "map nd_page (ls1 @ ?c # ls2) = map nd_page ls1 @ nd_page a # map nd_page ls2" by simp_all
  have step: "merge_into_left (inner_node (bt_root t) (seps1 @ s # seps2) (map nd_page (ls1 @ a # b # ls2))) (Suc (length ls1)) a b t
      = sbind (in_tree (write_node ?c)) (\<lambda>_. free_and_write (nd_page b)
      (inner_node ?r (seps1 @ seps2) (map nd_page (ls1 @ ?c # ls2)))) t"
    unfolding pg merge_into_left_leaf [OF lb(1) len(1) [symmetric] pl] by (rule refl)
  show ?thesis
    by (rule join_refines [OF o len keys vals ok nx pages sizes]) (rule that [unfolded step]; assumption)
qed

lemma rotate_right:
  assumes o: "over_layer tx m ps t (s # seps2) (a # b # ls2)" and len: "length seps2 = length ls2"
    and small: "length (nd_keys a) + 1 = min_keys (bt_order t)" and others: "\<forall>x \<in> set (b # ls2). sized (bt_order t) x"
    and big: "bt_min t < length (nd_keys b)"
  obtains t' ps' where "redistribute_right (inner_node (bt_root t) (s # seps2) (map nd_page (a # b # ls2))) 0 a b t = (Inr (), t')"
    and "index_map tx m ps' t' (concat (map entries (a # b # ls2)))" and "bt_order t' = bt_order t"
    and "capacity (bt_store t') = capacity (bt_store t)" and "page_count (bt_store t') = page_count (bt_store t)"
proof -
  let ?r = "bt_root t" and ?ls = "a # b # ls2"
  have ab: "leaf_ok tx m a" "leaf_ok tx m b"
    using o leaf_layerD(6) [of tx m "bt_store t" ps "s # seps2" ?ls] by (simp_all add: over_layer_def)
  have mk: "bt_min t = min_keys (bt_order t)" and room: "index_room m t (length (concat (map entries ?ls)))"
    using o by (simp_all add: over_layer_def)
  have o': "over_layer tx m ps t ([] @ s # seps2) ([] @ a # b # ls2)" and len': "length [] = length []" using o by simp_all
  note la = leaf_okD [OF ab(1)] and lb = leaf_okD [OF ab(2)]
  have sb: "sized (bt_order t) b" using others by simp
  have "1 \<le> bt_min t" by (simp add: mk min_keys_def)
  with big have "\<exists>k rk rks. nd_keys b = k # rk # rks"
    by (cases "nd_keys b"; cases "tl (nd_keys b)") auto
  then obtain k rk rks where ks: "nd_keys b = k # rk # rks" by blast
  then obtain v rvs where vs: "nd_values b = v # rvs" "length rvs = Suc (length rks)" using lb(3) by (cases "nd_values b") auto
  let ?a = "a\<lparr>nd_keys := nd_keys a @ [k], nd_values := nd_values a @ [v]\<rparr>" and ?b = "b\<lparr>nd_keys := rk # rks, nd_values := rvs\<rparr>"
  have keys: "nd_keys ?a @ nd_keys ?b = nd_keys a @ nd_keys b" "nd_keys ?b = rk # rks" and vals: "entries ?a @ entries ?b = entries a @ entries b"
    using ks vs la(3) by simp_all
  have ok: "leaf_ok tx m ?a" "leaf_ok tx m ?b" using ab(1,2) ks vs by (auto simp: leaf_ok_def node_ok_def)
  have same: "nd_page ?a = nd_page a" "nd_next ?a = nd_next a" "nd_page ?b = nd_page b" "nd_next ?b = nd_next b" by simp_all
  have "sized (bt_order t) ?a" "sized (bt_order t) ?b"
    using sb big mk small ks by (auto simp: sized_def)
  then have sizes: "\<forall>l \<in> set ([] @ ?a # ?b # ls2). sized (bt_order t) l" using others by simp
  have step: "redistribute_right (inner_node (bt_root t) (s # seps2) (map nd_page (a # b # ls2))) 0 a b t
      = write_nodes [?a, ?b, inner_node ?r ([] @ rk # seps2) (map nd_page ([] @ a # b # ls2))] t"
    unfolding redistribute_right_leaf [OF la(1) ks vs(1)] by simp
  show ?thesis
    by (rule shift_refines [OF o' len' len keys vals ok same sizes, unfolded append_Nil]) (rule that [unfolded step append_Nil]; assumption)
qed

lemma join_right:
  assumes o: "over_layer tx m ps t (s # seps2) (a # b # ls2)" and len: "length seps2 = length ls2"
    and small: "length (nd_keys a) + 1 = min_keys (bt_order t)" and others: "\<forall>x \<in> set (b # ls2). sized (bt_order t) x"
    and big: "\<not> bt_min t < length (nd_keys b)"
  obtains t' ps' where "merge_into_right (inner_node (bt_root t) (s # seps2) (map nd_page (a # b # ls2))) 0 a b t = (Inr (), t')"
    and "index_map tx m ps' t' (concat (map entries (a # b # ls2)))" and "bt_order t' = bt_order t"
    and "capacity (bt_store t') = capacity (bt_store t)" and "page_count (bt_store t') = page_count (bt_store t)"
proof -
  let ?r = "bt_root t" and ?ls = "a # b # ls2"
  have ab: "leaf_ok tx m a" "leaf_ok tx m b"
    using o leaf_layerD(6) [of tx m "bt_store t" ps "s # seps2" ?ls] by (simp_all add: over_layer_def)
  have mk: "bt_min t = min_keys (bt_order t)" and room: "index_room m t (length (concat (map entries ?ls)))"
    using o by (simp_all add: over_layer_def)
  have o': "over_layer tx m ps t ([] @ s # seps2) ([] @ a # b # ls2)" and len': "length [] = length []" using o by simp_all
  note la = leaf_okD [OF ab(1)] and lb = leaf_okD [OF ab(2)]
  have sb: "sized (bt_order t) b" using others by simp
  let ?c = "b\<lparr>nd_keys := nd_keys a @ nd_keys b, nd_values := nd_values a @ nd_values b\<rparr>"
  have keys: "nd_keys ?c = nd_keys a @ nd_keys b" and vals: "entries ?c = entries a @ entries b" and nx: "nd_next ?c = nd_next b"
    and pages: "nd_page ?c = nd_page a \<and> nd_page a = nd_page b \<or> [] = ([] :: node list) \<and> nd_page ?c = nd_page b \<and> nd_page a = nd_page a"
    using la(3) by simp_all
  have ok: "leaf_ok tx m ?c" using ab(1,2) by (auto simp: leaf_ok_def node_ok_def)
  have "sized (bt_order t) ?c"
    by (rule small_merge_sized [OF sb _ small]) (use big mk index_roomD(1) [OF room] in simp_all)
  then have sizes: "\<forall>l \<in> set ([] @ ?c # ls2). sized (bt_order t) l" using others by simp
  have step: "merge_into_right (inner_node (bt_root t) (s # seps2) (map nd_page (a # b # ls2))) 0 a b t
      = sbind (in_tree (write_node ?c)) (\<lambda>_. free_and_write (nd_page a)
      (inner_node ?r ([] @ seps2) (map nd_page ([] @ ?c # ls2)))) t"
    unfolding list.map merge_into_right_leaf [OF la(1)] by simp
  show ?thesis
    by (rule join_refines [OF o' len' len keys vals ok nx pages sizes, unfolded append_Nil]) (rule that [unfolded step append_Nil]; assumption)
qed

text \<open>The small leaf has a left sibling.\<close>

lemma rebalance_left:
  assumes o: "over_layer tx m ps t (seps1 @ s # seps2) (ls1 @ a # b # ls2)"
    and len: "length seps1 = length ls1" "length seps2 = length ls2"
    and small: "length (nd_keys b) + 1 = min_keys (bt_order t)" and others: "\<forall>x \<in> set (ls1 @ a # ls2). sized (bt_order t) x"
    and path: "path = [(inner_node (bt_root t) (seps1 @ s # seps2) (map nd_page (ls1 @ a # b # ls2)), length (ls1 @ [a]))]"
  obtains t' ps' where "rebalance path t = (Inr (), t')"
    and "index_map tx m ps' t' (concat (map entries (ls1 @ a # b # ls2)))" and "bt_order t' = bt_order t"
    and "capacity (bt_store t') = capacity (bt_store t)" and "page_count (bt_store t') = page_count (bt_store t)"
proof -
  let ?r = "bt_root t" and ?ls = "ls1 @ a # b # ls2"
  define P where "P = inner_node ?r (seps1 @ s # seps2) (map nd_page ?ls)"
  have lay: "leaf_layer tx m (bt_store t) ps (seps1 @ s # seps2) ?ls" and mk: "bt_min t = min_keys (bt_order t)"
    using o by (simp_all add: over_layer_def)
  note d = leaf_layerD [OF lay]
  have ab: "leaf_ok tx m a" "leaf_ok tx m b" "read_node (nd_page a) (bt_store t) = Inr a" "read_node (nd_page b) (bt_store t) = Inr b"
    using d(6,7) by simp_all
  have ch: "nd_children P = map nd_page ?ls" by (simp add: P_def inner_node_def)
  have get: "py_get (nd_children P) (Suc (length ls1)) = Inr (nd_page b)" "nd_children P ! length ls1 = nd_page a"
    unfolding ch by (simp_all add: py_get_def nth_append)
  have re: "rebalance path t = (if bt_min t < length (nd_keys a) then redistribute_left P (Suc (length ls1)) a b
      else merge_into_left P (Suc (length ls1)) a b) t"
    unfolding path P_def [symmetric] using get ab(3,4) small mk by (simp add: in_tree_def)
  show ?thesis
  proof (cases "bt_min t < length (nd_keys a)")
    case True
    show ?thesis
      by (rule rotate_left [OF o len small others True]) (rule that [unfolded re P_def if_P [OF True]]; assumption)
  next
    case False
    show ?thesis
      by (rule join_left [OF o len small others False]) (rule that [unfolded re P_def if_not_P [OF False]]; assumption)
  qed
qed

text \<open>The small leaf is the first; its sibling is the right one.\<close>

lemma rebalance_right:
  assumes o: "over_layer tx m ps t (s # seps2) (a # b # ls2)" and len: "length seps2 = length ls2"
    and small: "length (nd_keys a) + 1 = min_keys (bt_order t)" and others: "\<forall>x \<in> set (b # ls2). sized (bt_order t) x"
    and path: "path = [(inner_node (bt_root t) (s # seps2) (map nd_page (a # b # ls2)), 0)]"
  obtains t' ps' where "rebalance path t = (Inr (), t')"
    and "index_map tx m ps' t' (concat (map entries (a # b # ls2)))" and "bt_order t' = bt_order t"
    and "capacity (bt_store t') = capacity (bt_store t)" and "page_count (bt_store t') = page_count (bt_store t)"
proof -
  let ?r = "bt_root t" and ?ls = "a # b # ls2"
  define P where "P = inner_node ?r (s # seps2) (map nd_page ?ls)"
  have lay: "leaf_layer tx m (bt_store t) ps (s # seps2) ?ls" and mk: "bt_min t = min_keys (bt_order t)"
    using o by (simp_all add: over_layer_def)
  note d = leaf_layerD [OF lay]
  have ab: "leaf_ok tx m a" "leaf_ok tx m b" "read_node (nd_page a) (bt_store t) = Inr a" "read_node (nd_page b) (bt_store t) = Inr b"
    using d(6,7) by simp_all
  have ch: "nd_children P = map nd_page ?ls" by (simp add: P_def inner_node_def)
  have re: "rebalance path t = (if bt_min t < length (nd_keys b) then redistribute_right P 0 a b
      else merge_into_right P 0 a b) t"
    unfolding path P_def [symmetric] using ch ab(3,4) small mk by (simp add: in_tree_def py_get_def)
  show ?thesis
  proof (cases "bt_min t < length (nd_keys b)")
    case True
    show ?thesis
      by (rule rotate_right [OF o len small others True]) (rule that [unfolded re P_def if_P [OF True]]; assumption)
  next
    case False
    show ?thesis
      by (rule join_right [OF o len small others False]) (rule that [unfolded re P_def if_not_P [OF False]]; assumption)
  qed
qed

lemma rebalance_refines:
  assumes lay: "leaf_layer tx m (bt_store t) ps seps (ls1 @ l # ls2)" and root: "root_ok t ps seps (ls1 @ l0 # ls2)"
    and page: "nd_page l = nd_page l0" and mk: "bt_min t = min_keys (bt_order t)" and ne: "seps \<noteq> []"
    and small: "length (nd_keys l) + 1 = min_keys (bt_order t)" and others: "\<forall>x \<in> set (ls1 @ ls2). length (nd_keys x) \<le> bt_order t"
    and room: "index_room m t (length (concat (map entries (ls1 @ l # ls2))))"
    and path: "path = [(inner_node (bt_root t) seps (map nd_page (ls1 @ l # ls2)), length ls1)]"
  obtains t' ps' where "rebalance path t = (Inr (), t')"
    and "index_map tx m ps' t' (concat (map entries (ls1 @ l # ls2)))" and "bt_order t' = bt_order t"
    and "capacity (bt_store t') = capacity (bt_store t)" and "page_count (bt_store t') = page_count (bt_store t)"
proof -
  note d = leaf_layerD [OF lay]
  have r: "0 < bt_root t" "bt_root t \<notin> set ps" "bt_root t \<notin> set (map nd_page (ls1 @ l # ls2))"
    "\<forall>x \<in> set (ls1 @ ls2). sized (bt_order t) x" and rd: "read_node (bt_root t) (bt_store t) = Inr (inner_node (bt_root t) seps (map nd_page (ls1 @ l # ls2)))"
    using root others page unfolding root_ok_def if_not_P [OF ne] by (auto simp: sized_def)
  have o: "over_layer tx m ps t seps (ls1 @ l # ls2)"
    using lay mk r room read_node_bound [OF d(1) rd] by (simp add: over_layer_def)
  show ?thesis
  proof (cases ls1 rule: rev_cases)
    case Nil
    then obtain s seps2 b ls2' where e: "seps = s # seps2" "ls2 = b # ls2'"
      using ne d(3) by (cases seps; cases ls2) auto
    have n: "length seps2 = length ls2'" using d(3) e Nil by simp
    have o': "over_layer tx m ps t (s # seps2) (l # b # ls2')" and oth: "\<forall>x \<in> set (b # ls2'). sized (bt_order t) x"
      using o r(4) e Nil by simp_all
    show ?thesis
      by (rule rebalance_right [OF o' n small oth, of path]) (use that path e Nil in simp_all)
  next
    case (snoc ls1' a)
    have "length (take (length ls1') seps) = length ls1'" "length (drop (length ls1') seps) = Suc (length ls2)"
      using d(3) snoc by simp_all
    then obtain seps1 s seps2 where e: "seps = seps1 @ s # seps2" "length seps1 = length ls1'" "length seps2 = length ls2"
      by (metis append_take_drop_id length_Suc_conv)
    have o': "over_layer tx m ps t (seps1 @ s # seps2) (ls1' @ a # l # ls2)"
      and oth: "\<forall>x \<in> set (ls1' @ a # ls2). sized (bt_order t) x" using o r(4) e snoc by simp_all
    show ?thesis
      by (rule rebalance_left [OF o' e(2,3) small oth, of path]) (use that path e snoc in simp_all)
  qed
qed

lemma rebalance_if_small_refines:
  assumes lay: "leaf_layer tx m (bt_store t) ps seps (ls1 @ l # ls2)" and root: "root_ok t ps seps (ls1 @ l0 # ls2)"
    and page: "nd_page l = nd_page l0" and cut: "length (nd_keys l) + 1 = length (nd_keys l0)"
    and mk: "bt_min t = min_keys (bt_order t)" and order: "\<forall>x \<in> set (ls1 @ l # ls2). length (nd_keys x) \<le> bt_order t"
    and room: "index_room m t (length (concat (map entries (ls1 @ l # ls2))))"
    and path: "path = (if seps = [] then [] else [(inner_node (bt_root t) seps (map nd_page (ls1 @ l # ls2)), length ls1)])"
  obtains t' ps' where "rebalance_if_small l path t = (Inr (), t')"
    and "index_map tx m ps' t' (concat (map entries (ls1 @ l # ls2)))" and "bt_order t' = bt_order t"
    and "capacity (bt_store t') = capacity (bt_store t)" and "page_count (bt_store t') = page_count (bt_store t)"
proof (cases "length (nd_keys l) < bt_min t \<and> nd_page l \<noteq> bt_root t")
  case True
  have "seps \<noteq> []"
  proof
    assume e: "seps = []"
    then have "ls1 = []" using leaf_layerD(3) [OF lay] by simp
    then show False using root True page e by (simp add: root_ok_def)
  qed
  moreover have "length (nd_keys l) + 1 = min_keys (bt_order t)"
    using True root cut mk unfolding root_ok_def if_not_P [OF \<open>seps \<noteq> []\<close>] by auto
  moreover have "rebalance_if_small l path t = rebalance path t" using True by (simp add: rebalance_if_small_def)
  ultimately show ?thesis
    using rebalance_refines [OF lay root page mk _ _ _ room, of path] order path that by auto
next
  case False
  then have run: "rebalance_if_small l path t = (Inr (), t)" by (auto simp: rebalance_if_small_def)
  have lg: "min_keys (bt_order t) \<le> length (nd_keys l)" if "seps \<noteq> []"
    using False root mk page unfolding root_ok_def if_not_P [OF that] by auto
  have "root_ok t ps seps (ls1 @ l # ls2)"
  proof (cases "seps = []")
    case True
    then have "ls1 = []" using leaf_layerD(3) [OF lay] by simp
    then show ?thesis using root True page by (simp add: root_ok_def)
  next
    case ne: False
    then show ?thesis using root page lg unfolding root_ok_def by auto
  qed
  then have "index_map tx m ps t (concat (map entries (ls1 @ l # ls2)))"
    unfolding index_map_def using lay order mk by blast
  then show ?thesis using run by (intro that [of t ps]) simp_all
qed

section \<open>The deletion\<close>

lemma delete_refines:
  assumes t: "index_map tx m ps t kvs" and key: "key_of tx key" and room: "index_room m t (length kvs)"
  obtains t' ps' where "bt_delete key t = (Inr (), t')" and "index_map tx m ps' t' (remove_entry key kvs)"
    and "bt_order t' = bt_order t" and "capacity (bt_store t') = capacity (bt_store t)"
    and "page_count (bt_store t') = page_count (bt_store t)"
proof -
  obtain seps ls where lay: "leaf_layer tx m (bt_store t) ps seps ls" and root: "root_ok t ps seps ls" and mk: "bt_min t = min_keys (bt_order t)"
    and order: "\<forall>l \<in> set ls. length (nd_keys l) \<le> bt_order t" and kvs: "kvs = concat (map entries ls)"
    using t by (auto simp: index_map_def)
  note rm = index_roomD [OF room]
  obtain seps1 seps2 ls1 l ls2 where f: "seps = seps1 @ seps2" "ls = ls1 @ l # ls2" and len: "length seps1 = length ls1"
    "length seps2 = length ls2" and sp: "\<forall>s \<in> set seps1. \<not> kless key s" "\<forall>s \<in> set seps2. kless key s"
    and p: "find_leaf_with_path t key = Inr (l, if seps = [] then [] else [(inner_node (bt_root t) seps (map nd_page ls), length ls1)])"
    by (rule find_in_layer [OF lay root key]) (rule that; assumption)
  note lay = lay [unfolded f] and root = root [unfolded f]
  let ?l = "cut_leaf key l"
  have l: "leaf_ok tx m l" using leaf_layerD(6) [OF lay, of l] by simp
  have so: "keys_sorted (entries l)" using layer_keys_sorted [OF lay] by (simp add: keys_sorted_def sorted_wrt_append)
  note del = delete_writes_cut_leaf [OF p l so key]
  have cut: "remove_entry key kvs = concat (map entries (ls1 @ ?l # ls2))"
    unfolding kvs f(2) by (rule remove_from_layer [OF lay len sp key])
  have "map fst (entries l) = nd_keys l" "map snd (entries l) = nd_values l" using leaf_okD(3) [OF l] by simp_all
  then have none: "remove_entry key kvs = kvs" if "key_position key (nd_keys l) = None"
    using that remove_entry_absent [of key "entries l"] unfolding cut by (simp add: kvs f(2) zip_map_fst_snd)
  show ?thesis
  proof (cases "key_position key (nd_keys l)")
    case None
    then show ?thesis using del(1) none t by (intro that [of t ps]) simp_all
  next
    case (Some i)
    have lk: "length (nd_keys ?l) + 1 = length (nd_keys l)" using cut_leaf_length [OF l so key Some] by simp
    have n: "length (nd_keys l) \<le> bt_order t + 1" using order f(2) by simp
    obtain st' where w: "write_node ?l (bt_store t) = (Inr (), st')" "leaf_layer tx m st' ps (seps1 @ seps2) (ls1 @ ?l # ls2)"
        "page_count st' = page_count (bt_store t)" "capacity st' = capacity (bt_store t)"
      and fr: "\<And>q. q \<noteq> nd_page l \<Longrightarrow> read_node q st' = read_node q (bt_store t)"
      by (rule write_cut_leaf [OF lay len sp key n rm(2)]) (rule that; assumption)
    let ?t = "t\<lparr>bt_store := st'\<rparr>"
    let ?path = "if seps = [] then [] else [(inner_node (bt_root t) seps (map nd_page ls), length ls1)]"
    have run: "bt_delete key t = rebalance_if_small ?l ?path ?t"
      using del(2) [OF Some] w(1) by (simp add: in_tree_def)
    have "min_keys (bt_order t) \<le> length (nd_keys l)" if "seps1 @ seps2 \<noteq> []"
      using root unfolding root_ok_def if_not_P [OF that] by auto
    then have root': "root_ok ?t ps (seps1 @ seps2) (ls1 @ l # ls2)"
      by (intro root_ok_rewrite [OF root lay refl _ fr])
    have mk': "bt_min ?t = min_keys (bt_order ?t)" and lay': "leaf_layer tx m (bt_store ?t) ps (seps1 @ seps2) (ls1 @ ?l # ls2)"
      and order': "\<forall>x \<in> set (ls1 @ ?l # ls2). length (nd_keys x) \<le> bt_order ?t"
      using mk w(2) order f lk by auto
    have room': "index_room m ?t (length (concat (map entries (ls1 @ ?l # ls2))))"
      using room tree_room_mono [OF _ remove_entry_length] w(3,4) unfolding cut [symmetric] by (simp add: index_room_def)
    have path: "?path = (if seps1 @ seps2 = [] then [] else [(inner_node (bt_root ?t) (seps1 @ seps2) (map nd_page (ls1 @ ?l # ls2)), length ls1)])"
      using f by simp
    obtain t' ps' where "rebalance_if_small ?l ?path ?t = (Inr (), t')" "index_map tx m ps' t' (remove_entry key kvs)"
      "bt_order t' = bt_order ?t" "capacity (bt_store t') = capacity (bt_store ?t)" "page_count (bt_store t') = page_count (bt_store ?t)"
      by (rule rebalance_if_small_refines [OF lay' root' cut_leaf_simps(1) lk mk' order' room' path, folded cut]) (rule that; assumption)
    then show ?thesis using run w(3,4) by (intro that [of t' ps']) simp_all
  qed
qed

section \<open>Any run of insertions and deletions\<close>

datatype index_op = Put pyval nat | Remove pyval

fun run_op :: "index_op \<Rightarrow> unit btx" where
  "run_op (Put k v) = bt_insert k v"
| "run_op (Remove k) = bt_delete k"

fun map_op :: "index_op \<Rightarrow> (pyval \<times> nat) list \<Rightarrow> (pyval \<times> nat) list" where
  "map_op (Put k v) = put_entry k v"
| "map_op (Remove k) = remove_entry k"

fun op_fits :: "bool \<Rightarrow> nat \<Rightarrow> index_op \<Rightarrow> bool" where
  "op_fits tx m (Put k v) = (key_of tx k \<and> key_fits m k \<and> v < 256 ^ 8)"
| "op_fits tx m (Remove k) = key_of tx k"

lemma map_op_length: "length (map_op p kvs) \<le> length kvs + 1"
  using put_entry_length(2) remove_entry_length by (cases p) (auto simp: le_Suc_eq)

lemma run_op_refines:
  assumes t: "index_map tx m ps t kvs" and p: "op_fits tx m p" and room: "index_room m t (length kvs + 1)"
  obtains t' ps' where "run_op p t = (Inr (), t')" and "index_map tx m ps' t' (map_op p kvs)"
    and "bt_order t' = bt_order t" and "capacity (bt_store t') = capacity (bt_store t)"
    and "page_count (bt_store t') \<le> page_count (bt_store t) + 2"
proof (cases p)
  case (Put k v)
  then have k: "key_of tx k" "key_fits m k" "v < 256 ^ 8" using p by simp_all
  show ?thesis by (rule insert_refines [OF t k room]) (use that Put in simp_all)
next
  case (Remove k)
  then have k: "key_of tx k" using p by simp
  have r: "index_room m t (length kvs)" using room tree_room_mono by (auto simp: index_room_def)
  show ?thesis by (rule delete_refines [OF t k r]) (use that Remove in simp_all)
qed

lemma run_refines:
  assumes "index_map tx m ps t kvs" and "\<forall>p \<in> set xs. op_fits tx m p"
    and "tree_room m (bt_order t) (capacity (bt_store t)) (length kvs + length xs)"
    and "page_count (bt_store t) + 2 * length xs < 256 ^ 4"
  shows "\<exists>t' ps'. sfor xs run_op t = (Inr (), t') \<and> index_map tx m ps' t' (fold map_op xs kvs)"
  using assms
proof (induction xs arbitrary: t ps kvs)
  case (Cons p xs)
  have p: "op_fits tx m p" using Cons.prems(2) by simp
  have "tree_room m (bt_order t) (capacity (bt_store t)) (length kvs + 1)"
    by (rule tree_room_mono [OF Cons.prems(3)]) simp
  then have room: "index_room m t (length kvs + 1)" using Cons.prems(4) by (simp add: index_room_def)
  obtain t1 ps1 where t1: "run_op p t = (Inr (), t1)" "index_map tx m ps1 t1 (map_op p kvs)" "bt_order t1 = bt_order t"
      "capacity (bt_store t1) = capacity (bt_store t)" "page_count (bt_store t1) \<le> page_count (bt_store t) + 2"
    by (rule run_op_refines [OF Cons.prems(1) p room]) (rule that; assumption)
  have "length (map_op p kvs) + length xs \<le> length kvs + length (p # xs)" using map_op_length [of p kvs] by simp
  then have r1: "tree_room m (bt_order t1) (capacity (bt_store t1)) (length (map_op p kvs) + length xs)"
    using tree_room_mono [OF Cons.prems(3)] t1(3,4) by simp
  have "\<forall>p \<in> set xs. op_fits tx m p" "page_count (bt_store t1) + 2 * length xs < 256 ^ 4"
    using Cons.prems(2,4) t1(5) by simp_all
  from Cons.IH [OF t1(2) this(1) r1 this(2)] show ?case using t1(1) by simp
qed (auto intro: exI [of _ ps])

text \<open>
  C4: An index that is created on a store and then changed by any run of insertions and
  deletions is the sorted map that the run leaves: \<open>seek\<close> answers with the last rowid of a
  key that was not deleted since, \<open>full_scan\<close> with all rowids in the order of the keys,
  \<open>range\<close> with those of the keys in the range, and the tree has at most two levels. No operation
  raises, through every split of a leaf and of the root, every move of an entry between
  siblings, every merge with its freed page and every root that is given up. The keys
  are numbers or texts whose encoding has at most \<open>m\<close> bytes, and the pages have room for
  full leaves and for the root.
\<close>

theorem index_runs_as_sorted_map:
  assumes "wf_store st" and "free_list st ps" and "\<forall>p \<in> set xs. op_fits tx m p"
    and "tree_room m order (capacity st) (length xs)" and "page_count st + 1 + 2 * length xs < 256 ^ 4"
  shows "\<exists>t0 t. create_btree order st = (Inr t0, bt_store t0)
    \<and> sfor xs run_op t0 = (Inr (), t)
    \<and> (let kvs = fold map_op xs [] in
       full_scan t = Inr (map snd kvs)
       \<and> (\<forall>key. key_of tx key \<longrightarrow> seek t key = Inr (lookup_entry key kvs))
       \<and> (\<forall>lo hi inclusive. key_of tx lo \<longrightarrow> key_of tx hi \<longrightarrow>
            range_query t lo hi inclusive = Inr (map snd (filter (\<lambda>e. in_range lo hi inclusive (fst e)) kvs))))
    \<and> (\<exists>h \<le> 2. height t = Inr h)"
proof -
  have cap: "11 \<le> capacity st" using assms(4) by (simp add: tree_room_def)
  have pc: "page_count st + 1 < 256 ^ 4" using assms(5) by simp
  obtain t0 ps0 where t0: "create_btree order st = (Inr t0, bt_store t0)" "index_map tx m ps0 t0 []" "bt_order t0 = order"
      "capacity (bt_store t0) = capacity st" "page_count (bt_store t0) \<le> page_count st + 1"
    by (rule create_refines [OF assms(1,2) pc cap]) (rule that; assumption)
  obtain t ps' where t: "sfor xs run_op t0 = (Inr (), t)" "index_map tx m ps' t (fold map_op xs [])"
    using run_refines [OF t0(2) assms(3)] assms(4,5) t0(3-5) by auto
  then show ?thesis
    using t0(1) full_scan_refines [OF t(2)] seek_refines [OF t(2)] range_refines [OF t(2)]
    by (intro exI [of _ t0] exI [of _ t]) (simp add: Let_def)
qed

lemma index_runs_as_sorted_map_witness:
  "\<exists>t0 t. create_btree 4 demo_store = (Inr t0, bt_store t0)
    \<and> sfor [Put (PInt 5) 50, Put (PInt 1) 10, Put (PInt 3) 30, Put (PInt 2) 20, Put (PInt 4) 40, Remove (PInt 1), Remove (PInt 2),
        Put (PInt 1) 11, Remove (PInt 7)] run_op t0 = (Inr (), t)
    \<and> full_scan t = Inr [11, 30, 40, 50] \<and> seek t (PInt 1) = Inr [11] \<and> seek t (PInt 2) = Inr []
    \<and> range_query t (PInt 1) (PInt 4) True = Inr [11, 30, 40]"
proof -
  let ?xs = "[Put (PInt 5) 50, Put (PInt 1) 10, Put (PInt 3) 30, Put (PInt 2) 20, Put (PInt 4) 40, Remove (PInt 1), Remove (PInt 2),
        Put (PInt 1) 11, Remove (PInt 7)]"
  have xs: "\<forall>p \<in> set ?xs. op_fits False 11 p" by (simp add: key_of_def key_fits_int)
  have n: "length ?xs = 9" and mk: "min_keys 4 = 2" by (simp_all add: min_keys_def)
  have room: "tree_room 11 4 (capacity demo_store) (length ?xs)" "page_count demo_store + 1 + 2 * length ?xs < 256 ^ 4"
    unfolding n tree_room_def mk by (simp_all add: demo_capacity demo_store_facts)
  have f: "fold map_op ?xs [] = [(PInt 1, 11), (PInt 3, 30), (PInt 4, 40), (PInt 5, 50)]"
    by (simp add: kless_def remove_entry_def)
  show ?thesis
    using index_runs_as_sorted_map [OF demo_store_facts(1,2) xs room] unfolding f Let_def
    by (auto simp: key_of_def lookup_entry_def in_range_def kless_def)
qed

end
