(* ===== verification/RenderFacts.thy ===== *)
theory RenderFacts
  imports Render
begin

text \<open>
  What the renderers print: the columns of a table stay aligned, the CSV output is read back
  by a CSV reader, and the output that loses information.
\<close>

section \<open>Aligned tables\<close>

lemma length_join: "length (join sep ss) = sum_list (map length ss) + length sep * (length ss - 1)"
proof (induction sep ss rule: join.induct)
  case (3 sep s t ss)
  then show ?case by simp
qed simp_all

lemma column_width_cell:
  assumes "r \<in> set rows"
  shows "length (table_cell tm nullvalue r c) \<le> fold (\<lambda>r n. max n (length (table_cell tm nullvalue r c))) rows (length c)"
    and "length c \<le> fold (\<lambda>r n. max n (length (table_cell tm nullvalue r c))) rows (length c)"
proof -
  let ?f = "\<lambda>r n. max n (length (table_cell tm nullvalue r c))"
  have m: "n \<le> fold ?f xs n" for xs n by (induction xs arbitrary: n) (auto intro: max.coboundedI1 order_trans)
  show "length c \<le> fold ?f rows (length c)" by (rule m)
  have "length (table_cell tm nullvalue r c) \<le> fold ?f rows n" for n
    using assms
  proof (induction rows arbitrary: n)
    case (Cons x rows)
    show ?case
    proof (cases "r = x")
      case True
      then have "length (table_cell tm nullvalue r c) \<le> ?f x n" by simp
      also have "\<dots> \<le> fold ?f rows (?f x n)" by (rule m)
      finally show ?thesis by simp
    qed (use Cons in simp)
  qed simp
  then show "length (table_cell tm nullvalue r c) \<le> fold ?f rows (length c)" .
qed

lemma length_fit: "w \<le> length (ljust (truncate s w) w) \<and> length (ljust (truncate s w) w) \<le> max w (length s) + 3
   \<and> (0 < w \<longrightarrow> length (ljust (truncate s w) w) \<le> w + 3) \<and> (length s \<le> w \<longrightarrow> length (ljust (truncate s w) w) = w)"
  by (auto simp: ljust_def truncate_def)

lemma table_line_length:
  assumes "length cells = length widths" and "\<forall>(s, w) \<in> set (zip cells widths). length s \<le> w \<or> 0 < w"
  shows "sum_list widths + 3 * (length widths - 1) \<le> length (table_line widths cells)"
    and "length (table_line widths cells) \<le> sum_list widths + 3 * (length widths - 1) + 3 * length widths"
    and "\<forall>(s, w) \<in> set (zip cells widths). length s \<le> w \<Longrightarrow>
      length (table_line widths cells) = sum_list widths + 3 * (length widths - 1)"
proof -
  let ?g = "\<lambda>(s, w). ljust (truncate s w) w"
  have j: "length (table_line widths cells) = sum_list (map (length \<circ> ?g) (zip cells widths)) + 3 * (length widths - 1)"
    using assms(1) by (simp add: table_line_def length_join comp_def)
  have "sum_list widths \<le> sum_list (map (length \<circ> ?g) (zip cells widths))
      \<and> sum_list (map (length \<circ> ?g) (zip cells widths)) \<le> sum_list widths + 3 * length widths
      \<and> ((\<forall>(s, w) \<in> set (zip cells widths). length s \<le> w) \<longrightarrow> sum_list (map (length \<circ> ?g) (zip cells widths)) = sum_list widths)"
    using assms
  proof (induction cells widths rule: list_induct2)
    case (Cons s cells w widths)
    have "w \<le> length (ljust (truncate s w) w)" "length (ljust (truncate s w) w) \<le> w + 3"
      "length s \<le> w \<longrightarrow> length (ljust (truncate s w) w) = w"
      using length_fit [of w s] Cons.prems by auto
    then show ?case using Cons by auto
  qed simp
  then show "sum_list widths + 3 * (length widths - 1) \<le> length (table_line widths cells)"
    "length (table_line widths cells) \<le> sum_list widths + 3 * (length widths - 1) + 3 * length widths"
    "\<forall>(s, w) \<in> set (zip cells widths). length s \<le> w \<Longrightarrow> length (table_line widths cells) = sum_list widths + 3 * (length widths - 1)"
    by (simp_all add: j)
qed

text \<open>A table in which nothing is cut to the maximal width.\<close>

definition uncut :: "terminal \<Rightarrow> orow list \<Rightarrow> nat \<Rightarrow> pystr \<Rightarrow> bool" where
  "uncut tm rows width nullvalue \<longleftrightarrow>
     width = 0 \<or> list_all (\<lambda>c. length c \<le> width \<and> list_all (\<lambda>r. length (table_cell tm nullvalue r c) \<le> width) rows)
       (map fst (hd rows))"

lemma column_fits:
  assumes "rows \<noteq> []"
  shows "length c \<le> column_width tm width nullvalue rows c \<or> 0 < column_width tm width nullvalue rows c"
    and "r \<in> set rows \<Longrightarrow> length (table_cell tm nullvalue r c) \<le> column_width tm width nullvalue rows c
      \<or> 0 < column_width tm width nullvalue rows c"
  using assms column_width_cell [where rows = rows and c = c and tm = tm and nullvalue = nullvalue]
  by (cases rows; auto simp: column_width_def Let_def min_def)+

lemma column_uncut:
  assumes "uncut tm rows width nullvalue" and "c \<in> fst ` set (hd rows)" and "r \<in> set rows"
  shows "length c \<le> column_width tm width nullvalue rows c"
    and "length (table_cell tm nullvalue r c) \<le> column_width tm width nullvalue rows c"
  using assms column_width_cell [where rows = rows and c = c and r = r and tm = tm and nullvalue = nullvalue]
  by (auto simp: uncut_def column_width_def Let_def min_def list_all_iff)

text \<open>One line of a table whose cells are given by a function on the columns.\<close>

lemma table_line_columns:
  fixes cs :: "pystr list" and f :: "pystr \<Rightarrow> pystr" and w :: "pystr \<Rightarrow> nat"
  defines "n \<equiv> sum_list (map w cs) + 3 * (length cs - 1)"
  assumes "\<And>c. c \<in> set cs \<Longrightarrow> length (f c) \<le> w c \<or> 0 < w c"
  shows "n \<le> length (table_line (map w cs) (map f cs))"
    and "length (table_line (map w cs) (map f cs)) \<le> n + 3 * length cs"
    and "(\<And>c. c \<in> set cs \<Longrightarrow> length (f c) \<le> w c) \<Longrightarrow> length (table_line (map w cs) (map f cs)) = n"
proof -
  have z: "zip (map f cs) (map w cs) = map (\<lambda>c. (f c, w c)) cs" by (simp add: zip_map_map zip_same_conv_map)
  have a: "\<forall>(s, w) \<in> set (zip (map f cs) (map w cs)). length s \<le> w \<or> 0 < w" using assms(2) unfolding z by auto
  have l: "length (map f cs) = length (map w cs)" by simp
  note t = table_line_length [OF l a]
  show "n \<le> length (table_line (map w cs) (map f cs))"
    and "length (table_line (map w cs) (map f cs)) \<le> n + 3 * length cs"
    using t(1,2) by (simp_all add: n_def)
  show "length (table_line (map w cs) (map f cs)) = n" if "\<And>c. c \<in> set cs \<Longrightarrow> length (f c) \<le> w c"
    using t(3) that unfolding z by (auto simp: n_def)
qed

text \<open>
  C39: The lines of a table are as long as its separator line (the second line), or longer by
  at most three characters for each column, which happens only where a cell is cut to the
  maximal width: when no name and no cell is longer than it, all lines have the same length.
\<close>

theorem table_lines_aligned:
  assumes "rows \<noteq> []" and "line \<in> set (table_lines tm rows width nullvalue)"
  shows "length (table_lines tm rows width nullvalue ! 1) \<le> length line
    \<and> length line \<le> length (table_lines tm rows width nullvalue ! 1) + 3 * length (hd rows)
    \<and> (uncut tm rows width nullvalue \<longrightarrow> length line = length (table_lines tm rows width nullvalue ! 1))"
proof -
  obtain first rest where rows: "rows = first # rest" using assms(1) by (cases rows) auto
  let ?cs = "map fst first"
  let ?w = "column_width tm width nullvalue rows"
  let ?n = "sum_list (map ?w ?cs) + 3 * (length ?cs - 1)"
  have sep: "length (table_lines tm rows width nullvalue ! 1) = ?n"
    by (simp add: rows table_lines_def Let_def length_join comp_def)
  consider "line = table_line (map ?w ?cs) (map id ?cs)" | "length line = ?n"
    | r where "r \<in> set rows" "line = table_line (map ?w ?cs) (map (table_cell tm nullvalue r) ?cs)"
    using assms sep by (auto simp: rows table_lines_def Let_def comp_def)
  then have "?n \<le> length line \<and> length line \<le> ?n + 3 * length ?cs \<and> (uncut tm rows width nullvalue \<longrightarrow> length line = ?n)"
  proof cases
    case 1
    have "uncut tm rows width nullvalue \<Longrightarrow> c \<in> set ?cs \<Longrightarrow> length (id c) \<le> ?w c" for c
      using column_uncut(1) [where r = first and c = c] by (auto simp: rows)
    moreover have "length (id c) \<le> ?w c \<or> 0 < ?w c" for c using column_fits(1) [OF assms(1)] by simp
    note t = table_line_columns [of ?cs id ?w, OF this]
    ultimately show ?thesis using t(1,2,3) unfolding 1 by blast
  next
    case (3 r)
    have "uncut tm rows width nullvalue \<Longrightarrow> c \<in> set ?cs \<Longrightarrow> length (table_cell tm nullvalue r c) \<le> ?w c" for c
      using column_uncut(2) [where r = r and c = c] 3(1) by (auto simp: rows)
    moreover note t = table_line_columns [of ?cs "table_cell tm nullvalue r" ?w, OF column_fits(2) [OF assms(1) 3(1)]]
    ultimately show ?thesis using t(1,2,3) unfolding 3(2) by blast
  qed simp
  then show ?thesis unfolding sep by (simp add: rows)
qed

text \<open>A terminal without optional packages, and two rows of a result.\<close>

definition plain_terminal :: terminal where
  "plain_terminal =
     \<lparr>tm_rt = ascii_runtime, tm_printable = (\<lambda>c. 32 \<le> c \<and> c < 127), tm_error_text = (\<lambda>_. []),
      tm_class_name = (\<lambda>_. str ''Exception''), tm_pygments = False, tm_readline = False, tm_tty = False,
      tm_elapsed = (\<lambda>_. str ''0.0'')\<rparr>"

definition demo_result :: "orow list" where
  "demo_result =
     [[(str ''id'', OVal (PInt 1)), (str ''name'', OVal (PText (str ''a, b'')))],
      [(str ''id'', OVal (PInt 12)), (str ''name'', OVal PNone)]]"

lemma table_lines_aligned_witness:
  "length (hd (table_lines plain_terminal demo_result 30 [])) = length (table_lines plain_terminal demo_result 30 [] ! 1)"
proof -
  have "hd (table_lines plain_terminal demo_result 30 []) \<in> set (table_lines plain_terminal demo_result 30 [])"
    by (simp add: demo_result_def table_lines_def Let_def)
  moreover have "uncut plain_terminal demo_result 30 []" by code_simp
  ultimately show ?thesis using table_lines_aligned [of demo_result] by (simp add: demo_result_def)
qed

text \<open>Zero, False and the empty text are shown as the text for NULL.\<close>

theorem falsy_values_shown_as_null:
  "dict_get r c = Some (OVal v) \<Longrightarrow> \<not> truthy v \<Longrightarrow> table_cell tm nullvalue r c = nullvalue"
  by (simp add: table_cell_def obj_truthy_def)

section \<open>CSV is read back\<close>

text \<open>
  A reader of CSV records that end with a newline: the field so far, the fields of the record
  so far, and the state of the quotation.
\<close>

fun csv_plain :: "pystr \<Rightarrow> pystr list \<Rightarrow> pystr \<Rightarrow> pystr list list"
  and csv_quoted :: "pystr \<Rightarrow> pystr list \<Rightarrow> pystr \<Rightarrow> pystr list list" where
  "csv_plain f rec [] = (if f = [] \<and> rec = [] then [] else [rec @ [f]])"
| "csv_plain f rec (c # cs) =
     (if c = 34 \<and> f = [] then csv_quoted [] rec cs
      else if c = 44 then csv_plain [] (rec @ [f]) cs
      else if c = 10 then (rec @ [f]) # csv_plain [] [] cs
      else csv_plain (f @ [c]) rec cs)"
| "csv_quoted f rec [] = [rec @ [f]]"
| "csv_quoted f rec (c # cs) =
     (if c = 34 then
        (case cs of
           [] \<Rightarrow> [rec @ [f]]
         | d # ds \<Rightarrow>
             if d = 34 then csv_quoted (f @ [34]) rec ds
             else if d = 44 then csv_plain [] (rec @ [f]) ds
             else if d = 10 then (rec @ [f]) # csv_plain [] [] ds
             else csv_plain (f @ [d]) rec ds)
      else csv_quoted (f @ [c]) rec cs)"

definition read_csv :: "pystr \<Rightarrow> pystr list list" where
  "read_csv text = csv_plain [] [] text"

lemma csv_plain_field:
  assumes "44 \<notin> set cell" and "34 \<notin> set cell" and "10 \<notin> set cell"
  shows "csv_plain f rec (cell @ rest) = csv_plain (f @ cell) rec rest"
  using assms by (induction cell arbitrary: f) auto

lemma csv_quoted_field:
  "d = 44 \<or> d = 10 \<Longrightarrow>
   csv_quoted f rec (concat (map (\<lambda>c. if c = 34 then [34, 34] else [c]) cell) @ 34 # d # rest)
   = (if d = 44 then csv_plain [] (rec @ [f @ cell]) rest else (rec @ [f @ cell]) # csv_plain [] [] rest)"
  by (induction cell arbitrary: f) auto

lemma csv_field:
  assumes "d = 44 \<or> d = 10"
  shows "csv_plain [] rec (csv_quote cell @ d # rest)
    = (if d = 44 then csv_plain [] (rec @ [cell]) rest else (rec @ [cell]) # csv_plain [] [] rest)"
proof (cases "44 \<in> set cell \<or> 34 \<in> set cell \<or> 10 \<in> set cell")
  case True
  then show ?thesis using csv_quoted_field [OF assms, of "[]" rec cell rest] by (simp add: csv_quote_def)
next
  case False
  then show ?thesis using csv_plain_field [of cell "[]" rec "d # rest"] assms by (auto simp: csv_quote_def)
qed

lemma csv_record:
  "cells \<noteq> [] \<Longrightarrow> csv_plain [] rec (join (str '','') (map csv_quote cells) @ 10 # rest)
    = (rec @ cells) # csv_plain [] [] rest"
proof (induction cells arbitrary: rec)
  case (Cons cell cells)
  show ?case
  proof (cases cells)
    case Nil
    then show ?thesis using csv_field [of 10 rec cell rest] by simp
  next
    case (Cons c cs)
    then show ?thesis using Cons.IH [of "rec @ [cell]"] csv_field [of 44 rec cell] by (simp add: str_def)
  qed
qed simp

text \<open>
  C30: The data lines of the CSV output, each ended with a newline, are read back by a CSV
  reader as exactly the cells of the rows, whatever commas, quotes and newlines they hold.
\<close>

theorem csv_roundtrip:
  assumes "rows = first # rest" and "first \<noteq> []"
  shows "read_csv (concat (map (\<lambda>l. l @ [10]) (tl (csv_lines tm rows width nullvalue))))
    = map (\<lambda>row. map (csv_cell tm width nullvalue row) (map fst first)) rows"
proof -
  let ?line = "\<lambda>row. join (str '','') (map (\<lambda>c. csv_quote (csv_cell tm width nullvalue row c)) (map fst first))"
  have all: "csv_plain [] [] (concat (map (\<lambda>row. ?line row @ [10]) rs))
      = map (\<lambda>row. map (csv_cell tm width nullvalue row) (map fst first)) rs" for rs
  proof (induction rs)
    case (Cons r rs)
    have "map (csv_cell tm width nullvalue r) (map fst first) \<noteq> []" using assms(2) by simp
    from csv_record [OF this, of "[]"] show ?case using Cons by (simp add: comp_def)
  qed simp
  have "tl (csv_lines tm rows width nullvalue) = map ?line rows" using assms(1) by (simp add: csv_lines_def Let_def comp_def)
  then show ?thesis using all [of rows] unfolding read_csv_def by (simp only: map_map comp_def)
qed

lemma csv_roundtrip_witness:
  "read_csv (concat (map (\<lambda>l. l @ [10]) (tl (csv_lines plain_terminal demo_result 30 []))))
    = [[str ''1'', str ''a, b''], [str ''12'', []]]"
proof -
  have "map (\<lambda>row. map (csv_cell plain_terminal 30 [] row) (map fst (hd demo_result))) demo_result
      = [[str ''1'', str ''a, b''], [str ''12'', []]]"
    by code_simp
  then show ?thesis using csv_roundtrip [of demo_result "hd demo_result" "tl demo_result" plain_terminal 30 "[]"] by (simp add: demo_result_def)
qed

end
