(* ===== verification/Cli.thy ===== *)
theory Cli
  imports Database Render
begin

text \<open>
  tinydb/cli.py and cli_dotcommands.py: the shell, in its batch and in its interactive mode.
  Its state is the database, what it has written to its streams, and the settings of the
  session; the lines of its input are an argument. Reading and writing the history file,
  argument parsing and the highlighting package are not modelled.
\<close>

section \<open>The session\<close>

record config =
  cf_mode :: pystr
  cf_timer :: bool
  cf_width :: nat
  cf_nullvalue :: pystr
  cf_color :: bool

definition default_config :: config where
  "default_config = \<lparr>cf_mode = str ''table'', cf_timer = False, cf_width = 30, cf_nullvalue = [], cf_color = False\<rparr>"

text \<open>
  \<open>sh_sys\<close> is the error stream of the process, \<open>sh_pygments\<close> the module's flag, \<open>sh_warned\<close>
  the list with one flag that the loop passes around.
\<close>

record shell =
  sh_db :: database
  sh_out :: pystr
  sh_err :: pystr
  sh_sys :: pystr
  sh_cfg :: config
  sh_pygments :: bool
  sh_warned :: bool
  sh_ticks :: nat

type_synonym 'a shx = "(shell, py_error, 'a) sx"

definition print_out :: "pystr \<Rightarrow> unit shx" where
  "print_out s = smodify (\<lambda>sh. sh\<lparr>sh_out := sh_out sh @ s @ [10]\<rparr>)"

definition print_err :: "pystr \<Rightarrow> unit shx" where
  "print_err s = smodify (\<lambda>sh. sh\<lparr>sh_err := sh_err sh @ s @ [10]\<rparr>)"

definition print_sys :: "pystr \<Rightarrow> unit shx" where
  "print_sys s = smodify (\<lambda>sh. sh\<lparr>sh_sys := sh_sys sh @ s @ [10]\<rparr>)"

definition print_lines :: "pystr list \<Rightarrow> unit shx" where
  "print_lines ls = sfor ls print_out"

definition set_cfg :: "(config \<Rightarrow> config) \<Rightarrow> unit shx" where
  "set_cfg f = smodify (\<lambda>sh. sh\<lparr>sh_cfg := f (sh_cfg sh)\<rparr>)"

definition in_db :: "'a dbx \<Rightarrow> 'a shx" where
  "in_db m sh = (case m (sh_db sh) of (r, db) \<Rightarrow> (r, sh\<lparr>sh_db := db\<rparr>))"

text \<open>\<open>try\<close> with one \<open>except\<close> clause.\<close>

definition catch :: "(py_error \<Rightarrow> bool) \<Rightarrow> 'a shx \<Rightarrow> (py_error \<Rightarrow> 'a shx) \<Rightarrow> 'a shx" where
  "catch caught m handler sh =
     (case m sh of
        (Inl e, sh') \<Rightarrow> if caught e then handler e sh' else (Inl e, sh')
      | (Inr x, sh') \<Rightarrow> (Inr x, sh'))"

section \<open>Text functions of the shell\<close>

definition py_isspace :: "nat \<Rightarrow> bool" where
  "py_isspace c \<longleftrightarrow> 9 \<le> c \<and> c \<le> 13 \<or> 28 \<le> c \<and> c \<le> 32 \<or> c \<in> {133, 160, 5760, 8232, 8233, 8239, 8287, 12288}
     \<or> 8192 \<le> c \<and> c \<le> 8202"

definition py_strip :: "pystr \<Rightarrow> pystr" where
  "py_strip s = rev (dropWhile py_isspace (rev (dropWhile py_isspace s)))"

definition rstrip_newline :: "pystr \<Rightarrow> pystr" where
  "rstrip_newline s = rev (dropWhile (\<lambda>c. c = 10) (rev s))"

function py_split :: "pystr \<Rightarrow> pystr list" where
  "py_split s =
     (case dropWhile py_isspace s of
        [] \<Rightarrow> []
      | c # cs \<Rightarrow> (c # takeWhile (\<lambda>d. \<not> py_isspace d) cs) # py_split (dropWhile (\<lambda>d. \<not> py_isspace d) cs))"
  by pat_completeness auto

termination
proof (relation "measure length", simp_all)
  fix s c cs
  assume "dropWhile py_isspace s = c # cs"
  then have "Suc (length cs) \<le> length s" using length_dropWhile_le [of py_isspace s] by simp
  then show "length (dropWhile (\<lambda>d. \<not> py_isspace d) cs) < length s"
    using length_dropWhile_le [of "\<lambda>d. \<not> py_isspace d" cs] by simp
qed

declare py_split.simps [simp del]

section \<open>Optional packages\<close>

definition ensure_pygments :: "terminal \<Rightarrow> bool shx" where
  "ensure_pygments tm =
     sbind sget (\<lambda>sh.
     if sh_pygments sh then sret True
     else sbind (smodify (\<lambda>sh. sh\<lparr>sh_pygments := tm_pygments tm\<rparr>)) (\<lambda>_. sret (tm_pygments tm)))"

datatype color_arg = ColorOn | ColorOff | ColorAuto

definition resolve_initial_color :: "terminal \<Rightarrow> color_arg \<Rightarrow> bool shx" where
  "resolve_initial_color tm c =
     (case c of
        ColorOff \<Rightarrow> sret False
      | ColorOn \<Rightarrow> ensure_pygments tm
      | ColorAuto \<Rightarrow> if tm_tty tm then ensure_pygments tm else sret False)"

definition maybe_warn_pygments :: "unit shx" where
  "maybe_warn_pygments =
     sbind sget (\<lambda>sh.
     if sh_warned sh then sret ()
     else
       sbind (smodify (\<lambda>sh. sh\<lparr>sh_warned := True\<rparr>)) (\<lambda>_.
       if sh_pygments sh then sret () else print_sys (str ''pygments not installed: syntax coloring disabled'')))"

definition maybe_warn_readline :: "terminal \<Rightarrow> unit shx" where
  "maybe_warn_readline tm =
     (if tm_readline tm then sret () else print_sys (str ''readline unavailable: line editing disabled''))"

definition completer_keywords :: "pystr list" where
  "completer_keywords = map str
    [''SELECT'', ''FROM'', ''WHERE'', ''INSERT'', ''INTO'', ''VALUES'', ''CREATE'', ''TABLE'',
     ''DROP'', ''DELETE'', ''UPDATE'', ''SET'', ''ORDER'', ''BY'', ''LIMIT'', ''OFFSET'',
     ''GROUP'', ''HAVING'', ''JOIN'', ''INNER'', ''LEFT'', ''ON'', ''AS'', ''AND'', ''OR'',
     ''NOT'', ''NULL'', ''IS'', ''IN'', ''BETWEEN'', ''LIKE'', ''EXPLAIN'']"

definition completer :: "terminal \<Rightarrow> pystr \<Rightarrow> nat \<Rightarrow> pystr option" where
  "completer tm text state =
     (let matches = filter (\<lambda>k. starts_with (py_lower (tm_rt tm) k) (py_lower (tm_rt tm) text)) completer_keywords in
      if state < length matches then Some (matches ! state) else None)"

section \<open>Commands that start with a dot\<close>

definition help_lines :: "pystr list" where
  "help_lines = map str
    [''.tables  - list tables'', ''.schema <t> - show CREATE TABLE'',
     ''.mode table|csv|json|color [on|off] - set output mode'',
     ''.timer on|off - show query wall-clock time'', ''.width <n> - max column width (default 30)'',
     ''.nullvalue <text> - display text for NULL'',
     ''.explain <SQL> - show query plan without executing'', ''.exit/.quit - exit'', ''.help - this message'']"

definition schema_line :: "pystr \<Rightarrow> table_meta \<Rightarrow> pystr" where
  "schema_line name meta =
     str ''CREATE TABLE '' @ name @ str '' ('' @ join (str '', '') (map (\<lambda>(c, t). c @ str '' '' @ type_value t) (tm_schema meta))
     @ str '');''"

definition executor_tables :: "executor \<Rightarrow> (pystr, table_meta) dict" where
  "executor_tables e = ct_entries (ex_cat e)"

definition handle_schema :: "terminal \<Rightarrow> pystr list \<Rightarrow> unit shx" where
  "handle_schema tm args =
     (case args of
        [] \<Rightarrow> print_err (str ''usage: .schema <table>'')
      | name # _ \<Rightarrow>
          sbind sget (\<lambda>sh.
          case db_executor (sh_db sh) of
            None \<Rightarrow> sret ()
          | Some e \<Rightarrow>
              catch is_tinydb_error
                (sbind (slift (get_table name (executor_tables e))) (\<lambda>meta. print_out (schema_line name meta)))
                (\<lambda>exc. print_err (format tm exc))))"

definition on_off :: "bool \<Rightarrow> pystr" where
  "on_off b = (if b then str ''on'' else str ''off'')"

definition handle_color :: "terminal \<Rightarrow> pystr list \<Rightarrow> unit shx" where
  "handle_color tm args =
     (case args of
        [] \<Rightarrow> sbind sget (\<lambda>sh. print_out (str ''color: '' @ on_off (cf_color (sh_cfg sh))))
      | a # _ \<Rightarrow>
          let arg = py_lower (tm_rt tm) a in
          if arg = str ''on'' then
            sbind (ensure_pygments tm) (\<lambda>ok.
            if \<not> ok then
              sbind (print_err (str ''pygments not installed: syntax coloring disabled'')) (\<lambda>_.
              set_cfg (\<lambda>c. c\<lparr>cf_color := False\<rparr>))
            else sbind (set_cfg (\<lambda>c. c\<lparr>cf_color := True\<rparr>)) (\<lambda>_. print_out (str ''color on'')))
          else if arg = str ''off'' then
            sbind (set_cfg (\<lambda>c. c\<lparr>cf_color := False\<rparr>)) (\<lambda>_. print_out (str ''color off''))
          else print_err (str ''usage: .mode color on|off''))"

definition handle_mode :: "terminal \<Rightarrow> pystr list \<Rightarrow> unit shx" where
  "handle_mode tm args =
     (case args of
        [] \<Rightarrow> sbind sget (\<lambda>sh. print_out (str ''current mode: '' @ cf_mode (sh_cfg sh)))
      | a # rest \<Rightarrow>
          let sub = py_lower (tm_rt tm) a in
          if sub = str ''color'' then handle_color tm rest
          else if sub \<in> {str ''table'', str ''csv'', str ''json''} then
            sbind (set_cfg (\<lambda>c. c\<lparr>cf_mode := sub\<rparr>)) (\<lambda>_. print_out (str ''mode: '' @ sub))
          else print_err (str ''invalid mode: '' @ repr_str tm sub @ str '' (expected table|csv|json|color)''))"

definition handle_timer :: "terminal \<Rightarrow> pystr list \<Rightarrow> unit shx" where
  "handle_timer tm args =
     (case args of
        [] \<Rightarrow> print_err (str ''usage: .timer on|off'')
      | a # _ \<Rightarrow>
          let arg = py_lower (tm_rt tm) a in
          if arg = str ''on'' then sbind (set_cfg (\<lambda>c. c\<lparr>cf_timer := True\<rparr>)) (\<lambda>_. print_out (str ''timer on''))
          else if arg = str ''off'' then sbind (set_cfg (\<lambda>c. c\<lparr>cf_timer := False\<rparr>)) (\<lambda>_. print_out (str ''timer off''))
          else print_err (str ''usage: .timer on|off''))"

definition handle_width :: "terminal \<Rightarrow> pystr list \<Rightarrow> unit shx" where
  "handle_width tm args =
     (case args of
        [] \<Rightarrow> sbind sget (\<lambda>sh. print_out (str ''width: '' @ nat_digits (cf_width (sh_cfg sh))))
      | a # _ \<Rightarrow>
          (case py_int (tm_rt tm) a of
             Inl e \<Rightarrow> if e = ValueError then print_err (str ''invalid width: '' @ repr_str tm a) else sraise e
           | Inr n \<Rightarrow>
               if n < 1 then print_err (str ''width must be >= 1'')
               else sbind (set_cfg (\<lambda>c. c\<lparr>cf_width := nat n\<rparr>)) (\<lambda>_. print_out (str ''width: '' @ int_text n))))"

definition handle_nullvalue :: "terminal \<Rightarrow> pystr list \<Rightarrow> unit shx" where
  "handle_nullvalue tm args =
     sbind (set_cfg (\<lambda>c. c\<lparr>cf_nullvalue := join (str '' '') args\<rparr>)) (\<lambda>_.
     print_out (str ''nullvalue: '' @ repr_str tm (join (str '' '') args)))"

text \<open>The list a plan is; anything else, and the empty list, is no plan.\<close>

definition plan_dicts :: "exec_result \<Rightarrow> orow list" where
  "plan_dicts r =
     (case r of EPlans ps \<Rightarrow> ps | ERows rows \<Rightarrow> map (map (\<lambda>(k, v). (k, OVal v))) rows | _ \<Rightarrow> [])"

definition handle_explain :: "terminal \<Rightarrow> pystr list \<Rightarrow> unit shx" where
  "handle_explain tm args =
     (if args = [] then print_err (str ''usage: .explain <SQL>'')
      else
        sbind sget (\<lambda>sh.
        if db_executor (sh_db sh) = None then print_err (str ''EXPLAIN not available yet: no executor'')
        else
          sbind (catch (\<lambda>e. e = AttributeError \<or> is_tinydb_error e)
              (sbind (in_db (in_executor (execute_sql (tm_rt tm) (str ''EXPLAIN '' @ join (str '' '') args)))) (\<lambda>r. sret (Some r)))
              (\<lambda>exc. sbind (print_err (str ''EXPLAIN not available yet: '' @ exc_text tm exc)) (\<lambda>_. sret None))) (\<lambda>plan.
          case plan of
            None \<Rightarrow> sret ()
          | Some r \<Rightarrow>
              if plan_dicts r = [] then print_out (str ''no plan'')
              else sfor (plan_dicts r) (\<lambda>d. print_lines (plan_lines tm 0 d)))))"

text \<open>True means that the session ends.\<close>

definition handle_dot_command :: "terminal \<Rightarrow> pystr \<Rightarrow> bool shx" where
  "handle_dot_command tm line =
     (case py_split line of
        [] \<Rightarrow> sraise IndexError
      | first # args \<Rightarrow>
          let cmd = py_lower (tm_rt tm) first; continue = (\<lambda>m. sbind m (\<lambda>_. sret False)) in
          if cmd = str ''.exit'' \<or> cmd = str ''.quit'' then sret True
          else if cmd = str ''.help'' then continue (print_lines help_lines)
          else if cmd = str ''.tables'' then
            sbind sget (\<lambda>sh.
            continue (case db_executor (sh_db sh) of
                None \<Rightarrow> sret () | Some e \<Rightarrow> print_lines (list_tables (executor_tables e))))
          else if cmd = str ''.schema'' then continue (handle_schema tm args)
          else if cmd = str ''.mode'' then continue (handle_mode tm args)
          else if cmd = str ''.timer'' then continue (handle_timer tm args)
          else if cmd = str ''.width'' then continue (handle_width tm args)
          else if cmd = str ''.nullvalue'' then continue (handle_nullvalue tm args)
          else if cmd = str ''.explain'' then continue (handle_explain tm args)
          else continue (print_err (str ''unknown command: '' @ cmd)))"

section \<open>Statements\<close>

definition emit_time :: "terminal \<Rightarrow> config \<Rightarrow> unit shx" where
  "emit_time tm cfg =
     (if cf_timer cfg then
        sbind sget (\<lambda>sh.
        sbind (smodify (\<lambda>sh. sh\<lparr>sh_ticks := sh_ticks sh + 1\<rparr>)) (\<lambda>_.
        print_out (str ''Time: '' @ tm_elapsed tm (sh_ticks sh) @ str '' ms'')))
      else sret ())"

definition print_json :: "terminal \<Rightarrow> orow list \<Rightarrow> unit shx" where
  "print_json tm rows = sfor rows (\<lambda>row. sbind (slift (json_obj tm (ODict row))) print_out)"

definition render_rows :: "terminal \<Rightarrow> config \<Rightarrow> orow list \<Rightarrow> unit shx" where
  "render_rows tm cfg rows =
     (if cf_mode cfg = str ''csv'' then print_lines (csv_lines tm rows (cf_width cfg) (cf_nullvalue cfg))
      else if cf_mode cfg = str ''json'' then print_json tm rows
      else print_lines (table_lines tm rows (cf_width cfg) (cf_nullvalue cfg)))"

definition execute_one :: "terminal \<Rightarrow> config \<Rightarrow> pystr \<Rightarrow> unit shx" where
  "execute_one tm cfg sql =
     sbind (in_db (execute (tm_rt tm) sql)) (\<lambda>result.
     case result of
       [] \<Rightarrow> emit_time tm cfg
     | first # _ \<Rightarrow>
         sbind
           (if dict_has first (str ''status'') then print_out (str ''OK'')
            else
              case dict_get first (str ''rows_affected'') of
                Some n \<Rightarrow>
                  let one = (case n of OVal v \<Rightarrow> py_eq v (PInt 1) | _ \<Rightarrow> False) in
                  print_out (str_obj tm n @ str '' row'' @ (if one then [] else str ''s'') @ str '' inserted'')
              | None \<Rightarrow> render_rows tm cfg result)
           (\<lambda>_. emit_time tm cfg))"

section \<open>Batch mode\<close>

text \<open>One statement: parse errors are printed but do not count as an error.\<close>

definition batch_statement :: "terminal \<Rightarrow> pystr \<Rightarrow> bool \<Rightarrow> bool shx" where
  "batch_statement tm sql has_error =
     catch is_tinydb_error
       (sbind (execute_one tm default_config sql) (\<lambda>_. sret has_error))
       (\<lambda>exc. sbind (print_err (format tm exc)) (\<lambda>_.
          sret (case exc of ParseError _ _ _ \<Rightarrow> has_error | _ \<Rightarrow> True)))"

definition batch_dot :: "terminal \<Rightarrow> pystr list \<Rightarrow> bool \<Rightarrow> bool shx" where
  "batch_dot tm parts has_error =
     sbind sget (\<lambda>sh.
     let cmd = py_lower (tm_rt tm) (hd parts) in
     case db_executor (sh_db sh) of
       None \<Rightarrow> sret has_error
     | Some e \<Rightarrow>
         if cmd = str ''.tables'' then
           sbind (print_lines (list_tables (executor_tables e))) (\<lambda>_. sret has_error)
         else if cmd = str ''.schema'' \<and> 2 \<le> length parts then
           catch is_tinydb_error
             (sbind (slift (get_table (parts ! 1) (executor_tables e))) (\<lambda>meta.
              sbind (print_out (schema_line (parts ! 1) meta)) (\<lambda>_. sret has_error)))
             (\<lambda>exc. sbind (print_err (format tm exc)) (\<lambda>_. sret True))
         else sret has_error)"

text \<open>The lines of the input; the result is \<open>has_error\<close>.\<close>

fun batch_loop :: "terminal \<Rightarrow> pystr list \<Rightarrow> pystr list \<Rightarrow> bool \<Rightarrow> bool shx" where
  "batch_loop tm [] buffer has_error = sret has_error"
| "batch_loop tm (raw # lines) buffer has_error =
     (let stripped = py_strip raw in
      if stripped = [] then batch_loop tm lines buffer has_error
      else if hd stripped = 46 then
        (let cmd = py_lower (tm_rt tm) (hd (py_split stripped)) in
         if cmd = str ''.exit'' \<or> cmd = str ''.quit'' then sret has_error
         else sbind (batch_dot tm (py_split stripped) has_error) (batch_loop tm lines buffer))
      else
        (let buffer' = buffer @ [rstrip_newline raw] in
         if last stripped = 59 then
           (let sql = py_strip (join (str '' '') buffer') in
            if sql = [] then batch_loop tm lines [] has_error
            else sbind (batch_statement tm sql has_error) (batch_loop tm lines []))
         else batch_loop tm lines buffer' has_error))"

definition run_batch :: "terminal \<Rightarrow> pystr list \<Rightarrow> nat shx" where
  "run_batch tm lines = sbind (batch_loop tm lines [] False) (\<lambda>has_error. sret (if has_error then 1 else 0))"

section \<open>Interactive mode\<close>

definition prompt :: "bool \<Rightarrow> pystr" where
  "prompt in_multiline = (if in_multiline then str ''   ...> '' else str ''tinydb> '')"

definition ask :: "bool \<Rightarrow> unit shx" where
  "ask in_multiline =
     sbind maybe_warn_pygments (\<lambda>_. smodify (\<lambda>sh. sh\<lparr>sh_out := sh_out sh @ prompt in_multiline\<rparr>))"

fun repl_loop :: "terminal \<Rightarrow> pystr list \<Rightarrow> pystr list \<Rightarrow> unit shx" where
  "repl_loop tm [] buffer = sbind (ask (buffer \<noteq> [])) (\<lambda>_. print_out [])"
| "repl_loop tm (raw # lines) buffer =
     sbind (ask (buffer \<noteq> [])) (\<lambda>_.
     let line = rstrip_newline raw; stripped = py_strip line in
     if stripped = [] then repl_loop tm lines buffer
     else if hd stripped = 46 then
       sbind (handle_dot_command tm stripped) (\<lambda>stop. if stop then sret () else repl_loop tm lines buffer)
     else
       (let buffer' = buffer @ [line] in
        if last stripped = 59 then
          (let sql = py_strip (join (str '' '') buffer') in
           if sql = [] then repl_loop tm lines []
           else
             sbind (sbind sget (\<lambda>sh.
               catch is_tinydb_error (execute_one tm (sh_cfg sh) sql) (\<lambda>exc. print_err (format tm exc)))) (\<lambda>_.
             repl_loop tm lines []))
        else repl_loop tm lines buffer'))"

definition version :: pystr where
  "version = str ''0.2.0''"

definition run_repl :: "terminal \<Rightarrow> color_arg \<Rightarrow> pystr list \<Rightarrow> unit shx" where
  "run_repl tm color lines =
     sbind (print_out (str ''TinyDB '' @ version @ str ''. Type .help for help.'')) (\<lambda>_.
     sbind (set_cfg (\<lambda>_. default_config)) (\<lambda>_.
     sbind (resolve_initial_color tm color) (\<lambda>c.
     sbind (set_cfg (\<lambda>cfg. cfg\<lparr>cf_color := c\<rparr>)) (\<lambda>_.
     sbind (smodify (\<lambda>sh. sh\<lparr>sh_warned := False\<rparr>)) (\<lambda>_.
     sbind (maybe_warn_readline tm) (\<lambda>_.
     repl_loop tm lines []))))))"

text \<open>
  \<open>main\<close> with its parsed arguments and an open database, which is closed however the session
  ends; the result is the exit status.
\<close>

definition main_session :: "terminal \<Rightarrow> bool \<Rightarrow> color_arg \<Rightarrow> pystr list \<Rightarrow> nat shx" where
  "main_session tm interactive color lines sh =
     (case (if interactive then sbind (run_repl tm color lines) (\<lambda>_. sret 0) else run_batch tm lines) sh of
        (r, sh') \<Rightarrow> (case in_db close_database sh' of (_, sh'') \<Rightarrow> (r, sh'')))"

end
