(* ===== verification/CliFacts.thy ===== *)
theory CliFacts
  imports Cli RenderFacts
begin

text \<open>
  The shell: its dot commands never change the database, a script runs its statements one
  after the other, and some outputs do not show what the statement returned.
\<close>

section \<open>Dot commands keep the database\<close>

lemma lex_explain:
  "\<exists>c. lex u (str ''EXPLAIN '' @ s) 1 1
    = rbind (lex u (str '' '' @ s) 1 c) (\<lambda>ts. Inr (mk_token KEYWORD (str ''EXPLAIN'') 1 1 # ts))"
proof -
  have tw: "takeWhile (is_word u) (str ''XPLAIN '' @ s) = str ''XPLAIN''"
    and dw: "dropWhile (is_word u) (str ''XPLAIN '' @ s) = str '' '' @ s"
    by (simp_all add: str_def is_word_def ch_isalnum_def ascii_upper_def ascii_lower_def ascii_digit_def)
  have up: "py_upper u (str ''EXPLAIN'') = str ''EXPLAIN''"
    by (simp add: str_def py_upper_def ch_upper_def ascii_lower_def)
  have kw: "str ''EXPLAIN'' \<in> set sql_keywords" by (simp add: sql_keywords_def)
  have cons: "str ''EXPLAIN '' = 69 # str ''XPLAIN ''" "str ''EXPLAIN'' = 69 # str ''XPLAIN''" by (simp_all add: str_def)
  have e: "\<not> is_space 69" "\<not> starts_number u (69 # r)" "is_word_start u 69" for r
    by (simp_all add: is_space_def starts_number_def is_word_start_def ch_isdigit_def ch_isalpha_def ascii_upper_def ascii_lower_def ascii_digit_def)
  have "lex u (69 # (str ''XPLAIN '' @ s)) 1 1
      = rbind (lex u (str '' '' @ s) 1 (1 + length (69 # str ''XPLAIN''))) (\<lambda>ts. Inr (word_token u (69 # str ''XPLAIN'') 1 1 # ts))"
    unfolding lex.simps(2) Let_def tw dw using e by simp
  then have "lex u (str ''EXPLAIN '' @ s) 1 1
      = rbind (lex u (str '' '' @ s) 1 (1 + length (69 # str ''XPLAIN''))) (\<lambda>ts. Inr (mk_token KEYWORD (str ''EXPLAIN'') 1 1 # ts))"
    using up kw by (simp add: cons word_token_def)
  then show ?thesis by blast
qed

lemma parse_explain:
  assumes "parse u (str ''EXPLAIN '' @ s) = Inr st"
  obtains i where "st = Explain i"
proof -
  let ?k = "mk_token KEYWORD (str ''EXPLAIN'') 1 1"
  obtain ts where p: "fst (sbind (parse_statement u) (\<lambda>s. sbind (expect EOF None) (\<lambda>_. sret s)) (parser_input (?k # ts))) = Inr st"
  proof -
    obtain c where "lex u (str ''EXPLAIN '' @ s) 1 1 = rbind (lex u (str '' '' @ s) 1 c) (\<lambda>ts. Inr (?k # ts))"
      using lex_explain by blast
    then show ?thesis
      using that assms unfolding parse_def tokenize_def
      by (cases "lex u (str '' '' @ s) 1 c") (simp_all del: One_nat_def)
  qed
  obtain r where r: "parser_input (?k # ts) = ?k # r"
    by (simp add: parser_input_def is_semicolon_def is_punct_token_def Let_def)
  obtain r' where "parse_statement u (?k # r) = (Inr st, r')"
    using p unfolding r by (auto simp: sbind_def split: prod.splits sum.splits)
  then have "statement u (Suc (length (?k # r))) (?k # r) = (Inr st, r')" by (simp add: parse_statement_def del: statement.simps)
  moreover have "py_upper u (str ''EXPLAIN'') = str ''EXPLAIN''"
    by (simp add: str_def py_upper_def ch_upper_def ascii_lower_def)
  then have "statement u (Suc (length (?k # r))) (?k # r)
      = sbind advance (\<lambda>_. sbind (statement u (length (?k # r))) (\<lambda>s. sret (Explain s))) (?k # r)"
    by (simp add: peek_def first_token_def)
  ultimately have "sbind advance (\<lambda>_. sbind (statement u (length (?k # r))) (\<lambda>s. sret (Explain s))) (?k # r) = (Inr st, r')"
    by (simp only:)
  then show ?thesis by (elim sbind_InrE) (auto intro: that)
qed

text \<open>\<open>keeps_db db m\<close>: the command leaves the database as it was, whatever it prints.\<close>

abbreviation keeps_db :: "database \<Rightarrow> 'a shx \<Rightarrow> bool" where
  "keeps_db db \<equiv> keeps (\<lambda>sh. sh_db sh = db)"

named_theorems keeps_db

lemma keeps_if [keeps_db]: "keeps P m \<Longrightarrow> keeps P n \<Longrightarrow> keeps P (if b then m else n)"
  by simp

lemma keeps_option [keeps_db]:
  "keeps P m \<Longrightarrow> (\<And>x. keeps P (f x)) \<Longrightarrow> keeps P (case x of None \<Rightarrow> m | Some x \<Rightarrow> f x)"
  by (cases x) simp_all

lemma keeps_list [keeps_db]:
  "keeps P m \<Longrightarrow> (\<And>x xs. keeps P (f x xs)) \<Longrightarrow> keeps P (case xs of [] \<Rightarrow> m | x # xs \<Rightarrow> f x xs)"
  by (cases xs) simp_all

lemma keeps_sum [keeps_db]:
  "(\<And>e. keeps P (g e)) \<Longrightarrow> (\<And>x. keeps P (f x)) \<Longrightarrow> keeps P (case x of Inl e \<Rightarrow> g e | Inr x \<Rightarrow> f x)"
  by (cases x) simp_all

lemma keeps_catch [keeps_db]: "keeps P m \<Longrightarrow> (\<And>e. keeps P (h e)) \<Longrightarrow> keeps P (catch c m h)"
  by (auto simp: keeps_def catch_def split: prod.splits sum.splits)

lemmas [keeps_db] = keeps_pure keeps_sbind keeps_sfor

lemma keeps_db_basic [keeps_db]:
  "keeps_db db (print_out s)" "keeps_db db (print_err s)" "keeps_db db (print_sys s)" "keeps_db db (set_cfg f)"
  "keeps_db db (print_lines ls)" "keeps_db db (ensure_pygments tm)"
proof -
  show out: "keeps_db db (print_out s)" for s by (simp add: keeps_def print_out_def)
  then show "keeps_db db (print_lines ls)" unfolding print_lines_def by (rule keeps_sfor)
qed (simp_all add: keeps_def print_err_def print_sys_def set_cfg_def ensure_pygments_def)

lemma in_executor_snd: "(\<And>e. snd (m e) = e) \<Longrightarrow> snd (in_executor m db) = db"
  by (cases "db_executor db") (auto simp: in_executor_def split: prod.splits, metis database.surjective database.update_convs(1) snd_conv)

lemma keeps_in_db [keeps_db]: "(\<And>db. snd (m db) = db) \<Longrightarrow> keeps_db db (in_db m)"
  by (auto simp: keeps_def in_db_def split: prod.splits) (metis snd_conv)

lemma keeps_db_explain [keeps_db]:
  "keeps_db db (in_db (in_executor (execute_sql u (str ''EXPLAIN '' @ s))))"
proof (intro keeps_in_db in_executor_snd)
  fix e
  show "snd (execute_sql u (str ''EXPLAIN '' @ s) e) = e"
  proof (cases "parse u (str ''EXPLAIN '' @ s)")
    case (Inr st)
    then obtain i where "st = Explain i" by (rule parse_explain)
    then show ?thesis using Inr queries_change_nothing by (simp add: execute_sql_def)
  qed (simp add: execute_sql_def)
qed

lemma keeps_db_handlers [keeps_db]:
  "keeps_db db (handle_schema tm args)" "keeps_db db (handle_color tm args)" "keeps_db db (handle_mode tm args)"
  "keeps_db db (handle_timer tm args)" "keeps_db db (handle_width tm args)" "keeps_db db (handle_nullvalue tm args)"
  "keeps_db db (handle_explain tm args)"
proof -
  show c: "keeps_db db (handle_color tm args)" for args unfolding handle_color_def Let_def by (intro keeps_db)
  show "keeps_db db (handle_mode tm args)" unfolding handle_mode_def Let_def by (intro keeps_db c)
  show "keeps_db db (handle_schema tm args)" unfolding handle_schema_def by (intro keeps_db)
  show "keeps_db db (handle_timer tm args)" unfolding handle_timer_def Let_def by (intro keeps_db)
  show "keeps_db db (handle_width tm args)" unfolding handle_width_def by (intro keeps_db)
  show "keeps_db db (handle_nullvalue tm args)" unfolding handle_nullvalue_def by (intro keeps_db)
  show "keeps_db db (handle_explain tm args)" unfolding handle_explain_def by (intro keeps_db)
qed

text \<open>
  C29: No command that starts with a dot changes the database: neither the settings of the
  shell nor \<open>.tables\<close>, \<open>.schema\<close> and \<open>.explain\<close>, whatever the rest of the line is, and
  whether the command succeeds, prints an error or raises.
\<close>

theorem dot_commands_keep_database:
  "sh_db (snd (handle_dot_command tm line sh)) = sh_db sh"
proof -
  have "keeps_db (sh_db sh) (handle_dot_command tm line)"
    unfolding handle_dot_command_def Let_def
    by (intro keeps_list keeps_if keeps_sbind keeps_option keeps_pure keeps_db_basic keeps_db_handlers)
  then show ?thesis by (simp add: keeps_def)
qed

section \<open>Scripts\<close>

text \<open>
  A statement of a script: lines that are not blank and do not start with a dot, of which
  exactly the last ends with a semicolon.
\<close>

definition plain_line :: "pystr \<Rightarrow> bool" where
  "plain_line raw \<longleftrightarrow> py_strip raw \<noteq> [] \<and> hd (py_strip raw) \<noteq> 46"

definition script_statement :: "pystr list \<Rightarrow> bool" where
  "script_statement ls \<longleftrightarrow>
     ls \<noteq> [] \<and> list_all plain_line ls \<and> last (py_strip (last ls)) = 59
     \<and> list_all (\<lambda>l. last (py_strip l) \<noteq> 59) (butlast ls)"

definition statement_text :: "pystr list \<Rightarrow> pystr" where
  "statement_text ls = py_strip (join (str '' '') (map rstrip_newline ls))"

definition is_parse_error :: "py_error \<Rightarrow> bool" where
  "is_parse_error e \<longleftrightarrow> (case e of ParseError _ _ _ \<Rightarrow> True | _ \<Rightarrow> False)"

text \<open>
  What a script does: its statements one after the other, each on the database the one before
  left. An exception of the engine is printed on the error stream, and the next statement is
  run; any other exception ends the script. The exit status is 1 when an exception of the
  engine occurred that is no parse error.
\<close>

fun script_result :: "terminal \<Rightarrow> pystr list \<Rightarrow> bool \<Rightarrow> nat shx" where
  "script_result tm [] failed sh = (Inr (if failed then 1 else 0), sh)"
| "script_result tm (s # ss) failed sh =
     (case execute_one tm default_config s sh of
        (Inr _, sh') \<Rightarrow> script_result tm ss failed sh'
      | (Inl e, sh') \<Rightarrow>
          if is_tinydb_error e then
            script_result tm ss (failed \<or> \<not> is_parse_error e) (sh'\<lparr>sh_err := sh_err sh' @ format tm e @ [10]\<rparr>)
          else (Inl e, sh'))"

lemma py_strip_Nil: "py_strip s = [] \<longleftrightarrow> (\<forall>c \<in> set s. py_isspace c)"
proof -
  have keep: "py_isspace c \<or> c \<in> set (dropWhile py_isspace s)" if "c \<in> set s" for c s
    using that by (induction s) auto
  have "py_strip s = [] \<longleftrightarrow> (\<forall>c \<in> set (dropWhile py_isspace s). py_isspace c)"
    unfolding py_strip_def rev_is_Nil_conv dropWhile_eq_Nil_conv set_rev ..
  then show ?thesis using keep [of _ s] set_dropWhileD [of _ py_isspace s] by blast
qed

lemma set_join: "s \<in> set ss \<Longrightarrow> set s \<subseteq> set (join sep ss)"
  by (induction sep ss rule: join.induct) auto

lemma strip_semicolon: "py_strip l \<noteq> [] \<Longrightarrow> last (py_strip l) = 59 \<Longrightarrow> 59 \<in> set l"
proof -
  assume "py_strip l \<noteq> []" "last (py_strip l) = 59"
  then have "59 \<in> set (py_strip l)" using last_in_set by fastforce
  then show ?thesis by (auto simp: py_strip_def dest!: set_dropWhileD)
qed

lemma rstrip_keeps: "c \<noteq> 10 \<Longrightarrow> c \<in> set s \<Longrightarrow> c \<in> set (rstrip_newline s)"
proof -
  assume c: "c \<noteq> 10" "c \<in> set s"
  then have "c \<in> set (takeWhile (\<lambda>c. c = 10) (rev s)) \<or> c \<in> set (dropWhile (\<lambda>c. c = 10) (rev s))"
    by (metis Un_iff set_append set_rev takeWhile_dropWhile_id)
  then show ?thesis using c(1) by (auto simp: rstrip_newline_def dest: set_takeWhileD)
qed

lemma batch_collects:
  assumes "list_all plain_line ls" and "list_all (\<lambda>l. last (py_strip l) \<noteq> 59) ls"
  shows "batch_loop tm (ls @ rest) buffer has_error = batch_loop tm rest (buffer @ map rstrip_newline ls) has_error"
  using assms by (induction ls arbitrary: buffer) (auto simp: plain_line_def Let_def)

text \<open>The last line of a statement, and its text.\<close>

lemma script_statementE:
  assumes "script_statement ls"
  obtains front l where "ls = front @ [l]" and "list_all plain_line front" and "list_all (\<lambda>l. last (py_strip l) \<noteq> 59) front"
    and "plain_line l" and "last (py_strip l) = 59"
    and "statement_text ls = py_strip (join (str '' '') (map rstrip_newline front @ [rstrip_newline l]))" and "statement_text ls \<noteq> []"
proof -
  obtain front l where ls: "ls = front @ [l]" using assms by (cases ls rule: rev_cases) (auto simp: script_statement_def)
  have l: "list_all plain_line front" "list_all (\<lambda>l. last (py_strip l) \<noteq> 59) front" "plain_line l" "last (py_strip l) = 59"
    using assms by (simp_all add: ls script_statement_def)
  have joined: "statement_text ls = py_strip (join (str '' '') (map rstrip_newline front @ [rstrip_newline l]))"
    by (simp add: ls statement_text_def)
  have "59 \<in> set (rstrip_newline l)" using strip_semicolon [OF _ l(4)] l(3) by (intro rstrip_keeps) (simp_all add: plain_line_def)
  then have "59 \<in> set (join (str '' '') (map rstrip_newline front @ [rstrip_newline l]))"
    using set_join [of "rstrip_newline l" "map rstrip_newline front @ [rstrip_newline l]"] by auto
  then have "statement_text ls \<noteq> []" unfolding joined py_strip_Nil by (auto simp: py_isspace_def intro!: bexI [of _ 59])
  then show ?thesis using that ls l joined by blast
qed

lemma batch_one:
  assumes "script_statement ls"
  shows "batch_loop tm (ls @ rest) [] has_error = sbind (batch_statement tm (statement_text ls) has_error) (batch_loop tm rest [])"
proof -
  obtain front l where ls: "ls = front @ [l]" and front: "list_all plain_line front" "list_all (\<lambda>l. last (py_strip l) \<noteq> 59) front"
    and l: "plain_line l" "last (py_strip l) = 59"
    and joined: "statement_text ls = py_strip (join (str '' '') (map rstrip_newline front @ [rstrip_newline l]))" "statement_text ls \<noteq> []"
    by (rule script_statementE [OF assms])
  have "batch_loop tm (ls @ rest) [] has_error = batch_loop tm (l # rest) (map rstrip_newline front) has_error"
    using batch_collects [OF front, of tm "l # rest" "[]" has_error] by (simp add: ls)
  then show ?thesis using l joined by (simp add: plain_line_def Let_def)
qed

lemma batch_statement_cases:
  "sbind (batch_statement tm sql failed) k sh =
     (case execute_one tm default_config sql sh of
        (Inr _, sh') \<Rightarrow> k failed sh'
      | (Inl e, sh') \<Rightarrow>
          if is_tinydb_error e then k (failed \<or> \<not> is_parse_error e) (sh'\<lparr>sh_err := sh_err sh' @ format tm e @ [10]\<rparr>)
          else (Inl e, sh'))"
  by (auto simp: batch_statement_def catch_def sbind_def print_err_def is_parse_error_def split: prod.splits sum.splits py_error.splits)

text \<open>
  C28: A script whose lines are the lines of statements runs these statements in their
  order, each with its lines joined by a blank. What a statement prints comes in that order; an
  exception of the engine is printed on the error stream and does not keep the following
  statements from being run; the exit status is 1 exactly when one of them raised an exception of
  the engine that is no parse error. An exception that is none of the engine's ends the script.
\<close>

theorem script_runs_statements:
  assumes "list_all script_statement chunks"
  shows "run_batch tm (concat chunks) sh = script_result tm (map statement_text chunks) False sh"
proof -
  let ?status = "\<lambda>has_error. sret (if has_error then 1 else 0)"
  have "sbind (batch_loop tm (concat chunks) [] failed) ?status sh
      = script_result tm (map statement_text chunks) failed sh" for failed
    using assms
  proof (induction chunks arbitrary: failed sh)
    case (Cons ls chunks)
    then have "batch_loop tm (concat (ls # chunks)) [] failed
        = sbind (batch_statement tm (statement_text ls) failed) (batch_loop tm (concat chunks) [])"
      using batch_one [of ls tm "concat chunks" failed] by simp
    then have "sbind (batch_loop tm (concat (ls # chunks)) [] failed) ?status sh
        = sbind (batch_statement tm (statement_text ls) failed) (\<lambda>f. sbind (batch_loop tm (concat chunks) [] f) ?status) sh"
      by (simp only: sbind_assoc)
    also have "sbind (batch_loop tm (concat chunks) [] f) ?status s = script_result tm (map statement_text chunks) f s" for f s
      by (rule Cons.IH) (use Cons.prems in simp)
    then have "sbind (batch_statement tm (statement_text ls) failed) (\<lambda>f. sbind (batch_loop tm (concat chunks) [] f) ?status) sh
        = script_result tm (map statement_text (ls # chunks)) failed sh"
      by (simp only: batch_statement_cases script_result.simps list.map)
    finally show ?case .
  qed simp
  then show ?thesis by (simp add: run_batch_def)
qed

text \<open>The rest of a script behind its last semicolon is dropped without a message.\<close>

theorem unfinished_statement_dropped:
  assumes "list_all plain_line ls" and "list_all (\<lambda>l. last (py_strip l) \<noteq> 59) ls"
  shows "run_batch tm ls sh = (Inr 0, sh)"
  using batch_collects [OF assms, of tm "[]" "[]" False] by (simp add: run_batch_def sbind_def sret_def)

section \<open>Errors of the engine\<close>

text \<open>\<open>escapes_ok m\<close>: what \<open>m\<close> raises is no exception of the engine.\<close>

definition escapes_ok :: "'a shx \<Rightarrow> bool" where
  "escapes_ok m \<longleftrightarrow> (\<forall>sh e sh'. m sh = (Inl e, sh') \<longrightarrow> \<not> is_tinydb_error e)"

named_theorems escapes

lemma escapes_pure [escapes]: "escapes_ok (sret x)" "escapes_ok sget" "escapes_ok (smodify f)"
  by (simp_all add: escapes_ok_def)

lemma escapes_sraise: "\<not> is_tinydb_error e \<Longrightarrow> escapes_ok (sraise e)"
  by (simp add: escapes_ok_def)

lemma escapes_sbind [escapes]: "escapes_ok m \<Longrightarrow> (\<And>x. escapes_ok (f x)) \<Longrightarrow> escapes_ok (sbind m f)"
  unfolding escapes_ok_def
proof (intro allI impI)
  fix sh e sh'
  assume m: "\<forall>sh e sh'. m sh = (Inl e, sh') \<longrightarrow> \<not> is_tinydb_error e"
    and f: "\<And>x. \<forall>sh e sh'. f x sh = (Inl e, sh') \<longrightarrow> \<not> is_tinydb_error e"
  assume "sbind m f sh = (Inl e, sh')"
  then show "\<not> is_tinydb_error e"
  proof (rule sbind_cases)
    fix x s' assume "f x s' = (Inl e, sh')"
    then show ?thesis using f [of x] by blast
  qed (use m in auto)
qed

lemma escapes_sfor [escapes]: "(\<And>x. escapes_ok (f x)) \<Longrightarrow> escapes_ok (sfor xs f)"
  by (induction xs) (auto intro: escapes)

lemma escapes_if [escapes]: "escapes_ok m \<Longrightarrow> escapes_ok n \<Longrightarrow> escapes_ok (if b then m else n)"
  by simp

lemma escapes_option [escapes]:
  "escapes_ok m \<Longrightarrow> (\<And>x. escapes_ok (f x)) \<Longrightarrow> escapes_ok (case x of None \<Rightarrow> m | Some x \<Rightarrow> f x)"
  by (cases x) simp_all

lemma escapes_list [escapes]:
  "escapes_ok m \<Longrightarrow> (\<And>x xs. escapes_ok (f x xs)) \<Longrightarrow> escapes_ok (case xs of [] \<Rightarrow> m | x # xs \<Rightarrow> f x xs)"
  by (cases xs) simp_all

text \<open>An \<open>except\<close> clause for the errors of the engine, and possibly more.\<close>

lemma escapes_catch [escapes]:
  assumes "\<And>e. escapes_ok (h e)"
  shows "escapes_ok (catch is_tinydb_error m h)"
    and "escapes_ok (catch (\<lambda>e. c e \<or> is_tinydb_error e) m h)"
  using assms unfolding escapes_ok_def catch_def by (auto split: prod.splits sum.splits if_splits)

lemma escapes_basic [escapes]:
  "escapes_ok (print_out s)" "escapes_ok (print_err s)" "escapes_ok (print_sys s)" "escapes_ok (set_cfg f)"
  "escapes_ok (print_lines ls)" "escapes_ok (ensure_pygments tm)"
  unfolding print_out_def print_err_def print_sys_def set_cfg_def print_lines_def ensure_pygments_def
  by (intro escapes)+

text \<open>Python's own \<open>int\<close> raises no exception of the engine.\<close>

definition plain_int :: "terminal \<Rightarrow> bool" where
  "plain_int tm \<longleftrightarrow> (\<forall>s e. rt_int (tm_rt tm) s = Inl e \<longrightarrow> \<not> is_tinydb_error e)"

lemma escapes_handlers:
  assumes "plain_int tm"
  shows "escapes_ok (handle_dot_command tm line)"
proof -
  have c: "escapes_ok (handle_color tm args)" for args unfolding handle_color_def Let_def by (intro escapes)
  have m: "escapes_ok (handle_mode tm args)" for args unfolding handle_mode_def Let_def by (intro escapes c)
  have s: "escapes_ok (handle_schema tm args)" for args unfolding handle_schema_def by (intro escapes)
  have t: "escapes_ok (handle_timer tm args)" for args unfolding handle_timer_def Let_def by (intro escapes)
  have n: "escapes_ok (handle_nullvalue tm args)" for args unfolding handle_nullvalue_def by (intro escapes)
  have x: "escapes_ok (handle_explain tm args)" for args unfolding handle_explain_def by (intro escapes)
  have "\<not> is_tinydb_error e" if "py_int (tm_rt tm) a = Inl e" for a e
    using that assms by (auto simp: py_int_def plain_int_def split: if_splits option.splits)
  then have "escapes_ok (case py_int (tm_rt tm) a of
       Inl e \<Rightarrow> if e = ValueError then print_err (f e) else sraise e | Inr n \<Rightarrow> g n)" if "\<And>n. escapes_ok (g n)" for a f g
    using that by (cases "py_int (tm_rt tm) a") (auto intro: escapes escapes_sraise)
  note int = this
  have w: "escapes_ok (handle_width tm args)" for args
    unfolding handle_width_def
  proof (intro escapes_list)
    fix a show "escapes_ok (case py_int (tm_rt tm) a of
         Inl e \<Rightarrow> if e = ValueError then print_err (str ''invalid width: '' @ repr_str tm a) else sraise e
       | Inr n \<Rightarrow> if n < 1 then print_err (str ''width must be >= 1'')
           else sbind (set_cfg (\<lambda>c. c\<lparr>cf_width := nat n\<rparr>)) (\<lambda>_. print_out (str ''width: '' @ int_text n)))"
      by (rule int) (intro escapes)
  qed (intro escapes)
  have i: "escapes_ok (sraise IndexError :: bool shx)" by (simp add: escapes_sraise)
  show ?thesis
    unfolding handle_dot_command_def Let_def
    by (intro escapes_list i escapes_if escapes_sbind escapes_option escapes_pure escapes_basic c m s t n x w)
qed

lemma escapes_batch_loop: "escapes_ok (batch_loop tm lines buffer has_error)"
proof (induction tm lines buffer has_error rule: batch_loop.induct)
  case (2 tm raw lines buffer has_error)
  have "escapes_ok (batch_statement tm sql b)" "escapes_ok (batch_dot tm parts b)" for sql parts b
    unfolding batch_statement_def batch_dot_def Let_def by (intro escapes)+
  then show ?case using 2 by (simp add: Let_def escapes_pure escapes_sbind del: sret_def)
qed (simp only: batch_loop.simps escapes_pure)

lemma escapes_repl_loop:
  assumes "plain_int tm"
  shows "escapes_ok (repl_loop tm lines buffer)"
proof (induction lines arbitrary: buffer)
  have ask: "escapes_ok (ask b)" for b unfolding ask_def maybe_warn_pygments_def by (intro escapes)
  {
    case Nil
    show ?case using ask by (simp add: escapes_sbind escapes_basic)
  next
    case (Cons raw lines)
    have "escapes_ok (catch is_tinydb_error (execute_one tm cfg sql) (\<lambda>exc. print_err (format tm exc)))" for cfg sql
      by (intro escapes)
    then show ?case using Cons ask escapes_handlers [OF assms]
      by (auto simp: Let_def simp del: sbind_assoc intro!: escapes_sbind escapes_pure)
  }
qed

section \<open>A dialog\<close>

text \<open>
  The input of the interactive mode: statements over one or more lines, and commands. Each
  line is asked for, with another prompt inside of a statement.
\<close>

datatype dialog_item = Statement "pystr list" | Command pystr

fun item_lines :: "dialog_item \<Rightarrow> pystr list" where
  "item_lines (Statement ls) = ls"
| "item_lines (Command l) = [l]"

fun item_ok :: "dialog_item \<Rightarrow> bool" where
  "item_ok (Statement ls) = script_statement ls"
| "item_ok (Command l) = (py_strip l \<noteq> [] \<and> hd (py_strip l) = 46)"

fun prompts :: "bool \<Rightarrow> nat \<Rightarrow> bool list" where
  "prompts b 0 = []"
| "prompts b (Suc n) = b # prompts True n"

text \<open>
  What the dialog does: a statement is run with the settings the dialog has reached; an exception
  of the engine is printed on the error stream, and the dialog goes on with the next item; any
  other exception ends it, as do the commands to quit and the end of the input.
\<close>

fun dialog :: "terminal \<Rightarrow> dialog_item list \<Rightarrow> unit shx" where
  "dialog tm [] = sbind (ask False) (\<lambda>_. print_out [])"
| "dialog tm (Command l # items) =
     sbind (ask False) (\<lambda>_. sbind (handle_dot_command tm (py_strip l)) (\<lambda>stop. if stop then sret () else dialog tm items))"
| "dialog tm (Statement ls # items) =
     sbind (sfor (prompts False (length ls)) ask) (\<lambda>_ sh.
       case execute_one tm (sh_cfg sh) (statement_text ls) sh of
         (Inr _, sh') \<Rightarrow> dialog tm items sh'
       | (Inl e, sh') \<Rightarrow>
           if is_tinydb_error e then dialog tm items (sh'\<lparr>sh_err := sh_err sh' @ format tm e @ [10]\<rparr>)
           else (Inl e, sh'))"

lemma strip_rstrip: "py_strip (rstrip_newline s) = py_strip s"
proof -
  obtain r n where s: "s = r @ n" and r: "rstrip_newline s = r" and n: "\<forall>c \<in> set n. c = 10"
  proof (rule that)
    show "s = rstrip_newline s @ rev (takeWhile (\<lambda>c. c = 10) (rev s))"
      by (metis rev_append rev_rev_ident rstrip_newline_def takeWhile_dropWhile_id)
  qed (auto dest: set_takeWhileD)
  have sp: "\<forall>c \<in> set n. py_isspace c" using n by (auto simp: py_isspace_def)
  have "py_strip (r @ n) = py_strip r"
  proof (cases "\<forall>c \<in> set r. py_isspace c")
    case True
    then show ?thesis using sp py_strip_Nil [of r] py_strip_Nil [of "r @ n"] by auto
  next
    case False
    then have "dropWhile py_isspace (r @ n) = dropWhile py_isspace r @ n" by auto
    moreover have "dropWhile py_isspace (rev n @ xs) = dropWhile py_isspace xs" for xs
      by (rule dropWhile_append2) (use sp in auto)
    ultimately show ?thesis by (simp add: py_strip_def)
  qed
  then show ?thesis using s r by simp
qed

lemma sfor_snoc: "sfor (xs @ [x]) f = sbind (sfor xs f) (\<lambda>_. f x)"
  by (induction xs) (auto simp: fun_eq_iff sbind_def split: prod.split sum.split)

lemma repl_collects:
  assumes "list_all plain_line ls" and "list_all (\<lambda>l. last (py_strip l) \<noteq> 59) ls"
  shows "repl_loop tm (ls @ rest) buffer
    = sbind (sfor (prompts (buffer \<noteq> []) (length ls)) ask) (\<lambda>_. repl_loop tm rest (buffer @ map rstrip_newline ls))"
  using assms
  by (induction ls arbitrary: buffer) (auto simp: plain_line_def Let_def strip_rstrip simp del: repl_loop.simps(1))

lemma repl_one:
  assumes "script_statement ls"
  shows "repl_loop tm (ls @ rest) []
    = sbind (sfor (prompts False (length ls)) ask) (\<lambda>_. sbind (sbind sget (\<lambda>sh.
        catch is_tinydb_error (execute_one tm (sh_cfg sh) (statement_text ls)) (\<lambda>exc. print_err (format tm exc)))) (\<lambda>_.
      repl_loop tm rest []))"
proof -
  obtain front l where ls: "ls = front @ [l]" and front: "list_all plain_line front" "list_all (\<lambda>l. last (py_strip l) \<noteq> 59) front"
    and l: "plain_line l" "last (py_strip l) = 59"
    and joined: "statement_text ls = py_strip (join (str '' '') (map rstrip_newline front @ [rstrip_newline l]))" "statement_text ls \<noteq> []"
    by (rule script_statementE [OF assms])
  let ?run = "sbind sget (\<lambda>sh. catch is_tinydb_error (execute_one tm (sh_cfg sh) (statement_text ls)) (\<lambda>exc. print_err (format tm exc)))"
  have "repl_loop tm (l # rest) (map rstrip_newline front)
      = sbind (ask (front \<noteq> [])) (\<lambda>_. sbind ?run (\<lambda>_. repl_loop tm rest []))"
    using l joined by (simp add: plain_line_def Let_def strip_rstrip del: sbind_assoc)
  then have "repl_loop tm (ls @ rest) []
      = sbind (sfor (prompts False (length front)) ask) (\<lambda>_. sbind (ask (front \<noteq> [])) (\<lambda>_. sbind ?run (\<lambda>_. repl_loop tm rest [])))"
    using repl_collects [OF front, of tm "l # rest" "[]"] by (simp add: ls)
  moreover have "prompts b (Suc n) = prompts b n @ [if n = 0 then b else True]" for b n
    by (induction n arbitrary: b) auto
  then have "prompts False (length ls) = prompts False (length front) @ [front \<noteq> []]" by (simp add: ls)
  ultimately show ?thesis by (simp only: sfor_snoc sbind_assoc)
qed

text \<open>
  C27: In the interactive mode every exception of the engine that a statement raises is printed
  on the error stream, and the dialog goes on with the next item on the database the statement
  left: an input of statements over any number of lines and of commands in any order is
  processed to its end, to a command to quit or to an exception that is none of the engine's.
  In both modes, on whatever lines, no exception of the engine leaves the session, provided that
  Python's own \<open>int\<close> raises none.
\<close>

theorem session_survives_engine_errors:
  assumes "plain_int tm" and "list_all item_ok items"
  shows "repl_loop tm (concat (map item_lines items)) [] sh = dialog tm items sh
    \<and> (main_session tm interactive color lines sh = (Inl e, sh') \<longrightarrow> \<not> is_tinydb_error e)"
proof
  show "repl_loop tm (concat (map item_lines items)) [] sh = dialog tm items sh"
    using assms(2)
  proof (induction items arbitrary: sh)
    case (Cons item items)
    have IH: "repl_loop tm (concat (map item_lines items)) [] s = dialog tm items s" for s
      by (rule Cons.IH) (use Cons.prems in simp)
    then have IH: "repl_loop tm (concat (map item_lines items)) [] = dialog tm items" by blast
    show ?case
    proof (cases item)
      case (Statement ls)
      have "script_statement ls" using Cons.prems Statement by simp
      from repl_one [OF this, of tm "concat (map item_lines items)"]
      have "repl_loop tm (concat (map item_lines (item # items))) [] = sbind (sfor (prompts False (length ls)) ask) (\<lambda>_.
        sbind (sbind sget (\<lambda>sh. catch is_tinydb_error (execute_one tm (sh_cfg sh) (statement_text ls)) (\<lambda>exc. print_err (format tm exc))))
          (\<lambda>_. dialog tm items))" by (simp add: Statement IH)
      also have "\<dots> = dialog tm (item # items)"
        unfolding Statement dialog.simps
        by (intro arg_cong [where f = "sbind _"] ext)
          (auto simp: sbind_def sget_def catch_def print_err_def split: prod.split sum.split)
      finally show ?thesis by simp
    next
      case (Command l)
      then show ?thesis using Cons.prems by (simp add: Let_def strip_rstrip) (unfold IH, rule refl)
    qed
  qed simp
  have "escapes_ok (run_repl tm color lines)"
    unfolding run_repl_def resolve_initial_color_def maybe_warn_readline_def
    by (intro escapes escapes_repl_loop assms(1)) (auto intro: escapes split: color_arg.split)
  then have "escapes_ok (if interactive then sbind (run_repl tm color lines) (\<lambda>_. sret 0) else run_batch tm lines)"
    unfolding run_batch_def by (intro escapes escapes_batch_loop)
  then have "main_session tm interactive color lines sh = (Inl e, sh') \<Longrightarrow> \<not> is_tinydb_error e"
    by (auto simp: main_session_def escapes_ok_def split: prod.splits)
  then show "main_session tm interactive color lines sh = (Inl e, sh') \<longrightarrow> \<not> is_tinydb_error e" by (rule impI)
qed

text \<open>A script on a closed database: the RuntimeError escapes.\<close>

definition closed_shell :: shell where
  "closed_shell =
     \<lparr>sh_db = \<lparr>db_executor = None, db_closed = True, db_file = [], db_log = []\<rparr>,
      sh_out = [], sh_err = [], sh_sys = [], sh_cfg = default_config, sh_pygments = False, sh_warned = False, sh_ticks = 0\<rparr>"

text \<open>A shell on an open database, in which the text @; is a parse error.\<close>

definition demo_shell :: shell where
  "demo_shell = closed_shell\<lparr>sh_db := demo_db, sh_warned := True\<rparr>"

definition demo_error :: py_error where
  "demo_error = ParseError (UnexpectedCharacter 64) 1 1"

lemma demo_statement_fails:
  assumes "sh_db sh = demo_db"
  shows "execute_one plain_terminal cfg (statement_text [str ''@;'']) sh = (Inl demo_error, sh)"
proof -
  have "statement_text [str ''@;''] = str ''@;''"
    by (simp add: statement_text_def py_strip_def py_isspace_def rstrip_newline_def str_def)
  moreover have "parse ascii_runtime (str ''@;'') = Inl demo_error"
    by (simp add: parse_def tokenize_def str_def demo_error_def lex.simps is_space_def starts_number_def is_word_start_def
        ch_isdigit_def ch_isalpha_def ascii_upper_def ascii_lower_def ascii_digit_def match_operator_def operators_def
        starts_with_def is_punct_def ascii_runtime_def)
  ultimately show ?thesis
    using assms by (simp add: execute_one_def in_db_def execute_def check_open_def demo_db_def plain_terminal_def)
qed

text \<open>A parse error is printed, the script goes on, and the exit status stays 0.\<close>

lemma script_runs_statements_witness:
  "run_batch plain_terminal [str ''@;'', str ''@;''] demo_shell
    = (Inr 0, demo_shell\<lparr>sh_err := format plain_terminal demo_error @ [10] @ format plain_terminal demo_error @ [10]\<rparr>)"
proof -
  have "list_all script_statement [[str ''@;''], [str ''@;'']]"
    by (simp add: script_statement_def plain_line_def py_strip_def py_isspace_def str_def)
  note r = script_runs_statements [OF this, of plain_terminal demo_shell]
  have "execute_one plain_terminal default_config (statement_text [str ''@;'']) (demo_shell\<lparr>sh_err := x\<rparr>) = (Inl demo_error, demo_shell\<lparr>sh_err := x\<rparr>)"
    "execute_one plain_terminal default_config (statement_text [str ''@;'']) demo_shell = (Inl demo_error, demo_shell)" for x
    by (rule demo_statement_fails; simp add: demo_shell_def)+
  moreover have "is_tinydb_error demo_error" "is_parse_error demo_error" "sh_err demo_shell = []"
    by (simp_all add: demo_error_def is_parse_error_def demo_shell_def closed_shell_def)
  ultimately show ?thesis using r by simp
qed

lemma session_survives_engine_errors_witness:
  "repl_loop plain_terminal [str ''@;'', str ''.quit''] [] demo_shell
    = (Inr (), demo_shell\<lparr>sh_out := str ''tinydb> tinydb> '', sh_err := format plain_terminal demo_error @ [10]\<rparr>)"
proof -
  have ok: "plain_int plain_terminal" by (auto simp: plain_int_def plain_terminal_def ascii_runtime_def)
  have "list_all item_ok [Statement [str ''@;''], Command (str ''.quit'')]"
    by (simp add: script_statement_def plain_line_def py_strip_def py_isspace_def str_def)
  note d = session_survives_engine_errors [OF ok this, of demo_shell, THEN conjunct1]
  let ?sh = "demo_shell\<lparr>sh_out := str ''tinydb> ''\<rparr>"
  let ?sh2 = "?sh\<lparr>sh_err := format plain_terminal demo_error @ [10]\<rparr>"
  have quit: "handle_dot_command plain_terminal (py_strip (str ''.quit'')) sh = (Inr True, sh)" for sh
    by (simp add: handle_dot_command_def py_split.simps py_strip_def py_isspace_def py_lower_def ascii_upper_def str_def plain_terminal_def
        ascii_runtime_def Let_def)
  have fails: "execute_one plain_terminal (sh_cfg ?sh) (statement_text [str ''@;'']) ?sh = (Inl demo_error, ?sh)"
    by (rule demo_statement_fails) (simp add: demo_shell_def)
  have "is_tinydb_error demo_error" by (simp add: demo_error_def)
  then have "dialog plain_terminal [Statement [str ''@;''], Command (str ''.quit'')] demo_shell
      = dialog plain_terminal [Command (str ''.quit'')] ?sh2"
    using fails unfolding dialog.simps(3)
    by (simp add: sbind_def ask_def maybe_warn_pygments_def prompt_def demo_shell_def closed_shell_def del: dialog.simps)
  also have "\<dots> = (Inr (), ?sh2\<lparr>sh_out := str ''tinydb> tinydb> ''\<rparr>)"
    using quit by (simp add: sbind_def ask_def maybe_warn_pygments_def prompt_def)
      (simp add: demo_shell_def closed_shell_def, simp add: str_def)
  finally show ?thesis using d by simp
qed

section \<open>What a statement prints\<close>

text \<open>The rows of a query with a column named status are not printed.\<close>

theorem status_column_hides_rows:
  assumes "execute (tm_rt tm) sql (sh_db sh) = (Inr (first # rest), db)" and "dict_has first (str ''status'')"
    and "\<not> cf_timer cfg"
  shows "execute_one tm cfg sql sh = (Inr (), sh\<lparr>sh_db := db, sh_out := sh_out sh @ str ''OK'' @ [10]\<rparr>)"
  using assms by (simp add: execute_one_def in_db_def print_out_def emit_time_def)

text \<open>In JSON mode the plan of a query with a condition raises TypeError, which the shell does not catch.\<close>

theorem json_plan_raises:
  assumes "(k, OExpr e) \<in> set row"
  shows "\<exists>err. json_obj tm (ODict row) = Inl err"
proof -
  have "\<exists>err. rmap (\<lambda>(k, v). rbind (json_obj tm v) (\<lambda>t. Inr (json_str k @ str '': '' @ t))) row = Inl err"
    using assms
  proof (induction row)
    case (Cons kv row)
    then show ?case by (cases kv; cases "json_obj tm (snd kv)") (auto split: sum.splits)
  qed simp
  then show ?thesis by auto
qed

end
