(* ===== verification/Spec2Isabelle.thy ===== *)
theory Spec2Isabelle
  imports BufferPool Lock FileLock Recovery ParserFacts Catalog Select Join UpdateFacts PlanText Database Statements BTreeDelete
    RenderFacts CliFacts
begin

text \<open>
  A verification development of tinydb, an embedded relational database written in Python
  (src/tinydb, version 0.2.0).

  \<^bold>\<open>The program.\<close> A database is a file of fixed-size pages and a log beside it. Page 0
  holds the file metadata and, behind it, the encoded catalog; every table has one heap page.
  \<open>Database\<close> (database.py) owns an \<open>Executor\<close> (executor/__init__.py). \<open>Database.execute\<close> turns
  a text into tokens (parser/lexer.py), the tokens into a statement (parser/), and the executor
  dispatches the statement to the catalog and DDL (executor/catalog.py, ddl.py), to the rows
  (executor/dml.py, select.py, aggregate.py, join.py over heap.py and row_layout.py), to the
  planner (executor/index_plan.py, plan_nodes.py) or to the transaction manager (tx.py) with its
  log (wal.py). \<open>Database.transaction\<close> runs a block of statements and writes the saved page
  bodies back when the block raises. The B+ tree (index.py), the buffer pool (storage.py) and the
  locks (lock.py) are parts of their own that the executor does not use. The shell (cli.py,
  cli_dotcommands.py, cli_renderers.py) runs statements and dot commands on a \<open>Database\<close> and
  prints the results.

  \<^bold>\<open>How the model reads.\<close> A function that may raise returns \<open>py_error + 'a\<close>; a method that changes
  objects is a state computation \<open>('s, py_error, 'a) sx\<close>, a function from the state to a result
  and the new state, so that what was changed before an exception stays changed (Prelude:
  \<open>rbind\<close>, \<open>sbind\<close>, \<open>sfor\<close>, \<open>slift\<close>). A dict is an association list with distinct keys in the
  order of insertion (\<open>dict_set\<close>, \<open>dict_get\<close>), a text a list of code points, bytes are 8-bit
  words, and a float is its 64-bit IEEE pattern. Definitions carry the names of the Python
  functions, without a leading underscore and with a suffix or prefix where a name is taken in
  HOL or occurs twice in the source.

  \<^bold>\<open>Theories, bottom up.\<close>
  \<^item> Prelude, PyErrors, PyBytes: results and state, the exceptions of tinydb/errors.py and the
    built-in ones, \<open>struct\<close> and \<open>int.to_bytes\<close> fields (locale \<open>field_codec\<close>, interpreted for the
    widths the code uses), UTF-8.
  \<^item> Types (types.py), RowLayout (row_layout.py), CatalogCodec (catalog_codec.py): values, the
    bytes of a value, a row and the catalog, with their round trips and where they fail (0 and 0.0
    are read back as NULL).
  \<^item> Storage (storage.py, \<open>FileStore\<close>): pages in the bytes of the file, allocation and the chain of
    free pages. The locale \<open>page_store\<close> states the laws of \<open>read_page\<close> and \<open>write_page\<close> that the
    clients use; it is interpreted on \<open>FileStore\<close>. \<open>wf_store\<close> is the invariant of the file.
  \<^item> BufferPool (storage.py, \<open>BufferPool\<close>, \<open>PageHandle\<close>): entries as objects with an identity; what
    a client sees (\<open>pool_view\<close>) against the pages of the store.
  \<^item> Heap (heap.py): the rows of a table on its page. \<open>heap_rel\<close> relates the page to a list of
    rows with a tombstone each, and every operation refines its counterpart on the list.
  \<^item> Wal, Tx (wal.py, tx.py, executor/checkpoint.py): frames with a computed CRC-32, the log
    file with its offset, replay; the transaction manager as a step relation with an invariant.
    Recovery: histories of transactions that log their changes, a crash, and the opening of the file
    with the log.
  \<^item> Lock (lock.py): the reader-writer lock as a step relation over the critical sections of its
    mutex, for any number of threads. FileLock (lock.py): lock objects in any processes over the
    descriptors and locks of the operating system, each system call a step, a closed number free
    for the next file; an invariant of the table and the objects for the runs in which no object
    is opened between the two closings of another one's number in the same process, and a run in
    which the second closing takes a lock away.
  \<^item> Ast, Runtime, Lexer, Parser, ParserFacts (parser/): syntax, the text functions of Python,
    the tokenizer, the recursive-descent parser, its termination and what it accepts. Unparse,
    ParseBack, StmtBack: a printer of statements, which writes parentheses only where the grammar
    needs them, and the proof that the tokenizer and the parser read its texts back.
  \<^item> Catalog (executor/catalog.py, ddl.py), PyOrder and Eval (comparison, \<open>list.sort\<close>, the
    evaluators of executor/select.py), Select (executor/select.py, aggregate.py), Join
    (executor/join.py), Dml and UpdateFacts (executor/dml.py), Plan (executor/plan_nodes.py,
    index_plan.py) and PlanText (its \<open>render_plan\<close>).
    PyOrder's locale \<open>key_order\<close> states what sorting needs of a comparison; it is interpreted
    for numbers and for texts.
  \<^item> Executor (executor/__init__.py), Database (database.py): dispatch, transactions, open and
    close. Session: texts of statements executed on an open database. Statements: what a sequence of
    arbitrary statements keeps of the file, and a transaction over such a sequence.
  \<^item> BTree, BTreeFacts, BTreeMap, BTreeRefine, BTreeInsert, BTreeDelete (index.py): the nodes in
    their pages, search, range, insertion, deletion with redistribution and merging; the sorted list
    of entries as the specification of any run of insertions and deletions.
  \<^item> Render, RenderFacts (cli_renderers.py, \<open>format\<close> of errors.py), Cli, CliFacts (cli.py,
    cli_dotcommands.py): tables, CSV, JSON lines, plans and messages; the batch and the interactive
    loop over the lines of the input, with all dot commands, against descriptions of what a script
    and a dialog do (\<open>script_result\<close>, \<open>dialog\<close>).

  \<^bold>\<open>What the properties show.\<close> Round trips: values, rows, catalog, log records, B+ tree nodes, the file
  over close and open, the whole database over close and open, CSV. Refinements: the heap against
  a list of rows, the B+ tree against a sorted map, the buffer pool against the store. Invariants:
  the well-formed file under any statements, the uniqueness of primary keys under INSERT, one active transaction, mutual exclusion of the
  two locks, the well-formedness of the pool and of the catalog. Equivalence: the hash join with the
  nested-loop join. Functional behaviour: CREATE TABLE, INSERT, UPDATE, DELETE, SELECT with WHERE, ORDER
  BY and LIMIT, GROUP BY, replay of the log, scripts. Safety: a block of statements that raises in a
  transaction leaves the rows of every table as they were; opening a file after a crash gives the pages of the committed transactions;
  dot commands leave the database alone. Errors: a corrupt frame is
  rejected; an exception of the engine is printed and ends no session. Termination: parsing. Where the code does
  not do what it means to do, a theorem that shows it is beside the component, and the texts of
  the properties name the conditions under which it does
  (for example \<open>reopen_overwrites_first_record\<close>, \<open>delete_after_growing_update\<close>,
  \<open>zero_key_inserted_twice\<close>, \<open>plan_drops_equality\<close>).

  \<^bold>\<open>Budgets.\<close> Loops of the parser carry a budget that is the number of remaining tokens plus
  one; each round consumes a token, and \<open>parse_total\<close> shows that \<open>OutOfFuel\<close>, which is no Python
  exception, is never the result. Walks of the B+ tree count the pages of the store: a longer walk
  visits a page twice and would not end in the code; for the trees of the refinement it does
  not happen. A call of the file lock runs over a list of answers of the operating
  system and is None while they last without a decision.

  \<^bold>\<open>Parameters.\<close> \<open>runtime\<close>: the Unicode tables beyond ASCII, \<open>int\<close> and \<open>float\<close> on other than
  plain digits, the digit limit of \<open>int\<close>, the accuracy of \<open>sum\<close> on floats, the order in which
  \<open>list.sort\<close> leaves keys with a NaN, \<open>repr\<close> of floats and of syntax trees. \<open>terminal\<close>: which characters are
  printable, the texts of exceptions that are not the engine's, the optional packages, the clock. The
  moments at which waits time out, the numbers of opened files, and whether a refused \<open>flock\<close> keeps the
  lock it was to convert, are choices of the environment.

  \<^bold>\<open>Not modelled.\<close> Paths, file descriptors and errors of the operating system in the page and log
  files; Python's recursion limit; \<open>argparse\<close>, the history file, highlighting (which nothing
  calls) and the test hook of the shell; re-exports, protocols and type aliases.
\<close>

end
